(* ===== verification/Prelude.thy ===== *)
theory Prelude
  imports Main "HOL-Library.Word" "HOL-Library.Char_ord"
begin

unbundle bit_operations_syntax

text \<open>
  Shared vocabulary of the development.

  \<^item> Machine integers: \<open>u8\<close> to \<open>u64\<close> are \<open>HOL-Library.Word\<close> words, so \<open>+\<close> and \<open>*\<close> wrap
    around as the release build of the Rust code does.  A byte is a HOL \<open>char\<close> (exactly the
    values 0 to 255), a byte slice a \<open>string\<close>.
  \<^item> Errors: a computation that can panic (slice index out of range, failed integer cast,
    \<open>unreachable!\<close>) returns an \<open>option\<close> whose \<open>None\<close> is the panic.
  \<^item> \<open>core::cmp::Ordering\<close> and the contract of a three-way comparison, stated once as the
    locale \<open>three_way\<close> and lifted to projections, lexicographic sequences and lists.
\<close>

type_synonym u8 = "8 word"
type_synonym u16 = "16 word"
type_synonym u32 = "32 word"
type_synonym u64 = "64 word"
type_synonym u128 = "128 word"
type_synonym byte = char
type_synonym bytes = string

named_theorems ordering_simps \<open>rewriting three-way comparison results\<close>
named_theorems slice_simps \<open>sub-slices of byte buffers\<close>

section \<open>Ordering\<close>

text \<open>\<open>core::cmp::Ordering\<close> of the Rust standard library.\<close>

datatype ordering = Less | Equal | Greater

fun reverse_ord :: "ordering \<Rightarrow> ordering" where
  "reverse_ord Less = Greater"
| "reverse_ord Equal = Equal"
| "reverse_ord Greater = Less"

text \<open>\<open>Ord::cmp\<close> on a totally ordered primitive type.\<close>

definition ord_cmp :: "'a::linorder \<Rightarrow> 'a \<Rightarrow> ordering" where
  "ord_cmp a b = (if a < b then Less else if b < a then Greater else Equal)"

text \<open>Use the second comparison where the first one is \<open>Equal\<close>.\<close>

definition then_ord :: "ordering \<Rightarrow> ordering \<Rightarrow> ordering" where
  "then_ord a b = (case a of Equal \<Rightarrow> b | _ \<Rightarrow> a)"

text \<open>\<open>Ord::cmp\<close> on slices: element by element, a proper prefix is smaller.\<close>

fun list_cmp :: "('a \<Rightarrow> 'a \<Rightarrow> ordering) \<Rightarrow> 'a list \<Rightarrow> 'a list \<Rightarrow> ordering" where
  "list_cmp cmp [] [] = Equal"
| "list_cmp cmp [] (_ # _) = Less"
| "list_cmp cmp (_ # _) [] = Greater"
| "list_cmp cmp (x # xs) (y # ys) = then_ord (cmp x y) (list_cmp cmp xs ys)"

lemma reverse_ord_eq [ordering_simps]:
  "reverse_ord a = Less \<longleftrightarrow> a = Greater"
  "reverse_ord a = Greater \<longleftrightarrow> a = Less"
  "reverse_ord a = Equal \<longleftrightarrow> a = Equal"
  by (cases a; simp)+

lemma reverse_reverse_ord [simp]: "reverse_ord (reverse_ord a) = a"
  by (cases a) auto

lemma ord_cmp_iff [simp]:
  "ord_cmp a b = Less \<longleftrightarrow> a < b"
  "ord_cmp a b = Equal \<longleftrightarrow> a = b"
  "ord_cmp a b = Greater \<longleftrightarrow> b < a"
  by (auto simp: ord_cmp_def)

lemma ord_cmp_refl [simp]: "ord_cmp a a = Equal"
  by simp

lemma then_ord_iff [ordering_simps]:
  "then_ord a b = Less \<longleftrightarrow> a = Less \<or> a = Equal \<and> b = Less"
  "then_ord a b = Equal \<longleftrightarrow> a = Equal \<and> b = Equal"
  "then_ord a b = Greater \<longleftrightarrow> a = Greater \<or> a = Equal \<and> b = Greater"
  by (auto simp: then_ord_def split: ordering.splits)

lemma then_ord_simps [simp]:
  "then_ord Equal b = b" "then_ord Less b = Less" "then_ord Greater b = Greater"
  by (auto simp: then_ord_def)

lemma reverse_then_ord: "reverse_ord (then_ord a b) = then_ord (reverse_ord a) (reverse_ord b)"
  by (cases a) auto

section \<open>The contract of a three-way comparison\<close>

text \<open>
  What the sorting and range-checking clients rely on: comparing in the other direction
  reverses the result, and "not greater" is transitive.  Two different values may compare
  \<open>Equal\<close> (a version with and without build metadata), so this is a total preorder.
\<close>

locale three_way =
  fixes cmp :: "'a \<Rightarrow> 'a \<Rightarrow> ordering"
  assumes swap: "cmp b a = reverse_ord (cmp a b)"
    and le_trans: "cmp a b \<noteq> Greater \<Longrightarrow> cmp b c \<noteq> Greater \<Longrightarrow> cmp a c \<noteq> Greater"
begin

lemma refl: "cmp a a = Equal"
  using swap [of a a] by (cases "cmp a a") auto

lemma total: "cmp a b \<noteq> Greater \<or> cmp b a \<noteq> Greater"
  using swap [of a b] by (cases "cmp a b") auto

lemma equal_sym: "cmp a b = Equal \<longleftrightarrow> cmp b a = Equal"
  using swap [of a b] by (auto simp: ordering_simps)

lemma less_iff_greater: "cmp a b = Less \<longleftrightarrow> cmp b a = Greater"
  using swap [of a b] by (auto simp: ordering_simps)

lemma equal_left:
  assumes "cmp a b = Equal"
  shows "cmp a c = cmp b c"
proof -
  have ba: "cmp b a = Equal" using assms equal_sym by blast
  have le: "cmp a c \<noteq> Greater \<longleftrightarrow> cmp b c \<noteq> Greater"
    using assms ba le_trans [of a b c] le_trans [of b a c] by auto
  have ge: "cmp c a \<noteq> Greater \<longleftrightarrow> cmp c b \<noteq> Greater"
    using assms ba le_trans [of c a b] le_trans [of c b a] by auto
  then have "cmp a c = Less \<longleftrightarrow> cmp b c = Less"
    using less_iff_greater by blast
  with le show ?thesis
    by (cases "cmp a c"; cases "cmp b c") auto
qed

lemma equal_right:
  assumes "cmp a b = Equal"
  shows "cmp c a = cmp c b"
  using equal_left [OF assms, of c] swap [of c a] swap [of c b] by simp

lemma less_trans:
  assumes "cmp a b = Less" and "cmp b c \<noteq> Greater"
  shows "cmp a c = Less"
proof -
  have "cmp a c \<noteq> Greater" using le_trans [of a b c] assms by simp
  moreover have "cmp a c \<noteq> Equal"
  proof
    assume "cmp a c = Equal"
    then have "cmp b a = cmp b c" by (rule equal_right)
    then show False using assms less_iff_greater [of a b] by simp
  qed
  ultimately show ?thesis by (cases "cmp a c") auto
qed

lemma list_cmp_swap: "list_cmp cmp ys xs = reverse_ord (list_cmp cmp xs ys)"
proof (induction xs ys rule: list_induct2')
  case (4 x xs y ys)
  then show ?case using swap [of y x] by (simp add: reverse_then_ord)
qed auto

lemma list_cmp_le_trans:
  "list_cmp cmp xs ys \<noteq> Greater \<Longrightarrow> list_cmp cmp ys zs \<noteq> Greater \<Longrightarrow> list_cmp cmp xs zs \<noteq> Greater"
proof (induction xs arbitrary: ys zs)
  case Nil
  then show ?case by (cases zs) auto
next
  case (Cons x xs)
  from Cons.prems(1) obtain y ys' where ys: "ys = y # ys'" by (cases ys) auto
  with Cons.prems(2) obtain z zs' where zs: "zs = z # zs'" by (cases zs) auto
  have "cmp x z \<noteq> Greater"
    using Cons.prems ys zs le_trans [of x y z] by (auto simp: ordering_simps)
  moreover have "list_cmp cmp xs zs' \<noteq> Greater" if eq: "cmp x z = Equal"
  proof -
    have "cmp x y = Equal"
    proof (cases "cmp x y")
      case Less
      then have "cmp x z = Less"
        using Cons.prems ys zs by (intro less_trans [of x y z]) (auto simp: ordering_simps)
      then show ?thesis using eq by simp
    qed (use Cons.prems ys in \<open>auto simp: ordering_simps\<close>)
    moreover from this have "cmp y z = Equal" using eq equal_left [of x y z] by simp
    ultimately have "list_cmp cmp xs ys' \<noteq> Greater" and "list_cmp cmp ys' zs' \<noteq> Greater"
      using Cons.prems ys zs by simp_all
    then show ?thesis by (rule Cons.IH)
  qed
  ultimately show ?case using zs by (cases "cmp x z") (auto simp: ordering_simps)
qed

end

text \<open>A comparison through a key, and the lexicographic combination of two comparisons.\<close>

lemma three_way_project:
  assumes "three_way cmp"
  shows "three_way (\<lambda>a b. cmp (f a) (f b))"
  using three_way.swap [OF assms] three_way.le_trans [OF assms] by unfold_locales blast+

lemma three_way_then:
  assumes "three_way c" and "three_way d"
  shows "three_way (\<lambda>a b. then_ord (c a b) (d a b))"
proof
  fix a b :: 'a
  show "then_ord (c b a) (d b a) = reverse_ord (then_ord (c a b) (d a b))"
    using three_way.swap [OF assms(1), of b a] three_way.swap [OF assms(2), of b a]
    by (simp add: reverse_then_ord)
next
  fix a b e :: 'a
  assume ab: "then_ord (c a b) (d a b) \<noteq> Greater" and be: "then_ord (c b e) (d b e) \<noteq> Greater"
  have ce: "c a e \<noteq> Greater"
    using ab be three_way.le_trans [OF assms(1), of a b e] by (auto simp: ordering_simps)
  have "d a e \<noteq> Greater" if eq: "c a e = Equal"
  proof -
    have "c a b \<noteq> Less"
      using be eq three_way.less_trans [OF assms(1), of a b e] by (auto simp: ordering_simps)
    then have "c a b = Equal" using ab by (cases "c a b") (auto simp: ordering_simps)
    then have "c b e = Equal" using eq three_way.equal_left [OF assms(1), of a b e] by simp
    then show ?thesis
      using ab be \<open>c a b = Equal\<close> three_way.le_trans [OF assms(2), of a b e] by auto
  qed
  then show "then_ord (c a e) (d a e) \<noteq> Greater"
    using ce by (cases "c a e") (auto simp: ordering_simps)
qed

lemma three_way_list:
  assumes "three_way cmp"
  shows "three_way (list_cmp cmp)"
  using three_way.list_cmp_swap [OF assms] three_way.list_cmp_le_trans [OF assms]
  by unfold_locales blast+

lemma three_way_ord_cmp: "three_way (ord_cmp :: 'a::linorder \<Rightarrow> 'a \<Rightarrow> ordering)"
  by unfold_locales (auto simp: ord_cmp_def split: if_splits)

interpretation prim: three_way "ord_cmp :: 'a::linorder \<Rightarrow> 'a \<Rightarrow> ordering"
  by (rule three_way_ord_cmp)

lemma list_cmp_equal_iff:
  assumes "\<And>x y. cmp x y = Equal \<longleftrightarrow> x = y"
  shows "list_cmp cmp xs ys = Equal \<longleftrightarrow> xs = ys"
  by (induction xs ys rule: list_induct2') (auto simp: ordering_simps assms)

section \<open>Byte slices with an address\<close>

text \<open>
  A Rust slice is an address and a length.  Handles store the distance between two
  addresses, so a slice of the model keeps its address next to the bytes it reads.
\<close>

record slice =
  s_addr :: u64
  s_bytes :: bytes

text \<open>\<open>&s[a..b]\<close>: panics (\<open>None\<close>) unless \<open>a \<le> b \<le> s.len()\<close>.\<close>

definition sub_slice :: "slice \<Rightarrow> nat \<Rightarrow> nat \<Rightarrow> slice option" where
  "sub_slice s a b =
     (if a \<le> b \<and> b \<le> length (s_bytes s)
      then Some \<lparr>s_addr = s_addr s + word_of_nat a, s_bytes = take (b - a) (drop a (s_bytes s))\<rparr>
      else None)"

lemma sub_slice_Some [slice_simps]:
  "a \<le> b \<Longrightarrow> b \<le> length (s_bytes s) \<Longrightarrow>
   sub_slice s a b = Some \<lparr>s_addr = s_addr s + word_of_nat a,
                          s_bytes = take (b - a) (drop a (s_bytes s))\<rparr>"
  by (simp add: sub_slice_def)

text \<open>\<open>&s[a..]\<close>.\<close>

definition slice_from :: "slice \<Rightarrow> nat \<Rightarrow> slice option" where
  "slice_from s a = sub_slice s a (length (s_bytes s))"

lemma slice_from_Some [slice_simps]:
  "a \<le> length (s_bytes s) \<Longrightarrow>
   slice_from s a = Some \<lparr>s_addr = s_addr s + word_of_nat a, s_bytes = drop a (s_bytes s)\<rparr>"
  by (simp add: slice_from_def sub_slice_def)

text \<open>\<open>in_\<close> really is \<open>buf[off .. off + in_.len()]\<close>, and neither wraps around the address space.\<close>

definition in_buffer :: "slice \<Rightarrow> nat \<Rightarrow> slice \<Rightarrow> bool" where
  "in_buffer buf off s \<longleftrightarrow>
     s_addr s = s_addr buf + word_of_nat off
     \<and> off + length (s_bytes s) \<le> length (s_bytes buf)
     \<and> s_bytes s = take (length (s_bytes s)) (drop off (s_bytes buf))"

lemma in_buffer_refl: "in_buffer s 0 s"
  by (simp add: in_buffer_def)

lemma in_buffer_sub:
  assumes "in_buffer buf off s" and "sub_slice s a b = Some t"
  shows "in_buffer buf (off + a) t"
proof -
  from assms(2) have ab: "a \<le> b" "b \<le> length (s_bytes s)"
    and t: "t = \<lparr>s_addr = s_addr s + word_of_nat a, s_bytes = take (b - a) (drop a (s_bytes s))\<rparr>"
    by (auto simp: sub_slice_def split: if_splits)
  have "take (b - a) (drop a (s_bytes s)) = take (b - a) (drop (off + a) (s_bytes buf))"
  proof -
    have "s_bytes s = take (length (s_bytes s)) (drop off (s_bytes buf))"
      using assms(1) by (simp add: in_buffer_def)
    then have "drop a (s_bytes s) = take (length (s_bytes s) - a) (drop (off + a) (s_bytes buf))"
      by (metis drop_drop drop_take add.commute)
    then show ?thesis using ab by (simp add: min_def)
  qed
  then show ?thesis
    using assms(1) ab unfolding t in_buffer_def by auto
qed

text \<open>\<open>buf[pos .. pos + src.len()].copy_from_slice(src)\<close> on a fixed-size array.\<close>

definition blit :: "'a list \<Rightarrow> nat \<Rightarrow> 'a list \<Rightarrow> 'a list" where
  "blit buf pos src = take pos buf @ src @ drop (pos + length src) buf"

lemma length_blit [simp]: "pos + length src \<le> length buf \<Longrightarrow> length (blit buf pos src) = length buf"
  by (simp add: blit_def)

lemma take_blit: "pos + length src \<le> length buf \<Longrightarrow> take (pos + length src) (blit buf pos src) = take pos buf @ src"
  by (simp add: blit_def)

lemma take_blit_left: "n \<le> pos \<Longrightarrow> pos \<le> length buf \<Longrightarrow> take n (blit buf pos src) = take n buf"
  by (simp add: blit_def min_def)

lemma drop_blit_right:
  "pos + length src \<le> n \<Longrightarrow> pos \<le> length buf \<Longrightarrow> drop n (blit buf pos src) = drop n buf"
  by (simp add: blit_def)

lemma blit_full: "pos + length src = length buf \<Longrightarrow> blit buf pos src = take pos buf @ src"
  by (simp add: blit_def)

section \<open>Streaming hashes\<close>

text \<open>
  The contract of an incremental hash: \<open>absorbed h d\<close> says that the state \<open>h\<close> stands for the
  input \<open>d\<close> fed so far.  Its client theorem is that the chunking of the input does not matter.
\<close>

locale streaming_hash =
  fixes init :: 'h
    and update :: "'h \<Rightarrow> bytes \<Rightarrow> 'h"
    and final :: "'h \<Rightarrow> 'r"
    and oneshot :: "bytes \<Rightarrow> 'r"
    and absorbed :: "'h \<Rightarrow> bytes \<Rightarrow> bool"
    and ok :: "bytes \<Rightarrow> bool"
  assumes absorbed_init: "absorbed init []"
    and absorbed_update: "absorbed h d \<Longrightarrow> absorbed (update h b) (d @ b)"
    and absorbed_final: "absorbed h d \<Longrightarrow> ok d \<Longrightarrow> final h = oneshot d"
begin

lemma absorbed_foldl: "absorbed h d \<Longrightarrow> absorbed (foldl update h chunks) (d @ concat chunks)"
proof (induction chunks arbitrary: h d)
  case (Cons b bs)
  from absorbed_update [OF Cons.prems] have "absorbed (update h b) (d @ b)" .
  from Cons.IH [OF this] show ?case by simp
qed simp

lemma final_foldl: "ok (concat chunks) \<Longrightarrow> final (foldl update init chunks) = oneshot (concat chunks)"
  using absorbed_foldl [OF absorbed_init, of chunks] by (simp add: absorbed_final)

end

section \<open>Words\<close>

lemma unat_lt: "unat (w :: 'w::len word) < 2 ^ LENGTH('w)"
  by (rule unsigned_less)

section \<open>Lists\<close>

lemma drop_eq_ConsD: "drop i xs = y # ys \<Longrightarrow> i < length xs \<and> xs ! i = y \<and> drop (Suc i) xs = ys"
  by (metis Cons_nth_drop_Suc drop_eq_Nil2 leI list.inject list.distinct(1))

lemma drop_eq_Cons_length: "drop i xs = y # ys \<Longrightarrow> length xs - i = Suc (length ys)"
  by (metis length_Cons length_drop)

lemma takeWhile_append_stop:
  "\<forall>x\<in>set xs. P x \<Longrightarrow> ys = [] \<or> \<not> P (hd ys) \<Longrightarrow> takeWhile P (xs @ ys) = xs"
  by (induction xs) (cases ys, auto)

lemma dropWhile_append_stop:
  "\<forall>x\<in>set xs. P x \<Longrightarrow> ys = [] \<or> \<not> P (hd ys) \<Longrightarrow> dropWhile P (xs @ ys) = ys"
  by (induction xs) (cases ys, auto)

end
