(* ===== verification/Byte_Strings.thy ===== *)
theory Byte_Strings
  imports Prelude
begin

text \<open>
  The byte-string primitives the package manager's version code calls: ASCII classes,
  trimming and whitespace scanning, lexicographic ordering, the delimiter iterator
  \<open>SplitIterator\<close> and the integer parser \<open>parse_unsigned\<close>
  (\<^verbatim>\<open>src/src/bun_core\<close>, \<^verbatim>\<open>src/src/bun_alloc\<close>), with the decimal formatting of the
  standard library they are paired with.
\<close>

section \<open>ASCII classes\<close>

definition code :: "byte \<Rightarrow> nat" where
  "code c = of_char c"

lemma code_inject [simp]: "code a = code b \<longleftrightarrow> a = b"
  by (simp add: code_def)

lemma code_less [simp]: "code c < 256"
  by (simp add: code_def)

definition is_ascii_digit :: "byte \<Rightarrow> bool" where
  "is_ascii_digit c \<longleftrightarrow> 48 \<le> code c \<and> code c \<le> 57"

definition is_ascii_lower :: "byte \<Rightarrow> bool" where
  "is_ascii_lower c \<longleftrightarrow> 97 \<le> code c \<and> code c \<le> 122"

definition is_ascii_upper :: "byte \<Rightarrow> bool" where
  "is_ascii_upper c \<longleftrightarrow> 65 \<le> code c \<and> code c \<le> 90"

definition is_ascii_alphabetic :: "byte \<Rightarrow> bool" where
  "is_ascii_alphabetic c \<longleftrightarrow> is_ascii_lower c \<or> is_ascii_upper c"

definition is_ascii_alphanumeric :: "byte \<Rightarrow> bool" where
  "is_ascii_alphanumeric c \<longleftrightarrow> is_ascii_alphabetic c \<or> is_ascii_digit c"

text \<open>\<open>u8::is_ascii_whitespace\<close>: space, tab, line feed, form feed, carriage return (no vertical tab).\<close>

definition is_ascii_whitespace :: "byte \<Rightarrow> bool" where
  "is_ascii_whitespace c \<longleftrightarrow> code c \<in> {9, 10, 12, 13, 32}"

lemmas ascii_defs = is_ascii_digit_def is_ascii_lower_def is_ascii_upper_def
  is_ascii_alphabetic_def is_ascii_alphanumeric_def is_ascii_whitespace_def

text \<open>\<open>WHITESPACE_CHARS\<close>: space, tab, line feed, carriage return, vertical tab, form feed.\<close>

definition WHITESPACE_CHARS :: bytes where
  "WHITESPACE_CHARS = [CHR '' '', CHR 0x09, CHR 0x0A, CHR 0x0D, CHR 0x0B, CHR 0x0C]"

section \<open>Trimming\<close>

fun trim_right_end :: "bytes \<Rightarrow> bytes \<Rightarrow> nat \<Rightarrow> nat" where
  "trim_right_end s chars 0 = 0"
| "trim_right_end s chars (Suc e) =
     (if s ! e \<in> set chars then trim_right_end s chars e else Suc e)"

definition trim_right :: "bytes \<Rightarrow> bytes \<Rightarrow> bytes" where
  "trim_right s chars = take (trim_right_end s chars (length s)) s"

definition trim_left :: "bytes \<Rightarrow> bytes \<Rightarrow> bytes" where
  "trim_left s chars = dropWhile (\<lambda>c. c \<in> set chars) s"

definition trim :: "bytes \<Rightarrow> bytes \<Rightarrow> bytes" where
  "trim s chars = trim_right (trim_left s chars) chars"

lemma trim_right_end_take:
  "e \<le> length s \<Longrightarrow> take (trim_right_end s chars e) s = rev (dropWhile (\<lambda>c. c \<in> set chars) (rev (take e s)))"
proof (induction e)
  case (Suc e)
  then have "rev (take (Suc e) s) = s ! e # rev (take e s)"
    by (simp add: take_Suc_conv_app_nth)
  then show ?case using Suc by (simp add: take_Suc_conv_app_nth)
qed simp

lemma trim_right_eq: "trim_right s chars = rev (dropWhile (\<lambda>c. c \<in> set chars) (rev s))"
  using trim_right_end_take [of "length s" s chars] by (simp add: trim_right_def)

lemma trim_id:
  assumes "s = [] \<or> hd s \<notin> set chars \<and> last s \<notin> set chars"
  shows "trim s chars = s"
proof (cases "s = []")
  case True
  then show ?thesis by (simp add: trim_def trim_left_def trim_right_eq)
next
  case False
  then obtain x xs where s: "s = x # xs" by (cases s) auto
  obtain y ys where r: "rev s = y # ys" using False by (cases "rev s") auto
  then have "y = last s" by (metis hd_rev list.sel(1))
  then have "dropWhile (\<lambda>c. c \<in> set chars) (rev s) = rev s"
    using assms False unfolding r by simp
  moreover have "trim_left s chars = s" using assms False s by (simp add: trim_left_def)
  ultimately show ?thesis by (simp add: trim_def trim_right_eq)
qed

text \<open>\<open>length_of_leading_whitespace_ascii\<close>.\<close>

fun length_of_leading_whitespace_ascii :: "bytes \<Rightarrow> nat" where
  "length_of_leading_whitespace_ascii [] = 0"
| "length_of_leading_whitespace_ascii (c # cs) =
     (if c \<in> set WHITESPACE_CHARS then Suc (length_of_leading_whitespace_ascii cs) else 0)"

lemma length_of_leading_whitespace_le: "length_of_leading_whitespace_ascii s \<le> length s"
  by (induction s) auto

definition is_all_ascii :: "bytes \<Rightarrow> bool" where
  "is_all_ascii s \<longleftrightarrow> list_all (\<lambda>c. code c < 128) s"

section \<open>Ordering\<close>

text \<open>\<open>strings::order\<close>, that is \<open><[u8] as Ord>::cmp\<close>.\<close>

definition strings_order :: "bytes \<Rightarrow> bytes \<Rightarrow> ordering" where
  "strings_order = list_cmp (\<lambda>a b. ord_cmp (code a) (code b))"

interpretation sord: three_way strings_order
  unfolding strings_order_def
  by (intro three_way_list three_way_project [of ord_cmp code] three_way_ord_cmp)

lemma strings_order_equal_iff [simp]: "strings_order a b = Equal \<longleftrightarrow> a = b"
  unfolding strings_order_def by (rule list_cmp_equal_iff) simp

section \<open>Searching and splitting\<close>

fun index_of_char :: "bytes \<Rightarrow> byte \<Rightarrow> nat option" where
  "index_of_char [] c = None"
| "index_of_char (x # xs) c = (if x = c then Some 0 else map_option Suc (index_of_char xs c))"

text \<open>The C library's \<open>memmem\<close>: the first position at which the needle occurs.\<close>

fun memmem :: "bytes \<Rightarrow> bytes \<Rightarrow> nat option" where
  "memmem [] needle = (if needle = [] then Some 0 else None)"
| "memmem (x # xs) needle =
     (if take (length needle) (x # xs) = needle then Some 0 else map_option Suc (memmem xs needle))"

definition index_of :: "bytes \<Rightarrow> bytes \<Rightarrow> nat option" where
  "index_of s str =
     (if length s = 0 \<or> length str = 0 \<or> length s < length str then None
      else if length str = 1 then index_of_char s (str ! 0)
      else memmem s str)"

record split_iterator =
  it_buffer :: bytes
  it_index :: "nat option"
  it_delimiter :: bytes

definition split_init :: "bytes \<Rightarrow> bytes \<Rightarrow> split_iterator" where
  "split_init s delimiter = \<lparr>it_buffer = s, it_index = Some 0, it_delimiter = delimiter\<rparr>"

definition split_next :: "split_iterator \<Rightarrow> bytes option \<times> split_iterator" where
  "split_next it =
     (case it_index it of
        None \<Rightarrow> (None, it)
      | Some start \<Rightarrow>
          (case index_of (drop start (it_buffer it)) (it_delimiter it) of
             Some delim_start \<Rightarrow>
               (Some (take delim_start (drop start (it_buffer it))),
                it\<lparr>it_index := Some (delim_start + start + length (it_delimiter it))\<rparr>)
           | None \<Rightarrow> (Some (drop start (it_buffer it)), it\<lparr>it_index := None\<rparr>)))"

text \<open>What is left of the iteration; it shrinks with every field that \<open>next\<close> returns.\<close>

definition split_left :: "split_iterator \<Rightarrow> nat" where
  "split_left it = (case it_index it of None \<Rightarrow> 0 | Some start \<Rightarrow> Suc (length (it_buffer it) - start))"

lemma index_of_char_bound: "index_of_char s c = Some i \<Longrightarrow> i < length s"
  by (induction s arbitrary: i) (auto split: if_splits)

lemma memmem_bound: "memmem s n = Some i \<Longrightarrow> i + length n \<le> length s"
proof (induction s arbitrary: i)
  case (Cons x xs)
  show ?case
  proof (cases "take (length n) (x # xs) = n")
    case True
    then have "length n \<le> length (x # xs)" by (metis length_take min.cobounded1)
    then show ?thesis using Cons.prems True by simp
  qed (use Cons in auto)
qed (auto split: if_splits)

lemma index_of_bound: "index_of s str = Some i \<Longrightarrow> 0 < length str \<and> i + length str \<le> length s"
  by (auto simp: index_of_def dest: index_of_char_bound memmem_bound split: if_splits)

lemma split_next_left: "split_next it = (Some p, it') \<Longrightarrow> split_left it' < split_left it"
  by (auto simp: split_next_def split_left_def simp flip: length_greater_0_conv
        split: option.splits dest!: index_of_bound)

lemma split_next_None: "split_next it = (None, it') \<Longrightarrow> it_index it = None \<and> it' = it"
  by (auto simp: split_next_def split: option.splits)

text \<open>The fields between the occurrences of one separator byte.\<close>

fun split_on :: "byte \<Rightarrow> bytes \<Rightarrow> bytes list" where
  "split_on d [] = [[]]"
| "split_on d (c # cs) =
     (if c = d then [] # split_on d cs
      else (case split_on d cs of [] \<Rightarrow> [[c]] | p # ps \<Rightarrow> (c # p) # ps))"

lemma split_on_nonempty [simp]: "split_on d s \<noteq> []"
  by (induction s) (auto split: list.splits)

lemma split_on_index:
  "split_on d s =
     (case index_of_char s d of None \<Rightarrow> [s] | Some i \<Rightarrow> take i s # split_on d (drop (Suc i) s))"
proof (induction s)
  case (Cons c cs)
  show ?case
  proof (cases "c = d")
    case False
    then show ?thesis using Cons by (cases "index_of_char cs d") auto
  qed simp
qed simp

section \<open>Integers in text\<close>

datatype parse_int_error = InvalidCharacter | Overflow

fun digit_value :: "byte \<Rightarrow> nat option" where
  "digit_value c =
     (if is_ascii_digit c then Some (code c - 48)
      else if is_ascii_lower c then Some (code c - 97 + 10)
      else if is_ascii_upper c then Some (code c - 65 + 10)
      else None)"

text \<open>
  The digit loop: the accumulator is a \<open>u128\<close> with checked multiplication and addition.
\<close>

fun parse_digits :: "nat \<Rightarrow> nat \<Rightarrow> bytes \<Rightarrow> parse_int_error + nat" where
  "parse_digits radix acc [] = Inr acc"
| "parse_digits radix acc (c # cs) =
     (if c = CHR ''_'' then parse_digits radix acc cs
      else case digit_value c of
        None \<Rightarrow> Inl InvalidCharacter
      | Some d \<Rightarrow>
          if d \<ge> radix then Inl InvalidCharacter
          else if acc * radix + d \<ge> 2 ^ 128 then Inl Overflow
          else parse_digits radix (acc * radix + d) cs)"

definition parse_with_sign :: "bytes \<Rightarrow> nat \<Rightarrow> parse_int_error + nat" where
  "parse_with_sign digits radix =
     (if digits = [] \<or> hd digits = CHR ''_'' \<or> last digits = CHR ''_'' then Inl InvalidCharacter
      else parse_digits radix 0 digits)"

definition auto_radix :: "bytes \<Rightarrow> nat \<Rightarrow> bytes \<times> nat" where
  "auto_radix digits radix =
     (if radix \<noteq> 0 then (digits, radix)
      else if length digits \<ge> 2 \<and> digits ! 0 = CHR ''0'' then
        (if digits ! 1 = CHR ''x'' \<or> digits ! 1 = CHR ''X'' then (drop 2 digits, 16)
         else if digits ! 1 = CHR ''o'' \<or> digits ! 1 = CHR ''O'' then (drop 2 digits, 8)
         else if digits ! 1 = CHR ''b'' \<or> digits ! 1 = CHR ''B'' then (drop 2 digits, 2)
         else (digits, 10))
      else (digits, 10))"

definition parse_unsigned :: "bytes \<Rightarrow> nat \<Rightarrow> parse_int_error + 'w::len word" where
  "parse_unsigned buf radix0 =
     (case auto_radix buf radix0 of (digits, radix) \<Rightarrow>
       (case parse_with_sign digits radix of
          Inl e \<Rightarrow> Inl e
        | Inr acc \<Rightarrow> if acc < 2 ^ LENGTH('w) then Inr (word_of_nat acc) else Inl Overflow))"

text \<open>\<open>fmt::Display\<close> for the unsigned integers: decimal, without leading zeros.\<close>

definition digit_char :: "nat \<Rightarrow> byte" where
  "digit_char d = char_of (48 + d)"

fun fmt_nat :: "nat \<Rightarrow> bytes" where
  "fmt_nat n = (if n < 10 then [digit_char n] else fmt_nat (n div 10) @ [digit_char (n mod 10)])"

declare fmt_nat.simps [simp del]

definition fmt_uint :: "'w::len word \<Rightarrow> bytes" where
  "fmt_uint w = fmt_nat (unat w)"

lemma code_digit_char: "d < 10 \<Longrightarrow> code (digit_char d) = 48 + d"
  by (simp add: code_def digit_char_def)

lemma digit_value_digit_char: "d < 10 \<Longrightarrow> digit_value (digit_char d) = Some d"
  by (simp add: is_ascii_digit_def code_digit_char)

lemma digit_char_underscore: "d < 10 \<Longrightarrow> digit_char d \<noteq> CHR ''_''"
proof
  assume "d < 10" and "digit_char d = CHR ''_''"
  then have "code (CHR ''_'') = 48 + d" using code_digit_char by metis
  then show False using \<open>d < 10\<close> by (simp add: code_def)
qed

lemma fmt_nat_digits: "\<forall>c\<in>set (fmt_nat n). is_ascii_digit c"
proof (induction n rule: fmt_nat.induct)
  case (1 n)
  then show ?case
    by (subst fmt_nat.simps) (auto simp: is_ascii_digit_def code_digit_char)
qed

lemma fmt_nat_nonempty [simp]: "fmt_nat n \<noteq> []"
  by (subst fmt_nat.simps) simp

lemma parse_digits_snoc:
  "parse_digits r acc (cs @ [c]) =
     (case parse_digits r acc cs of Inl e \<Rightarrow> Inl e | Inr a \<Rightarrow> parse_digits r a [c])"
  by (induction cs arbitrary: acc) (auto split: option.splits)

lemma parse_digits_fmt_nat: "n < 2 ^ 128 \<Longrightarrow> parse_digits 10 0 (fmt_nat n) = Inr n"
proof (induction n rule: fmt_nat.induct)
  case (1 n)
  show ?case
  proof (cases "n < 10")
    case True
    then show ?thesis
      by (subst fmt_nat.simps)
        (simp add: digit_char_underscore digit_value_digit_char del: digit_value.simps)
  next
    case False
    have "parse_digits 10 0 (fmt_nat (n div 10)) = Inr (n div 10)"
      using 1 False by simp
    moreover have "n div 10 * 10 + n mod 10 = n" by simp
    ultimately show ?thesis
      using False 1(2)
      by (subst fmt_nat.simps)
        (simp add: parse_digits_snoc digit_char_underscore digit_value_digit_char
           del: digit_value.simps)
  qed
qed

lemma is_ascii_digit_not_underscore: "is_ascii_digit c \<Longrightarrow> c \<noteq> CHR ''_''"
  by (auto simp: is_ascii_digit_def code_def)

lemma parse_unsigned_fmt:
  assumes "LENGTH('w::len) \<le> 128"
  shows "parse_unsigned (fmt_uint (w :: 'w word)) 10 = Inr w"
proof -
  have lt: "unat w < 2 ^ 128"
    using unat_lt [of w] power_increasing [OF assms, of "2::nat"] by linarith
  have "hd (fmt_nat (unat w)) \<noteq> CHR ''_''" and "last (fmt_nat (unat w)) \<noteq> CHR ''_''"
    using fmt_nat_digits [of "unat w"] is_ascii_digit_not_underscore
    by (metis fmt_nat_nonempty hd_in_set, metis fmt_nat_digits fmt_nat_nonempty last_in_set
        is_ascii_digit_not_underscore)
  then show ?thesis
    using parse_digits_fmt_nat [OF lt] unat_lt [of w]
    by (simp add: parse_unsigned_def auto_radix_def parse_with_sign_def fmt_uint_def)
qed

section \<open>Little-endian integers\<close>

text \<open>
  \<open>u64::from_le_bytes\<close> and \<open>to_le_bytes\<close>.  Every target of the program is little-endian, so
  these also model \<open>from_ne_bytes\<close> and \<open>to_ne_bytes\<close>.
\<close>

fun from_le_bytes :: "bytes \<Rightarrow> u64" where
  "from_le_bytes [] = 0"
| "from_le_bytes (c # cs) = of_char c OR push_bit 8 (from_le_bytes cs)"

fun to_le_bytes :: "nat \<Rightarrow> u64 \<Rightarrow> bytes" where
  "to_le_bytes 0 w = []"
| "to_le_bytes (Suc n) w = char_of (unat w) # to_le_bytes n (drop_bit 8 w)"

lemma length_to_le_bytes [simp]: "length (to_le_bytes n w) = n"
  by (induction n arbitrary: w) auto

lemma of_char_word: "(of_char c :: 'w::len word) = word_of_nat (of_char c)"
  by (metis of_nat_of_char)

lemma of_char_char_of_unat: "(of_char (char_of (unat (w :: u64))) :: u64) = take_bit 8 w"
proof -
  have "(of_char (char_of (unat w)) :: u64) = word_of_nat (unat w mod 256)"
    by (simp add: of_char_word)
  also have "\<dots> = word_of_nat (take_bit 8 (unat w))"
    by (simp add: take_bit_eq_mod)
  also have "\<dots> = word_of_nat (unat (take_bit 8 w))"
    by (simp add: unsigned_take_bit_eq)
  also have "\<dots> = take_bit 8 w" by simp
  finally show ?thesis .
qed

lemma from_to_le_bytes: "from_le_bytes (to_le_bytes n w) = take_bit (8 * n) w"
proof (induction n arbitrary: w)
  case (Suc n)
  have "take_bit 8 w OR push_bit 8 (take_bit (8 * n) (drop_bit 8 w)) = take_bit (8 * Suc n) w"
    by (rule bit_word_eqI) (auto simp: bit_simps)
  then show ?case using Suc by (simp add: of_char_char_of_unat)
qed simp

lemma from_to_le_bytes_8 [simp]: "from_le_bytes (to_le_bytes 8 w) = w"
  by (simp add: from_to_le_bytes take_bit_word_eq_self)

lemma code_bit_less: "bit (code c) k \<Longrightarrow> k < 8"
proof -
  have "code c < 2 ^ 8" by simp
  then show "bit (code c) k \<Longrightarrow> k < 8" by (metis bit_take_bit_iff take_bit_nat_eq_self)
qed

lemma bit_of_char_word: "bit (of_char c :: u64) k \<longleftrightarrow> k < 8 \<and> bit (code c) k"
proof -
  have "(of_char c :: u64) = word_of_nat (code c)" by (simp add: of_char_word code_def)
  then have "bit (of_char c :: u64) k \<longleftrightarrow> k < 64 \<and> bit (code c) k"
    by (simp add: bit_simps)
  then show ?thesis using code_bit_less [of c k] by auto
qed

lemma to_from_le_bytes: "length cs \<le> 8 \<Longrightarrow> to_le_bytes (length cs) (from_le_bytes cs) = cs"
proof (induction cs)
  case (Cons c cs)
  let ?w = "from_le_bytes cs"
  have "drop_bit 8 (of_char c OR push_bit 8 ?w) = take_bit 56 ?w"
    by (rule bit_word_eqI) (auto simp: bit_simps bit_of_char_word)
  moreover have "take_bit 56 ?w = ?w"
  proof -
    have "?w = from_le_bytes (to_le_bytes (length cs) ?w)" using Cons by simp
    also have "\<dots> = take_bit (8 * length cs) ?w" by (rule from_to_le_bytes)
    finally have eq: "?w = take_bit (8 * length cs) ?w" .
    have "min 56 (8 * length cs) = 8 * length cs" using Cons.prems by simp
    then show ?thesis using eq by (metis take_bit_take_bit)
  qed
  moreover have "char_of (unat (of_char c OR push_bit 8 ?w)) = c"
  proof -
    have "take_bit 8 (of_char c OR push_bit 8 ?w) = (of_char c :: u64)"
      by (rule bit_word_eqI) (auto simp: bit_simps bit_of_char_word)
    then have "(of_char (char_of (unat (of_char c OR push_bit 8 ?w))) :: u64) = of_char c"
      using of_char_char_of_unat by metis
    then have "bit (code (char_of (unat (of_char c OR push_bit 8 ?w)))) k = bit (code c) k" if "k < 8" for k
      using that bit_of_char_word by metis
    then have "code (char_of (unat (of_char c OR push_bit 8 ?w))) = code c"
      by (intro bit_eqI) (metis code_bit_less)
    then show ?thesis by simp
  qed
  ultimately show ?case using Cons by simp
qed simp

end
