(* ===== verification/Wyhash.thy ===== *)
theory Wyhash
  imports Byte_Strings
begin

unbundle bit_operations_syntax

text \<open>
  The two hash functions of \<^verbatim>\<open>src/src/wyhash/lib.rs\<close>: \<open>Wyhash11\<close> (32-byte rounds, the hash stored
  in lockfiles next to every string handle) and \<open>Wyhash\<close> (final4, 48-byte rounds).  Each has a
  one-shot entry point and an incremental one that buffers a partial block; the interpretations
  of \<open>streaming_hash\<close> show that both entry points compute the same value.
\<close>

section \<open>Wyhash11\<close>

definition PRIMES :: "u64 list" where
  "PRIMES = [0xa0761d6478bd642f, 0xe7037ed1a0b428db, 0x8ebc6af09c88c6e3,
             0x589965cc75374cc3, 0x1d8e4e27c47d124f]"

text \<open>\<open>read_bytes::<BYTES>\<close>: a little-endian load of the first \<open>BYTES\<close> (1, 2, 4 or 8) bytes.\<close>

definition read_bytes :: "nat \<Rightarrow> bytes \<Rightarrow> u64" where
  "read_bytes n data = from_le_bytes (take n data)"

definition read_8bytes_swapped :: "bytes \<Rightarrow> u64" where
  "read_8bytes_swapped data = push_bit 32 (read_bytes 4 data) OR read_bytes 4 (drop 4 data)"

definition mum :: "u64 \<Rightarrow> u64 \<Rightarrow> u64" where
  "mum a b = (let r = (ucast a :: u128) * ucast b in ucast (drop_bit 64 r XOR r))"

definition mix0 :: "u64 \<Rightarrow> u64 \<Rightarrow> u64 \<Rightarrow> u64" where
  "mix0 a b seed = mum (a XOR seed XOR PRIMES ! 0) (b XOR seed XOR PRIMES ! 1)"

definition mix1 :: "u64 \<Rightarrow> u64 \<Rightarrow> u64 \<Rightarrow> u64" where
  "mix1 a b seed = mum (a XOR seed XOR PRIMES ! 2) (b XOR seed XOR PRIMES ! 3)"

text \<open>The 17 to 31 byte remainders.  Any other length is \<open>unreachable!\<close>; \<open>final_\<close> never passes one.\<close>

definition final_long :: "u64 \<Rightarrow> bytes \<Rightarrow> u64" where
  "final_long seed key =
     (let head = mix0 (read_8bytes_swapped key) (read_8bytes_swapped (drop 8 key)) seed;
          n = length key;
          tail =
            (if n = 17 then mix1 (read_bytes 1 (drop 16 key)) (PRIMES ! 4) seed
             else if n = 18 then mix1 (read_bytes 2 (drop 16 key)) (PRIMES ! 4) seed
             else if n = 19 then
               mix1 (push_bit 8 (read_bytes 2 (drop 16 key)) OR read_bytes 1 (drop 18 key)) (PRIMES ! 4) seed
             else if n = 20 then mix1 (read_bytes 4 (drop 16 key)) (PRIMES ! 4) seed
             else if n = 21 then
               mix1 (push_bit 8 (read_bytes 4 (drop 16 key)) OR read_bytes 1 (drop 20 key)) (PRIMES ! 4) seed
             else if n = 22 then
               mix1 (push_bit 16 (read_bytes 4 (drop 16 key)) OR read_bytes 2 (drop 20 key)) (PRIMES ! 4) seed
             else if n = 23 then
               mix1 (push_bit 24 (read_bytes 4 (drop 16 key)) OR push_bit 8 (read_bytes 2 (drop 20 key))
                     OR read_bytes 1 (drop 22 key)) (PRIMES ! 4) seed
             else if n = 24 then mix1 (read_8bytes_swapped (drop 16 key)) (PRIMES ! 4) seed
             else if n = 25 then mix1 (read_8bytes_swapped (drop 16 key)) (read_bytes 1 (drop 24 key)) seed
             else if n = 26 then mix1 (read_8bytes_swapped (drop 16 key)) (read_bytes 2 (drop 24 key)) seed
             else if n = 27 then
               mix1 (read_8bytes_swapped (drop 16 key))
                 (push_bit 8 (read_bytes 2 (drop 24 key)) OR read_bytes 1 (drop 26 key)) seed
             else if n = 28 then mix1 (read_8bytes_swapped (drop 16 key)) (read_bytes 4 (drop 24 key)) seed
             else if n = 29 then
               mix1 (read_8bytes_swapped (drop 16 key))
                 (push_bit 8 (read_bytes 4 (drop 24 key)) OR read_bytes 1 (drop 28 key)) seed
             else if n = 30 then
               mix1 (read_8bytes_swapped (drop 16 key))
                 (push_bit 16 (read_bytes 4 (drop 24 key)) OR read_bytes 2 (drop 28 key)) seed
             else
               mix1 (read_8bytes_swapped (drop 16 key))
                 (push_bit 24 (read_bytes 4 (drop 24 key)) OR push_bit 8 (read_bytes 2 (drop 28 key))
                  OR read_bytes 1 (drop 30 key)) seed)
      in head XOR tail)"

record wyhash_stateless =
  seed :: u64
  msg_len :: u64

definition stateless_init :: "u64 \<Rightarrow> wyhash_stateless" where
  "stateless_init s = \<lparr>seed = s, msg_len = 0\<rparr>"

definition stateless_round :: "wyhash_stateless \<Rightarrow> bytes \<Rightarrow> wyhash_stateless" where
  "stateless_round st b =
     st\<lparr>seed := mix0 (read_bytes 8 b) (read_bytes 8 (drop 8 b)) (seed st)
               XOR mix1 (read_bytes 8 (drop 16 b)) (read_bytes 8 (drop 24 b)) (seed st)\<rparr>"

text \<open>The loop of \<open>update\<close>; its callers pass a multiple of 32 bytes.\<close>

function stateless_update_loop :: "wyhash_stateless \<Rightarrow> bytes \<Rightarrow> nat \<Rightarrow> wyhash_stateless" where
  "stateless_update_loop st b off =
     (if off < length b
      then stateless_update_loop (stateless_round st (take 32 (drop off b))) b (off + 32)
      else st)"
  by pat_completeness auto
termination
  by (relation "measure (\<lambda>(st, b, off). length b - off)") auto

declare stateless_update_loop.simps [simp del]

definition stateless_update :: "wyhash_stateless \<Rightarrow> bytes \<Rightarrow> wyhash_stateless" where
  "stateless_update st b =
     (let st' = stateless_update_loop st b 0 in st'\<lparr>msg_len := msg_len st' + word_of_nat (length b)\<rparr>)"

definition stateless_final :: "wyhash_stateless \<Rightarrow> bytes \<Rightarrow> wyhash_stateless \<times> u64" where
  "stateless_final st b =
     (let s = seed st; n = length b; key = b;
          s' =
            (if n = 0 then s
             else if n = 1 then mix0 (read_bytes 1 key) (PRIMES ! 4) s
             else if n = 2 then mix0 (read_bytes 2 key) (PRIMES ! 4) s
             else if n = 3 then mix0 (push_bit 8 (read_bytes 2 key) OR read_bytes 1 (drop 2 key)) (PRIMES ! 4) s
             else if n = 4 then mix0 (read_bytes 4 key) (PRIMES ! 4) s
             else if n = 5 then mix0 (push_bit 8 (read_bytes 4 key) OR read_bytes 1 (drop 4 key)) (PRIMES ! 4) s
             else if n = 6 then mix0 (push_bit 16 (read_bytes 4 key) OR read_bytes 2 (drop 4 key)) (PRIMES ! 4) s
             else if n = 7 then
               mix0 (push_bit 24 (read_bytes 4 key) OR push_bit 8 (read_bytes 2 (drop 4 key))
                     OR read_bytes 1 (drop 6 key)) (PRIMES ! 4) s
             else if n = 8 then mix0 (read_8bytes_swapped key) (PRIMES ! 4) s
             else if n = 9 then mix0 (read_8bytes_swapped key) (read_bytes 1 (drop 8 key)) s
             else if n = 10 then mix0 (read_8bytes_swapped key) (read_bytes 2 (drop 8 key)) s
             else if n = 11 then
               mix0 (read_8bytes_swapped key)
                 (push_bit 8 (read_bytes 2 (drop 8 key)) OR read_bytes 1 (drop 10 key)) s
             else if n = 12 then mix0 (read_8bytes_swapped key) (read_bytes 4 (drop 8 key)) s
             else if n = 13 then
               mix0 (read_8bytes_swapped key)
                 (push_bit 8 (read_bytes 4 (drop 8 key)) OR read_bytes 1 (drop 12 key)) s
             else if n = 14 then
               mix0 (read_8bytes_swapped key)
                 (push_bit 16 (read_bytes 4 (drop 8 key)) OR read_bytes 2 (drop 12 key)) s
             else if n = 15 then
               mix0 (read_8bytes_swapped key)
                 (push_bit 24 (read_bytes 4 (drop 8 key)) OR push_bit 8 (read_bytes 2 (drop 12 key))
                  OR read_bytes 1 (drop 14 key)) s
             else if n = 16 then mix0 (read_8bytes_swapped key) (read_8bytes_swapped (drop 8 key)) s
             else final_long s key);
          len' = msg_len st + word_of_nat (length b)
      in (st\<lparr>seed := s', msg_len := len'\<rparr>, mum (s' XOR len') (PRIMES ! 4)))"

definition stateless_hash :: "u64 \<Rightarrow> bytes \<Rightarrow> u64" where
  "stateless_hash s input =
     (let aligned_len = length input - length input mod 32;
          c = stateless_update (stateless_init s) (take aligned_len input)
      in snd (stateless_final c (drop aligned_len input)))"

record wyhash11 =
  w11_state :: wyhash_stateless
  w11_buf :: bytes
  w11_buf_len :: nat

definition wyhash11_init :: "u64 \<Rightarrow> wyhash11" where
  "wyhash11_init s =
     \<lparr>w11_state = stateless_init s, w11_buf = replicate 32 (CHR 0x00), w11_buf_len = 0\<rparr>"

definition wyhash11_update :: "wyhash11 \<Rightarrow> bytes \<Rightarrow> wyhash11" where
  "wyhash11_update h b =
     (let (off, h1) =
            (if w11_buf_len h \<noteq> 0 \<and> w11_buf_len h + length b \<ge> 32 then
               (let off = 32 - w11_buf_len h;
                    buf = blit (w11_buf h) (w11_buf_len h) (take off b)
                in (off, h\<lparr>w11_buf := buf, w11_state := stateless_update (w11_state h) buf,
                           w11_buf_len := 0\<rparr>))
             else (0, h));
          remain_len = length b - off;
          aligned_len = remain_len - remain_len mod 32;
          state = stateless_update (w11_state h1) (take aligned_len (drop off b));
          tail = drop (off + aligned_len) b
      in h1\<lparr>w11_state := state,
            w11_buf := blit (w11_buf h1) (w11_buf_len h1) tail,
            w11_buf_len := w11_buf_len h1 + length tail\<rparr>)"

definition wyhash11_final :: "wyhash11 \<Rightarrow> u64" where
  "wyhash11_final h = snd (stateless_final (w11_state h) (take (w11_buf_len h) (w11_buf h)))"

definition wyhash11_hash :: "u64 \<Rightarrow> bytes \<Rightarrow> u64" where
  "wyhash11_hash s input = stateless_hash s input"

subsection \<open>Incremental equals one-shot\<close>

lemma stateless_loop_drop:
  "stateless_update_loop st b (off + n) = stateless_update_loop st (drop n b) off"
proof (induction st b "off + n" arbitrary: off rule: stateless_update_loop.induct)
  case (1 st b)
  show ?case
  proof (cases "off + n < length b")
    case True
    have "stateless_update_loop st b (off + n)
        = stateless_update_loop (stateless_round st (take 32 (drop (off + n) b))) b (off + 32 + n)"
      using True by (subst stateless_update_loop.simps) (simp add: ac_simps)
    also have "\<dots> = stateless_update_loop (stateless_round st (take 32 (drop (off + n) b))) (drop n b) (off + 32)"
      using 1 [OF True, of "off + 32"] by (simp add: ac_simps)
    also have "\<dots> = stateless_update_loop st (drop n b) off"
      using True by (subst (2) stateless_update_loop.simps) (simp add: ac_simps)
    finally show ?thesis .
  next
    case False
    then show ?thesis by (subst (1 2) stateless_update_loop.simps) auto
  qed
qed

lemma stateless_loop_append:
  assumes "32 dvd length a"
  shows "stateless_update_loop st (a @ b) 0 = stateless_update_loop (stateless_update_loop st a 0) b 0"
  using assms
proof (induction "length a" arbitrary: a st rule: less_induct)
  case less
  show ?case
  proof (cases "a = []")
    case True
    then show ?thesis by (simp add: stateless_update_loop.simps [of st "[]"])
  next
    case False
    then have n: "length a \<ge> 32" using less.prems by (simp add: dvd_imp_le)
    let ?st = "stateless_round st (take 32 a)"
    have "stateless_update_loop st (a @ b) 0 = stateless_update_loop ?st (drop 32 a @ b) 0"
      using n False stateless_loop_drop [of ?st "a @ b" 0 32]
      by (subst stateless_update_loop.simps) simp
    also have "\<dots> = stateless_update_loop (stateless_update_loop ?st (drop 32 a) 0) b 0"
      using less.hyps [of "drop 32 a" ?st] less.prems n by (simp add: dvd_diff_nat)
    also have "stateless_update_loop ?st (drop 32 a) 0 = stateless_update_loop st a 0"
      using False stateless_loop_drop [of ?st a 0 32] by (subst (2) stateless_update_loop.simps) simp
    finally show ?thesis .
  qed
qed

lemma stateless_round_msg_len:
  "msg_len (stateless_round st b) = msg_len st"
  "stateless_round (st\<lparr>msg_len := m\<rparr>) b = (stateless_round st b)\<lparr>msg_len := m\<rparr>"
  by (cases st; simp add: stateless_round_def)+

lemma stateless_update_loop_msg_len [simp]:
  "msg_len (stateless_update_loop st b off) = msg_len st"
  "stateless_update_loop (st\<lparr>msg_len := m\<rparr>) b off = (stateless_update_loop st b off)\<lparr>msg_len := m\<rparr>"
proof (induction st b off rule: stateless_update_loop.induct)
  case (1 st b off)
  { case 1
    show ?case using "1.IH"(1)
      by (cases "off < length b"; subst stateless_update_loop.simps) (auto simp: stateless_round_msg_len)
  next
    case 2
    show ?case using "1.IH"(2)
      by (cases "off < length b"; subst (1 2) stateless_update_loop.simps) (auto simp: stateless_round_msg_len) }
qed

lemma stateless_update_append:
  assumes "32 dvd length a"
  shows "stateless_update st (a @ b) = stateless_update (stateless_update st a) b"
  using stateless_loop_append [OF assms, of st b]
  by (simp add: stateless_update_def Let_def ac_simps)

lemma stateless_update_Nil [simp]: "stateless_update st [] = st"
  by (simp add: stateless_update_def stateless_update_loop.simps)

text \<open>\<open>h\<close> has hashed the whole 32-byte blocks of \<open>d\<close> and buffers the rest.\<close>

definition w11_absorbed :: "u64 \<Rightarrow> wyhash11 \<Rightarrow> bytes \<Rightarrow> bool" where
  "w11_absorbed s h d \<longleftrightarrow>
     length (w11_buf h) = 32 \<and> w11_buf_len h < 32
     \<and> (\<exists>a. d = a @ take (w11_buf_len h) (w11_buf h) \<and> 32 dvd length a
            \<and> w11_state h = stateless_update (stateless_init s) a)"

lemma aligned_prefix: "32 dvd length (take (n - n mod 32) b)" if "n \<le> length b" for n :: nat
proof -
  have "length (take (n - n mod 32) b) = n - n mod 32" using that by simp
  then show ?thesis by (simp only: dvd_minus_mod)
qed

lemma w11_absorbed_plain:
  assumes "w11_absorbed s h d" and "w11_buf_len h = 0"
    and h': "h' = h\<lparr>w11_state := stateless_update (w11_state h) (take (length b - length b mod 32) b),
                   w11_buf := blit (w11_buf h) 0 (drop (length b - length b mod 32) b),
                   w11_buf_len := length b mod 32\<rparr>"
  shows "w11_absorbed s h' (d @ b)"
proof -
  let ?n = "length b - length b mod 32"
  obtain a where a: "d = a" "32 dvd length a" "w11_state h = stateless_update (stateless_init s) a"
    using assms(1,2) by (auto simp: w11_absorbed_def)
  have tl: "length (drop ?n b) = length b mod 32" by simp
  have buf: "length (w11_buf h) = 32" using assms(1) by (simp add: w11_absorbed_def)
  have "take (length b mod 32) (blit (w11_buf h) 0 (drop ?n b)) = drop ?n b"
    using take_blit [of 0 "drop ?n b" "w11_buf h"] buf tl by simp
  moreover have "a @ b = (a @ take ?n b) @ drop ?n b" by simp
  moreover have "32 dvd length (a @ take ?n b)"
    using dvd_add [OF a(2) aligned_prefix [of "length b" b]] by (simp only: length_append order_refl)
  moreover have "w11_state h' = stateless_update (stateless_init s) (a @ take ?n b)"
    using a(2,3) h' by (simp add: stateless_update_append)
  ultimately show ?thesis
    unfolding w11_absorbed_def using buf tl a(1) h'
    by (auto intro!: exI [of _ "a @ take ?n b"])
qed

lemma w11_absorbed_flush:
  assumes "w11_absorbed s h d" and "w11_buf_len h + length b \<ge> 32"
  defines "off \<equiv> 32 - w11_buf_len h"
  defines "buf \<equiv> blit (w11_buf h) (w11_buf_len h) (take off b)"
  shows "w11_absorbed s (h\<lparr>w11_buf := buf, w11_state := stateless_update (w11_state h) buf, w11_buf_len := 0\<rparr>)
           (d @ take off b)"
proof -
  obtain a where a: "d = a @ take (w11_buf_len h) (w11_buf h)" "32 dvd length a"
      "w11_state h = stateless_update (stateless_init s) a"
    and l: "length (w11_buf h) = 32" "w11_buf_len h < 32"
    using assms(1) by (auto simp: w11_absorbed_def)
  have "length (take off b) = off" using assms(2) by (simp add: off_def)
  then have buf: "buf = take (w11_buf_len h) (w11_buf h) @ take off b"
    unfolding buf_def using l by (intro blit_full) (simp add: off_def)
  then have "length buf = 32" using l \<open>length (take off b) = off\<close> by (simp add: off_def)
  then show ?thesis
    unfolding w11_absorbed_def using a buf
    by (auto simp: stateless_update_append intro!: exI [of _ "a @ buf"])
qed

lemma w11_absorbed_small:
  assumes "w11_absorbed s h d" and "w11_buf_len h + length b < 32"
  shows "w11_absorbed s (h\<lparr>w11_buf := blit (w11_buf h) (w11_buf_len h) b,
                          w11_buf_len := w11_buf_len h + length b\<rparr>) (d @ b)"
  using assms by (auto simp: w11_absorbed_def take_blit)

lemma w11_absorbed_update:
  assumes "w11_absorbed s h d"
  shows "w11_absorbed s (wyhash11_update h b) (d @ b)"
proof -
  consider (flush) "w11_buf_len h \<noteq> 0" "w11_buf_len h + length b \<ge> 32"
    | (small) "w11_buf_len h \<noteq> 0" "w11_buf_len h + length b < 32"
    | (plain) "w11_buf_len h = 0" by linarith
  then show ?thesis
  proof cases
    case flush
    define off where "off = 32 - w11_buf_len h"
    define buf where "buf = blit (w11_buf h) (w11_buf_len h) (take off b)"
    define h1 where "h1 = h\<lparr>w11_buf := buf, w11_state := stateless_update (w11_state h) buf, w11_buf_len := 0\<rparr>"
    have "w11_absorbed s h1 (d @ take off b)"
      using w11_absorbed_flush [OF assms flush(2)] by (simp add: h1_def off_def buf_def)
    from w11_absorbed_plain [OF this _ HOL.refl, of "drop off b"]
    have "w11_absorbed s (h1\<lparr>w11_state := stateless_update (w11_state h1)
        (take (length (drop off b) - length (drop off b) mod 32) (drop off b)),
        w11_buf := blit (w11_buf h1) 0 (drop (length (drop off b) - length (drop off b) mod 32) (drop off b)),
        w11_buf_len := length (drop off b) mod 32\<rparr>) (d @ b)"
      by (simp add: h1_def)
    moreover have "off \<le> length b" using flush by (simp add: off_def)
    ultimately show ?thesis
      using flush unfolding wyhash11_update_def
      by (simp add: Let_def off_def buf_def h1_def add.commute)
  next
    case small
    then have "length b mod 32 = length b" by simp
    with small w11_absorbed_small [OF assms small(2)] show ?thesis
      unfolding wyhash11_update_def by (simp add: Let_def)
  next
    case plain
    with w11_absorbed_plain [OF assms plain HOL.refl, of b] show ?thesis
      unfolding wyhash11_update_def by (simp add: Let_def)
  qed
qed

lemma w11_absorbed_final:
  assumes "w11_absorbed s h d"
  shows "wyhash11_final h = wyhash11_hash s d"
proof -
  obtain a where a: "d = a @ take (w11_buf_len h) (w11_buf h)" "32 dvd length a"
      "w11_state h = stateless_update (stateless_init s) a"
    and l: "length (w11_buf h) = 32" "w11_buf_len h < 32"
    using assms by (auto simp: w11_absorbed_def)
  have "length d mod 32 = w11_buf_len h"
    using a(1,2) l by (auto simp: mod_eq_0_iff_dvd elim!: dvdE)
  moreover have "length d = length a + w11_buf_len h" using a(1) l by simp
  ultimately have "length d - length d mod 32 = length a" by simp
  then show ?thesis
    using a by (simp add: wyhash11_final_def wyhash11_hash_def stateless_hash_def Let_def)
qed

interpretation w11: streaming_hash "wyhash11_init s" wyhash11_update wyhash11_final "wyhash11_hash s"
    "w11_absorbed s" "\<lambda>_. True" for s
proof
  show "w11_absorbed s (wyhash11_init s) []"
    by (auto simp: w11_absorbed_def wyhash11_init_def)
qed (auto simp: w11_absorbed_update w11_absorbed_final)

section \<open>Wyhash (final4)\<close>

definition SECRET :: "u64 list" where
  "SECRET = [0xa0761d6478bd642f, 0xe7037ed1a0b428db, 0x8ebc6af09c88c6e3, 0x589965cc75374cc3]"

text \<open>The state array \<open>[u64; 3]\<close> is the three fields \<open>wy_s0\<close>, \<open>wy_s1\<close>, \<open>wy_s2\<close>.\<close>

record wyhash =
  wy_a :: u64
  wy_b :: u64
  wy_s0 :: u64
  wy_s1 :: u64
  wy_s2 :: u64
  wy_total_len :: u64
  wy_buf :: bytes
  wy_buf_len :: nat

definition read4 :: "bytes \<Rightarrow> u64" where
  "read4 data = from_le_bytes (take 4 data)"

definition read8 :: "bytes \<Rightarrow> u64" where
  "read8 data = from_le_bytes (take 8 data)"

definition wy_mum :: "u64 \<Rightarrow> u64 \<Rightarrow> u64 \<times> u64" where
  "wy_mum a b = (let x = (ucast a :: u128) * ucast b in (ucast x, ucast (drop_bit 64 x)))"

definition wy_mix :: "u64 \<Rightarrow> u64 \<Rightarrow> u64" where
  "wy_mix a b = (case wy_mum a b of (a', b') \<Rightarrow> a' XOR b')"

definition wyhash_init :: "u64 \<Rightarrow> wyhash" where
  "wyhash_init sd =
     (let s0 = sd XOR wy_mix (sd XOR SECRET ! 0) (SECRET ! 1)
      in \<lparr>wy_a = 0, wy_b = 0, wy_s0 = s0, wy_s1 = s0, wy_s2 = s0, wy_total_len = 0,
          wy_buf = replicate 48 (CHR 0x00), wy_buf_len = 0\<rparr>)"

definition wy_round :: "wyhash \<Rightarrow> bytes \<Rightarrow> wyhash" where
  "wy_round h input =
     h\<lparr>wy_s0 := wy_mix (read8 input XOR SECRET ! 1) (read8 (drop 8 input) XOR wy_s0 h),
       wy_s1 := wy_mix (read8 (drop 16 input) XOR SECRET ! 2) (read8 (drop 24 input) XOR wy_s1 h),
       wy_s2 := wy_mix (read8 (drop 32 input) XOR SECRET ! 3) (read8 (drop 40 input) XOR wy_s2 h)\<rparr>"

text \<open>\<open>while i + 48 < input.len()\<close> of \<open>update\<close>: strictly less, so that the last full block stays buffered.\<close>

function wy_round_loop :: "wyhash \<Rightarrow> bytes \<Rightarrow> nat \<Rightarrow> wyhash \<times> nat" where
  "wy_round_loop h input i =
     (if i + 48 < length input
      then wy_round_loop (wy_round h (take 48 (drop i input))) input (i + 48)
      else (h, i))"
  by pat_completeness auto
termination
  by (relation "measure (\<lambda>(h, input, i). length input - i)") auto

declare wy_round_loop.simps [simp del]

definition wyhash_update :: "wyhash \<Rightarrow> bytes \<Rightarrow> wyhash" where
  "wyhash_update h0 input =
     (let h = h0\<lparr>wy_total_len := wy_total_len h0 + word_of_nat (length input)\<rparr> in
      if length input \<le> 48 - wy_buf_len h then
        h\<lparr>wy_buf := blit (wy_buf h) (wy_buf_len h) input, wy_buf_len := wy_buf_len h + length input\<rparr>
      else
        (let (i, h1) =
               (if wy_buf_len h > 0 then
                  (let i = 48 - wy_buf_len h;
                       buf = blit (wy_buf h) (wy_buf_len h) (take i input)
                   in (i, wy_round (h\<lparr>wy_buf := buf, wy_buf_len := 0\<rparr>) buf))
                else (0, h));
             (h2, j) = wy_round_loop h1 input i;
             remaining = drop j input;
             rem = 16 - length remaining;
             buf2 = (if length remaining < 16 \<and> j \<ge> 48
                     then blit (wy_buf h2) (48 - rem) (take rem (drop (j - rem) input))
                     else wy_buf h2)
         in h2\<lparr>wy_buf := blit buf2 0 remaining, wy_buf_len := length remaining\<rparr>))"

definition wy_shallow_copy :: "wyhash \<Rightarrow> wyhash" where
  "wy_shallow_copy h = h\<lparr>wy_buf := replicate 48 (CHR 0x00), wy_buf_len := 0\<rparr>"

definition wy_small_key :: "wyhash \<Rightarrow> bytes \<Rightarrow> wyhash" where
  "wy_small_key h input =
     (if length input \<ge> 4 then
        (let e = length input - 4;
             quarter = (length input div 8) * 4
         in h\<lparr>wy_a := push_bit 32 (read4 input) OR read4 (drop quarter input),
              wy_b := push_bit 32 (read4 (drop e input)) OR read4 (drop (e - quarter) input)\<rparr>)
      else if input \<noteq> [] then
        h\<lparr>wy_a := push_bit 16 (of_char (input ! 0)) OR push_bit 8 (of_char (input ! (length input div 2)))
                  OR of_char (input ! (length input - 1)),
          wy_b := 0\<rparr>
      else h\<lparr>wy_a := 0, wy_b := 0\<rparr>)"

definition wy_final0 :: "wyhash \<Rightarrow> wyhash" where
  "wy_final0 h = h\<lparr>wy_s0 := wy_s0 h XOR (wy_s1 h XOR wy_s2 h)\<rparr>"

function wy_final1_loop :: "u64 \<Rightarrow> bytes \<Rightarrow> nat \<Rightarrow> u64" where
  "wy_final1_loop s0 input i =
     (if i + 16 < length input
      then wy_final1_loop
             (wy_mix (read8 (drop i input) XOR SECRET ! 1) (read8 (drop (i + 8) input) XOR s0)) input (i + 16)
      else s0)"
  by pat_completeness auto
termination
  by (relation "measure (\<lambda>(s0, input, i). length input - i)") auto

declare wy_final1_loop.simps [simp del]

definition wy_final1 :: "wyhash \<Rightarrow> bytes \<Rightarrow> nat \<Rightarrow> wyhash" where
  "wy_final1 h input_lb start_pos =
     h\<lparr>wy_s0 := wy_final1_loop (wy_s0 h) (drop start_pos input_lb) 0,
       wy_a := read8 (drop (length input_lb - 16) input_lb),
       wy_b := read8 (drop (length input_lb - 8) input_lb)\<rparr>"

definition wy_final2 :: "wyhash \<Rightarrow> u64" where
  "wy_final2 h =
     (case wy_mum (wy_a h XOR SECRET ! 1) (wy_b h XOR wy_s0 h) of
        (a, b) \<Rightarrow> wy_mix (a XOR SECRET ! 0 XOR wy_total_len h) (b XOR SECRET ! 1))"

definition wyhash_final :: "wyhash \<Rightarrow> u64" where
  "wyhash_final h =
     (let input = take (wy_buf_len h) (wy_buf h);
          new_self = wy_shallow_copy h
      in if wy_total_len h \<le> 16 then wy_final2 (wy_small_key new_self input)
         else
           (let rem = 16 - wy_buf_len h;
                (lb, offset) =
                  (if wy_buf_len h < 16
                   then (take rem (drop (48 - rem) (wy_buf h)) @ take (wy_buf_len h) (wy_buf h), rem)
                   else (input, 0))
            in wy_final2 (wy_final1 (wy_final0 new_self) lb offset)))"

text \<open>The open-coded round loop of the one-shot \<open>hash\<close>, on the locals \<open>s0\<close>, \<open>s1\<close>, \<open>s2\<close>.\<close>

function wy_hash_loop :: "u64 \<Rightarrow> u64 \<Rightarrow> u64 \<Rightarrow> bytes \<Rightarrow> nat \<Rightarrow> u64 \<times> u64 \<times> u64 \<times> nat" where
  "wy_hash_loop s0 s1 s2 input i =
     (if i < length input - 48 then
        (let r8 = (\<lambda>o'. read8 (drop (i + o') input));
             m0 = (ucast (r8 0 XOR SECRET ! 1) :: u128) * ucast (r8 8 XOR s0);
             m1 = (ucast (r8 16 XOR SECRET ! 2) :: u128) * ucast (r8 24 XOR s1);
             m2 = (ucast (r8 32 XOR SECRET ! 3) :: u128) * ucast (r8 40 XOR s2)
         in wy_hash_loop (ucast m0 XOR ucast (drop_bit 64 m0)) (ucast m1 XOR ucast (drop_bit 64 m1))
              (ucast m2 XOR ucast (drop_bit 64 m2)) input (i + 48))
      else (s0, s1, s2, i))"
  by pat_completeness auto
termination
  by (relation "measure (\<lambda>(s0, s1, s2, input, i). length input - i)") auto

declare wy_hash_loop.simps [simp del]

definition wyhash_hash :: "u64 \<Rightarrow> bytes \<Rightarrow> u64" where
  "wyhash_hash sd input =
     (let this = wyhash_init sd;
          this =
            (if length input \<le> 16 then wy_small_key this input
             else
               (let (this, i) =
                      (if length input \<ge> 48 then
                         (case wy_hash_loop (wy_s0 this) (wy_s1 this) (wy_s2 this) input 0 of
                            (s0, s1, s2, i) \<Rightarrow>
                              (wy_final0 (this\<lparr>wy_s0 := s0, wy_s1 := s1, wy_s2 := s2\<rparr>), i))
                       else (this, 0))
                in wy_final1 this input i))
      in wy_final2 (this\<lparr>wy_total_len := word_of_nat (length input)\<rparr>))"

subsection \<open>Incremental equals one-shot\<close>

text \<open>The part of the state that the rounds change, and the rounds over a whole number of blocks.\<close>

definition wy_core :: "wyhash \<Rightarrow> u64 \<times> u64 \<times> u64" where
  "wy_core h = (wy_s0 h, wy_s1 h, wy_s2 h)"

definition core_round :: "u64 \<times> u64 \<times> u64 \<Rightarrow> bytes \<Rightarrow> u64 \<times> u64 \<times> u64" where
  "core_round c x =
     (case c of (s0, s1, s2) \<Rightarrow>
        (wy_mix (read8 x XOR SECRET ! 1) (read8 (drop 8 x) XOR s0),
         wy_mix (read8 (drop 16 x) XOR SECRET ! 2) (read8 (drop 24 x) XOR s1),
         wy_mix (read8 (drop 32 x) XOR SECRET ! 3) (read8 (drop 40 x) XOR s2)))"

function core_rounds :: "u64 \<times> u64 \<times> u64 \<Rightarrow> bytes \<Rightarrow> u64 \<times> u64 \<times> u64" where
  "core_rounds c a = (if a = [] then c else core_rounds (core_round c (take 48 a)) (drop 48 a))"
  by pat_completeness auto
termination
  by (relation "measure (\<lambda>(c, a). length a)") auto

declare core_rounds.simps [simp del]

lemma core_rounds_Nil [simp]: "core_rounds c [] = c"
  by (simp add: core_rounds.simps)

lemma core_rounds_append:
  assumes "48 dvd length a"
  shows "core_rounds c (a @ b) = core_rounds (core_rounds c a) b"
  using assms
proof (induction c a rule: core_rounds.induct)
  case (1 c a)
  show ?case
  proof (cases "a = []")
    case False
    then have n: "length a \<ge> 48" using 1(2) by (simp add: dvd_imp_le)
    have "core_rounds c (a @ b) = core_rounds (core_round c (take 48 a)) (drop 48 a @ b)"
      using False n by (subst core_rounds.simps) simp
    also have "\<dots> = core_rounds (core_rounds (core_round c (take 48 a)) (drop 48 a)) b"
      using 1(1) [OF False] 1(2) n by (simp add: dvd_diff_nat)
    also have "core_rounds (core_round c (take 48 a)) (drop 48 a) = core_rounds c a"
      using False by (subst (2) core_rounds.simps) simp
    finally show ?thesis .
  qed simp
qed

lemma core_rounds_block: "length x = 48 \<Longrightarrow> core_rounds c x = core_round c x"
  by (subst core_rounds.simps) auto

lemma wy_core_round: "wy_core (wy_round h x) = core_round (wy_core h) x"
  by (simp add: wy_core_def wy_round_def core_round_def)

text \<open>How both loops split the input: whole blocks, then a last block of 1 to 48 bytes.\<close>

definition blocks48 :: "bytes \<Rightarrow> bytes \<Rightarrow> bytes \<Rightarrow> bool" where
  "blocks48 d a r \<longleftrightarrow> d = a @ r \<and> 48 dvd length a \<and> r \<noteq> [] \<and> length r \<le> 48"

lemma short_blocks_empty: "48 dvd length (a :: bytes) \<Longrightarrow> length a < 48 \<Longrightarrow> a = []"
  using dvd_imp_le [of 48 "length a"] by force

lemma blocks48_unique:
  assumes "blocks48 d a r" and "blocks48 d a' r'"
  shows "a' = a \<and> r' = r"
proof -
  obtain k k' where k: "length a = 48 * k" "length a' = 48 * k'"
    using assms by (auto simp: blocks48_def elim!: dvdE)
  have "48 * k + length r = 48 * k' + length r'"
    using assms k by (metis blocks48_def length_append)
  moreover have "0 < length r" "length r \<le> 48" "0 < length r'" "length r' \<le> 48"
    using assms by (auto simp: blocks48_def)
  ultimately have "k = k'" by linarith
  then have "length a' = length a" using k by simp
  then show ?thesis using assms by (auto simp: blocks48_def)
qed

lemma blocks48_step:
  assumes "blocks48 (drop (i + 48) d) a r" and "i + 48 < length d"
  shows "blocks48 (drop i d) (take 48 (drop i d) @ a) r"
proof -
  have "drop i d = take 48 (drop i d) @ drop (i + 48) d"
    by (metis append_take_drop_id drop_drop add.commute)
  then show ?thesis using assms by (auto simp: blocks48_def)
qed

lemma wy_round_loop_blocks:
  "i < length input \<Longrightarrow> \<exists>a r h'. blocks48 (drop i input) a r
     \<and> wy_round_loop h input i = (h', i + length a) \<and> wy_core h' = core_rounds (wy_core h) a
     \<and> wy_buf h' = wy_buf h \<and> wy_total_len h' = wy_total_len h"
proof (induction h input i rule: wy_round_loop.induct)
  case (1 h input i)
  show ?case
  proof (cases "i + 48 < length input")
    case True
    let ?x = "take 48 (drop i input)"
    obtain a r h' where *: "blocks48 (drop (i + 48) input) a r"
      "wy_round_loop (wy_round h ?x) input (i + 48) = (h', i + 48 + length a)"
      "wy_core h' = core_rounds (wy_core (wy_round h ?x)) a"
      "wy_buf h' = wy_buf h" "wy_total_len h' = wy_total_len h"
      using 1(1) [OF True] True by (auto simp: wy_round_def)
    have lx: "length ?x = 48" using True by simp
    have "wy_core h' = core_rounds (wy_core h) (?x @ a)"
      using *(3) lx core_rounds_append [of ?x "wy_core h" a] by (simp add: wy_core_round core_rounds_block)
    moreover have "wy_round_loop h input i = (h', i + length (?x @ a))"
      using *(2) True lx by (subst wy_round_loop.simps) simp
    ultimately show ?thesis
      using blocks48_step [OF *(1) True] *(4,5) by blast
  next
    case False
    then have "blocks48 (drop i input) [] (drop i input)"
      using 1(2) by (auto simp: blocks48_def)
    moreover have "wy_round_loop h input i = (h, i + length ([] :: bytes))"
      using False by (subst wy_round_loop.simps) simp
    ultimately show ?thesis by (metis core_rounds_Nil)
  qed
qed

lemma read8_window: "n \<le> 40 \<Longrightarrow> read8 (drop n (take 48 xs)) = read8 (drop n xs)"
  by (simp add: read8_def drop_take min_def)

lemma wy_hash_loop_step:
  assumes "i + 48 < length input"
  shows "wy_hash_loop s0 s1 s2 input i =
    (case core_round (s0, s1, s2) (take 48 (drop i input)) of
       (t0, t1, t2) \<Rightarrow> wy_hash_loop t0 t1 t2 input (i + 48))"
proof -
  have "i < length input - 48" using assms by simp
  then show ?thesis
    using read8_window [of 0 "drop i input"] read8_window [of 8 "drop i input"]
      read8_window [of 16 "drop i input"] read8_window [of 24 "drop i input"]
      read8_window [of 32 "drop i input"] read8_window [of 40 "drop i input"]
    by (subst wy_hash_loop.simps)
      (simp add: core_round_def wy_mix_def wy_mum_def Let_def ac_simps)
qed

lemma wy_hash_loop_blocks:
  "i < length input \<Longrightarrow> \<exists>a r t0 t1 t2. blocks48 (drop i input) a r
     \<and> wy_hash_loop s0 s1 s2 input i = (t0, t1, t2, i + length a)
     \<and> (t0, t1, t2) = core_rounds (s0, s1, s2) a"
proof (induction "length input - i" arbitrary: s0 s1 s2 i rule: less_induct)
  case less
  show ?case
  proof (cases "i + 48 < length input")
    case True
    let ?x = "take 48 (drop i input)"
    obtain u0 u1 u2 where u: "core_round (s0, s1, s2) ?x = (u0, u1, u2)" by (metis prod_cases3)
    have dec: "length input - (i + 48) < length input - i" using True by linarith
    obtain a r t0 t1 t2 where *: "blocks48 (drop (i + 48) input) a r"
      "wy_hash_loop u0 u1 u2 input (i + 48) = (t0, t1, t2, i + 48 + length a)"
      "(t0, t1, t2) = core_rounds (u0, u1, u2) a"
      using less.hyps [OF dec True, of u0 u1 u2] by blast
    have lx: "length ?x = 48" using True by simp
    have "(t0, t1, t2) = core_rounds (s0, s1, s2) (?x @ a)"
      using *(3) lx u core_rounds_append [of ?x "(s0, s1, s2)" a] by (simp add: core_rounds_block)
    moreover have "wy_hash_loop s0 s1 s2 input i = (t0, t1, t2, i + length (?x @ a))"
      using *(2) True lx u by (simp add: wy_hash_loop_step)
    ultimately show ?thesis using blocks48_step [OF *(1) True] by blast
  next
    case False
    then have "blocks48 (drop i input) [] (drop i input)"
      using less.prems by (auto simp: blocks48_def)
    moreover have "\<not> i < length input - 48" using False by linarith
    then have "wy_hash_loop s0 s1 s2 input i = (s0, s1, s2, i + length ([] :: bytes))"
      by (subst wy_hash_loop.simps) simp
    ultimately show ?thesis by (metis core_rounds_Nil)
  qed
qed

text \<open>
  \<open>h\<close> stands for the input \<open>d = a @ r\<close>: the rounds have run over the whole blocks \<open>a\<close>, the
  1 to 48 bytes \<open>r\<close> are buffered, and when fewer than 16 bytes are buffered the end of the
  buffer still holds the end of the last hashed block, which \<open>final_\<close> reads back.
\<close>

definition wy_absorbed :: "u64 \<Rightarrow> wyhash \<Rightarrow> bytes \<Rightarrow> bool" where
  "wy_absorbed sd h d \<longleftrightarrow>
     length (wy_buf h) = 48 \<and> wy_buf_len h \<le> 48 \<and> wy_total_len h = word_of_nat (length d)
     \<and> (\<exists>a. d = a @ take (wy_buf_len h) (wy_buf h) \<and> 48 dvd length a
          \<and> (wy_buf_len h = 0 \<longrightarrow> a = [])
          \<and> wy_core h = core_rounds (wy_core (wyhash_init sd)) a
          \<and> (a \<noteq> [] \<longrightarrow> wy_buf_len h < 16 \<longrightarrow>
               drop (32 + wy_buf_len h) (wy_buf h) = drop (length a - (16 - wy_buf_len h)) a))"

lemma wy_absorbedE:
  assumes "wy_absorbed sd h d"
  obtains a where "d = a @ take (wy_buf_len h) (wy_buf h)" "48 dvd length a"
    "wy_buf_len h = 0 \<longrightarrow> a = []" "wy_core h = core_rounds (wy_core (wyhash_init sd)) a"
    "a \<noteq> [] \<longrightarrow> wy_buf_len h < 16 \<longrightarrow>
       drop (32 + wy_buf_len h) (wy_buf h) = drop (length a - (16 - wy_buf_len h)) a"
    "length (wy_buf h) = 48" "wy_buf_len h \<le> 48" "wy_total_len h = word_of_nat (length d)"
  using assms unfolding wy_absorbed_def by (elim conjE exE) (rule that)

lemma wy_absorbed_init: "wy_absorbed sd (wyhash_init sd) []"
  by (auto simp: wy_absorbed_def wyhash_init_def Let_def)

lemma wy_absorbed_small:
  assumes "wy_absorbed sd h d" and "length b \<le> 48 - wy_buf_len h"
  shows "wy_absorbed sd (h\<lparr>wy_total_len := wy_total_len h + word_of_nat (length b),
            wy_buf := blit (wy_buf h) (wy_buf_len h) b, wy_buf_len := wy_buf_len h + length b\<rparr>) (d @ b)"
proof -
  let ?n = "wy_buf_len h"
  obtain a where a: "d = a @ take ?n (wy_buf h)" "48 dvd length a" "?n = 0 \<longrightarrow> a = []"
      "wy_core h = core_rounds (wy_core (wyhash_init sd)) a"
      "a \<noteq> [] \<longrightarrow> ?n < 16 \<longrightarrow> drop (32 + ?n) (wy_buf h) = drop (length a - (16 - ?n)) a"
    and l: "length (wy_buf h) = 48" "?n \<le> 48" "wy_total_len h = word_of_nat (length d)"
    using assms(1) by (rule wy_absorbedE)
  have fit: "?n + length b \<le> length (wy_buf h)" using assms(2) l by simp
  have tail: "drop (32 + (?n + length b)) (blit (wy_buf h) ?n b) = drop (length a - (16 - (?n + length b))) a"
    if "a \<noteq> []" and lt: "?n + length b < 16"
  proof -
    have "48 \<le> length a" using that(1) a(2) by (simp add: dvd_imp_le)
    have "drop (32 + (?n + length b)) (blit (wy_buf h) ?n b) = drop (32 + (?n + length b)) (wy_buf h)"
      using l by (intro drop_blit_right) auto
    also have "\<dots> = drop (length b) (drop (32 + ?n) (wy_buf h))" by (simp add: ac_simps)
    also have "\<dots> = drop (length b) (drop (length a - (16 - ?n)) a)" using a(5) that by simp
    also have "\<dots> = drop (length a - (16 - (?n + length b))) a"
      using lt \<open>48 \<le> length a\<close> by (simp add: algebra_simps)
    finally show ?thesis .
  qed
  show ?thesis
    unfolding wy_absorbed_def
    using a l fit tail take_blit [OF fit]
    by (auto intro!: exI [of _ a] simp: wy_core_def)
qed

text \<open>The state in which the loop of \<open>update\<close> starts: everything before position \<open>i\<close> is hashed.\<close>

lemma wy_absorbed_flush:
  assumes "wy_absorbed sd h d" and "wy_buf_len h > 0" and "48 - wy_buf_len h \<le> length b"
  defines "buf \<equiv> blit (wy_buf h) (wy_buf_len h) (take (48 - wy_buf_len h) b)"
  shows "length buf = 48" and "\<exists>a. d @ take (48 - wy_buf_len h) b = a @ buf \<and> 48 dvd length a
           \<and> core_round (wy_core h) buf = core_rounds (wy_core (wyhash_init sd)) (a @ buf)"
proof -
  let ?n = "wy_buf_len h"
  obtain a where a: "d = a @ take ?n (wy_buf h)" "48 dvd length a"
      "wy_core h = core_rounds (wy_core (wyhash_init sd)) a"
    and l: "length (wy_buf h) = 48" "?n \<le> 48"
    using assms(1) by (rule wy_absorbedE)
  have buf: "buf = take ?n (wy_buf h) @ take (48 - ?n) b"
    unfolding buf_def using l assms(3) by (intro blit_full) simp
  then show len: "length buf = 48" using l assms(3) by simp
  show "\<exists>a. d @ take (48 - ?n) b = a @ buf \<and> 48 dvd length a
          \<and> core_round (wy_core h) buf = core_rounds (wy_core (wyhash_init sd)) (a @ buf)"
    using a buf len by (auto simp: core_rounds_append core_rounds_block)
qed

text \<open>The end of \<open>update\<close>: \<open>input = pre @ a2 @ r\<close>, where \<open>a1\<close> (ending in \<open>pre\<close>) and \<open>a2\<close> are hashed.\<close>

lemma wy_absorbed_close:
  assumes r: "r \<noteq> []" "length r \<le> 48" and a: "48 dvd length a" "a \<noteq> []"
    and core: "wy_core h = core_rounds (wy_core (wyhash_init sd)) a"
    and buf: "length (wy_buf h) = 48"
    and tl: "length r < 16 \<longrightarrow> drop (32 + length r) (wy_buf h) = drop (length a - (16 - length r)) a"
    and tot: "wy_total_len h = word_of_nat (length a + length r)"
  shows "wy_absorbed sd (h\<lparr>wy_buf := blit (wy_buf h) 0 r, wy_buf_len := length r\<rparr>) (a @ r)"
proof -
  have "take (length r) (blit (wy_buf h) 0 r) = r"
    using take_blit [of 0 r "wy_buf h"] r buf by simp
  moreover have "drop (32 + length r) (blit (wy_buf h) 0 r) = drop (32 + length r) (wy_buf h)"
    by (rule drop_blit_right) auto
  ultimately show ?thesis
    unfolding wy_absorbed_def using assms
    by (auto simp: wy_core_def intro!: exI [of _ a])
qed

lemma wy_tail_from_input:
  assumes "length buf = 48" and "length r < 16" and "d @ input = a @ r" and "48 \<le> length input - length r"
  defines "rm \<equiv> 16 - length r" and "j \<equiv> length input - length r"
  shows "drop (32 + length r) (blit buf (48 - rm) (take rm (drop (j - rm) input))) = drop (length a - rm) a"
proof -
  have rm: "rm \<le> 16" "48 - rm = 32 + length r" "rm \<le> j" "j \<le> length input"
    using assms by (auto simp: rm_def j_def)
  have src: "length (take rm (drop (j - rm) input)) = rm" using rm by simp
  have "blit buf (48 - rm) (take rm (drop (j - rm) input)) = take (48 - rm) buf @ take rm (drop (j - rm) input)"
    using src assms(1) rm by (intro blit_full) simp
  then have "drop (32 + length r) (blit buf (48 - rm) (take rm (drop (j - rm) input))) = take rm (drop (j - rm) input)"
    using assms(1) rm by simp
  moreover have "a = d @ take j input"
  proof -
    have "length d + length input = length a + length r" using assms(3) by (metis length_append)
    then have "length a = length d + j" using assms(4) by (simp add: j_def)
    moreover have "a = take (length a) (d @ input)" using assms(3) by simp
    ultimately show ?thesis by simp
  qed
  ultimately show ?thesis using rm by (simp add: drop_take)
qed

text \<open>
  The long branch of \<open>update\<close>, from a state \<open>h1\<close> at input position \<open>i\<close> in which the
  blocks \<open>a1\<close> are hashed.
\<close>

lemma wy_absorbed_loop:
  assumes i: "i < length input" and pa: "d @ take i input = pa" "48 dvd length pa"
    and core: "wy_core hs = core_rounds (wy_core (wyhash_init sd)) pa"
    and buf: "length (wy_buf hs) = 48" and tot: "wy_total_len hs = word_of_nat (length d + length input)"
    and start: "i = 0 \<and> 48 < length input \<or> (\<exists>a. pa = a @ wy_buf hs)"
    and loop: "wy_round_loop hs input i = (h2, j)"
    and buf2: "buf2 = (if length (drop j input) < 16 \<and> j \<ge> 48
             then blit (wy_buf h2) (48 - (16 - length (drop j input)))
                    (take (16 - length (drop j input)) (drop (j - (16 - length (drop j input))) input))
             else wy_buf h2)"
  shows "wy_absorbed sd (h2\<lparr>wy_buf := blit buf2 0 (drop j input), wy_buf_len := length (drop j input)\<rparr>) (d @ input)"
proof -
  obtain a2 r where b: "blocks48 (drop i input) a2 r" and j: "j = i + length a2"
    and h2: "wy_core h2 = core_rounds (wy_core hs) a2" "wy_buf h2 = wy_buf hs" "wy_total_len h2 = wy_total_len hs"
    using wy_round_loop_blocks [OF i, of hs] loop by auto
  have dj: "drop j input = r" and rr: "r \<noteq> []" "length r \<le> 48" and a2: "48 dvd length a2"
    using b j drop_drop [of "length a2" i input] by (auto simp: blocks48_def add.commute)
  have split: "d @ input = (pa @ a2) @ r"
    using b pa(1) by (metis append_take_drop_id append.assoc blocks48_def)
  have jl: "j = length input - length r" using dj i by (metis diff_diff_cancel length_drop
        b blocks48_def drop_eq_Nil2 nat_le_linear rr(1))
  have a2_empty: "a2 = []" if "j < 48"
    using that a2 j by (intro short_blocks_empty) auto
  have nonempty: "pa @ a2 \<noteq> []"
  proof (cases "i = 0 \<and> 48 < length input")
    case True
    then have "a2 \<noteq> []" using b by (auto simp: blocks48_def)
    then show ?thesis by simp
  next
    case False
    then show ?thesis using start buf by auto
  qed
  have len2: "length buf2 = 48"
    using buf h2(2) dj jl unfolding buf2 by (auto simp: blit_def)
  have tl: "drop (32 + length r) buf2 = drop (length (pa @ a2) - (16 - length r)) (pa @ a2)" if lt: "length r < 16"
  proof (cases "j \<ge> 48")
    case True
    then show ?thesis
      using wy_tail_from_input [of "wy_buf h2" r d input "pa @ a2"] split lt buf h2(2) dj jl
      unfolding buf2 by simp
  next
    case False
    then have e: "a2 = []" using a2_empty by simp
    then have "\<not> (i = 0 \<and> 48 < length input)" using b by (auto simp: blocks48_def)
    then obtain a where "pa = a @ wy_buf hs" using start by blast
    then show ?thesis using e False lt buf h2(2) unfolding buf2 by (simp add: dj)
  qed
  have "length d + length input = length (pa @ a2) + length r"
    using split by (metis length_append)
  then have "wy_absorbed sd ((h2\<lparr>wy_buf := buf2\<rparr>)\<lparr>
      wy_buf := blit (wy_buf (h2\<lparr>wy_buf := buf2\<rparr>)) 0 r, wy_buf_len := length r\<rparr>) ((pa @ a2) @ r)"
    using rr pa(2) a2 nonempty core h2 len2 tl tot
    by (intro wy_absorbed_close) (auto simp: wy_core_def core_rounds_append)
  then show ?thesis using dj split by simp
qed

lemma wy_absorbed_update:
  assumes "wy_absorbed sd h d"
  shows "wy_absorbed sd (wyhash_update h b) (d @ b)"
proof (cases "length b \<le> 48 - wy_buf_len h")
  case True
  then show ?thesis
    using wy_absorbed_small [OF assms True] by (simp add: wyhash_update_def Let_def)
next
  case long: False
  let ?h = "h\<lparr>wy_total_len := wy_total_len h + word_of_nat (length b)\<rparr>"
  let ?n = "wy_buf_len h"
  obtain a where a: "d = a @ take ?n (wy_buf h)" "?n = 0 \<longrightarrow> a = []" "wy_core h = core_rounds (wy_core (wyhash_init sd)) a"
    and l: "length (wy_buf h) = 48" "wy_total_len h = word_of_nat (length d)"
    using assms by (rule wy_absorbedE)
  define i h1 where "i = (if ?n > 0 then 48 - ?n else 0)"
    and "h1 = (if ?n > 0 then wy_round (?h\<lparr>wy_buf := blit (wy_buf h) ?n (take (48 - ?n) b), wy_buf_len := 0\<rparr>)
                              (blit (wy_buf h) ?n (take (48 - ?n) b)) else ?h)"
  obtain h2 j where loop: "wy_round_loop h1 b i = (h2, j)" by fastforce
  have upd: "wyhash_update h b = h2\<lparr>wy_buf := blit (if length (drop j b) < 16 \<and> j \<ge> 48
             then blit (wy_buf h2) (48 - (16 - length (drop j b)))
                    (take (16 - length (drop j b)) (drop (j - (16 - length (drop j b))) b))
             else wy_buf h2) 0 (drop j b), wy_buf_len := length (drop j b)\<rparr>"
    using long loop unfolding wyhash_update_def i_def h1_def
    by (simp add: Let_def split: if_splits)
  have tot: "wy_total_len h1 = word_of_nat (length d + length b)"
    using l(2) by (simp add: h1_def wy_round_def)
  show ?thesis
  proof (cases "?n > 0")
    case False
    then have "d = []" using a by simp
    with False long l a loop tot show ?thesis
      unfolding upd
      by (intro wy_absorbed_loop [where i = i and pa = "[]" and hs = h1])
        (auto simp: i_def h1_def wy_core_def)
  next
    case True
    have le: "48 - ?n \<le> length b" using long by simp
    from wy_absorbed_flush [OF assms True le]
    obtain a' where f: "length (blit (wy_buf h) ?n (take (48 - ?n) b)) = 48"
      "d @ take (48 - ?n) b = a' @ blit (wy_buf h) ?n (take (48 - ?n) b)" "48 dvd length a'"
      "core_round (wy_core h) (blit (wy_buf h) ?n (take (48 - ?n) b)) =
         core_rounds (wy_core (wyhash_init sd)) (a' @ blit (wy_buf h) ?n (take (48 - ?n) b))"
      by blast
    have b1: "wy_buf h1 = blit (wy_buf h) ?n (take (48 - ?n) b)"
      using True by (simp add: h1_def wy_round_def)
    have c1: "wy_core h1 = core_round (wy_core h) (blit (wy_buf h) ?n (take (48 - ?n) b))"
      using True by (simp add: h1_def wy_core_round) (simp add: wy_core_def)
    show ?thesis
      unfolding upd
      by (rule wy_absorbed_loop [where i = i and pa = "a' @ wy_buf h1" and hs = h1])
        (use True long f b1 c1 tot loop in \<open>auto simp: i_def\<close>)
  qed
qed

subsubsection \<open>Finishing\<close>

lemma wy_final2_cong:
  "wy_a h = wy_a g \<Longrightarrow> wy_b h = wy_b g \<Longrightarrow> wy_s0 h = wy_s0 g \<Longrightarrow> wy_total_len h = wy_total_len g
   \<Longrightarrow> wy_final2 h = wy_final2 g"
  by (simp add: wy_final2_def)

text \<open>Before the first round the three lanes are equal, so that \<open>final0\<close> changes nothing.\<close>

lemma wy_final0_fresh:
  "wy_core h = wy_core (wyhash_init sd) \<Longrightarrow> wy_s0 (wy_final0 h) = wy_s0 (wyhash_init sd)"
  by (simp add: wy_core_def wy_final0_def wyhash_init_def Let_def)

text \<open>What the one-shot \<open>hash\<close> computes on an input longer than 16 bytes, over the block split.\<close>

lemma wyhash_hash_blocks:
  assumes "length d > 16" and b: "blocks48 d a r"
    and core: "wy_core g = core_rounds (wy_core (wyhash_init sd)) a"
  shows "wyhash_hash sd d = wy_final2 ((wy_final1 (wy_final0 g) d (length a))\<lparr>wy_total_len := word_of_nat (length d)\<rparr>)"
proof (cases "length d \<ge> 48")
  case True
  let ?i = "wyhash_init sd"
  have pos: "0 < length d" using assms(1) by linarith
  obtain a' r' t0 t1 t2 where *: "blocks48 (drop 0 d) a' r'"
    "wy_hash_loop (wy_s0 ?i) (wy_s1 ?i) (wy_s2 ?i) d 0 = (t0, t1, t2, 0 + length a')"
    "(t0, t1, t2) = core_rounds (wy_s0 ?i, wy_s1 ?i, wy_s2 ?i) a'"
    using wy_hash_loop_blocks [OF pos] by blast
  then have "a' = a" using blocks48_unique [OF b] by simp
  with * core have g: "(t0, t1, t2) = (wy_s0 g, wy_s1 g, wy_s2 g)" by (simp add: wy_core_def)
  have "wyhash_hash sd d = wy_final2 ((wy_final1 (wy_final0 (?i\<lparr>wy_s0 := t0, wy_s1 := t1, wy_s2 := t2\<rparr>)) d (length a))
      \<lparr>wy_total_len := word_of_nat (length d)\<rparr>)"
    using assms(1) True *(2) \<open>a' = a\<close> by (simp add: wyhash_hash_def Let_def)
  then show ?thesis
    using g by (auto simp: wy_final1_def wy_final0_def intro!: wy_final2_cong)
next
  case False
  then have "a = []" using b by (intro short_blocks_empty) (auto simp: blocks48_def)
  with assms(3) have "wy_s0 (wy_final0 g) = wy_s0 (wyhash_init sd)"
    by (intro wy_final0_fresh) simp
  then show ?thesis
    using assms(1) False \<open>a = []\<close>
    by (auto simp: wyhash_hash_def Let_def wy_final1_def intro!: wy_final2_cong)
qed

lemma wy_absorbed_final:
  assumes abs: "wy_absorbed sd h d" and len: "length d < 2 ^ 64"
  shows "wyhash_final h = wyhash_hash sd d"
proof -
  let ?n = "wy_buf_len h"
  obtain a where a: "d = a @ take ?n (wy_buf h)" "48 dvd length a" "?n = 0 \<longrightarrow> a = []"
      "wy_core h = core_rounds (wy_core (wyhash_init sd)) a"
      "a \<noteq> [] \<longrightarrow> ?n < 16 \<longrightarrow> drop (32 + ?n) (wy_buf h) = drop (length a - (16 - ?n)) a"
      "length (wy_buf h) = 48" "?n \<le> 48" "wy_total_len h = word_of_nat (length d)"
    using abs by (rule wy_absorbedE)
  have small: "wy_total_len h \<le> 16 \<longleftrightarrow> length d \<le> 16"
    using len a(8) by (simp add: word_le_nat_alt unat_of_nat take_bit_nat_eq_self)
  show ?thesis
  proof (cases "length d \<le> 16")
    case True
    then have "a = []" using a(2) arg_cong [OF a(1), of length] by (intro short_blocks_empty) auto
    then have "take ?n (wy_buf h) = d" "wy_s0 h = wy_s0 (wyhash_init sd)"
      using a by (auto simp: wy_core_def)
    then show ?thesis
      using True small a(8)
      by (auto simp: wyhash_final_def wyhash_hash_def Let_def wy_small_key_def wy_shallow_copy_def
          intro!: wy_final2_cong)
  next
    case False
    let ?r = "take ?n (wy_buf h)"
    have nz: "?n \<noteq> 0" using False a(1,3) by auto
    then have b: "blocks48 d a ?r" using a by (auto simp: blocks48_def)
    have g: "wy_core (wy_shallow_copy h) = core_rounds (wy_core (wyhash_init sd)) a"
      using a(4) by (simp add: wy_core_def wy_shallow_copy_def)
    define lb off where "lb = (if ?n < 16 then drop (48 - (16 - ?n)) (wy_buf h) @ ?r else ?r)"
      and "off = (if ?n < 16 then 16 - ?n else 0)"
    have fin: "wyhash_final h = wy_final2 (wy_final1 (wy_final0 (wy_shallow_copy h)) lb off)"
      using False small a(6) by (simp add: wyhash_final_def Let_def lb_def off_def)
    have lbr: "drop off lb = ?r" using a(6) by (simp add: lb_def off_def)
    have last: "16 \<le> length lb \<and> drop (length lb - 16) lb = drop (length d - 16) d
        \<and> drop (length lb - 8) lb = drop (length d - 8) d"
    proof (cases "?n < 16")
      case True
      have "a \<noteq> []" using False True a(1,6) by auto
      then have al: "48 \<le> length a" using a(2) by (simp add: dvd_imp_le)
      have "lb = drop (length a - (16 - ?n)) a @ ?r"
        using True a(5) \<open>a \<noteq> []\<close> by (simp add: lb_def)
      also have "\<dots> = drop (length d - 16) d"
      proof -
        have "length d - 16 = length a - (16 - ?n)"
          using a(6) True al arg_cong [OF a(1), of length] by simp
        moreover have "length a - (16 - ?n) \<le> length a" by simp
        ultimately show ?thesis using a(1) by (metis drop_append diff_is_0_eq drop0)
      qed
      finally have lb: "lb = drop (length d - 16) d" .
      then have "length lb = 16" using False by simp
      then show ?thesis using lb False by simp
    next
      case n: False
      have "length ?r = ?n" using a(6,7) by simp
      then have "length d = length a + ?n" using a(1) by (metis length_append)
      have "drop (length d - k) d = drop (?n - k) ?r" if "k \<le> 16" for k
      proof -
        have "length d - k = length a + (?n - k)"
          using \<open>length d = length a + ?n\<close> n that by linarith
        then show ?thesis by (simp only:) (subst a(1), simp)
      qed
      then show ?thesis using n \<open>length ?r = ?n\<close> by (simp add: lb_def)
    qed
    have "drop (length a) d = ?r" using a(1) by (metis append_eq_conv_conj)
    then show ?thesis
      using wyhash_hash_blocks [OF _ b g] False fin lbr last a(8)
      by (auto simp: wy_final1_def wy_final0_def wy_shallow_copy_def intro!: wy_final2_cong)
  qed
qed

interpretation wy: streaming_hash "wyhash_init sd" wyhash_update wyhash_final "wyhash_hash sd"
    "wy_absorbed sd" "\<lambda>d. length d < 2 ^ 64" for sd
  by unfold_locales (auto simp: wy_absorbed_init wy_absorbed_update wy_absorbed_final)

section \<open>Entry points\<close>

definition bun_hash :: "bytes \<Rightarrow> u64" where
  "bun_hash b = wyhash_hash 0 b"

definition hash32 :: "bytes \<Rightarrow> u32" where
  "hash32 b = ucast (bun_hash b)"

definition hash_with_seed :: "u64 \<Rightarrow> bytes \<Rightarrow> u64" where
  "hash_with_seed sd b = wyhash_hash sd b"

text \<open>\<open>OneShotHasher\<close>: its only field is the running hash.\<close>

definition one_shot_write :: "u64 \<Rightarrow> bytes \<Rightarrow> u64" where
  "one_shot_write h b = wyhash11_hash h b"

definition one_shot_write_u64 :: "u64 \<Rightarrow> u64 \<Rightarrow> u64" where
  "one_shot_write_u64 h n = mum (h XOR n) (PRIMES ! 4)"

section \<open>Properties\<close>

text \<open>
  C19. Streaming and one-shot Wyhash agree.  Feeding the input of a hash of the final version
  (\<open>Wyhash\<close>, with its 48-byte buffer and the copy of the last 16 bytes it keeps across updates)
  in any number of chunks of any sizes, empty ones included, gives the one-shot hash of the
  concatenation, for every seed and every input shorter than the address space.
\<close>

theorem wyhash_streaming_eq_oneshot:
  assumes "length (concat chunks) < 2 ^ 64"
  shows "wyhash_final (foldl wyhash_update (wyhash_init s) chunks) = wyhash_hash s (concat chunks)"
  by (rule wy.final_foldl [OF assms])

theorem wyhash_streaming_eq_oneshot_witness:
  "wyhash_final (foldl wyhash_update (wyhash_init 7) [''bun'', [], '' install''])
     = wyhash_hash 7 ''bun install''"
  using wyhash_streaming_eq_oneshot [of "[''bun'', [], '' install'']" 7] by simp

text \<open>
  Streaming and one-shot Wyhash11 agree.  The older hash, which the lockfile stores, buffers
  up to 31 bytes between updates; again the chunking of the input does not matter.
\<close>

lemma wyhash11_streaming_eq_oneshot:
  "wyhash11_final (foldl wyhash11_update (wyhash11_init s) chunks) = wyhash11_hash s (concat chunks)"
  by (rule w11.final_foldl) simp

end
