(* ===== verification/Semver_String.thy ===== *)
theory Semver_String
  imports Wyhash
begin

unbundle bit_operations_syntax

text \<open>
  The string handles of \<^verbatim>\<open>src/src/semver/lib.rs\<close>: \<open>String\<close> (8 bytes that hold either a short
  string inline or an offset and a length into a shared buffer), \<open>ExternalString\<close> (a handle with
  its hash), \<open>SlicedString\<close> (a slice together with its buffer), the append-only \<open>Buf\<close> with its
  hash-keyed pool and the two-phase \<open>Builder\<close> (count, allocate, append).
\<close>

section \<open>Pointer\<close>

record pointer =
  p_off :: u32
  p_len :: u32

definition pointer_init :: "slice \<Rightarrow> slice \<Rightarrow> pointer" where
  "pointer_init buf inp =
     \<lparr>p_off = ucast (s_addr inp - s_addr buf), p_len = word_of_nat (length (s_bytes inp))\<rparr>"

text \<open>\<open>off\<close> is at byte 0 and \<open>len\<close> at byte 4 of the \<open>repr(C)\<close> layout.\<close>

definition pointer_to_bits :: "pointer \<Rightarrow> u64" where
  "pointer_to_bits p = from_le_bytes (to_le_bytes 4 (ucast (p_off p)) @ to_le_bytes 4 (ucast (p_len p)))"

definition pointer_from_bits :: "u64 \<Rightarrow> pointer" where
  "pointer_from_bits bits =
     (let b = to_le_bytes 8 bits
      in \<lparr>p_off = ucast (from_le_bytes (take 4 b)), p_len = ucast (from_le_bytes (drop 4 b))\<rparr>)"

section \<open>String\<close>

definition MAX_INLINE_LEN :: nat where
  "MAX_INLINE_LEN = 8"

definition MAX_ADDRESSABLE_SPACE_MASK :: u64 where
  "MAX_ADDRESSABLE_SPACE_MASK = push_bit 63 1 - 1"

text \<open>\<open>1u64 << 63\<close>, the mark of an external string.\<close>

definition EXTERNAL_BIT :: u64 where
  "EXTERNAL_BIT = push_bit 63 1"

text \<open>The field \<open>bytes: [u8; 8]\<close>.\<close>

record semver_string =
  raw :: bytes

definition EMPTY :: semver_string where
  "EMPTY = \<lparr>raw = replicate 8 (CHR 0x00)\<rparr>"

text \<open>The arms \<open>[inp[0], .., 0]\<close> of the constructors: the bytes, padded with zeros.\<close>

definition pad8 :: "bytes \<Rightarrow> semver_string" where
  "pad8 inp = \<lparr>raw = inp @ replicate (8 - length inp) (CHR 0x00)\<rparr>"

definition pack_pointer :: "pointer \<Rightarrow> semver_string" where
  "pack_pointer p =
     \<lparr>raw = to_le_bytes 8 ((pointer_to_bits p AND MAX_ADDRESSABLE_SPACE_MASK) OR EXTERNAL_BIT)\<rparr>"

definition string_init :: "slice \<Rightarrow> slice \<Rightarrow> semver_string" where
  "string_init buf inp =
     (if length (s_bytes inp) < 8 then pad8 (s_bytes inp)
      else if length (s_bytes inp) = 8 then
        (if code (s_bytes inp ! 7) \<ge> 128 then pack_pointer (pointer_init buf inp) else pad8 (s_bytes inp))
      else pack_pointer (pointer_init buf inp))"

text \<open>\<open>init_inline\<close>: longer inputs are \<open>unreachable!\<close>.\<close>

definition string_init_inline :: "bytes \<Rightarrow> semver_string option" where
  "string_init_inline inp = (if length inp \<le> 8 then Some (pad8 inp) else None)"

definition can_inline :: "bytes \<Rightarrow> bool" where
  "can_inline buf \<longleftrightarrow>
     (if length buf \<le> 7 then True else if length buf = 8 then code (buf ! 7) AND 128 = 0 else False)"

definition is_inline :: "semver_string \<Rightarrow> bool" where
  "is_inline s \<longleftrightarrow> code (raw s ! 7) AND 128 = 0"

text \<open>
  \<open>init_append\<close> extends a \<open>Vec\<close> and points at its last bytes.  The vector may be moved when it
  grows; only the distance from its start enters the handle, so the model puts it at address 0.
\<close>

definition string_init_append :: "bytes \<Rightarrow> bytes \<Rightarrow> bytes \<times> semver_string" where
  "string_init_append buf inp =
     (let items = buf @ inp;
          off = length items - length inp;
          in_buf = \<lparr>s_addr = word_of_nat off, s_bytes = drop off items\<rparr>
      in (items, pack_pointer (pointer_init \<lparr>s_addr = 0, s_bytes = items\<rparr> in_buf)))"

definition string_init_append_if_needed :: "bytes \<Rightarrow> bytes \<Rightarrow> bytes \<times> semver_string" where
  "string_init_append_if_needed buf inp =
     (if length inp < 8 then (buf, pad8 inp)
      else if length inp = 8 then
        (if code (inp ! 7) \<ge> 128 then string_init_append buf inp else (buf, pad8 inp))
      else string_init_append buf inp)"

definition string_ptr :: "semver_string \<Rightarrow> pointer" where
  "string_ptr s = pointer_from_bits (from_le_bytes (raw s) AND MAX_ADDRESSABLE_SPACE_MASK)"

text \<open>The scan for the terminating zero of an inline string.\<close>

definition inline_bytes :: "bytes \<Rightarrow> bytes" where
  "inline_bytes b = takeWhile (\<lambda>c. c \<noteq> CHR 0x00) b"

definition string_len :: "semver_string \<Rightarrow> nat" where
  "string_len s =
     (if code (raw s ! 7) AND 128 = 0 then length (inline_bytes (raw s))
      else unat (p_len (string_ptr s)))"

text \<open>\<open>slice\<close>: an out-of-range handle (read from a corrupt lockfile) yields the empty string.\<close>

definition string_slice :: "semver_string \<Rightarrow> bytes \<Rightarrow> bytes" where
  "string_slice s buf =
     (if code (raw s ! 7) AND 128 = 0 then inline_bytes (raw s)
      else (let p = string_ptr s; off = unat (p_off p); len = unat (p_len p)
            in if off + len \<le> length buf then take len (drop off buf) else []))"

definition string_eql :: "semver_string \<Rightarrow> semver_string \<Rightarrow> bytes \<Rightarrow> bytes \<Rightarrow> bool" where
  "string_eql this that this_buf that_buf =
     (if is_inline this \<and> is_inline that then from_le_bytes (raw this) = from_le_bytes (raw that)
      else if is_inline this \<noteq> is_inline that then False
      else (let a = string_ptr this; b = string_ptr that;
                a_off = unat (p_off a); a_len = unat (p_len a);
                b_off = unat (p_off b); b_len = unat (p_len b)
            in if a_off + a_len \<le> length this_buf \<and> b_off + b_len \<le> length that_buf
               then take a_len (drop a_off this_buf) = take b_len (drop b_off that_buf)
               else False))"

definition string_is_empty :: "semver_string \<Rightarrow> bool" where
  "string_is_empty s \<longleftrightarrow> from_le_bytes (raw s) = 0"

definition string_order :: "semver_string \<Rightarrow> semver_string \<Rightarrow> bytes \<Rightarrow> bytes \<Rightarrow> ordering" where
  "string_order a b a_buf b_buf = strings_order (string_slice a a_buf) (string_slice b b_buf)"

section \<open>ExternalString and SlicedString\<close>

record external_string =
  es_value :: semver_string
  es_hash :: u64

definition es_default :: external_string where
  "es_default = \<lparr>es_value = EMPTY, es_hash = 0\<rparr>"

definition es_init :: "slice \<Rightarrow> slice \<Rightarrow> u64 \<Rightarrow> external_string" where
  "es_init buf inp hash = \<lparr>es_value = string_init buf inp, es_hash = hash\<rparr>"

definition es_from :: "slice \<Rightarrow> external_string" where
  "es_from inp = \<lparr>es_value = string_init inp inp, es_hash = bun_hash (s_bytes inp)\<rparr>"

definition es_order :: "external_string \<Rightarrow> external_string \<Rightarrow> bytes \<Rightarrow> bytes \<Rightarrow> ordering" where
  "es_order a b a_buf b_buf =
     (if es_hash a = es_hash b \<and> es_hash a > 0 then Equal
      else string_order (es_value a) (es_value b) a_buf b_buf)"

definition es_is_inline :: "external_string \<Rightarrow> bool" where
  "es_is_inline e = is_inline (es_value e)"

definition es_is_empty :: "external_string \<Rightarrow> bool" where
  "es_is_empty e = string_is_empty (es_value e)"

definition es_len :: "external_string \<Rightarrow> nat" where
  "es_len e = string_len (es_value e)"

definition es_slice :: "external_string \<Rightarrow> bytes \<Rightarrow> bytes" where
  "es_slice e buf = string_slice (es_value e) buf"

record sliced_string =
  ss_buf :: slice
  ss_slice :: slice

definition ss_external :: "sliced_string \<Rightarrow> external_string" where
  "ss_external ss = es_init (ss_buf ss) (ss_slice ss) (wyhash11_hash 0 (s_bytes (ss_slice ss)))"

definition ss_value :: "sliced_string \<Rightarrow> semver_string" where
  "ss_value ss = string_init (ss_buf ss) (ss_slice ss)"

definition ss_sub :: "sliced_string \<Rightarrow> slice \<Rightarrow> sliced_string" where
  "ss_sub ss input = \<lparr>ss_buf = ss_buf ss, ss_slice = input\<rparr>"

text \<open>The two hash-table contexts over handles.\<close>

definition ctx_eql :: "bytes \<Rightarrow> bytes \<Rightarrow> semver_string \<Rightarrow> semver_string \<Rightarrow> bool" where
  "ctx_eql arg_buf existing_buf arg existing = string_eql arg existing arg_buf existing_buf"

definition ctx_hash :: "bytes \<Rightarrow> semver_string \<Rightarrow> u64" where
  "ctx_hash arg_buf arg = bun_hash (string_slice arg arg_buf)"

definition array_ctx_hash :: "bytes \<Rightarrow> semver_string \<Rightarrow> u32" where
  "array_ctx_hash arg_buf arg = ucast (bun_hash (string_slice arg arg_buf))"

text \<open>\<open>Formatter::write_char(c as char)\<close>: the UTF-8 encoding of the Latin-1 code point \<open>c\<close>.\<close>

definition write_char :: "byte \<Rightarrow> bytes" where
  "write_char c =
     (if code c < 128 then [c] else [char_of (192 + code c div 64), char_of (128 + code c mod 64)])"

definition fmt_store_path :: "semver_string \<Rightarrow> bytes \<Rightarrow> bytes" where
  "fmt_store_path s buf =
     concat (map (\<lambda>c. write_char
       (if c = CHR ''/'' \<or> c = CHR 0x5C \<or> c = CHR '':'' \<or> c = CHR ''#'' then CHR ''+'' else c))
       (string_slice s buf))"

section \<open>Handles read back what they were made from\<close>

lemma and_128: "n < 256 \<Longrightarrow> (n AND 128 = 0) \<longleftrightarrow> n < (128 :: nat)"
proof -
  assume n: "n < 256"
  have "(n AND 2 ^ 7 = 0) \<longleftrightarrow> \<not> bit n 7" by (rule and_exp_eq_0_iff_not_bit)
  also have "\<dots> \<longleftrightarrow> even (n div 128)" by (simp add: bit_iff_odd)
  also have "\<dots> \<longleftrightarrow> n < 128"
  proof (cases "n < 128")
    case False
    then have "n div 128 = 1" using n by (intro div_nat_eqI) simp_all
    then show ?thesis using False by simp
  qed simp
  finally show ?thesis by simp
qed

lemma code_and_128: "(code c AND 128 = 0) \<longleftrightarrow> code c < 128"
  by (rule and_128) simp

lemma length_pad8 [simp]: "length inp \<le> 8 \<Longrightarrow> length (raw (pad8 inp)) = 8"
  by (simp add: pad8_def)

lemma length_pack_pointer [simp]: "length (raw (pack_pointer p)) = 8"
  by (simp add: pack_pointer_def)

lemma pad8_inline:
  assumes "can_inline inp"
  shows "code (raw (pad8 inp) ! 7) AND 128 = 0"
proof -
  have "length inp \<le> 8" using assms by (auto simp: can_inline_def split: if_splits)
  moreover have "code (CHR 0x00) = 0" by (simp add: code_def)
  ultimately show ?thesis
    using assms by (cases "length inp = 8") (auto simp: pad8_def nth_append can_inline_def split: if_splits)
qed

lemma inline_bytes_pad8:
  assumes "CHR 0x00 \<notin> set inp"
  shows "inline_bytes (raw (pad8 inp)) = inp"
  unfolding inline_bytes_def pad8_def using assms
  by (cases "8 - length inp") (auto intro: takeWhile_append_stop)

lemma mask_bits: "bit MAX_ADDRESSABLE_SPACE_MASK k \<longleftrightarrow> k < 63"
proof -
  have eq: "MAX_ADDRESSABLE_SPACE_MASK = mask 63"
    by (simp add: MAX_ADDRESSABLE_SPACE_MASK_def mask_eq_exp_minus_1)
  show ?thesis by (subst eq) (auto simp: bit_mask_iff)
qed

lemma external_bits: "bit EXTERNAL_BIT k \<longleftrightarrow> k = 63"
proof -
  have eq: "EXTERNAL_BIT = push_bit 63 1" by (rule EXTERNAL_BIT_def)
  show ?thesis by (simp only: eq bit_push_bit_iff) (auto simp: bit_simps)
qed

lemma from_le_bytes_append:
  "length a = n \<Longrightarrow> 8 * n \<le> 64 \<Longrightarrow> from_le_bytes (a @ b) = from_le_bytes a OR push_bit (8 * n) (from_le_bytes b)"
proof (induction a arbitrary: n)
  case (Cons c a)
  have "push_bit (8 * n) w = push_bit 8 (push_bit (8 * length a) w)" for w :: u64
    using Cons.prems(1) by (auto simp: push_bit_push_bit algebra_simps)
  then show ?case using Cons by (simp add: push_bit_or ac_simps)
qed simp

lemma pointer_to_bits_eq:
  "pointer_to_bits p = ucast (p_off p) OR push_bit 32 (ucast (p_len p))"
proof -
  have "pointer_to_bits p = take_bit 32 (ucast (p_off p)) OR push_bit 32 (take_bit 32 (ucast (p_len p)))"
    unfolding pointer_to_bits_def by (subst from_le_bytes_append [of _ 4]) (auto simp: from_to_le_bytes)
  also have "\<dots> = ucast (p_off p) OR push_bit 32 (ucast (p_len p))"
    by (rule bit_word_eqI) (auto simp: bit_simps dest: bit_imp_le_length)
  finally show ?thesis .
qed

lemma take_to_le_bytes: "n \<le> m \<Longrightarrow> take n (to_le_bytes m w) = to_le_bytes n w"
proof (induction n arbitrary: m w)
  case (Suc n)
  then show ?case by (cases m) auto
qed simp

lemma drop_to_le_bytes: "n \<le> m \<Longrightarrow> drop n (to_le_bytes m w) = to_le_bytes (m - n) (drop_bit (8 * n) w)"
proof (induction n arbitrary: m w)
  case (Suc n)
  then obtain k where "m = Suc k" by (cases m) auto
  with Suc show ?case by (simp add: drop_bit_drop_bit algebra_simps)
qed simp

lemma pointer_from_bits_eq:
  "pointer_from_bits b = \<lparr>p_off = ucast b, p_len = ucast (drop_bit 32 b)\<rparr>"
proof -
  have "(ucast (take_bit 32 w) :: u32) = ucast w" for w :: u64
    by (rule bit_word_eqI) (auto simp: bit_simps)
  then show ?thesis
    by (simp add: pointer_from_bits_def Let_def take_to_le_bytes drop_to_le_bytes from_to_le_bytes)
qed

lemma nth_to_le_bytes: "i < n \<Longrightarrow> to_le_bytes n w ! i = char_of (unat (drop_bit (8 * i) w))"
proof (induction n arbitrary: i w)
  case (Suc n)
  then show ?case by (cases i) (auto simp: drop_bit_drop_bit add.commute)
qed simp

lemma top_byte_less: "unat (drop_bit 56 (w :: u64)) < 256"
proof -
  have "unat (drop_bit 56 w) = unat w div 2 ^ 56"
    by (subst unat_drop_bit_eq) (rule drop_bit_eq_div)
  moreover have "unat w < 256 * 2 ^ 56" using unat_lt [of w] by simp
  ultimately show ?thesis by (simp add: less_mult_imp_div_less)
qed

lemma top_bit_clear: "unat (w :: u32) < 2 ^ 31 \<Longrightarrow> \<not> bit w 31"
proof -
  assume "unat w < 2 ^ 31"
  then have "\<not> bit (unat w) 31" by (simp add: bit_iff_odd)
  then show ?thesis by (simp add: bit_unsigned_iff)
qed

lemma top_byte_high: "bit (w :: u64) 63 \<Longrightarrow> \<not> unat (drop_bit 56 w) < 128"
proof -
  assume "bit w 63"
  then have "bit (drop_bit 56 w) 7" by (simp add: bit_drop_bit_eq)
  then have "bit (unat (drop_bit 56 w)) 7" by (simp add: bit_unsigned_iff)
  then have "odd (unat (drop_bit 56 w) div 128)" by (simp add: bit_iff_odd)
  then show ?thesis by auto
qed

text \<open>A packed pointer is recognised as external and loses only the top bit of its length.\<close>

lemma pack_pointer_external: "code (raw (pack_pointer p) ! 7) AND 128 \<noteq> 0"
proof -
  let ?w = "(pointer_to_bits p AND MAX_ADDRESSABLE_SPACE_MASK) OR EXTERNAL_BIT :: u64"
  have byte: "raw (pack_pointer p) ! 7 = char_of (unat (drop_bit 56 ?w))"
    by (simp add: pack_pointer_def nth_to_le_bytes)
  have small: "unat (drop_bit 56 ?w) < 256"
    by (rule top_byte_less)
  have "bit ?w 63" by (simp add: bit_or_iff external_bits)
  then have "\<not> unat (drop_bit 56 ?w) < 128" by (rule top_byte_high)
  moreover have "code (raw (pack_pointer p) ! 7) = unat (drop_bit 56 ?w)"
    using byte small by (simp only: code_def of_char_of) simp
  ultimately have "\<not> code (raw (pack_pointer p) ! 7) < 128" by simp
  then show ?thesis using code_and_128 [of "raw (pack_pointer p) ! 7"] by blast
qed

lemma string_ptr_pack:
  assumes "unat (p_len p) < 2 ^ 31"
  shows "string_ptr (pack_pointer p) = p"
proof -
  let ?b = "pointer_to_bits p"
  let ?w = "(?b AND MAX_ADDRESSABLE_SPACE_MASK) OR EXTERNAL_BIT :: u64"
  have top: "\<not> bit (p_len p) 31"
    using assms by (rule top_bit_clear)
  have "?w AND MAX_ADDRESSABLE_SPACE_MASK = ?b"
  proof (rule bit_word_eqI)
    fix n assume "n < LENGTH(64)"
    show "bit (?w AND MAX_ADDRESSABLE_SPACE_MASK) n = bit ?b n"
      using top by (cases "n = 63") (auto simp: bit_simps mask_bits external_bits pointer_to_bits_eq dest: bit_imp_le_length)
  qed
  then have "string_ptr (pack_pointer p) = pointer_from_bits ?b"
    by (simp add: string_ptr_def pack_pointer_def)
  also have "\<dots> = p"
  proof -
    have "(ucast ?b :: u32) = p_off p"
      unfolding pointer_to_bits_eq by (rule bit_word_eqI) (auto simp: bit_simps)
    moreover have "(ucast (drop_bit 32 ?b) :: u32) = p_len p"
      unfolding pointer_to_bits_eq
      by (rule bit_word_eqI) (auto simp: bit_simps dest: bit_imp_le_length)
    ultimately show ?thesis by (simp add: pointer_from_bits_eq)
  qed
  finally show ?thesis .
qed

lemma string_slice_pack:
  assumes "unat (p_len p) < 2 ^ 31" and "unat (p_off p) + unat (p_len p) \<le> length buf"
  shows "string_slice (pack_pointer p) buf = take (unat (p_len p)) (drop (unat (p_off p)) buf)"
  using assms pack_pointer_external [of p]
  by (simp add: string_slice_def string_ptr_pack [OF assms(1)] Let_def)

lemma pointer_init_in_buffer:
  assumes "in_buffer buf off inp" and "off < 2 ^ 32" and "length (s_bytes inp) < 2 ^ 31"
  shows "unat (p_off (pointer_init buf inp)) = off"
    and "unat (p_len (pointer_init buf inp)) = length (s_bytes inp)"
proof -
  have "s_addr inp - s_addr buf = word_of_nat off"
    using assms(1) by (simp add: in_buffer_def)
  then have "p_off (pointer_init buf inp) = word_of_nat off"
    using assms(2) by (simp add: pointer_init_def unsigned_of_nat take_bit_nat_eq_self)
  then show "unat (p_off (pointer_init buf inp)) = off"
    using assms(2) by (simp add: unat_of_nat)
  show "unat (p_len (pointer_init buf inp)) = length (s_bytes inp)"
    using assms(3) by (simp add: pointer_init_def unat_of_nat)
qed

text \<open>
  The strings a handle can hold: short ones are stored inline and cannot contain a zero byte;
  longer ones need an offset that fits 32 bits and a length that fits 31 bits.
\<close>

definition storable :: "bytes \<Rightarrow> bool" where
  "storable x \<longleftrightarrow> (if can_inline x then CHR 0x00 \<notin> set x else length x < 2 ^ 31)"

lemma string_init_inline_case: "can_inline (s_bytes inp) \<Longrightarrow> string_init buf inp = pad8 (s_bytes inp)"
  by (auto simp: string_init_def can_inline_def code_and_128 split: if_splits)

lemma string_init_external_case:
  "\<not> can_inline (s_bytes inp) \<Longrightarrow> string_init buf inp = pack_pointer (pointer_init buf inp)"
  by (auto simp: string_init_def can_inline_def code_and_128 split: if_splits)

lemma string_slice_pad8:
  "can_inline x \<Longrightarrow> CHR 0x00 \<notin> set x \<Longrightarrow> string_slice (pad8 x) buf = x"
  by (simp add: string_slice_def pad8_inline inline_bytes_pad8)

lemma string_slice_init:
  assumes "in_buffer buf off inp" and "off < 2 ^ 32" and "storable (s_bytes inp)"
  shows "string_slice (string_init buf inp) (s_bytes buf) = s_bytes inp"
proof (cases "can_inline (s_bytes inp)")
  case True
  then show ?thesis
    using assms(3) by (simp add: string_init_inline_case string_slice_pad8 storable_def)
next
  case False
  then have len: "length (s_bytes inp) < 2 ^ 31" using assms(3) by (simp add: storable_def)
  note p = pointer_init_in_buffer [OF assms(1,2) len]
  have "off + length (s_bytes inp) \<le> length (s_bytes buf)"
    using assms(1) by (simp add: in_buffer_def)
  then have "string_slice (pack_pointer (pointer_init buf inp)) (s_bytes buf)
      = take (length (s_bytes inp)) (drop off (s_bytes buf))"
    using string_slice_pack [of "pointer_init buf inp" "s_bytes buf"] p len by simp
  then show ?thesis
    using assms(1) False by (simp add: string_init_external_case in_buffer_def)
qed

text \<open>A handle that fits keeps reading the same bytes when the buffer grows at the end.\<close>

definition handle_ok :: "semver_string \<Rightarrow> bytes \<Rightarrow> bool" where
  "handle_ok s buf \<longleftrightarrow>
     length (raw s) = 8 \<and>
     (code (raw s ! 7) AND 128 = 0
      \<or> unat (p_off (string_ptr s)) + unat (p_len (string_ptr s)) \<le> length buf)"

lemma string_slice_append: "handle_ok s buf \<Longrightarrow> string_slice s (buf @ ext) = string_slice s buf"
  by (auto simp: handle_ok_def string_slice_def Let_def)

lemma handle_ok_append: "handle_ok s buf \<Longrightarrow> handle_ok s (buf @ ext)"
  by (auto simp: handle_ok_def)

section \<open>Buf: an append-only buffer with a string pool\<close>

type_synonym string_pool = "u64 \<rightharpoonup> semver_string"

record string_buf =
  sb_bytes :: bytes
  sb_pool :: string_pool

definition string_hash :: "bytes \<Rightarrow> u64" where
  "string_hash b = wyhash11_hash 0 b"

definition buf_append_with_hash :: "string_buf \<Rightarrow> bytes \<Rightarrow> u64 \<Rightarrow> (string_buf \<times> semver_string) option" where
  "buf_append_with_hash b str hash =
     (if can_inline str then map_option (\<lambda>s. (b, s)) (string_init_inline str)
      else (case sb_pool b hash of
              Some s \<Rightarrow> Some (b, s)
            | None \<Rightarrow>
                (case string_init_append (sb_bytes b) str of
                   (items, new) \<Rightarrow>
                     Some (b\<lparr>sb_bytes := items, sb_pool := (sb_pool b)(hash \<mapsto> new)\<rparr>, new))))"

definition buf_append :: "string_buf \<Rightarrow> bytes \<Rightarrow> (string_buf \<times> semver_string) option" where
  "buf_append b str =
     (if can_inline str then map_option (\<lambda>s. (b, s)) (string_init_inline str)
      else buf_append_with_hash b str (string_hash str))"

definition buf_append_external_with_hash ::
    "string_buf \<Rightarrow> bytes \<Rightarrow> u64 \<Rightarrow> (string_buf \<times> external_string) option" where
  "buf_append_external_with_hash b str hash =
     map_option (\<lambda>(b', s). (b', \<lparr>es_value = s, es_hash = hash\<rparr>)) (buf_append_with_hash b str hash)"

definition buf_append_external :: "string_buf \<Rightarrow> bytes \<Rightarrow> (string_buf \<times> external_string) option" where
  "buf_append_external b str = buf_append_external_with_hash b str (string_hash str)"

text \<open>Every pooled handle lies inside the buffer and reads a string with the hash it is filed under.\<close>

definition buf_ok :: "string_buf \<Rightarrow> bool" where
  "buf_ok b \<longleftrightarrow>
     (\<forall>h s. sb_pool b h = Some s \<longrightarrow>
        handle_ok s (sb_bytes b) \<and> string_hash (string_slice s (sb_bytes b)) = h)"

lemma handle_ok_pack:
  "unat (p_len p) < 2 ^ 31 \<Longrightarrow> unat (p_off p) + unat (p_len p) \<le> length buf \<Longrightarrow> handle_ok (pack_pointer p) buf"
  by (simp add: handle_ok_def string_ptr_pack)

lemma handle_ok_pad8: "can_inline x \<Longrightarrow> handle_ok (pad8 x) buf"
  by (auto simp: handle_ok_def pad8_inline can_inline_def split: if_splits)

lemma string_init_append_slice:
  assumes "length buf < 2 ^ 32" and "length x < 2 ^ 31"
  shows "string_init_append buf x = (buf @ x, snd (string_init_append buf x))"
    and "string_slice (snd (string_init_append buf x)) (buf @ x) = x"
    and "handle_ok (snd (string_init_append buf x)) (buf @ x)"
proof -
  let ?items = "\<lparr>s_addr = 0, s_bytes = buf @ x\<rparr>"
  let ?in = "\<lparr>s_addr = word_of_nat (length buf), s_bytes = x\<rparr>"
  have h: "snd (string_init_append buf x) = pack_pointer (pointer_init ?items ?in)"
    by (simp add: string_init_append_def Let_def)
  have "in_buffer ?items (length buf) ?in" by (simp add: in_buffer_def)
  note p = pointer_init_in_buffer [OF this, unfolded slice.simps, OF assms]
  show "string_init_append buf x = (buf @ x, snd (string_init_append buf x))"
    by (simp add: string_init_append_def Let_def)
  show "string_slice (snd (string_init_append buf x)) (buf @ x) = x"
    using string_slice_pack [of "pointer_init ?items ?in" "buf @ x"] p assms(2) by (simp add: h)
  show "handle_ok (snd (string_init_append buf x)) (buf @ x)"
    unfolding h using p assms(2) by (intro handle_ok_pack) auto
qed

lemma buf_append_with_hash_inline:
  assumes "can_inline str"
  shows "buf_append_with_hash b str h = Some (b, pad8 str)"
proof -
  have "length str \<le> 8" using assms by (auto simp: can_inline_def split: if_splits)
  then show ?thesis using assms by (simp add: buf_append_with_hash_def string_init_inline_def)
qed

text \<open>
  One append: it never panics, keeps the invariant and every earlier handle, and the new handle
  reads a string with the hash of the argument.  Two strings of the same hash share a handle
  (\<open>found_existing\<close> is not compared byte by byte), so the handle reads the argument itself
  whenever the pooled string is not a different one of the same hash.
\<close>

lemma buf_append_external_ok:
  assumes ok: "buf_ok b" and len: "length (sb_bytes b) < 2 ^ 32" and st: "storable str"
  shows "\<exists>b' s. buf_append_with_hash b str (string_hash str) = Some (b', s) \<and> buf_ok b'
           \<and> (\<exists>ext. sb_bytes b' = sb_bytes b @ ext)
           \<and> handle_ok s (sb_bytes b')
           \<and> string_hash (string_slice s (sb_bytes b')) = string_hash str
           \<and> (\<not> can_inline str \<longrightarrow> sb_pool b' (string_hash str) = Some s)
           \<and> (can_inline str \<or> sb_pool b (string_hash str) = None \<longrightarrow> string_slice s (sb_bytes b') = str)"
proof (cases "can_inline str")
  case True
  then show ?thesis
    using ok st by (auto simp: buf_append_with_hash_inline storable_def string_slice_pad8 handle_ok_pad8)
next
  case False
  then have lt: "length str < 2 ^ 31" using st by (simp add: storable_def)
  show ?thesis
  proof (cases "sb_pool b (string_hash str)")
    case (Some s)
    then show ?thesis using ok False by (auto simp: buf_append_with_hash_def buf_ok_def)
  next
    case None
    note n = string_init_append_slice [OF len lt]
    define new where "new = snd (string_init_append (sb_bytes b) str)"
    define b' where "b' = b\<lparr>sb_bytes := sb_bytes b @ str, sb_pool := (sb_pool b)(string_hash str \<mapsto> new)\<rparr>"
    have app: "buf_append_with_hash b str (string_hash str) = Some (b', new)"
      using False None n(1) by (simp add: buf_append_with_hash_def b'_def new_def split_beta) (metis fst_conv)
    have "buf_ok b'"
      using ok n(2,3) unfolding buf_ok_def b'_def new_def
      by (auto simp: string_slice_append handle_ok_append)
    with app n(2,3) show ?thesis unfolding b'_def new_def by auto
  qed
qed

section \<open>Builder: count, allocate, append\<close>

record builder =
  b_len :: nat
  b_cap :: nat
  b_ptr :: "slice option"
  b_pool :: string_pool

definition builder_default :: builder where
  "builder_default = \<lparr>b_len = 0, b_cap = 0, b_ptr = None, b_pool = Map.empty\<rparr>"

definition builder_count_with_hash :: "builder \<Rightarrow> bytes \<Rightarrow> u64 \<Rightarrow> builder" where
  "builder_count_with_hash b x hash =
     (if length x \<le> MAX_INLINE_LEN then b
      else if b_pool b hash = None then b\<lparr>b_cap := b_cap b + length x\<rparr> else b)"

definition builder_count :: "builder \<Rightarrow> bytes \<Rightarrow> builder" where
  "builder_count b x =
     builder_count_with_hash b x (if length x \<ge> MAX_INLINE_LEN then string_hash x else - 1)"

text \<open>\<open>allocate\<close>: zeroed memory at an address \<open>addr\<close> that the allocator chooses.\<close>

definition builder_allocate :: "u64 \<Rightarrow> builder \<Rightarrow> builder" where
  "builder_allocate addr b = b\<lparr>b_ptr := Some \<lparr>s_addr = addr, s_bytes = replicate (b_cap b) (CHR 0x00)\<rparr>\<rparr>"

text \<open>\<open>allocated_slice\<close>; \<open>ea\<close> is the address of the empty slice literal \<open>&[]\<close>.\<close>

definition builder_allocated_slice :: "u64 \<Rightarrow> builder \<Rightarrow> slice option" where
  "builder_allocated_slice ea b =
     (if b_cap b > 0 then (case b_ptr b of None \<Rightarrow> None | Some p \<Rightarrow> sub_slice p 0 (b_cap b))
      else Some \<lparr>s_addr = ea, s_bytes = []\<rparr>)"

text \<open>
  The block that the append operations share: copy the bytes to \<open>ptr[len..cap]\<close>, advance \<open>len\<close>,
  and return the whole allocation with the slice just written.
\<close>

definition builder_write :: "builder \<Rightarrow> bytes \<Rightarrow> (builder \<times> slice \<times> slice) option" where
  "builder_write b x =
     (case b_ptr b of
        None \<Rightarrow> None
      | Some p \<Rightarrow>
          if b_len b \<le> b_cap b \<and> b_cap b \<le> length (s_bytes p) \<and> length x \<le> b_cap b - b_len b then
            (let p' = p\<lparr>s_bytes := blit (s_bytes p) (b_len b) x\<rparr>;
                 b' = b\<lparr>b_ptr := Some p', b_len := b_len b + length x\<rparr>
             in case sub_slice p' 0 (b_cap b) of
                  None \<Rightarrow> None
                | Some allocated \<Rightarrow>
                    map_option (\<lambda>final. (b', allocated, final))
                      (sub_slice allocated (b_len b) (b_len b + length x)))
          else None)"

definition builder_append_without_pool ::
    "u64 \<Rightarrow> builder \<Rightarrow> slice \<Rightarrow> u64 \<Rightarrow> (builder \<times> external_string) option" where
  "builder_append_without_pool ea b x hash =
     (if length (s_bytes x) \<le> MAX_INLINE_LEN then
        map_option (\<lambda>allocated. (b, es_init allocated x hash)) (builder_allocated_slice ea b)
      else
        map_option (\<lambda>(b', allocated, final). (b', es_init allocated final hash))
          (builder_write b (s_bytes x)))"

definition builder_append_utf8_without_pool ::
    "u64 \<Rightarrow> builder \<Rightarrow> slice \<Rightarrow> u64 \<Rightarrow> (builder \<times> external_string) option" where
  "builder_append_utf8_without_pool ea b x hash =
     (if length (s_bytes x) \<le> MAX_INLINE_LEN \<and> is_all_ascii (s_bytes x) then
        map_option (\<lambda>allocated. (b, es_init allocated x hash)) (builder_allocated_slice ea b)
      else
        map_option (\<lambda>(b', allocated, final). (b', es_init allocated final hash))
          (builder_write b (s_bytes x)))"

definition builder_append_with_hash ::
    "u64 \<Rightarrow> builder \<Rightarrow> slice \<Rightarrow> u64 \<Rightarrow> (builder \<times> external_string) option" where
  "builder_append_with_hash ea b x hash =
     (if length (s_bytes x) \<le> MAX_INLINE_LEN then
        map_option (\<lambda>allocated. (b, es_init allocated x hash)) (builder_allocated_slice ea b)
      else
        (case b_pool b hash of
           Some s \<Rightarrow>
             (case b_ptr b of
                None \<Rightarrow> None
              | Some p \<Rightarrow>
                  (case sub_slice p 0 (b_cap b) of
                     None \<Rightarrow> None
                   | Some allocated \<Rightarrow>
                       if string_slice s (s_bytes allocated) \<noteq> s_bytes x
                       then builder_append_without_pool ea b x hash
                       else Some (b, \<lparr>es_value = s, es_hash = hash\<rparr>)))
         | None \<Rightarrow>
             (case builder_write b (s_bytes x) of
                None \<Rightarrow> None
              | Some (b', allocated, final) \<Rightarrow>
                  (let s = string_init allocated final
                   in Some (b'\<lparr>b_pool := (b_pool b')(hash \<mapsto> s)\<rparr>, \<lparr>es_value = s, es_hash = hash\<rparr>)))))"

definition builder_append :: "u64 \<Rightarrow> builder \<Rightarrow> slice \<Rightarrow> (builder \<times> external_string) option" where
  "builder_append ea b x = builder_append_with_hash ea b x (string_hash (s_bytes x))"

fun builder_append_all :: "u64 \<Rightarrow> builder \<Rightarrow> slice list \<Rightarrow> (builder \<times> external_string list) option" where
  "builder_append_all ea b [] = Some (b, [])"
| "builder_append_all ea b (x # xs) =
     (case builder_append ea b x of
        None \<Rightarrow> None
      | Some (b', e) \<Rightarrow>
          (case builder_append_all ea b' xs of
             None \<Rightarrow> None
           | Some (b'', es) \<Rightarrow> Some (b'', e # es)))"

text \<open>The bytes written so far; the rest of the allocation is not yet owned by any handle.\<close>

definition b_written :: "builder \<Rightarrow> bytes" where
  "b_written b = (case b_ptr b of None \<Rightarrow> [] | Some p \<Rightarrow> take (b_len b) (s_bytes p))"

lemma b_written_pool [simp]: "b_written (b\<lparr>b_pool := m\<rparr>) = b_written b"
  by (simp add: b_written_def split: option.split)

definition builder_ok :: "builder \<Rightarrow> bool" where
  "builder_ok b \<longleftrightarrow>
     b_len b \<le> b_cap b \<and> b_cap b < 2 ^ 32
     \<and> (\<exists>p. b_ptr b = Some p \<and> length (s_bytes p) = b_cap b)
     \<and> (\<forall>h s. b_pool b h = Some s \<longrightarrow> handle_ok s (b_written b))"

text \<open>
  The strings that the builder stores correctly.  An 8-byte string whose last byte is not ASCII
  is neither inline nor counted nor copied, see \<open>builder_append_non_ascii8\<close> below.
\<close>

definition builder_storable :: "bytes \<Rightarrow> bool" where
  "builder_storable x \<longleftrightarrow> storable x \<and> (can_inline x \<or> 8 < length x)"

lemma string_slice_written:
  assumes "handle_ok s (take n buf)"
  shows "string_slice s buf = string_slice s (take n buf)"
  using string_slice_append [OF assms, of "drop n buf"] by simp

lemma builder_write_ok:
  assumes ok: "builder_ok b" and fit: "b_len b + length x \<le> b_cap b" and len: "length x < 2 ^ 31"
    and big: "\<not> can_inline x"
  shows "\<exists>b' allocated final. builder_write b x = Some (b', allocated, final)
           \<and> b_written b' = b_written b @ x \<and> builder_ok b'
           \<and> b_len b' = b_len b + length x \<and> b_cap b' = b_cap b \<and> b_pool b' = b_pool b
           \<and> string_slice (string_init allocated final) (b_written b') = x
           \<and> handle_ok (string_init allocated final) (b_written b')"
proof -
  obtain p where p: "b_ptr b = Some p" "length (s_bytes p) = b_cap b"
    and lc: "b_len b \<le> b_cap b" "b_cap b < 2 ^ 32"
    and pool: "\<And>h s. b_pool b h = Some s \<Longrightarrow> handle_ok s (b_written b)"
    using ok by (auto simp: builder_ok_def)
  define p' where "p' = p\<lparr>s_bytes := blit (s_bytes p) (b_len b) x\<rparr>"
  define b' where "b' = b\<lparr>b_ptr := Some p', b_len := b_len b + length x\<rparr>"
  have lp': "length (s_bytes p') = b_cap b" using p fit by (simp add: p'_def)
  define final where "final = \<lparr>s_addr = s_addr p' + word_of_nat (b_len b),
      s_bytes = take (length x) (drop (b_len b) (s_bytes p'))\<rparr>"
  have alloc: "sub_slice p' 0 (b_cap b) = Some p'" using lp' by (simp add: sub_slice_def)
  have fin: "sub_slice p' (b_len b) (b_len b + length x) = Some final"
    using fit lp' by (simp add: sub_slice_def final_def)
  have wr: "builder_write b x = Some (b', p', final)"
    using p lc fit alloc fin by (simp add: builder_write_def p'_def b'_def Let_def)
  have tk: "take (b_len b + length x) (s_bytes p') = take (b_len b) (s_bytes p) @ x"
    unfolding p'_def using take_blit [of "b_len b" x "s_bytes p"] p fit by simp
  then have w: "b_written b' = b_written b @ x"
    using p by (simp add: b_written_def b'_def)
  have fb: "s_bytes final = x"
    using tk p lc by (simp add: final_def p'_def blit_def)
  let ?w = "\<lparr>s_addr = s_addr p', s_bytes = b_written b'\<rparr>"
  have lw: "length (b_written b) = b_len b" using p lc by (simp add: b_written_def)
  have inb: "in_buffer ?w (b_len b) final"
    using fb w lw by (simp add: in_buffer_def final_def)
  have same: "string_init p' final = string_init ?w final"
    using big fb by (simp add: string_init_external_case pointer_init_def)
  have st: "storable (s_bytes final)" using fb len big by (simp add: storable_def)
  have lt: "b_len b < 2 ^ 32" using lc by simp
  have sl: "string_slice (string_init p' final) (b_written b') = x"
    using string_slice_init [OF inb lt st] same fb by simp
  note pi = pointer_init_in_buffer [OF inb lt, unfolded fb, OF len]
  have hok: "handle_ok (string_init p' final) (b_written b')"
    using same big fb pi len w lw
    by (auto simp: string_init_external_case intro!: handle_ok_pack)
  have "builder_ok b'"
    unfolding builder_ok_def using lc fit lp' pool w
    by (auto simp: b'_def intro!: handle_ok_append)
  then show ?thesis using wr w sl hok by (auto simp: b'_def)
qed

lemma builder_append_ok:
  assumes ok: "builder_ok b" and st: "builder_storable (s_bytes x)"
    and fit: "8 < length (s_bytes x) \<Longrightarrow> b_len b + length (s_bytes x) \<le> b_cap b"
  shows "\<exists>b' e. builder_append ea b x = Some (b', e) \<and> builder_ok b'
           \<and> (\<exists>ext. b_written b' = b_written b @ ext) \<and> b_cap b' = b_cap b
           \<and> b_len b' \<le> b_len b + (if 8 < length (s_bytes x) then length (s_bytes x) else 0)
           \<and> handle_ok (es_value e) (b_written b') \<and> es_slice e (b_written b') = s_bytes x
           \<and> es_hash e = string_hash (s_bytes x)"
proof (cases "length (s_bytes x) \<le> 8")
  case True
  then have inl: "can_inline (s_bytes x)" "CHR 0x00 \<notin> set (s_bytes x)"
    using st by (auto simp: builder_storable_def storable_def)
  have "builder_allocated_slice ea b \<noteq> None"
    using ok by (auto simp: builder_allocated_slice_def builder_ok_def sub_slice_def)
  then obtain al where "builder_allocated_slice ea b = Some al" by blast
  then show ?thesis
    using True ok inl
    by (auto simp: builder_append_def builder_append_with_hash_def MAX_INLINE_LEN_def es_init_def
        string_init_inline_case es_slice_def string_slice_pad8 handle_ok_pad8)
next
  case False
  then have big: "\<not> can_inline (s_bytes x)" and len: "length (s_bytes x) < 2 ^ 31"
    using st by (auto simp: builder_storable_def storable_def can_inline_def)
  have fit': "b_len b + length (s_bytes x) \<le> b_cap b" using fit False by simp
  obtain b' al fn where w: "builder_write b (s_bytes x) = Some (b', al, fn)"
      "b_written b' = b_written b @ s_bytes x" "builder_ok b'"
      "b_len b' = b_len b + length (s_bytes x)" "b_cap b' = b_cap b" "b_pool b' = b_pool b"
      "string_slice (string_init al fn) (b_written b') = s_bytes x"
      "handle_ok (string_init al fn) (b_written b')"
    using builder_write_ok [OF ok fit' len big] by blast
  show ?thesis
  proof (cases "b_pool b (string_hash (s_bytes x))")
    case None
    have "builder_ok (b'\<lparr>b_pool := (b_pool b')(string_hash (s_bytes x) \<mapsto> string_init al fn)\<rparr>)"
      using w(3,8) by (auto simp: builder_ok_def)
    then show ?thesis
      using None False w
      by (auto simp: builder_append_def builder_append_with_hash_def MAX_INLINE_LEN_def es_slice_def
          Let_def)
  next
    case (Some s)
    obtain p where p: "b_ptr b = Some p" "length (s_bytes p) = b_cap b"
      using ok by (auto simp: builder_ok_def)
    have al: "sub_slice p 0 (b_cap b) = Some p" using p by (simp add: sub_slice_def)
    have hs: "handle_ok s (b_written b)" using ok Some by (auto simp: builder_ok_def)
    show ?thesis
    proof (cases "string_slice s (s_bytes p) = s_bytes x")
      case True
      then have "string_slice s (b_written b) = s_bytes x"
        using string_slice_written [of s "b_len b" "s_bytes p"] hs p by (simp add: b_written_def)
      then show ?thesis
        using True Some False p al ok hs
        by (auto simp: builder_append_def builder_append_with_hash_def MAX_INLINE_LEN_def es_slice_def)
    next
      case neq: False
      then show ?thesis
        using Some False p al w
        by (auto simp: builder_append_def builder_append_with_hash_def builder_append_without_pool_def
            MAX_INLINE_LEN_def es_slice_def es_init_def)
    qed
  qed
qed

text \<open>How much of the allocation a list of strings uses: what \<open>count\<close> adds up.\<close>

definition counted :: "slice list \<Rightarrow> nat" where
  "counted xs = (\<Sum>x\<leftarrow>xs. if 8 < length (s_bytes x) then length (s_bytes x) else 0)"

lemma builder_count_cap:
  "b_pool b = Map.empty \<Longrightarrow>
   foldl (\<lambda>b x. builder_count b (s_bytes x)) b xs = b\<lparr>b_cap := b_cap b + counted xs\<rparr>"
proof (induction xs arbitrary: b)
  case (Cons x xs)
  then show ?case
    by (auto simp: builder_count_def builder_count_with_hash_def MAX_INLINE_LEN_def counted_def)
qed (simp add: counted_def)

lemma builder_append_all_ok:
  assumes "builder_ok b" and "\<forall>x\<in>set xs. builder_storable (s_bytes x)" and "b_len b + counted xs \<le> b_cap b"
  shows "\<exists>b' es. builder_append_all ea b xs = Some (b', es) \<and> builder_ok b'
           \<and> (\<exists>ext. b_written b' = b_written b @ ext)
           \<and> map (\<lambda>e. es_slice e (b_written b')) es = map s_bytes xs
           \<and> (\<forall>e\<in>set es. handle_ok (es_value e) (b_written b'))
           \<and> map es_hash es = map (string_hash \<circ> s_bytes) xs"
  using assms
proof (induction xs arbitrary: b)
  case (Cons x xs)
  have fit: "8 < length (s_bytes x) \<Longrightarrow> b_len b + length (s_bytes x) \<le> b_cap b"
    using Cons.prems(3) by (simp add: counted_def)
  have st: "builder_storable (s_bytes x)" using Cons.prems(2) by simp
  obtain b1 e where s: "builder_append ea b x = Some (b1, e)" "builder_ok b1" "b_cap b1 = b_cap b"
      "b_len b1 \<le> b_len b + (if 8 < length (s_bytes x) then length (s_bytes x) else 0)"
      "handle_ok (es_value e) (b_written b1)" "es_slice e (b_written b1) = s_bytes x"
      "es_hash e = string_hash (s_bytes x)" and "\<exists>ext. b_written b1 = b_written b @ ext"
    using builder_append_ok [OF Cons.prems(1) st fit, of ea] by blast
  then obtain ex1 where x1: "b_written b1 = b_written b @ ex1" by blast
  have "b_len b1 + counted xs \<le> b_cap b1"
    using s(3,4) Cons.prems(3) by (simp add: counted_def split: if_splits)
  then obtain b2 es ex2 where r: "builder_append_all ea b1 xs = Some (b2, es)" "builder_ok b2"
      "b_written b2 = b_written b1 @ ex2"
      "map (\<lambda>e. es_slice e (b_written b2)) es = map s_bytes xs"
      "\<forall>e\<in>set es. handle_ok (es_value e) (b_written b2)"
      "map es_hash es = map (string_hash \<circ> s_bytes) xs"
    using Cons.IH [OF s(2)] Cons.prems(2) by auto
  have "es_slice e (b_written b2) = s_bytes x" "handle_ok (es_value e) (b_written b2)"
    using s(5,6) r(3) by (simp_all add: es_slice_def string_slice_append handle_ok_append)
  then show ?case using s r x1 by auto
qed auto

text \<open>The bytes of the whole allocation, against which the finished handles are read.\<close>

definition b_bytes :: "builder \<Rightarrow> bytes" where
  "b_bytes b = (case b_ptr b of None \<Rightarrow> [] | Some p \<Rightarrow> s_bytes p)"

lemma es_slice_b_bytes: "handle_ok (es_value e) (b_written b) \<Longrightarrow> es_slice e (b_bytes b) = es_slice e (b_written b)"
  by (auto simp: es_slice_def b_bytes_def b_written_def string_slice_written split: option.split)

lemma builder_allocate_ok:
  assumes "b_len b = 0" and "b_cap b < 2 ^ 32" and "b_pool b = Map.empty"
  shows "builder_ok (builder_allocate addr b)"
  using assms by (simp add: builder_ok_def builder_allocate_def)

section \<open>Handle equality and emptiness\<close>

lemma from_le_bytes_inject:
  assumes "length a = 8" and "length b = 8"
  shows "from_le_bytes a = from_le_bytes b \<longleftrightarrow> a = b"
  using assms to_from_le_bytes [of a] to_from_le_bytes [of b] by (metis order_refl)

lemma can_inline_length: "can_inline x \<Longrightarrow> length x \<le> 8"
  by (auto simp: can_inline_def split: if_splits)

lemma pad8_inject:
  assumes "CHR 0x00 \<notin> set x" and "CHR 0x00 \<notin> set y"
  shows "pad8 x = pad8 y \<longleftrightarrow> x = y"
  using inline_bytes_pad8 [OF assms(1)] inline_bytes_pad8 [OF assms(2)] by metis

lemma string_init_is_inline: "is_inline (string_init buf x) \<longleftrightarrow> can_inline (s_bytes x)"
  using pad8_inline [of "s_bytes x"] pack_pointer_external [of "pointer_init buf x"]
  by (cases "can_inline (s_bytes x)")
    (auto simp: is_inline_def string_init_inline_case string_init_external_case)

lemma string_eql_external:
  assumes "in_buffer buf off x" and "off < 2 ^ 32" and "length (s_bytes x) < 2 ^ 31" and "\<not> can_inline (s_bytes x)"
  shows "unat (p_off (string_ptr (string_init buf x))) = off"
    and "unat (p_len (string_ptr (string_init buf x))) = length (s_bytes x)"
  using pointer_init_in_buffer [OF assms(1-3)] assms(3,4)
  by (simp_all add: string_init_external_case string_ptr_pack)

lemma string_eql_init:
  assumes x: "in_buffer ba i x" "i < 2 ^ 32" "storable (s_bytes x)"
    and y: "in_buffer bb j y" "j < 2 ^ 32" "storable (s_bytes y)"
  shows "string_eql (string_init ba x) (string_init bb y) (s_bytes ba) (s_bytes bb)
           \<longleftrightarrow> s_bytes x = s_bytes y"
proof -
  consider (inl) "can_inline (s_bytes x)" "can_inline (s_bytes y)"
    | (mixed) "can_inline (s_bytes x) \<noteq> can_inline (s_bytes y)"
    | (ext) "\<not> can_inline (s_bytes x)" "\<not> can_inline (s_bytes y)" by blast
  then show ?thesis
  proof cases
    case inl
    then have "from_le_bytes (raw (pad8 (s_bytes x))) = from_le_bytes (raw (pad8 (s_bytes y)))
        \<longleftrightarrow> raw (pad8 (s_bytes x)) = raw (pad8 (s_bytes y))"
      by (intro from_le_bytes_inject) (auto simp: can_inline_length)
    also have "\<dots> \<longleftrightarrow> pad8 (s_bytes x) = pad8 (s_bytes y)" by (metis semver_string.surjective unit.exhaust)
    also have "\<dots> \<longleftrightarrow> s_bytes x = s_bytes y"
      using inl x(3) y(3) by (intro pad8_inject) (auto simp: storable_def)
    finally show ?thesis
      using inl string_init_is_inline [of ba x] string_init_is_inline [of bb y]
      by (simp add: string_eql_def string_init_inline_case)
  next
    case mixed
    then show ?thesis by (auto simp: string_eql_def string_init_is_inline)
  next
    case ext
    then have len: "length (s_bytes x) < 2 ^ 31" "length (s_bytes y) < 2 ^ 31"
      using x(3) y(3) by (auto simp: storable_def)
    show ?thesis
      using ext x(1) y(1) string_eql_external [OF x(1,2) len(1) ext(1)]
        string_eql_external [OF y(1,2) len(2) ext(2)]
      by (simp add: string_eql_def string_init_is_inline in_buffer_def Let_def)
  qed
qed

lemma from_le_bytes_zero: "length b = 8 \<Longrightarrow> from_le_bytes b = 0 \<longleftrightarrow> b = replicate 8 (CHR 0x00)"
proof -
  assume l: "length b = 8"
  have "from_le_bytes (replicate n (CHR 0x00)) = 0" for n by (induction n) auto
  then show ?thesis using from_le_bytes_inject [OF l, of "replicate 8 (CHR 0x00)"] by simp
qed

lemma string_is_empty_pad8:
  assumes "can_inline x" and "CHR 0x00 \<notin> set x"
  shows "string_is_empty (pad8 x) \<longleftrightarrow> x = []"
proof -
  have "replicate 8 (CHR 0x00) = raw (pad8 [])" by (simp add: pad8_def)
  then have "string_is_empty (pad8 x) \<longleftrightarrow> raw (pad8 x) = raw (pad8 [])"
    using can_inline_length [OF assms(1)] by (simp add: string_is_empty_def from_le_bytes_zero)
  also have "\<dots> \<longleftrightarrow> x = []"
    using inline_bytes_pad8 [OF assms(2)] inline_bytes_pad8 [of "[]"] by auto
  finally show ?thesis .
qed

lemma string_is_empty_pack: "\<not> string_is_empty (pack_pointer p)"
proof
  assume "string_is_empty (pack_pointer p)"
  then have "raw (pack_pointer p) = replicate 8 (CHR 0x00)"
    by (simp add: string_is_empty_def from_le_bytes_zero)
  then have "raw (pack_pointer p) ! 7 = CHR 0x00" by simp
  then show False using pack_pointer_external [of p] by (simp add: code_def)
qed

lemma string_is_empty_init:
  assumes "storable (s_bytes x)"
  shows "string_is_empty (string_init buf x) \<longleftrightarrow> s_bytes x = []"
proof (cases "can_inline (s_bytes x)")
  case True
  then show ?thesis
    using assms by (simp add: string_init_inline_case string_is_empty_pad8 storable_def)
next
  case False
  then have "s_bytes x \<noteq> []" by (auto simp: can_inline_def)
  with False show ?thesis by (simp add: string_init_external_case string_is_empty_pack)
qed

lemma string_is_empty_slice:
  assumes "length (raw s) = 8" and "string_is_empty s"
  shows "string_slice s buf = []"
  using assms by (simp add: string_is_empty_def from_le_bytes_zero string_slice_def inline_bytes_def code_def)

section \<open>Properties\<close>

text \<open>
  C28. Round trip of a string handle.  Packing any storable slice of a buffer into the 8-byte
  handle (inline or as offset and length) and slicing the handle against that buffer gives the
  bytes back, and the handle is empty exactly for the empty string.
\<close>

theorem semver_string_roundtrip:
  assumes "in_buffer buf off inp" and "off < 2 ^ 32" and "storable (s_bytes inp)"
  shows "string_slice (string_init buf inp) (s_bytes buf) = s_bytes inp
    \<and> (string_is_empty (string_init buf inp) \<longleftrightarrow> s_bytes inp = [])"
  using string_slice_init [OF assms] string_is_empty_init [OF assms(3)] by blast

theorem semver_string_roundtrip_witness:
  "string_slice (string_init \<lparr>s_addr = 4096, s_bytes = ''hello-world-0.0.0''\<rparr>
                             \<lparr>s_addr = 4102, s_bytes = ''world-0.0.0''\<rparr>) ''hello-world-0.0.0''
     = ''world-0.0.0''"
  using semver_string_roundtrip [of "\<lparr>s_addr = 4096, s_bytes = ''hello-world-0.0.0''\<rparr>" 6
      "\<lparr>s_addr = 4102, s_bytes = ''world-0.0.0''\<rparr>"]
  by (simp add: in_buffer_def storable_def can_inline_def)

text \<open>
  Handle equality.  Two handles made from storable slices of two buffers compare equal exactly
  when the strings they stand for are the same bytes; in particular an inline and an external
  handle never stand for the same string.
\<close>

lemma semver_string_eql_iff:
  assumes "in_buffer bufa i x" and "i < 2 ^ 32" and "storable (s_bytes x)"
    and "in_buffer bufb j y" and "j < 2 ^ 32" and "storable (s_bytes y)"
  shows "string_eql (string_init bufa x) (string_init bufb y) (s_bytes bufa) (s_bytes bufb)
           \<longleftrightarrow> s_bytes x = s_bytes y"
  using string_eql_init [OF assms] .

text \<open>
  The append-only buffer.  From a consistent buffer, an append of a storable string never
  panics, keeps the buffer consistent, only extends its bytes (so every older handle keeps its
  meaning), and returns a handle inside the buffer that reads a string of the requested hash;
  it reads the string itself unless the pool already held another string of the same hash.
\<close>

lemma buf_append_external_reads:
  assumes "buf_ok b" and "length (sb_bytes b) < 2 ^ 32" and "storable str"
  shows "\<exists>b' e. buf_append_external b str = Some (b', e) \<and> buf_ok b'
           \<and> (\<exists>ext. sb_bytes b' = sb_bytes b @ ext)
           \<and> es_hash e = string_hash str
           \<and> string_hash (es_slice e (sb_bytes b')) = string_hash str
           \<and> (can_inline str \<or> sb_pool b (string_hash str) = None \<longrightarrow> es_slice e (sb_bytes b') = str)"
  using buf_append_external_ok [OF assms]
  by (auto simp: buf_append_external_def buf_append_external_with_hash_def es_slice_def)

text \<open>
  C29. The two-phase builder.  For strings of less than 2^31 bytes that need less than 2^32 bytes in
  all, none of them an 8-byte string whose last byte is not ASCII or a string of at most 8 bytes with
  a NUL in it, counting the list, allocating once and appending the same strings in the same order
  never runs out of the allocation, and every handle reads its string back out of the finished
  allocation, with its hash.
\<close>

theorem builder_count_append_roundtrip:
  assumes "\<forall>x\<in>set xs. builder_storable (s_bytes x)"
    and "b_cap (foldl (\<lambda>b x. builder_count b (s_bytes x)) builder_default xs) < 2 ^ 32"
  shows "\<exists>b' es. builder_append_all ea
                   (builder_allocate addr (foldl (\<lambda>b x. builder_count b (s_bytes x)) builder_default xs)) xs
                 = Some (b', es)
           \<and> map (\<lambda>e. es_slice e (b_bytes b')) es = map s_bytes xs
           \<and> map es_hash es = map (string_hash \<circ> s_bytes) xs"
proof -
  let ?b = "builder_allocate addr (foldl (\<lambda>b x. builder_count b (s_bytes x)) builder_default xs)"
  have cnt: "foldl (\<lambda>b x. builder_count b (s_bytes x)) builder_default xs = builder_default\<lparr>b_cap := counted xs\<rparr>"
    using builder_count_cap [of builder_default xs] by (simp add: builder_default_def)
  have ok: "builder_ok ?b"
    using assms(2) unfolding cnt by (intro builder_allocate_ok) (simp_all add: builder_default_def)
  have fit: "b_len ?b + counted xs \<le> b_cap ?b"
    unfolding cnt by (simp add: builder_allocate_def builder_default_def)
  obtain b' es where r: "builder_append_all ea ?b xs = Some (b', es)"
      "map (\<lambda>e. es_slice e (b_written b')) es = map s_bytes xs"
      "\<forall>e\<in>set es. handle_ok (es_value e) (b_written b')"
      "map es_hash es = map (string_hash \<circ> s_bytes) xs"
    using builder_append_all_ok [OF ok assms(1) fit, of ea] by blast
  have "map (\<lambda>e. es_slice e (b_bytes b')) es = map (\<lambda>e. es_slice e (b_written b')) es"
    using r(3) by (intro map_cong) (auto simp: es_slice_b_bytes)
  then show ?thesis using r by auto
qed

theorem builder_count_append_roundtrip_witness:
  "\<exists>b' es. builder_append_all 8
             (builder_allocate 4096
               (foldl (\<lambda>b x. builder_count b (s_bytes x)) builder_default [\<lparr>s_addr = 64, s_bytes = ''typescript''\<rparr>])) 
             [\<lparr>s_addr = 64, s_bytes = ''typescript''\<rparr>] = Some (b', es)
     \<and> map (\<lambda>e. es_slice e (b_bytes b')) es = [''typescript'']"
  using builder_count_append_roundtrip [of "[\<lparr>s_addr = 64, s_bytes = ''typescript''\<rparr>]" 8 4096]
  by (auto simp: builder_storable_def storable_def can_inline_def builder_count_def builder_count_with_hash_def
      MAX_INLINE_LEN_def builder_default_def)

text \<open>
  The gap between inlining and counting.  A string of exactly eight bytes whose last byte is
  not ASCII cannot be inlined, yet \<open>count\<close> reserves nothing for it and \<open>append\<close> copies nothing: the
  handle it returns points from the allocation to the caller's memory, and in a builder that holds
  no other string it reads as empty.
\<close>

lemma builder_append_non_ascii8:
  assumes "length (s_bytes x) = 8" and "code (s_bytes x ! 7) \<ge> 128"
  shows "\<exists>b' e. builder_append ea (builder_allocate addr (builder_count builder_default (s_bytes x))) x = Some (b', e)
           \<and> b_bytes b' = [] \<and> es_slice e (b_bytes b') = []"
proof -
  have ni: "\<not> can_inline (s_bytes x)"
    using assms code_and_128 [of "s_bytes x ! 7"] by (auto simp: can_inline_def)
  have "unat (p_len (pointer_init buf x)) = 8" for buf
    using assms(1) by (simp add: pointer_init_def unat_of_nat)
  then have "string_slice (string_init buf x) [] = []" for buf
    using ni pack_pointer_external [of "pointer_init buf x"] string_ptr_pack [of "pointer_init buf x"]
    by (simp add: string_init_external_case string_slice_def Let_def)
  then show ?thesis
    using assms(1)
    by (simp add: builder_append_def builder_append_with_hash_def builder_count_def builder_count_with_hash_def
        builder_allocate_def builder_default_def builder_allocated_slice_def MAX_INLINE_LEN_def es_init_def
        es_slice_def b_bytes_def)
qed

end
