(* ===== verification/Semver_Version.thy ===== *)
theory Semver_Version
  imports Semver_String
begin

text \<open>
  Versions, \<^verbatim>\<open>src/src/semver/Version.rs\<close>: the record of the three core numbers and the tag,
  the orders on it, the parser and the formatters, and the scanners over version text
  (\<open>which_version_is_pinned\<close>, \<open>is_tagged_version_only\<close>).  The integer width is a type
  parameter, as \<open>VersionType<T>\<close> has it; \<open>version\<close> is the 64-bit instance.

  The bytes that \<open>bstr::BStr\<close> prints are a parameter \<open>bstr\<close> of the formatters (the package is not
  part of the repository); only its behaviour on ASCII text, printed unchanged, is ever used.
\<close>

section \<open>Tag and VersionType\<close>

record tag =
  pre :: external_string
  build :: external_string

definition tag_default :: tag where
  "tag_default = \<lparr>pre = es_default, build = es_default\<rparr>"

record (overloaded) 'w version_type =
  major :: "'w word"
  minor :: "'w word"
  patch :: "'w word"
  vtag :: tag

type_synonym version = "64 version_type"

definition version_default :: "'w::len version_type" where
  "version_default = \<lparr>major = 0, minor = 0, patch = 0, vtag = tag_default\<rparr>"

definition version_migrate :: "32 version_type \<Rightarrow> version" where
  "version_migrate v =
     \<lparr>major = ucast (major v), minor = ucast (minor v), patch = ucast (patch v),
      vtag = \<lparr>pre = pre (vtag v), build = build (vtag v)\<rparr>\<rparr>"

definition has_pre :: "tag \<Rightarrow> bool" where
  "has_pre t \<longleftrightarrow> \<not> es_is_empty (pre t)"

definition has_build :: "tag \<Rightarrow> bool" where
  "has_build t \<longleftrightarrow> \<not> es_is_empty (build t)"

definition tag_eql :: "tag \<Rightarrow> tag \<Rightarrow> bool" where
  "tag_eql a b \<longleftrightarrow> es_hash (pre a) = es_hash (pre b)"

definition is_zero :: "'w::len version_type \<Rightarrow> bool" where
  "is_zero v \<longleftrightarrow> patch v = 0 \<and> minor v = 0 \<and> major v = 0"

definition version_eql :: "'w::len version_type \<Rightarrow> 'w version_type \<Rightarrow> bool" where
  "version_eql a b \<longleftrightarrow>
     major a = major b \<and> minor a = minor b \<and> patch a = patch b \<and> tag_eql (vtag b) (vtag a)"

definition version_len :: "'w::len version_type \<Rightarrow> u32" where
  "version_len v = word_of_nat (es_len (build (vtag v)) + es_len (pre (vtag v)))"

section \<open>Orders\<close>

text \<open>\<open>T::parse_ascii\<close>.\<close>

definition parse_ascii :: "bytes \<Rightarrow> 'w::len word option" where
  "parse_ascii s = (case parse_unsigned s 10 of Inl _ \<Rightarrow> None | Inr v \<Rightarrow> Some v)"

text \<open>One round of the loop of \<open>order_pre\<close>: \<open>Equal\<close> is \<open>continue\<close>.\<close>

definition part_order :: "bytes \<Rightarrow> bytes \<Rightarrow> ordering" where
  "part_order lhs_part rhs_part =
     (case (parse_ascii lhs_part :: u64 option, parse_ascii rhs_part :: u64 option) of
        (Some _, None) \<Rightarrow> Less
      | (None, Some _) \<Rightarrow> Greater
      | (None, None) \<Rightarrow> strings_order lhs_part rhs_part
      | (Some a, Some b) \<Rightarrow> ord_cmp a b)"

function order_pre_loop :: "split_iterator \<Rightarrow> split_iterator \<Rightarrow> ordering" where
  "order_pre_loop lhs_itr rhs_itr =
     (case (split_next lhs_itr, split_next rhs_itr) of
        ((lhs_part, lhs_itr'), (rhs_part, rhs_itr')) \<Rightarrow>
          (case (lhs_part, rhs_part) of
             (None, None) \<Rightarrow> Equal
           | (Some _, None) \<Rightarrow> Greater
           | (None, Some _) \<Rightarrow> Less
           | (Some l, Some r) \<Rightarrow>
               (case part_order l r of
                  Equal \<Rightarrow> order_pre_loop lhs_itr' rhs_itr'
                | unequal \<Rightarrow> unequal)))"
  by pat_completeness auto
termination
  by (relation "measure (\<lambda>(l, r). split_left l)") (auto dest: sym intro: split_next_left)

declare order_pre_loop.simps [simp del]

definition order_pre :: "tag \<Rightarrow> tag \<Rightarrow> bytes \<Rightarrow> bytes \<Rightarrow> ordering" where
  "order_pre lhs rhs lhs_buf rhs_buf =
     order_pre_loop (split_init (es_slice (pre lhs) lhs_buf) ''.'')
       (split_init (es_slice (pre rhs) rhs_buf) ''.'')"

definition tag_order :: "tag \<Rightarrow> tag \<Rightarrow> bytes \<Rightarrow> bytes \<Rightarrow> ordering" where
  "tag_order a b a_buf b_buf =
     (if \<not> es_is_empty (pre a) \<and> \<not> es_is_empty (pre b) then order_pre a b a_buf b_buf
      else let pre_order = es_order (pre a) (pre b) a_buf b_buf
           in if pre_order \<noteq> Equal then pre_order else es_order (build a) (build b) a_buf b_buf)"

definition tag_order_without_build :: "tag \<Rightarrow> tag \<Rightarrow> bytes \<Rightarrow> bytes \<Rightarrow> ordering" where
  "tag_order_without_build a b a_buf b_buf =
     (if \<not> es_is_empty (pre a) \<and> \<not> es_is_empty (pre b) then order_pre a b a_buf b_buf
      else es_order (pre a) (pre b) a_buf b_buf)"

definition order_without_tag :: "'w::len version_type \<Rightarrow> 'w version_type \<Rightarrow> ordering" where
  "order_without_tag lhs rhs =
     (if major lhs < major rhs then Less
      else if major lhs > major rhs then Greater
      else if minor lhs < minor rhs then Less
      else if minor lhs > minor rhs then Greater
      else if patch lhs < patch rhs then Less
      else if patch lhs > patch rhs then Greater
      else if has_pre (vtag lhs) then (if \<not> has_pre (vtag rhs) then Less else Equal)
      else if has_pre (vtag rhs) then Greater
      else Equal)"

definition version_order :: "'w::len version_type \<Rightarrow> 'w version_type \<Rightarrow> bytes \<Rightarrow> bytes \<Rightarrow> ordering" where
  "version_order lhs rhs lhs_buf rhs_buf =
     (if order_without_tag lhs rhs \<noteq> Equal then order_without_tag lhs rhs
      else tag_order (vtag lhs) (vtag rhs) lhs_buf rhs_buf)"

definition version_order_without_build ::
    "'w::len version_type \<Rightarrow> 'w version_type \<Rightarrow> bytes \<Rightarrow> bytes \<Rightarrow> ordering" where
  "version_order_without_build lhs rhs lhs_buf rhs_buf =
     (if order_without_tag lhs rhs \<noteq> Equal then order_without_tag lhs rhs
      else tag_order_without_build (vtag lhs) (vtag rhs) lhs_buf rhs_buf)"

definition order_fn :: "bytes \<Rightarrow> 'w::len version_type \<Rightarrow> 'w version_type \<Rightarrow> ordering" where
  "order_fn ctx lhs rhs = version_order lhs rhs ctx ctx"

definition sort_gt :: "bytes \<Rightarrow> 'w::len version_type \<Rightarrow> 'w version_type \<Rightarrow> bool" where
  "sort_gt ctx lhs rhs \<longleftrightarrow> order_fn ctx lhs rhs = Greater"

section \<open>Tag::parse\<close>

record tag_result =
  tr_tag :: tag
  tr_len :: u32

definition tag_result_default :: tag_result where
  "tag_result_default = \<lparr>tr_tag = tag_default, tr_len = 0\<rparr>"

text \<open>The counting pass, up to the first space; the counters are \<open>u32\<close>.\<close>

fun count_qualifiers :: "bytes \<Rightarrow> u32 \<Rightarrow> u32 \<Rightarrow> u32 \<times> u32" where
  "count_qualifiers [] build_count pre_count = (build_count, pre_count)"
| "count_qualifiers (c # cs) build_count pre_count =
     (if c = CHR '' '' then (build_count, pre_count)
      else if c = CHR ''+'' then count_qualifiers cs (build_count + 1) pre_count
      else if c = CHR ''-'' then count_qualifiers cs build_count (pre_count + 1)
      else count_qualifiers cs build_count pre_count)"

datatype tag_state = State_None | State_Pre | State_Build

definition is_tag_byte :: "byte \<Rightarrow> bool" where
  "is_tag_byte c \<longleftrightarrow> is_ascii_alphabetic c \<or> is_ascii_digit c \<or> c = CHR ''.''"

text \<open>\<open>sliced_string.sub(&input[start..i]).external()\<close>.\<close>

definition sub_external :: "sliced_string \<Rightarrow> nat \<Rightarrow> nat \<Rightarrow> external_string option" where
  "sub_external ss a b = map_option (\<lambda>s. ss_external (ss_sub ss s)) (sub_slice (ss_slice ss) a b)"

text \<open>
  The main loop at position \<open>i\<close>, with \<open>rest = input[i..]\<close>.  The result is the tag so far, the
  state, \<open>start\<close> and the position where the loop stopped.
\<close>

fun tag_loop :: "sliced_string \<Rightarrow> u32 \<Rightarrow> bytes \<Rightarrow> nat \<Rightarrow> nat \<Rightarrow> tag_state \<Rightarrow> tag
    \<Rightarrow> (tag \<times> tag_state \<times> nat \<times> nat) option" where
  "tag_loop ss initial_pre_count [] i start state t = Some (t, state, start, i)"
| "tag_loop ss initial_pre_count (c # cs) i start state t =
     (if c = CHR ''+'' then
        (case (if state = State_Pre \<or> (state = State_None \<and> initial_pre_count > 0)
               then map_option (\<lambda>e. t\<lparr>pre := e\<rparr>) (sub_external ss start i) else Some t) of
           None \<Rightarrow> None
         | Some t' \<Rightarrow>
             if state \<noteq> State_Build then tag_loop ss initial_pre_count cs (Suc i) (Suc i) State_Build t'
             else tag_loop ss initial_pre_count cs (Suc i) start state t')
      else if c = CHR ''-'' then
        (if state \<noteq> State_Pre then tag_loop ss initial_pre_count cs (Suc i) (Suc i) State_Pre t
         else tag_loop ss initial_pre_count cs (Suc i) start state t)
      else if is_tag_byte c then tag_loop ss initial_pre_count cs (Suc i) start state t
      else (case state of
              State_None \<Rightarrow> Some (t, state, start, i)
            | State_Pre \<Rightarrow>
                map_option (\<lambda>e. (t\<lparr>pre := e\<rparr>, State_None, start, i)) (sub_external ss start i)
            | State_Build \<Rightarrow>
                map_option (\<lambda>e. (t\<lparr>build := e\<rparr>, State_None, start, i)) (sub_external ss start i)))"

text \<open>What follows the loop: the open part is closed at \<open>i\<close>.\<close>

definition tag_finish :: "sliced_string \<Rightarrow> u32 \<Rightarrow> tag \<Rightarrow> tag_state \<Rightarrow> nat \<Rightarrow> nat \<Rightarrow> tag_result option" where
  "tag_finish ss initial_pre_count t state start i =
     (let (state', start') =
            (if state = State_None \<and> initial_pre_count > 0 then (State_Pre, 0) else (state, start));
          t' = (case state' of
                  State_None \<Rightarrow> Some t
                | State_Pre \<Rightarrow> map_option (\<lambda>e. t\<lparr>pre := e\<rparr>) (sub_external ss start' i)
                | State_Build \<Rightarrow> map_option (\<lambda>e. t\<lparr>build := e\<rparr>) (sub_external ss start' i))
      in map_option (\<lambda>t''. \<lparr>tr_tag = t'', tr_len = word_of_nat i\<rparr>) t')"

definition parse_with_pre_count :: "sliced_string \<Rightarrow> u32 \<Rightarrow> tag_result option" where
  "parse_with_pre_count ss initial_pre_count =
     (let input = s_bytes (ss_slice ss);
          (build_count, pre_count) = count_qualifiers input 0 initial_pre_count
      in if build_count = 0 \<and> pre_count = 0 then Some tag_result_default
         else case tag_loop ss initial_pre_count input 0 0 State_None tag_default of
                None \<Rightarrow> None
              | Some (t, state, start, i) \<Rightarrow> tag_finish ss initial_pre_count t state start i)"

definition tag_parse :: "sliced_string \<Rightarrow> tag_result option" where
  "tag_parse ss = parse_with_pre_count ss 0"

section \<open>Partial, ParseResult and Version::parse\<close>

record (overloaded) 'w partial =
  part_major :: "'w word option"
  part_minor :: "'w word option"
  part_patch :: "'w word option"
  part_tag :: tag

definition partial_default :: "'w::len partial" where
  "partial_default = \<lparr>part_major = None, part_minor = None, part_patch = None, part_tag = tag_default\<rparr>"

definition unwrap_or :: "'a option \<Rightarrow> 'a \<Rightarrow> 'a" where
  "unwrap_or x d = (case x of None \<Rightarrow> d | Some v \<Rightarrow> v)"

lemma unwrap_or_simps [simp]: "unwrap_or None d = d" "unwrap_or (Some v) d = v"
  by (simp_all add: unwrap_or_def)

definition partial_min :: "'w::len partial \<Rightarrow> 'w version_type" where
  "partial_min p =
     \<lparr>major = unwrap_or (part_major p) 0, minor = unwrap_or (part_minor p) 0,
      patch = unwrap_or (part_patch p) 0, vtag = part_tag p\<rparr>"

text \<open>\<open>T::MAX\<close> is the word of all ones, \<open>- 1\<close>.\<close>

definition partial_max :: "'w::len partial \<Rightarrow> 'w version_type" where
  "partial_max p =
     \<lparr>major = unwrap_or (part_major p) (- 1), minor = unwrap_or (part_minor p) (- 1),
      patch = unwrap_or (part_patch p) (- 1), vtag = part_tag p\<rparr>"

datatype wildcard = Wild_None | Wild_Major | Wild_Minor | Wild_Patch

record (overloaded) 'w parse_result =
  pr_wildcard :: wildcard
  pr_valid :: bool
  pr_version :: "'w partial"
  pr_len :: u32

definition parse_result_default :: "'w::len parse_result" where
  "parse_result_default =
     \<lparr>pr_wildcard = Wild_None, pr_valid = True, pr_version = partial_default, pr_len = 0\<rparr>"

text \<open>The digit loop of \<open>parse_version_number\<close> over its 20-byte buffer \<open>acc\<close>.\<close>

fun number_bytes :: "bytes \<Rightarrow> bytes \<Rightarrow> bytes option" where
  "number_bytes [] acc = Some acc"
| "number_bytes (c # cs) acc =
     (if c = CHR ''X'' \<or> c = CHR ''x'' \<or> c = CHR ''*'' then None
      else if is_ascii_digit c then
        (if length acc + 1 > 20 then None else number_bytes cs (acc @ [c]))
      else if c = CHR '' '' \<or> c = CHR ''.'' then Some acc
      else number_bytes cs acc)"

definition parse_version_number :: "bytes \<Rightarrow> 'w::len word option" where
  "parse_version_number input =
     (case number_bytes input [] of
        None \<Rightarrow> None
      | Some b \<Rightarrow> if b = [] then None else Some (unwrap_or (parse_ascii b) 0))"

text \<open>The scan for the first byte that is not whitespace, \<open>v\<close> or \<open>=\<close>; 0 when there is none.\<close>

definition is_version_separator :: "byte \<Rightarrow> bool" where
  "is_version_separator c \<longleftrightarrow>
     c \<in> set WHITESPACE_CHARS \<or> c = CHR ''v'' \<or> c = CHR ''=''"

definition skip_while :: "(byte \<Rightarrow> bool) \<Rightarrow> bytes \<Rightarrow> nat \<Rightarrow> nat" where
  "skip_while P s i = i + length (takeWhile P (drop i s))"

lemma skip_while_ge: "i \<le> skip_while P s i"
  by (simp add: skip_while_def)

lemma skip_while_Suc: "i < skip_while P s (Suc i)" "i \<le> skip_while P s (Suc i)"
  by (simp_all add: skip_while_def)

lemma skip_while_le: "i \<le> length s \<Longrightarrow> skip_while P s i \<le> length s"
  using length_takeWhile_le [of P "drop i s"] by (simp add: skip_while_def)

definition first_version_byte :: "bytes \<Rightarrow> nat" where
  "first_version_byte input =
     (let c = skip_while is_version_separator input 0 in if c < length input then c else 0)"

text \<open>\<open>match part_i\<close> of a number and of a wildcard.\<close>

definition store_number :: "nat \<Rightarrow> 'w::len word option \<Rightarrow> 'w parse_result \<Rightarrow> 'w parse_result \<times> nat" where
  "store_number part_i n r =
     (if part_i = 0 then (r\<lparr>pr_version := (pr_version r)\<lparr>part_major := n\<rparr>\<rparr>, 1)
      else if part_i = 1 then (r\<lparr>pr_version := (pr_version r)\<lparr>part_minor := n\<rparr>\<rparr>, 2)
      else if part_i = 2 then (r\<lparr>pr_version := (pr_version r)\<lparr>part_patch := n\<rparr>\<rparr>, 3)
      else (r, part_i))"

definition store_wildcard :: "nat \<Rightarrow> 'w::len parse_result \<Rightarrow> 'w parse_result \<times> nat" where
  "store_wildcard part_i r =
     (if pr_wildcard r \<noteq> Wild_None then (r, part_i)
      else if part_i = 0 then (r\<lparr>pr_wildcard := Wild_Major\<rparr>, 1)
      else if part_i = 1 then (r\<lparr>pr_wildcard := Wild_Minor\<rparr>, 2)
      else if part_i = 2 then (r\<lparr>pr_wildcard := Wild_Patch\<rparr>, 3)
      else (r, part_i))"

definition is_wildcard_byte :: "byte \<Rightarrow> bool" where
  "is_wildcard_byte c \<longleftrightarrow> c = CHR ''x'' \<or> c = CHR ''*'' \<or> c = CHR ''X''"

text \<open>The bytes that end a version because a range operator starts there.\<close>

definition is_range_byte :: "byte \<Rightarrow> bool" where
  "is_range_byte c \<longleftrightarrow> c \<in> set ''|^#&%!''"

text \<open>
  The main loop; every exit returns the result, \<open>part_i\<close> and \<open>i\<close>.  \<open>is_done\<close> is set only
  where the loop breaks, and \<open>last_char_i\<close> is never read.
\<close>

function version_parse_loop :: "sliced_string \<Rightarrow> nat \<Rightarrow> nat \<Rightarrow> 'w::len parse_result
    \<Rightarrow> ('w parse_result \<times> nat \<times> nat) option" where
  "version_parse_loop ss i part_i r =
     (let input = s_bytes (ss_slice ss) in
      if i < length input then
        (let c = input ! i in
         if c = CHR '' '' then Some (r, part_i, i)
         else if is_range_byte c then Some (r, part_i, i - 1)
         else if is_ascii_digit c then
           (let last_i = skip_while is_ascii_digit input (Suc i) in
            case sub_slice (ss_slice ss) i last_i of
              None \<Rightarrow> None
            | Some part \<Rightarrow>
                (let (r', part_i') = store_number part_i (parse_version_number (s_bytes part)) r;
                     i' = (if last_i < length input \<and> input ! last_i = CHR ''.'' \<and> part_i' \<noteq> 3
                           then Suc last_i else last_i)
                 in version_parse_loop ss i' part_i' r'))
         else if c = CHR ''.'' then Some (r\<lparr>pr_valid := False\<rparr>, part_i, i)
         else if c = CHR ''-'' \<or> c = CHR ''+'' then
           (if part_i < 2 \<and> pr_wildcard r = Wild_None then Some (r\<lparr>pr_valid := False\<rparr>, part_i, i)
            else
              (let i' = skip_while (\<lambda>d. d = CHR '' '') input i in
               case slice_from (ss_slice ss) i of
                 None \<Rightarrow> None
               | Some rest \<Rightarrow>
                   map_option (\<lambda>tr. (r\<lparr>pr_version := (pr_version r)\<lparr>part_tag := tr_tag tr\<rparr>\<rparr>,
                                    part_i, i' + unat (tr_len tr)))
                     (tag_parse (ss_sub ss rest))))
         else if is_wildcard_byte c then
           (let last_i = skip_while is_wildcard_byte input (Suc i);
                i' = (if last_i < length input \<and> input ! last_i = CHR ''.'' then Suc last_i else last_i);
                (r', part_i') = store_wildcard part_i r
            in version_parse_loop ss i' part_i' r')
         else if pr_wildcard r = Wild_None \<and> part_i \<ge> 2 \<and> is_ascii_alphabetic c then
           (case slice_from (ss_slice ss) i of
              None \<Rightarrow> None
            | Some rest \<Rightarrow>
                map_option (\<lambda>tr. (r\<lparr>pr_version := (pr_version r)\<lparr>part_tag := tr_tag tr\<rparr>\<rparr>,
                                 part_i, i + unat (tr_len tr)))
                  (parse_with_pre_count (ss_sub ss rest) 1))
         else Some (r\<lparr>pr_valid := False\<rparr>, part_i, i))
      else Some (r, part_i, i))"
  by pat_completeness auto
termination
  by (relation "measure (\<lambda>(ss, i, part_i, r). length (s_bytes (ss_slice ss)) - i)")
    (auto simp: skip_while_Suc less_Suc_eq_le intro!: diff_less_mono2 split: if_splits)

declare version_parse_loop.simps [simp del]

text \<open>The closing \<open>match part_i\<close>: missing numbers make a wildcard.\<close>

definition close_wildcard :: "nat \<Rightarrow> 'w::len parse_result \<Rightarrow> 'w parse_result" where
  "close_wildcard part_i r =
     (if pr_wildcard r \<noteq> Wild_None then r
      else if part_i = 0 then r\<lparr>pr_wildcard := Wild_Major\<rparr>
      else if part_i = 1 then r\<lparr>pr_wildcard := Wild_Minor\<rparr>
      else if part_i = 2 then r\<lparr>pr_wildcard := Wild_Patch\<rparr>
      else r)"

definition version_parse :: "sliced_string \<Rightarrow> 'w::len parse_result option" where
  "version_parse ss =
     (let input = s_bytes (ss_slice ss) in
      if input = [] then Some (parse_result_default\<lparr>pr_valid := False\<rparr>)
      else
        (let i = first_version_byte input in
         if i = length input then Some (parse_result_default\<lparr>pr_valid := False\<rparr>)
         else
           (case version_parse_loop ss i 0 parse_result_default of
              None \<Rightarrow> None
            | Some (r, part_i, i') \<Rightarrow>
                if i' < 2 ^ 32
                then Some ((close_wildcard part_i r)\<lparr>pr_len := word_of_nat i'\<rparr>)
                else None)))"

definition parse_utf8 :: "slice \<Rightarrow> 'w::len parse_result option" where
  "parse_utf8 s = version_parse \<lparr>ss_buf = s, ss_slice = s\<rparr>"

section \<open>Copying a version into another buffer\<close>

definition version_count :: "'w::len version_type \<Rightarrow> bytes \<Rightarrow> builder \<Rightarrow> builder" where
  "version_count v buf b =
     (let b1 = (if has_pre (vtag v) \<and> \<not> es_is_inline (pre (vtag v))
                then builder_count b (es_slice (pre (vtag v)) buf) else b)
      in if has_build (vtag v) \<and> \<not> es_is_inline (build (vtag v))
         then builder_count b1 (es_slice (build (vtag v)) buf) else b1)"

text \<open>
  \<open>append\<close> reads the two slices out of \<open>buf\<close>; their addresses do not enter the result because
  they are longer than an inline string, so the model places them at the address \<open>sa\<close>.
\<close>

definition version_append ::
    "u64 \<Rightarrow> u64 \<Rightarrow> 'w::len version_type \<Rightarrow> bytes \<Rightarrow> builder \<Rightarrow> (builder \<times> 'w version_type) option" where
  "version_append ea sa v buf b =
     (case (if has_pre (vtag v) \<and> \<not> es_is_inline (pre (vtag v))
            then map_option (\<lambda>(b', e). (b', v\<lparr>vtag := (vtag v)\<lparr>pre := e\<rparr>\<rparr>))
                   (builder_append ea b \<lparr>s_addr = sa, s_bytes = es_slice (pre (vtag v)) buf\<rparr>)
            else Some (b, v)) of
        None \<Rightarrow> None
      | Some (b1, that) \<Rightarrow>
          if has_build (vtag v) \<and> \<not> es_is_inline (build (vtag v))
          then map_option (\<lambda>(b', e). (b', that\<lparr>vtag := (vtag that)\<lparr>build := e\<rparr>\<rparr>))
                 (builder_append ea b1 \<lparr>s_addr = sa, s_bytes = es_slice (build (vtag v)) buf\<rparr>)
          else Some (b1, that))"

text \<open>
  One half of \<open>clone_into\<close>: the string is copied to the front of the destination slice \<open>dst\<close>, the
  handle is made relative to \<open>dst\<close>, and \<open>dst\<close> is advanced past the copy.  The bytes written
  are returned next to the rest of the slice.
\<close>

definition clone_part :: "external_string \<Rightarrow> bytes \<Rightarrow> slice \<Rightarrow> (semver_string \<times> bytes \<times> slice) option" where
  "clone_part e src dst =
     (if es_is_inline e then Some (es_value e, [], dst)
      else
        (let sl = es_slice e src in
         if length sl \<le> length (s_bytes dst) then
           (let dst' = dst\<lparr>s_bytes := blit (s_bytes dst) 0 sl\<rparr> in
            case (sub_slice dst' 0 (length sl), slice_from dst' (length sl)) of
              (Some copy, Some rest) \<Rightarrow> Some (string_init dst' copy, sl, rest)
            | _ \<Rightarrow> None)
         else None))"

definition tag_clone_into :: "tag \<Rightarrow> bytes \<Rightarrow> slice \<Rightarrow> (tag \<times> bytes \<times> slice) option" where
  "tag_clone_into t src dst =
     (case clone_part (pre t) src dst of
        None \<Rightarrow> None
      | Some (p, w1, dst1) \<Rightarrow>
          (case clone_part (build t) src dst1 of
             None \<Rightarrow> None
           | Some (b, w2, dst2) \<Rightarrow>
               Some (\<lparr>pre = \<lparr>es_value = p, es_hash = es_hash (pre t)\<rparr>,
                      build = \<lparr>es_value = b, es_hash = es_hash (build t)\<rparr>\<rparr>, w1 @ w2, dst2)))"

definition version_clone_into ::
    "'w::len version_type \<Rightarrow> bytes \<Rightarrow> slice \<Rightarrow> ('w version_type \<times> bytes \<times> slice) option" where
  "version_clone_into v src dst =
     map_option (\<lambda>(t, w, dst'). (\<lparr>major = major v, minor = minor v, patch = patch v, vtag = t\<rparr>, w, dst'))
       (tag_clone_into (vtag v) src dst)"

section \<open>Differences\<close>

datatype changed_version = Changed_Major | Changed_Minor | Changed_Patch | Changed_Pre
  | Changed_Build | Changed_None

definition which_version_is_different ::
    "'w::len version_type \<Rightarrow> 'w version_type \<Rightarrow> bytes \<Rightarrow> bytes \<Rightarrow> changed_version option" where
  "which_version_is_different left right left_buf right_buf =
     (if major left \<noteq> major right then Some Changed_Major
      else if minor left \<noteq> minor right then Some Changed_Minor
      else if patch left \<noteq> patch right then Some Changed_Patch
      else if has_pre (vtag left) \<noteq> has_pre (vtag right) then Some Changed_Pre
      else if \<not> has_pre (vtag left) \<and> \<not> has_pre (vtag right) then None
      else if order_pre (vtag left) (vtag right) left_buf right_buf \<noteq> Equal then Some Changed_Pre
      else if has_build (vtag left) \<noteq> has_build (vtag right) then Some Changed_Build
      else if \<not> has_build (vtag left) \<and> \<not> has_build (vtag right) then None
      else if es_order (build (vtag left)) (build (vtag right)) left_buf right_buf \<noteq> Equal
      then Some Changed_Build else None)"

section \<open>Formatting\<close>

definition version_fmt :: "(bytes \<Rightarrow> bytes) \<Rightarrow> 'w::len version_type \<Rightarrow> bytes \<Rightarrow> bytes" where
  "version_fmt bstr v buf =
     fmt_uint (major v) @ ''.'' @ fmt_uint (minor v) @ ''.'' @ fmt_uint (patch v)
     @ (if has_pre (vtag v) then ''-'' @ bstr (es_slice (pre (vtag v)) buf) else [])
     @ (if has_build (vtag v) then ''+'' @ bstr (es_slice (build (vtag v)) buf) else [])"

text \<open>\<open>String::fmt\<close> prints the slice through \<open>BStr\<close>.\<close>

definition es_fmt :: "(bytes \<Rightarrow> bytes) \<Rightarrow> external_string \<Rightarrow> bytes \<Rightarrow> bytes" where
  "es_fmt bstr e buf = bstr (es_slice e buf)"

text \<open>The escape sequences that \<open>pretty_fmt!(.., true)\<close> puts for its colour tags.\<close>

definition ansi :: "bytes \<Rightarrow> bytes" where
  "ansi n = CHR 0x1B # ''['' @ n @ ''m''"

definition ansi_r :: bytes where "ansi_r = ansi ''0''"
definition ansi_d :: bytes where "ansi_d = ansi ''2''"
definition ansi_alert :: "bytes \<Rightarrow> bytes" where "ansi_alert colour = ansi_r @ ansi ''1'' @ ansi colour"
definition ansi_red :: bytes where "ansi_red = ansi_alert ''31''"
definition ansi_green :: bytes where "ansi_green = ansi_alert ''32''"
definition ansi_yellow :: bytes where "ansi_yellow = ansi_alert ''33''"

text \<open>
  The loop over the bytes of a tag part at index \<open>i\<close>: \<open>sep\<close> is written before the first byte, the
  red escape once, before the first byte that differs from the other part.
\<close>

fun diff_part :: "byte \<Rightarrow> bytes \<Rightarrow> nat \<Rightarrow> bool \<Rightarrow> bool \<Rightarrow> bytes \<Rightarrow> bytes \<times> bool" where
  "diff_part sep other i first set_color [] = ([], set_color)"
| "diff_part sep other i first set_color (c # cs) =
     (let hit = \<not> set_color \<and> i < length other \<and> c \<noteq> other ! i;
          (out, set_color') = diff_part sep other (Suc i) False (set_color \<or> hit) cs
      in ((if hit then ansi_red else []) @ (if first then [sep] else []) @ write_char c @ out, set_color'))"

definition diff_fmt :: "(bytes \<Rightarrow> bytes) \<Rightarrow> bool \<Rightarrow> 'w::len version_type \<Rightarrow> 'w version_type
    \<Rightarrow> bytes \<Rightarrow> bytes \<Rightarrow> bytes" where
  "diff_fmt bstr enable_colors v other buf other_buf =
     (if \<not> enable_colors then version_fmt bstr v buf
      else
        (let ma = fmt_uint (major v); mi = fmt_uint (minor v); pa = fmt_uint (patch v);
             core = (case unwrap_or (which_version_is_different v other buf other_buf) Changed_None of
                 Changed_Major \<Rightarrow> ansi_red @ ma @ ''.'' @ mi @ ''.'' @ pa
               | Changed_Minor \<Rightarrow>
                   ansi_d @ ma @ ''.'' @ (if major v = 0 then ansi_red else ansi_yellow) @ mi @ ''.'' @ pa
               | Changed_Patch \<Rightarrow>
                   ansi_d @ ma @ ''.'' @ mi @ ''.''
                   @ (if major v = 0 \<and> minor v = 0 then ansi_red else ansi_green) @ pa
               | _ \<Rightarrow> ansi_d @ ma @ ''.'' @ mi @ ''.'' @ pa);
             (pre_out, set_color) =
               (if has_pre (vtag v) then
                  (if has_pre (vtag other)
                   then diff_part (CHR ''-'') (es_slice (pre (vtag other)) other_buf) 0 True False
                          (es_slice (pre (vtag v)) buf)
                   else (ansi_red @ ''-'' @ es_fmt bstr (pre (vtag v)) buf, True))
                else ([], False));
             build_out =
               (if has_build (vtag v) then
                  (if has_build (vtag other)
                   then fst (diff_part (CHR ''+'') (es_slice (build (vtag other)) other_buf) 0 True set_color
                          (es_slice (build (vtag v)) buf))
                   else if \<not> set_color then ansi_red @ ''+'' @ es_fmt bstr (build (vtag v)) buf
                   else ''+'' @ es_fmt bstr (build (vtag v)) other_buf)
                else [])
         in core @ pre_out @ build_out @ ansi_r))"

end
