(* ===== verification/Version_Order.thy ===== *)
theory Version_Order
  imports Semver_Version
begin

text \<open>
  The precedence of versions.  The abstract specification is the one of semver.org item 11:
  the three core numbers, then the pre-release identifiers, compared one by one (numeric ones
  by value and below the alphanumeric ones, a longer list above its prefixes), a release
  above its pre-releases.  It is an instance of the locale \<open>three_way\<close>, and the comparison the
  range checks use (\<open>order_without_build\<close>, with its iterators, integer parsing and handles)
  refines it, for pre-releases without underscores and with numeric identifiers below 2^64; what the
  code itself reads is \<open>parsed_precedence\<close>, which makes the comparison a total preorder in all cases.
\<close>

section \<open>The loop of order_pre\<close>

definition split_parts :: "split_iterator \<Rightarrow> bytes list" where
  "split_parts it =
     (case it_index it of None \<Rightarrow> [] | Some i \<Rightarrow> split_on (CHR ''.'') (drop i (it_buffer it)))"

lemma index_of_dot: "index_of s ''.'' = index_of_char s (CHR ''.'')"
  by (cases s) (auto simp: index_of_def)

lemma split_next_parts:
  assumes "it_delimiter it = ''.''"
  shows "\<exists>it'. split_next it =
           (case split_parts it of [] \<Rightarrow> None | p # ps \<Rightarrow> Some p, it')
         \<and> split_parts it' = tl (split_parts it) \<and> it_delimiter it' = ''.''"
proof (cases "it_index it")
  case None
  then show ?thesis using assms by (simp add: split_next_def split_parts_def)
next
  case (Some i)
  then show ?thesis
    using assms split_on_index [of "CHR ''.''" "drop i (it_buffer it)"]
    by (cases "index_of_char (drop i (it_buffer it)) (CHR ''.'')")
      (auto simp: split_next_def split_parts_def index_of_dot add.commute)
qed

lemma order_pre_loop_parts:
  assumes "it_delimiter l = ''.''" and "it_delimiter r = ''.''"
  shows "order_pre_loop l r = list_cmp part_order (split_parts l) (split_parts r)"
  using assms
proof (induction "split_parts l" arbitrary: l r)
  case Nil
  obtain l' where "split_next l = (None, l')" using split_next_parts [OF Nil.prems(1)] Nil.hyps by auto
  moreover obtain r' where "split_next r = (case split_parts r of [] \<Rightarrow> None | p # ps \<Rightarrow> Some p, r')"
    using split_next_parts [OF Nil.prems(2)] by auto
  ultimately show ?case
    using Nil.hyps by (subst order_pre_loop.simps) (cases "split_parts r"; simp flip: Nil.hyps)
next
  case (Cons p ps)
  obtain l' where l: "split_next l = (Some p, l')" "split_parts l' = ps" "it_delimiter l' = ''.''"
    using split_next_parts [OF Cons.prems(1)] Cons.hyps(2) [symmetric] by auto
  obtain r' where r: "split_next r = (case split_parts r of [] \<Rightarrow> None | q # qs \<Rightarrow> Some q, r')"
      "split_parts r' = tl (split_parts r)" "it_delimiter r' = ''.''"
    using split_next_parts [OF Cons.prems(2)] by auto
  show ?case
  proof (cases "split_parts r")
    case Nil
    then show ?thesis using l r Cons.hyps(2) [symmetric] by (subst order_pre_loop.simps) simp
  next
    case (Cons q qs)
    then have "order_pre_loop l' r' = list_cmp part_order ps qs"
      using Cons.hyps(1) [OF l(2) [symmetric] l(3) r(3)] l(2) r(2) by simp
    then show ?thesis
      using l r Cons Cons.hyps(2) [symmetric]
      by (subst order_pre_loop.simps) (simp add: then_ord_def split: ordering.split)
  qed
qed

lemma order_pre_parts:
  "order_pre a b a_buf b_buf =
     list_cmp part_order (split_on (CHR ''.'') (es_slice (pre a) a_buf))
       (split_on (CHR ''.'') (es_slice (pre b) b_buf))"
  unfolding order_pre_def by (subst order_pre_loop_parts) (simp_all add: split_init_def split_parts_def)

section \<open>The abstract precedence\<close>

datatype pre_identifier = Numeric nat | Alphanumeric bytes

text \<open>Text is ordered by its ASCII codes.\<close>

definition ascii_cmp :: "bytes \<Rightarrow> bytes \<Rightarrow> ordering" where
  "ascii_cmp = list_cmp (\<lambda>a b. ord_cmp (of_char a :: nat) (of_char b))"

lemma strings_order_ascii: "strings_order = ascii_cmp"
  by (simp add: strings_order_def ascii_cmp_def code_def)

interpretation ascii: three_way ascii_cmp
  by (rule sord.three_way_axioms [unfolded strings_order_ascii])

fun identifier_cmp :: "pre_identifier \<Rightarrow> pre_identifier \<Rightarrow> ordering" where
  "identifier_cmp (Numeric a) (Numeric b) = ord_cmp a b"
| "identifier_cmp (Numeric _) (Alphanumeric _) = Less"
| "identifier_cmp (Alphanumeric _) (Numeric _) = Greater"
| "identifier_cmp (Alphanumeric a) (Alphanumeric b) = ascii_cmp a b"

interpretation ident: three_way identifier_cmp
proof
  show "identifier_cmp b a = reverse_ord (identifier_cmp a b)" for a b
    by (cases a; cases b) (auto intro: prim.swap ascii.swap)
  show "identifier_cmp a b \<noteq> Greater \<Longrightarrow> identifier_cmp b c \<noteq> Greater \<Longrightarrow> identifier_cmp a c \<noteq> Greater"
    for a b c
    by (cases a; cases b; cases c) (auto dest: ascii.le_trans)
qed

text \<open>A pre-release is \<open>Some\<close> of its identifiers, a release is \<open>None\<close> and comes after them.\<close>

fun pre_cmp :: "pre_identifier list option \<Rightarrow> pre_identifier list option \<Rightarrow> ordering" where
  "pre_cmp None None = Equal"
| "pre_cmp None (Some _) = Greater"
| "pre_cmp (Some _) None = Less"
| "pre_cmp (Some a) (Some b) = list_cmp identifier_cmp a b"

interpretation prerel: three_way pre_cmp
proof
  show "pre_cmp b a = reverse_ord (pre_cmp a b)" for a b
    by (cases a; cases b) (auto intro: ident.list_cmp_swap)
  show "pre_cmp a b \<noteq> Greater \<Longrightarrow> pre_cmp b c \<noteq> Greater \<Longrightarrow> pre_cmp a c \<noteq> Greater" for a b c
    by (cases a; cases b; cases c) (auto dest: ident.list_cmp_le_trans)
qed

record precedence =
  pc_major :: nat
  pc_minor :: nat
  pc_patch :: nat
  pc_pre :: "pre_identifier list option"

definition precedence_cmp :: "precedence \<Rightarrow> precedence \<Rightarrow> ordering" where
  "precedence_cmp a b =
     then_ord (ord_cmp (pc_major a) (pc_major b))
       (then_ord (ord_cmp (pc_minor a) (pc_minor b))
         (then_ord (ord_cmp (pc_patch a) (pc_patch b)) (pre_cmp (pc_pre a) (pc_pre b))))"

interpretation prec: three_way precedence_cmp
  unfolding precedence_cmp_def
  by (rule three_way_then, rule three_way_project, rule three_way_ord_cmp)+
    (rule three_way_project, rule prerel.three_way_axioms)

text \<open>An identifier of semver.org: a number if it consists of digits only, text otherwise.\<close>

definition all_digits :: "bytes \<Rightarrow> bool" where
  "all_digits p \<longleftrightarrow> p \<noteq> [] \<and> (\<forall>c \<in> set p. CHR ''0'' \<le> c \<and> c \<le> CHR ''9'')"

definition decimal_value :: "bytes \<Rightarrow> nat" where
  "decimal_value p = foldl (\<lambda>n c. 10 * n + (of_char c - of_char CHR ''0'')) 0 p"

definition identifier_of :: "bytes \<Rightarrow> pre_identifier" where
  "identifier_of p = (if all_digits p then Numeric (decimal_value p) else Alphanumeric p)"

definition precedence_of :: "'w::len version_type \<Rightarrow> bytes \<Rightarrow> precedence" where
  "precedence_of v buf =
     \<lparr>pc_major = unat (major v), pc_minor = unat (minor v), pc_patch = unat (patch v),
      pc_pre = (case es_slice (pre (vtag v)) buf of
                  [] \<Rightarrow> None
                | c # cs \<Rightarrow> Some (map identifier_of (split_on (CHR ''.'') (c # cs))))\<rparr>"

section \<open>The identifiers the code parses\<close>

text \<open>What the code reads: an identifier is a number if \<open>parse_ascii\<close> gives a \<open>u64\<close>.\<close>

definition parsed_identifier :: "bytes \<Rightarrow> pre_identifier" where
  "parsed_identifier p = (case parse_ascii p :: u64 option of Some n \<Rightarrow> Numeric (unat n) | None \<Rightarrow> Alphanumeric p)"

definition parsed_precedence :: "'w::len version_type \<Rightarrow> bytes \<Rightarrow> precedence" where
  "parsed_precedence v buf =
     \<lparr>pc_major = unat (major v), pc_minor = unat (minor v), pc_patch = unat (patch v),
      pc_pre = (if has_pre (vtag v)
                then Some (map parsed_identifier (split_on (CHR ''.'') (es_slice (pre (vtag v)) buf)))
                else None)\<rparr>"

abbreviation digit_fold :: "nat \<Rightarrow> bytes \<Rightarrow> nat" where
  "digit_fold \<equiv> foldl (\<lambda>n c. 10 * n + (of_char c - of_char CHR ''0''))"

lemma digit_range: "CHR ''0'' \<le> c \<and> c \<le> CHR ''9'' \<longleftrightarrow> is_ascii_digit c"
  by (simp add: is_ascii_digit_def code_def less_eq_char_def)

lemma parse_digits_all:
  assumes "\<forall>c \<in> set cs. is_ascii_digit c"
  shows "acc \<le> digit_fold acc cs
    \<and> parse_digits 10 acc cs = (if digit_fold acc cs < 2 ^ 128 \<or> cs = [] then Inr (digit_fold acc cs) else Inl Overflow)"
  using assms
proof (induction cs arbitrary: acc)
  case (Cons c cs)
  define acc' where "acc' = 10 * acc + (of_char c - of_char CHR ''0'' :: nat)"
  have c: "is_ascii_digit c" "c \<noteq> CHR ''_''" using Cons.prems by (auto simp: is_ascii_digit_def code_def)
  then have d: "digit_value c = Some (code c - 48)" "\<not> 10 \<le> code c - 48" by (auto simp: is_ascii_digit_def)
  have a: "acc * 10 + (code c - 48) = acc'" by (simp add: acc'_def code_def)
  have step: "parse_digits 10 acc (c # cs) = (if acc' \<ge> 2 ^ 128 then Inl Overflow else parse_digits 10 acc' cs)"
    unfolding parse_digits.simps(2) if_not_P [OF c(2)] d(1) option.case if_not_P [OF d(2)] a ..
  have ih: "acc' \<le> digit_fold acc' cs"
    "parse_digits 10 acc' cs = (if digit_fold acc' cs < 2 ^ 128 \<or> cs = [] then Inr (digit_fold acc' cs) else Inl Overflow)"
    using Cons.IH [of acc'] Cons.prems by simp_all
  have "acc \<le> acc'" by (simp add: acc'_def)
  then show ?case using ih step unfolding foldl_Cons acc'_def [symmetric] by (cases "cs = []") auto
qed simp

lemma parse_digits_other:
  assumes "c \<in> set cs" and "\<not> is_ascii_digit c" and "CHR ''_'' \<notin> set cs"
  shows "\<exists>e. parse_digits 10 acc cs = Inl e"
  using assms
proof (induction cs arbitrary: acc)
  case (Cons x xs)
  show ?case
  proof (cases "is_ascii_digit x")
    case True
    then have "c \<in> set xs" using Cons.prems by auto
    then show ?thesis using Cons by (auto split: option.splits)
  next
    case False
    then have "digit_value x = None \<or> (\<exists>d. digit_value x = Some d \<and> d \<ge> 10)" by auto
    then show ?thesis using Cons.prems(3) by (auto simp del: digit_value.simps)
  qed
qed simp

lemma parse_ascii_digits:
  assumes "CHR ''_'' \<notin> set p"
  shows "(parse_ascii p :: u64 option)
    = (if all_digits p \<and> decimal_value p < 2 ^ 64 then Some (word_of_nat (decimal_value p)) else None)"
proof (cases "all_digits p")
  case True
  then have d: "\<forall>c \<in> set p. is_ascii_digit c" "p \<noteq> []" by (auto simp: all_digits_def digit_range)
  have "parse_with_sign p 10 = (if decimal_value p < 2 ^ 128 then Inr (decimal_value p) else Inl Overflow)"
  proof -
    have "hd p \<noteq> CHR ''_''" "last p \<noteq> CHR ''_''" using assms hd_in_set [OF d(2)] last_in_set [OF d(2)] by metis+
    then show ?thesis using parse_digits_all [OF d(1), of 0] d(2) by (auto simp: parse_with_sign_def decimal_value_def)
  qed
  then show ?thesis
    using True by (auto simp: parse_ascii_def parse_unsigned_def auto_radix_def)
next
  case False
  then have "p = [] \<or> (\<exists>c \<in> set p. \<not> is_ascii_digit c)" by (auto simp: all_digits_def digit_range)
  then have "\<exists>e. parse_with_sign p 10 = Inl e"
    using parse_digits_other [OF _ _ assms, of _ 0] by (auto simp: parse_with_sign_def)
  then show ?thesis
    using False by (auto simp: parse_ascii_def parse_unsigned_def auto_radix_def)
qed

lemma parsed_identifier_of:
  assumes "CHR ''_'' \<notin> set p" and "all_digits p \<Longrightarrow> decimal_value p < 2 ^ 64"
  shows "parsed_identifier p = identifier_of p"
  using parse_ascii_digits [OF assms(1)] assms(2)
  by (auto simp: parsed_identifier_def identifier_of_def unat_of_nat)

section \<open>Refinement\<close>

text \<open>The type invariant of a handle: its field is an array of eight bytes.\<close>

definition es_wf :: "external_string \<Rightarrow> bool" where
  "es_wf e \<longleftrightarrow> length (raw (es_value e)) = 8"

definition version_wf :: "'w::len version_type \<Rightarrow> bool" where
  "version_wf v \<longleftrightarrow> es_wf (pre (vtag v)) \<and> es_wf (build (vtag v))"

lemma part_order_identifier: "part_order a b = identifier_cmp (parsed_identifier a) (parsed_identifier b)"
  by (auto simp: part_order_def parsed_identifier_def strings_order_ascii ord_cmp_def word_less_nat_alt
      word_unat_eq_iff split: option.split)

lemma list_cmp_map: "list_cmp cmp (map f xs) (map f ys) = list_cmp (\<lambda>x y. cmp (f x) (f y)) xs ys"
  by (induction xs ys rule: list_induct2') auto

lemma order_pre_identifiers:
  "order_pre a b a_buf b_buf =
     list_cmp identifier_cmp (map parsed_identifier (split_on (CHR ''.'') (es_slice (pre a) a_buf)))
       (map parsed_identifier (split_on (CHR ''.'') (es_slice (pre b) b_buf)))"
proof -
  have "part_order = (\<lambda>x y. identifier_cmp (parsed_identifier x) (parsed_identifier y))"
    by (intro ext part_order_identifier)
  then show ?thesis by (simp add: order_pre_parts list_cmp_map)
qed

interpretation opre: three_way "\<lambda>(a, a_buf) (b, b_buf). order_pre a b a_buf b_buf"
proof
  show "(case b of (x, xb) \<Rightarrow> \<lambda>(y, yb). order_pre x y xb yb) a
      = reverse_ord ((case a of (x, xb) \<Rightarrow> \<lambda>(y, yb). order_pre x y xb yb) b)" for a b :: "tag \<times> bytes"
    by (cases a; cases b) (auto simp: order_pre_identifiers intro: ident.list_cmp_swap)
qed (auto simp: order_pre_identifiers dest: ident.list_cmp_le_trans)

lemma order_without_tag_alt:
  "order_without_tag a b =
     then_ord (ord_cmp (unat (major a)) (unat (major b)))
       (then_ord (ord_cmp (unat (minor a)) (unat (minor b)))
         (then_ord (ord_cmp (unat (patch a)) (unat (patch b)))
           (if has_pre (vtag a) = has_pre (vtag b) then Equal
            else if has_pre (vtag a) then Less else Greater)))"
  by (auto simp: order_without_tag_def then_ord_def ord_cmp_def word_less_nat_alt)

lemma es_order_empty:
  assumes "es_wf a" and "es_wf b" and "es_is_empty a" and "es_is_empty b"
  shows "es_order a b a_buf b_buf = Equal"
  using assms by (simp add: es_order_def string_order_def es_wf_def es_is_empty_def string_is_empty_slice)

lemma version_order_without_build_precedence:
  assumes "version_wf a" and "version_wf b"
  shows "version_order_without_build a b a_buf b_buf
           = precedence_cmp (parsed_precedence a a_buf) (parsed_precedence b b_buf)"
proof -
  have "es_order (pre (vtag a)) (pre (vtag b)) a_buf b_buf = Equal"
    if "\<not> has_pre (vtag a)" "\<not> has_pre (vtag b)"
    using assms that by (auto simp: has_pre_def version_wf_def intro: es_order_empty)
  then show ?thesis
    by (auto simp: version_order_without_build_def order_without_tag_alt precedence_cmp_def
        parsed_precedence_def tag_order_without_build_def order_pre_identifiers has_pre_def then_ord_def
        ord_cmp_def)
qed

section \<open>Properties\<close>

text \<open>
  The pre-releases for which the code follows semver.org: the handle reads a text, the text has no
  underscore (which is not a character of a semver identifier, and which the integer parser skips),
  and every numeric identifier fits into 64 bits.
\<close>

definition semver_pre :: "'w::len version_type \<Rightarrow> bytes \<Rightarrow> bool" where
  "semver_pre v buf \<longleftrightarrow> (has_pre (vtag v) \<longrightarrow> es_slice (pre (vtag v)) buf \<noteq> [])
     \<and> CHR ''_'' \<notin> set (es_slice (pre (vtag v)) buf)
     \<and> (\<forall>p \<in> set (split_on (CHR ''.'') (es_slice (pre (vtag v)) buf)). all_digits p \<longrightarrow> decimal_value p < 2 ^ 64)"

lemma split_on_set: "p \<in> set (split_on d s) \<Longrightarrow> set p \<subseteq> set s"
proof (induction s arbitrary: p)
  case (Cons c s)
  obtain q qs where q: "split_on d s = q # qs" by (cases "split_on d s") simp_all
  then have "set r \<subseteq> set s" if "r = q \<or> r \<in> set qs" for r using Cons.IH [of r] that by auto
  then show ?case using Cons.prems q by (auto split: if_splits; blast)
qed simp

lemma parsed_precedence_of:
  assumes "version_wf v" and "semver_pre v buf"
  shows "parsed_precedence v buf = precedence_of v buf"
proof -
  define s where "s = es_slice (pre (vtag v)) buf"
  have "s \<noteq> [] \<longleftrightarrow> has_pre (vtag v)"
    using assms by (auto simp: s_def semver_pre_def version_wf_def es_wf_def has_pre_def es_is_empty_def es_slice_def string_is_empty_slice)
  moreover have "map parsed_identifier (split_on (CHR ''.'') s) = map identifier_of (split_on (CHR ''.'') s)"
  proof (rule map_cong [OF HOL.refl])
    fix p assume p: "p \<in> set (split_on (CHR ''.'') s)"
    show "parsed_identifier p = identifier_of p"
      by (rule parsed_identifier_of) (use p split_on_set [OF p] assms(2) in \<open>auto simp: semver_pre_def s_def\<close>)
  qed
  ultimately show ?thesis
    unfolding parsed_precedence_def precedence_of_def s_def [symmetric] by (cases s) auto
qed

text \<open>
  C3. Refinement of the version order.  On versions with well-formed handles whose pre-releases have
  no underscore and no numeric identifier of 2^64 or more, the comparison the range checks use
  computes the precedence of semver.org: core numbers first, a release above its pre-releases,
  pre-releases identifier by identifier, those of digits only by their decimal value and below the
  others, the others in ASCII order, build metadata ignored.
\<close>

theorem version_order_refines_precedence:
  fixes a b :: "'w::len version_type"
  assumes "version_wf a" and "version_wf b" and "semver_pre a a_buf" and "semver_pre b b_buf"
  shows "version_order_without_build a b a_buf b_buf
           = precedence_cmp (precedence_of a a_buf) (precedence_of b b_buf)"
  using version_order_without_build_precedence [OF assms(1,2)] parsed_precedence_of [OF assms(1,3)]
    parsed_precedence_of [OF assms(2,4)] by simp

theorem version_order_refines_precedence_witness:
  "version_order_without_build
     \<lparr>major = 1 :: u64, minor = 2, patch = 3,
      vtag = \<lparr>pre = \<lparr>es_value = pad8 ''beta.9'', es_hash = 7\<rparr>, build = es_default\<rparr>\<rparr>
     \<lparr>major = 1, minor = 2, patch = 3,
      vtag = \<lparr>pre = \<lparr>es_value = pad8 ''beta.10'', es_hash = 8\<rparr>, build = es_default\<rparr>\<rparr> [] [] = Less"
proof -
  let ?v = "\<lambda>t h. \<lparr>major = 1 :: u64, minor = 2, patch = 3, vtag = \<lparr>pre = \<lparr>es_value = pad8 t, es_hash = h\<rparr>, build = es_default\<rparr>\<rparr>"
  have t: "es_slice \<lparr>es_value = pad8 ''beta.9'', es_hash = 7\<rparr> [] = ''beta.9''"
      "es_slice \<lparr>es_value = pad8 ''beta.10'', es_hash = 8\<rparr> [] = ''beta.10''"
    by (simp_all add: es_slice_def string_slice_pad8 can_inline_def)
  have "version_wf (?v ''beta.9'' 7)" "version_wf (?v ''beta.10'' 8)"
    by (simp_all add: version_wf_def es_wf_def es_default_def EMPTY_def)
  moreover have "semver_pre (?v ''beta.9'' 7) []" "semver_pre (?v ''beta.10'' 8) []"
    by (simp_all add: semver_pre_def t decimal_value_def)
  ultimately have "version_order_without_build (?v ''beta.9'' 7) (?v ''beta.10'' 8) [] []
      = precedence_cmp (precedence_of (?v ''beta.9'' 7) []) (precedence_of (?v ''beta.10'' 8) [])"
    by (rule version_order_refines_precedence)
  also have "\<dots> = Less"
    by (simp add: precedence_cmp_def precedence_of_def t identifier_of_def all_digits_def decimal_value_def less_eq_char_def
        ascii_cmp_def then_ord_def ord_cmp_def)
  finally show ?thesis .
qed

text \<open>Numeric identifiers of 2^64 or more are compared as text, whatever their values.\<close>

lemma huge_numeric_identifiers_as_text:
  assumes "all_digits p" and "all_digits q" and "2 ^ 64 \<le> decimal_value p" and "2 ^ 64 \<le> decimal_value q"
  shows "part_order p q = ascii_cmp p q"
proof -
  have "CHR ''_'' \<notin> set r" if "all_digits r" for r using that by (auto simp: all_digits_def less_eq_char_def)
  then have "(parse_ascii p :: u64 option) = None" "(parse_ascii q :: u64 option) = None"
    using parse_ascii_digits [of p] parse_ascii_digits [of q] assms by auto
  then show ?thesis by (simp add: part_order_def strings_order_ascii)
qed

text \<open>
  C30. The order is a total preorder.  Swapping the arguments reverses the result, comparing with
  itself gives \<open>Equal\<close>, and "not greater" is transitive, whatever buffers the three versions
  live in: sorting and the left and right bounds of a range are consistent.
\<close>

theorem version_order_total_preorder:
  fixes a b c :: "'w::len version_type"
  assumes "version_wf a" and "version_wf b" and "version_wf c"
  shows "version_order_without_build b a b_buf a_buf = reverse_ord (version_order_without_build a b a_buf b_buf)
    \<and> version_order_without_build a a a_buf a_buf = Equal
    \<and> (version_order_without_build a b a_buf b_buf \<noteq> Greater \<longrightarrow>
       version_order_without_build b c b_buf c_buf \<noteq> Greater \<longrightarrow>
       version_order_without_build a c a_buf c_buf \<noteq> Greater)"
  using prec.swap [of "parsed_precedence b b_buf" "parsed_precedence a a_buf"] prec.refl
    prec.le_trans [of "parsed_precedence a a_buf" "parsed_precedence b b_buf" "parsed_precedence c c_buf"] assms
  by (simp add: version_order_without_build_precedence)

theorem version_order_total_preorder_witness:
  "version_order_without_build
     \<lparr>major = 0 :: u64, minor = 9, patch = 0, vtag = tag_default\<rparr>
     \<lparr>major = 1, minor = 0, patch = 0, vtag = \<lparr>pre = \<lparr>es_value = pad8 ''rc.1'', es_hash = 3\<rparr>, build = es_default\<rparr>\<rparr> [] []
   = reverse_ord (version_order_without_build
       \<lparr>major = 1 :: u64, minor = 0, patch = 0, vtag = \<lparr>pre = \<lparr>es_value = pad8 ''rc.1'', es_hash = 3\<rparr>, build = es_default\<rparr>\<rparr>
       \<lparr>major = 0, minor = 9, patch = 0, vtag = tag_default\<rparr> [] [])"
  by (rule version_order_total_preorder [THEN conjunct1, of _ _ "version_default"])
    (simp_all add: version_default_def version_wf_def es_wf_def es_default_def EMPTY_def tag_default_def)

text \<open>
  What counts as a difference.  \<open>which_version_is_different\<close> answers \<open>None\<close> exactly for versions
  of the same precedence whose build metadata agrees or is not looked at: the metadata is only
  compared between pre-releases, so two releases that differ in it are reported as unchanged.
\<close>

lemma which_version_is_different_none_iff:
  fixes a b :: "'w::len version_type"
  assumes "version_wf a" and "version_wf b"
  shows "which_version_is_different a b a_buf b_buf = None
    \<longleftrightarrow> version_order_without_build a b a_buf b_buf = Equal
      \<and> (has_pre (vtag a) \<longrightarrow> has_build (vtag a) = has_build (vtag b)
           \<and> (has_build (vtag a) \<longrightarrow> es_order (build (vtag a)) (build (vtag b)) a_buf b_buf = Equal))"
proof -
  have "es_order (pre (vtag a)) (pre (vtag b)) a_buf b_buf = Equal"
    if "\<not> has_pre (vtag a)" "\<not> has_pre (vtag b)"
    using assms that by (auto simp: has_pre_def version_wf_def intro: es_order_empty)
  then show ?thesis
    by (auto simp: which_version_is_different_def version_order_without_build_def order_without_tag_def
        tag_order_without_build_def has_pre_def)
qed

end
