(* ===== verification/Version_Parse.thy ===== *)
theory Version_Parse
  imports Version_Order
begin

text \<open>
  The version parser: it never panics and stays inside its input, the handles it returns are well
  formed, and it reads back what the formatter prints, with separators before and another word
  after the version.
\<close>

section \<open>Well-formed handles\<close>

definition tag_wf :: "tag \<Rightarrow> bool" where
  "tag_wf t \<longleftrightarrow> es_wf (pre t) \<and> es_wf (build t)"

lemma version_wf_tag: "version_wf v \<longleftrightarrow> tag_wf (vtag v)"
  by (simp add: version_wf_def tag_wf_def)

lemma length_string_init [simp]: "length (raw (string_init buf s)) = 8"
  by (auto simp: string_init_def)

lemma es_wf_external [simp]: "es_wf (ss_external ss)"
  by (simp add: es_wf_def ss_external_def es_init_def)

lemma es_wf_default [simp]: "es_wf es_default"
  by (simp add: es_wf_def es_default_def EMPTY_def)

lemma tag_wf_default [simp]: "tag_wf tag_default"
  by (simp add: tag_wf_def tag_default_def)

lemma es_default_empty [simp]: "es_is_empty es_default" "es_slice es_default buf = []"
  by (simp_all add: es_is_empty_def es_default_def string_is_empty_def EMPTY_def numeral_eq_Suc es_slice_def
      string_slice_def code_def inline_bytes_def)

lemma tag_default_parts [simp]: "pre tag_default = es_default" "build tag_default = es_default"
  by (simp_all add: tag_default_def)

lemma sub_external_total:
  "a \<le> b \<Longrightarrow> b \<le> length (s_bytes (ss_slice ss)) \<Longrightarrow> \<exists>e. sub_external ss a b = Some e \<and> es_wf e"
  by (simp add: sub_external_def sub_slice_def)

section \<open>The tag parser is total\<close>

lemma tag_loop_total:
  assumes "start \<le> i" and "i + length rest \<le> length (s_bytes (ss_slice ss))" and "tag_wf t"
  shows "\<exists>t' state' start' i'. tag_loop ss ipc rest i start state t = Some (t', state', start', i')
           \<and> start' \<le> i' \<and> i' \<le> i + length rest \<and> tag_wf t'"
  using assms
proof (induction rest arbitrary: i start state t)
  case (Cons c cs)
  have sub: "\<exists>e. sub_external ss start i = Some e \<and> es_wf e"
    using Cons.prems by (intro sub_external_total) auto
  then obtain e where e: "sub_external ss start i = Some e" "es_wf e" by blast
  have upd: "tag_wf (t\<lparr>pre := e\<rparr>)" "tag_wf (t\<lparr>build := e\<rparr>)"
    using e Cons.prems(3) by (auto simp: tag_wf_def)
  have IH: "\<exists>t' state' start' i'. tag_loop ss ipc cs (Suc i) st sta u = Some (t', state', start', i')
           \<and> start' \<le> i' \<and> i' \<le> i + length (c # cs) \<and> tag_wf t'"
    if "st \<le> Suc i" "tag_wf u" for st sta u
    using Cons.IH [of st "Suc i" u sta] Cons.prems(2) that by auto
  show ?case
    using Cons.prems(1,3) e upd IH [of start] IH [of "Suc i"]
    by (auto split: tag_state.split)
qed auto

lemma tag_finish_total:
  assumes "start \<le> i" and "i \<le> length (s_bytes (ss_slice ss))" and "tag_wf t"
  shows "\<exists>t'. tag_finish ss ipc t state start i = Some \<lparr>tr_tag = t', tr_len = word_of_nat i\<rparr> \<and> tag_wf t'"
proof -
  obtain e where e: "sub_external ss start i = Some e" "es_wf e"
    using sub_external_total [OF assms(1,2)] by blast
  obtain f where f: "sub_external ss 0 i = Some f" "es_wf f"
    using sub_external_total [OF le0 assms(2)] by blast
  show ?thesis
    using e f assms(3) by (cases state) (auto simp: tag_finish_def tag_wf_def)
qed

lemma parse_with_pre_count_total:
  assumes "length (s_bytes (ss_slice ss)) < 2 ^ 32"
  shows "\<exists>tr. parse_with_pre_count ss ipc = Some tr
           \<and> unat (tr_len tr) \<le> length (s_bytes (ss_slice ss)) \<and> tag_wf (tr_tag tr)"
proof -
  obtain t' state' start' i' where l:
      "tag_loop ss ipc (s_bytes (ss_slice ss)) 0 0 State_None tag_default = Some (t', state', start', i')"
      "start' \<le> i'" "i' \<le> length (s_bytes (ss_slice ss))" "tag_wf t'"
    using tag_loop_total [of 0 0 "s_bytes (ss_slice ss)" ss tag_default ipc State_None] by auto
  moreover obtain t'' where "tag_finish ss ipc t' state' start' i' = Some \<lparr>tr_tag = t'', tr_len = word_of_nat i'\<rparr>"
      "tag_wf t''"
    using tag_finish_total [OF l(2,3,4)] by blast
  moreover have "unat (word_of_nat i' :: u32) = i'" using l(3) assms by (simp add: unat_of_nat)
  ultimately show ?thesis
    by (cases "count_qualifiers (s_bytes (ss_slice ss)) 0 ipc")
      (simp add: parse_with_pre_count_def tag_result_default_def Let_def)
qed

section \<open>The version parser is total\<close>

definition result_wf :: "'w::len parse_result \<Rightarrow> bool" where
  "result_wf r \<longleftrightarrow> tag_wf (part_tag (pr_version r))"

lemma result_wf_simps [simp]:
  "result_wf parse_result_default"
  "result_wf (r\<lparr>pr_valid := b\<rparr>) = result_wf r"
  "result_wf (r\<lparr>pr_wildcard := w\<rparr>) = result_wf r"
  "result_wf (r\<lparr>pr_len := l\<rparr>) = result_wf r"
  "result_wf (fst (store_number k n r)) = result_wf r"
  "result_wf (fst (store_wildcard k r)) = result_wf r"
  "result_wf (close_wildcard k r) = result_wf r"
  by (auto simp: result_wf_def parse_result_default_def partial_default_def store_number_def
      store_wildcard_def close_wildcard_def)

lemma result_wf_tag [simp]: "tag_wf t \<Longrightarrow> result_wf (r\<lparr>pr_version := (pr_version r)\<lparr>part_tag := t\<rparr>\<rparr>)"
  by (simp add: result_wf_def)

text \<open>The index after a number or a wildcard, the dot included.\<close>

lemma skip_dot_le:
  assumes "i < length s"
  shows "(if skip_while P s (Suc i) < length s \<and> Q then Suc (skip_while P s (Suc i))
          else skip_while P s (Suc i)) \<le> length s"
  using skip_while_le [of "Suc i" s P] assms by auto

text \<open>One lemma per arm of the loop.\<close>

lemma version_parse_loop_end:
  "length (s_bytes (ss_slice ss)) \<le> i \<Longrightarrow> version_parse_loop ss i k r = Some (r, k, i)"
  by (subst version_parse_loop.simps) (simp add: Let_def)

lemma version_parse_loop_stop:
  assumes "i < length (s_bytes (ss_slice ss))"
  shows "s_bytes (ss_slice ss) ! i = CHR '' '' \<Longrightarrow> version_parse_loop ss i k r = Some (r, k, i)"
    and "is_range_byte (s_bytes (ss_slice ss) ! i) \<Longrightarrow> version_parse_loop ss i k r = Some (r, k, i - 1)"
    and "s_bytes (ss_slice ss) ! i = CHR ''.'' \<Longrightarrow> version_parse_loop ss i k r = Some (r\<lparr>pr_valid := False\<rparr>, k, i)"
  using assms
  by (subst version_parse_loop.simps; auto simp: Let_def is_range_byte_def ascii_defs code_def)+

lemma version_parse_loop_digit:
  assumes "i < length (s_bytes (ss_slice ss))" and "is_ascii_digit (s_bytes (ss_slice ss) ! i)"
    and "sub_slice (ss_slice ss) i (skip_while is_ascii_digit (s_bytes (ss_slice ss)) (Suc i)) = Some part"
    and "store_number k (parse_version_number (s_bytes part)) r = (r', k')"
  shows "version_parse_loop ss i k r =
           version_parse_loop ss
             (let l = skip_while is_ascii_digit (s_bytes (ss_slice ss)) (Suc i)
              in if l < length (s_bytes (ss_slice ss)) \<and> s_bytes (ss_slice ss) ! l = CHR ''.'' \<and> k' \<noteq> 3
                 then Suc l else l) k' r'"
proof -
  have "\<not> is_range_byte (s_bytes (ss_slice ss) ! i)" "s_bytes (ss_slice ss) ! i \<noteq> CHR '' ''"
    using assms(2) by (auto simp: is_range_byte_def is_ascii_digit_def code_def)
  then show ?thesis using assms by (subst version_parse_loop.simps) (simp add: Let_def)
qed

lemma version_parse_loop_wildcard:
  assumes "i < length (s_bytes (ss_slice ss))" and "is_wildcard_byte (s_bytes (ss_slice ss) ! i)"
    and "store_wildcard k r = (r', k')"
  shows "version_parse_loop ss i k r =
           version_parse_loop ss
             (let l = skip_while is_wildcard_byte (s_bytes (ss_slice ss)) (Suc i)
              in if l < length (s_bytes (ss_slice ss)) \<and> s_bytes (ss_slice ss) ! l = CHR ''.''
                 then Suc l else l) k' r'"
proof -
  have "\<not> is_ascii_digit (s_bytes (ss_slice ss) ! i)" "\<not> is_range_byte (s_bytes (ss_slice ss) ! i)"
    using assms(2) by (auto simp: is_range_byte_def is_ascii_digit_def code_def is_wildcard_byte_def)
  moreover have "s_bytes (ss_slice ss) ! i \<notin> set '' .-+''"
    using assms(2) by (auto simp: is_wildcard_byte_def)
  ultimately show ?thesis using assms by (subst version_parse_loop.simps) (simp add: Let_def)
qed

lemma version_parse_loop_tag:
  assumes i: "i < length (s_bytes (ss_slice ss))"
    and c: "s_bytes (ss_slice ss) ! i = CHR ''-'' \<or> s_bytes (ss_slice ss) ! i = CHR ''+''"
    and tr: "slice_from (ss_slice ss) i = Some rest" "tag_parse (ss_sub ss rest) = Some tr"
  shows "version_parse_loop ss i k r =
           (if k < 2 \<and> pr_wildcard r = Wild_None then Some (r\<lparr>pr_valid := False\<rparr>, k, i)
            else Some (r\<lparr>pr_version := (pr_version r)\<lparr>part_tag := tr_tag tr\<rparr>\<rparr>, k, i + unat (tr_len tr)))"
proof -
  have "skip_while (\<lambda>d. d = CHR '' '') (s_bytes (ss_slice ss)) i = i"
    using c i by (auto simp: skip_while_def takeWhile_eq_Nil_iff hd_drop_conv_nth)
  moreover have "\<not> is_ascii_digit (s_bytes (ss_slice ss) ! i)" "\<not> is_range_byte (s_bytes (ss_slice ss) ! i)"
    using c by (auto simp: is_range_byte_def is_ascii_digit_def code_def)
  ultimately show ?thesis using i c tr by (subst version_parse_loop.simps) (auto simp: Let_def)
qed

lemma version_parse_loop_other:
  assumes i: "i < length (s_bytes (ss_slice ss))" and c: "c = s_bytes (ss_slice ss) ! i"
    and other: "c \<noteq> CHR '' ''" "\<not> is_range_byte c" "\<not> is_ascii_digit c" "c \<noteq> CHR ''.''"
      "c \<noteq> CHR ''-''" "c \<noteq> CHR ''+''" "\<not> is_wildcard_byte c"
    and tr: "slice_from (ss_slice ss) i = Some rest" "parse_with_pre_count (ss_sub ss rest) 1 = Some tr"
  shows "version_parse_loop ss i k r =
           (if pr_wildcard r = Wild_None \<and> k \<ge> 2 \<and> is_ascii_alphabetic c
            then Some (r\<lparr>pr_version := (pr_version r)\<lparr>part_tag := tr_tag tr\<rparr>\<rparr>, k, i + unat (tr_len tr))
            else Some (r\<lparr>pr_valid := False\<rparr>, k, i))"
  using i other tr unfolding c by (subst version_parse_loop.simps) (simp add: Let_def)

lemma version_parse_loop_total:
  fixes r :: "'w::len parse_result"
  assumes "length (s_bytes (ss_slice ss)) < 2 ^ 32" and "i \<le> length (s_bytes (ss_slice ss))" and "result_wf r"
  shows "\<exists>r' k' i'. version_parse_loop ss i k r = Some (r', k', i')
           \<and> i' \<le> length (s_bytes (ss_slice ss)) \<and> result_wf r'"
  using assms(2,3)
proof (induction "length (s_bytes (ss_slice ss)) - i" arbitrary: i k r rule: less_induct)
  case less
  let ?in = "s_bytes (ss_slice ss)"
  show ?case
  proof (cases "i < length ?in")
    case False
    then show ?thesis using less.prems by (simp add: version_parse_loop_end)
  next
    case i: True
    obtain rest where rest: "slice_from (ss_slice ss) i = Some rest" "s_bytes rest = drop i ?in"
      using i by (simp add: slice_from_Some)
    have tp: "\<exists>tr. parse_with_pre_count (ss_sub ss rest) ipc = Some tr
        \<and> unat (tr_len tr) \<le> length ?in - i \<and> tag_wf (tr_tag tr)" for ipc
      using parse_with_pre_count_total [of "ss_sub ss rest" ipc] rest(2) assms(1)
      by (auto simp: ss_sub_def)
    have step: "\<exists>r' k' i'. version_parse_loop ss (let l = skip_while P ?in (Suc i)
          in if l < length ?in \<and> Q l then Suc l else l) m u = Some (r', k', i')
        \<and> i' \<le> length ?in \<and> result_wf r'" if "result_wf u" for P Q m and u :: "'w parse_result"
      using that i skip_dot_le [OF i] skip_while_Suc(1) [of i P ?in]
      by (intro less.hyps) (auto simp: Let_def intro!: diff_less_mono2)
    obtain t0 where t0: "tag_parse (ss_sub ss rest) = Some t0"
        "unat (tr_len t0) \<le> length ?in - i" "tag_wf (tr_tag t0)" using tp tag_parse_def by metis
    obtain t1 where t1: "parse_with_pre_count (ss_sub ss rest) 1 = Some t1"
        "unat (tr_len t1) \<le> length ?in - i" "tag_wf (tr_tag t1)" using tp by blast
    consider (stop) "?in ! i = CHR '' '' \<or> is_range_byte (?in ! i) \<or> ?in ! i = CHR ''.''"
      | (digit) "is_ascii_digit (?in ! i)" | (wild) "is_wildcard_byte (?in ! i)"
      | (tag) "?in ! i = CHR ''-'' \<or> ?in ! i = CHR ''+''"
      | (other) "?in ! i \<noteq> CHR '' ''" "\<not> is_range_byte (?in ! i)" "\<not> is_ascii_digit (?in ! i)"
          "?in ! i \<noteq> CHR ''.''" "?in ! i \<noteq> CHR ''-''" "?in ! i \<noteq> CHR ''+''" "\<not> is_wildcard_byte (?in ! i)"
      by blast
    then show ?thesis
    proof cases
      case stop
      then show ?thesis using version_parse_loop_stop [OF i, where k = k and r = r] i less.prems by auto
    next
      case digit
      obtain part where part: "sub_slice (ss_slice ss) i (skip_while is_ascii_digit ?in (Suc i)) = Some part"
        using skip_while_le [of "Suc i" ?in is_ascii_digit] i skip_while_Suc(2) [of i is_ascii_digit ?in]
        by (simp add: sub_slice_def)
      obtain r' k' where sn: "store_number k (parse_version_number (s_bytes part)) r = (r', k')" by fastforce
      then have "result_wf r'"
        using result_wf_simps(5) [of k "parse_version_number (s_bytes part)" r] less.prems by simp
      then show ?thesis using version_parse_loop_digit [OF i digit part sn] step by simp
    next
      case wild
      obtain r' k' where sw: "store_wildcard k r = (r', k')" by fastforce
      then have "result_wf r'" using result_wf_simps(6) [of k r] less.prems by simp
      then show ?thesis using version_parse_loop_wildcard [OF i wild sw] step by simp
    next
      case tag
      then show ?thesis
        using version_parse_loop_tag [OF i tag rest(1) t0(1), of k r] t0(2,3) less.prems i by auto
    next
      case other
      then show ?thesis
        using version_parse_loop_other [OF i refl other rest(1) t1(1), of k r] t1(2,3) less.prems i by auto
    qed
  qed
qed

lemma first_version_byte_less: "s \<noteq> [] \<Longrightarrow> first_version_byte s < length s"
  by (simp add: first_version_byte_def Let_def)

lemma version_parse_total:
  assumes "length (s_bytes (ss_slice ss)) < 2 ^ 32"
  shows "\<exists>r :: 'w::len parse_result. version_parse ss = Some r
           \<and> unat (pr_len r) \<le> length (s_bytes (ss_slice ss)) \<and> result_wf r"
proof (cases "s_bytes (ss_slice ss) = []")
  case True
  then show ?thesis by (simp add: version_parse_def parse_result_default_def result_wf_def partial_default_def)
next
  case False
  note lt = first_version_byte_less [OF False]
  obtain r' :: "'w parse_result" and k i' where l:
      "version_parse_loop ss (first_version_byte (s_bytes (ss_slice ss))) 0 parse_result_default = Some (r', k, i')"
      "i' \<le> length (s_bytes (ss_slice ss))" "result_wf r'"
    using version_parse_loop_total [OF assms less_imp_le [OF lt] result_wf_simps(1), of 0] by blast
  then show ?thesis using lt False assms by (simp add: version_parse_def Let_def unat_of_nat)
qed

section \<open>Numbers\<close>

lemma fmt_nat_length: "n < 10 ^ k \<Longrightarrow> 0 < k \<Longrightarrow> length (fmt_nat n) \<le> k"
proof (induction n arbitrary: k rule: fmt_nat.induct)
  case (1 n)
  show ?case
  proof (cases "n < 10")
    case True
    then show ?thesis using "1.prems" by (subst fmt_nat.simps) simp
  next
    case False
    then obtain m where m: "k = Suc m" "0 < m"
      using "1.prems" by (cases k; cases "k - 1") auto
    then have "n div 10 < 10 ^ m" using "1.prems"(1) by (simp add: less_mult_imp_div_less mult.commute)
    then have "length (fmt_nat (n div 10)) \<le> m" using "1.IH" [OF False] m by blast
    then show ?thesis using False m by (subst fmt_nat.simps) simp
  qed
qed

lemma number_bytes_digits:
  "\<forall>c\<in>set ds. is_ascii_digit c \<Longrightarrow> length acc + length ds \<le> 20 \<Longrightarrow> number_bytes ds acc = Some (acc @ ds)"
proof (induction ds arbitrary: acc)
  case (Cons c cs)
  have "c \<notin> set ''Xx*''" using Cons.prems(1) by (auto simp: is_ascii_digit_def code_def)
  then show ?case using Cons by simp
qed simp

lemma fmt_uint_nonempty [simp]: "fmt_uint w \<noteq> []"
  by (simp add: fmt_uint_def)

lemma fmt_uint_digits: "c \<in> set (fmt_uint w) \<Longrightarrow> is_ascii_digit c"
  using fmt_nat_digits [of "unat w"] by (simp add: fmt_uint_def)

lemma parse_version_number_fmt:
  assumes "LENGTH('w::len) \<le> 64"
  shows "parse_version_number (fmt_uint (w :: 'w word)) = Some w"
proof -
  have "unat w < 2 ^ 64"
    using unat_lt [of w] power_increasing [OF assms, of "2::nat"] by linarith
  then have "length (fmt_uint w) \<le> 20"
    unfolding fmt_uint_def by (intro fmt_nat_length) auto
  then have "number_bytes (fmt_uint w) [] = Some (fmt_uint w)"
    using fmt_uint_digits by (subst number_bytes_digits) auto
  moreover have "parse_unsigned (fmt_uint w) 10 = Inr w"
    using assms by (intro parse_unsigned_fmt) simp
  ultimately show ?thesis by (simp add: parse_version_number_def parse_ascii_def)
qed

lemma skip_while_digits:
  assumes "drop i s = ds @ r" and "ds \<noteq> []" and "\<forall>c\<in>set ds. P c" and "r = [] \<or> \<not> P (hd r)"
  shows "skip_while P s (Suc i) = i + length ds"
proof -
  obtain d ds' where ds: "ds = d # ds'" using assms(2) by (cases ds) auto
  have "drop (Suc i) s = ds' @ r" using assms(1) ds by (metis append_Cons drop_Suc drop_drop list.sel(3) drop_eq_ConsD)
  moreover have "takeWhile P (ds' @ r) = ds'"
    using assms(3,4) ds by (cases r) (auto simp: takeWhile_append2)
  ultimately show ?thesis using ds by (simp add: skip_while_def)
qed

text \<open>A printed number is read, with the dot after it while numbers are missing.\<close>

lemma version_parse_loop_number:
  assumes len: "LENGTH('w::len) \<le> 64"
    and d: "drop i (s_bytes (ss_slice ss)) = fmt_uint (w :: 'w word) @ r" and il: "i \<le> length (s_bytes (ss_slice ss))"
    and stop: "r = [] \<or> \<not> is_ascii_digit (hd r)"
    and st: "store_number k (Some w) res = (res', k')"
  shows "version_parse_loop ss i k res =
           version_parse_loop ss (i + length (fmt_uint w) + (if r \<noteq> [] \<and> hd r = CHR ''.'' \<and> k' \<noteq> 3 then 1 else 0))
             k' res'"
proof -
  let ?in = "s_bytes (ss_slice ss)"
  let ?l = "i + length (fmt_uint w)"
  have L: "length ?in = ?l + length r"
  proof -
    have "length (drop i ?in) = length (fmt_uint w @ r)" using d by simp
    then show ?thesis using il by simp
  qed
  have i: "i < length ?in" using L by (cases "fmt_uint w") (use fmt_uint_nonempty [of w] in auto)
  have hd: "?in ! i = hd (fmt_uint w)"
    using d i by (metis fmt_uint_nonempty hd_append2 hd_drop_conv_nth)
  have dig: "is_ascii_digit (?in ! i)" unfolding hd by (rule fmt_uint_digits [of _ w]) simp
  have skip: "skip_while is_ascii_digit ?in (Suc i) = ?l"
    using d stop by (intro skip_while_digits) (auto simp: fmt_uint_digits)
  have sub: "sub_slice (ss_slice ss) i ?l = Some \<lparr>s_addr = s_addr (ss_slice ss) + word_of_nat i, s_bytes = fmt_uint w\<rparr>"
    using d L by (simp add: sub_slice_def)
  have dropl: "drop ?l ?in = r" using d by (metis add.commute append_eq_conv_conj drop_drop)
  have dot: "?l < length ?in \<and> ?in ! ?l = CHR ''.'' \<longleftrightarrow> r \<noteq> [] \<and> hd r = CHR ''.''"
    using L dropl by (cases r) (auto simp: hd_drop_conv_nth [symmetric])
  then have next_i: "(if ?l < length ?in \<and> ?in ! ?l = CHR ''.'' \<and> k' \<noteq> 3 then Suc ?l else ?l)
      = ?l + (if r \<noteq> [] \<and> hd r = CHR ''.'' \<and> k' \<noteq> 3 then 1 else 0)"
    by auto
  show ?thesis
    using version_parse_loop_digit [OF i dig, unfolded skip Let_def, OF sub, of k res res' k'] st
    unfolding next_i by (simp add: parse_version_number_fmt [OF len])
qed

section \<open>Tags\<close>

text \<open>The bytes of the two parts of a tag: a pre-release may contain dashes, build metadata not.\<close>

definition pre_text :: "bytes \<Rightarrow> bool" where
  "pre_text p \<longleftrightarrow> list_all (\<lambda>c. is_tag_byte c \<or> c = CHR ''-'') p"

definition build_text :: "bytes \<Rightarrow> bool" where
  "build_text p \<longleftrightarrow> list_all is_tag_byte p"

definition qualifier :: "bytes \<Rightarrow> bytes \<Rightarrow> bytes" where
  "qualifier p b = (if p = [] then [] else CHR ''-'' # p) @ (if b = [] then [] else CHR ''+'' # b)"

lemma is_tag_byte_special [simp]:
  "\<not> is_tag_byte (CHR ''+'')" "\<not> is_tag_byte (CHR ''-'')" "\<not> is_tag_byte (CHR '' '')" "\<not> is_tag_byte (CHR 0x00)"
  by (simp_all add: is_tag_byte_def ascii_defs code_def)

lemma build_text_pre_text: "build_text p \<Longrightarrow> pre_text p"
  by (auto simp: build_text_def pre_text_def list_all_iff)

lemma pre_text_storable: "pre_text p \<Longrightarrow> length p < 2 ^ 31 \<Longrightarrow> storable p"
  by (auto simp: storable_def pre_text_def list_all_iff)

lemma tag_loop_pre:
  "pre_text p \<Longrightarrow> tag_loop ss n (p @ rest) i start State_Pre t = tag_loop ss n rest (i + length p) start State_Pre t"
  by (induction p arbitrary: i) (auto simp: pre_text_def)

lemma tag_loop_build:
  "build_text p \<Longrightarrow> tag_loop ss n (p @ rest) i start State_Build t = tag_loop ss n rest (i + length p) start State_Build t"
  by (induction p arbitrary: i) (auto simp: build_text_def)

lemmas tag_loop_text = tag_loop_pre tag_loop_build
  tag_loop_pre [where rest = "[]", simplified] tag_loop_build [where rest = "[]", simplified]

lemma count_qualifiers_mono:
  "unat b + length cs < 2 ^ 32 \<Longrightarrow> unat p + length cs < 2 ^ 32 \<Longrightarrow>
   unat b \<le> unat (fst (count_qualifiers cs b p)) \<and> unat p \<le> unat (snd (count_qualifiers cs b p))"
proof (induction cs b p rule: count_qualifiers.induct)
  case (2 c cs b p)
  have "unat (b + 1) = unat b + 1" "unat (p + 1) = unat p + 1"
    using "2.prems" by (auto intro!: unat_add_lem [THEN iffD1, THEN trans])
  with 2 show ?case by auto
qed auto

lemma count_qualifiers_nonzero:
  assumes "c = CHR ''-'' \<or> c = CHR ''+''" and "length cs < 2 ^ 31"
  shows "count_qualifiers (c # cs) 0 0 \<noteq> (0, 0)"
proof -
  have "unat (1 :: u32) = 1" by simp
  then show ?thesis
    using assms count_qualifiers_mono [of 0 cs 1] count_qualifiers_mono [of 1 cs 0]
    by (cases "count_qualifiers cs 0 1"; cases "count_qualifiers cs 1 0") (auto simp: unat_eq_zero)
qed

text \<open>What a handle of a sub-slice reads.\<close>

definition reads :: "sliced_string \<Rightarrow> external_string \<Rightarrow> bytes \<Rightarrow> bool" where
  "reads ss e p \<longleftrightarrow>
     es_slice e (s_bytes (ss_buf ss)) = p \<and> es_is_empty e = (p = []) \<and> es_wf e
     \<and> es_hash e = (if p = [] then 0 else string_hash p)"

lemma reads_default: "reads ss es_default []"
  by (simp add: reads_def) (simp add: es_default_def)

lemma sub_external_reads:
  assumes "in_buffer (ss_buf ss) off (ss_slice ss)" and "off + a < 2 ^ 32"
    and "s_bytes (ss_slice ss) = u @ p @ v" and "length u = a" and "storable p" and "p \<noteq> []"
  shows "\<exists>e. sub_external ss a (a + length p) = Some e \<and> reads ss e p"
proof -
  let ?s = "\<lparr>s_addr = s_addr (ss_slice ss) + word_of_nat a, s_bytes = p\<rparr>"
  have sub: "sub_slice (ss_slice ss) a (a + length p) = Some ?s"
    using assms(3,4) by (simp add: sub_slice_def)
  note inb = in_buffer_sub [OF assms(1) sub]
  have st: "storable (s_bytes ?s)" using assms(5) by simp
  have "string_slice (string_init (ss_buf ss) ?s) (s_bytes (ss_buf ss)) = p"
    using string_slice_init [OF inb assms(2) st] by simp
  moreover have "\<not> string_is_empty (string_init (ss_buf ss) ?s)"
    using string_is_empty_init [OF st] assms(6) by simp
  ultimately show ?thesis
    using sub assms(6)
    by (simp add: sub_external_def reads_def ss_external_def ss_sub_def es_init_def es_slice_def
        es_is_empty_def es_wf_def string_hash_def)
qed

text \<open>The tag parser on a printed qualifier, up to the end of the input or a space.\<close>

lemma tag_parse_qualifier:
  assumes inb: "in_buffer (ss_buf ss) off (ss_slice ss)" and off: "off + length (s_bytes (ss_slice ss)) < 2 ^ 31"
    and inp: "s_bytes (ss_slice ss) = qualifier p b @ rest" and q: "p \<noteq> [] \<or> b \<noteq> []"
    and p: "pre_text p" and b: "build_text b" and rest: "rest = [] \<or> hd rest = CHR '' ''"
  shows "\<exists>t. tag_parse ss = Some \<lparr>tr_tag = t, tr_len = word_of_nat (length (qualifier p b))\<rparr>
           \<and> reads ss (pre t) p \<and> reads ss (build t) b"
proof -
  have lp: "length p < 2 ^ 31" and lb: "length b < 2 ^ 31"
    using off inp q by (auto simp: qualifier_def split: if_splits)
  have sp: "storable p" "storable b"
    using p b lp lb build_text_pre_text pre_text_storable by auto
  have ep: "\<exists>e. sub_external ss 1 (1 + length p) = Some e \<and> reads ss e p" if "p \<noteq> []"
    by (rule sub_external_reads [OF inb, where u = "''-''" and v = "(if b = [] then [] else CHR ''+'' # b) @ rest"])
      (use that inp off sp in \<open>auto simp: qualifier_def\<close>)
  let ?u = "(if p = [] then [] else CHR ''-'' # p) @ ''+''"
  have eb: "\<exists>e. sub_external ss (length ?u) (length ?u + length b) = Some e \<and> reads ss e b" if "b \<noteq> []"
    by (rule sub_external_reads [OF inb, where u = ?u and v = rest])
      (use that inp off sp in \<open>auto simp: qualifier_def\<close>)
  obtain e1 where e1: "p \<noteq> [] \<Longrightarrow> sub_external ss (Suc 0) (Suc (length p)) = Some e1 \<and> reads ss e1 p"
    using ep by fastforce
  obtain e2 where e2: "b \<noteq> [] \<Longrightarrow> sub_external ss (length ?u) (length ?u + length b) = Some e2 \<and> reads ss e2 b"
    using eb by blast
  obtain c cs where c: "s_bytes (ss_slice ss) = c # cs" "c = CHR ''-'' \<or> c = CHR ''+''"
    using inp q by (cases "p = []") (auto simp: qualifier_def)
  have cnt: "count_qualifiers (s_bytes (ss_slice ss)) 0 0 \<noteq> (0, 0)"
    unfolding c(1) using c off by (intro count_qualifiers_nonzero) auto
  define t where "t = \<lparr>pre = (if p = [] then es_default else e1), build = (if b = [] then es_default else e2)\<rparr>"
  have rt: "reads ss (pre t) p" "reads ss (build t) b"
    using e1 e2 reads_default by (auto simp: t_def)
  have "\<exists>u state start. tag_loop ss 0 (qualifier p b @ rest) 0 0 State_None tag_default
        = Some (u, state, start, length (qualifier p b))
      \<and> tag_finish ss 0 u state start (length (qualifier p b))
        = Some \<lparr>tr_tag = t, tr_len = word_of_nat (length (qualifier p b))\<rparr>"
    using q p b e1 e2 rest
    by (cases rest; cases "p = []"; cases "b = []")
      (auto simp: qualifier_def tag_loop_text tag_finish_def t_def tag_default_def)
  then show ?thesis
    using rt cnt inp by (auto simp: tag_parse_def parse_with_pre_count_def Let_def split: prod.split)
qed

section \<open>Printed versions are read back\<close>

definition version_text :: "'w::len word \<Rightarrow> 'w word \<Rightarrow> 'w word \<Rightarrow> bytes \<Rightarrow> bytes \<Rightarrow> bytes" where
  "version_text a b c p q = fmt_uint a @ ''.'' @ fmt_uint b @ ''.'' @ fmt_uint c @ qualifier p q"

definition core_length :: "'w::len word \<Rightarrow> 'w word \<Rightarrow> 'w word \<Rightarrow> nat" where
  "core_length a b c = length (version_text a b c [] [])"

text \<open>Where a version text ends: at the end of the input or at a space.\<close>

definition text_ends :: "bytes \<Rightarrow> bool" where
  "text_ends rest \<longleftrightarrow> rest = [] \<or> hd rest = CHR '' ''"

lemma special_not_digit [simp]:
  "\<not> is_ascii_digit (CHR ''.'')" "\<not> is_ascii_digit (CHR ''-'')" "\<not> is_ascii_digit (CHR ''+'')"
  "\<not> is_ascii_digit (CHR '' '')"
  by (simp_all add: is_ascii_digit_def code_def)

lemma digit_not_separator: "is_ascii_digit c \<Longrightarrow> \<not> is_version_separator c"
  by (auto simp: is_version_separator_def WHITESPACE_CHARS_def is_ascii_digit_def code_def)

lemma first_version_byte_text:
  assumes "\<forall>c\<in>set pfx. is_version_separator c"
  shows "first_version_byte (pfx @ fmt_uint w @ r) = length pfx"
proof -
  have "hd (fmt_uint w) \<in> set (fmt_uint w)" by simp
  then have "\<not> is_version_separator (hd (fmt_uint w))" by (intro digit_not_separator fmt_uint_digits)
  then have "takeWhile is_version_separator (pfx @ fmt_uint w @ r) = pfx"
    using assms fmt_uint_nonempty [of w] by (cases "fmt_uint w") (auto simp: takeWhile_append2)
  then show ?thesis by (simp add: first_version_byte_def skip_while_def)
qed

lemma qualifier_stops:
  "text_ends rest \<Longrightarrow> qualifier p q @ rest = [] \<or> \<not> is_ascii_digit (hd (qualifier p q @ rest))"
  by (auto simp: qualifier_def text_ends_def)

lemma version_parse_loop_core:
  assumes len: "LENGTH('w::len) \<le> 64"
    and inp: "s_bytes (ss_slice ss) = pfx @ version_text (a :: 'w word) b c p q @ rest"
    and rest: "text_ends rest"
  shows "version_parse_loop ss (length pfx) 0 parse_result_default =
           version_parse_loop ss (length pfx + core_length a b c) 3
             (parse_result_default\<lparr>pr_version := \<lparr>part_major = Some a, part_minor = Some b,
                part_patch = Some c, part_tag = tag_default\<rparr>\<rparr>)"
proof -
  let ?B = "fmt_uint b @ ''.'' @ fmt_uint c @ qualifier p q @ rest"
  let ?C = "fmt_uint c @ qualifier p q @ rest"
  let ?i1 = "length pfx + length (fmt_uint a) + 1"
  let ?i2 = "?i1 + length (fmt_uint b) + 1"
  let ?r1 = "parse_result_default\<lparr>pr_version := partial_default\<lparr>part_major := Some a\<rparr>\<rparr>"
  let ?r2 = "parse_result_default\<lparr>pr_version := partial_default\<lparr>part_major := Some a, part_minor := Some b\<rparr>\<rparr>"
  have "version_parse_loop ss (length pfx) 0 parse_result_default = version_parse_loop ss ?i1 1 ?r1"
    using version_parse_loop_number [OF len, of "length pfx" ss a "''.'' @ ?B" 0 parse_result_default ?r1 1] inp
    by (simp add: version_text_def store_number_def parse_result_default_def)
  also have "\<dots> = version_parse_loop ss ?i2 2 ?r2"
    using version_parse_loop_number [OF len, of ?i1 ss b "''.'' @ ?C" 1 ?r1 ?r2 2] inp
    by (simp add: version_text_def store_number_def)
  also have "\<dots> = version_parse_loop ss (?i2 + length (fmt_uint c)) 3
      (parse_result_default\<lparr>pr_version := partial_default\<lparr>part_major := Some a, part_minor := Some b, part_patch := Some c\<rparr>\<rparr>)"
    using version_parse_loop_number [OF len, of ?i2 ss c "qualifier p q @ rest" 2 ?r2 _ 3] inp
      qualifier_stops [OF rest, of p q]
    by (simp add: version_text_def store_number_def)
  finally show ?thesis
    by (simp add: core_length_def version_text_def qualifier_def partial_default_def add.assoc)
qed

definition text_result :: "'w::len word \<Rightarrow> 'w word \<Rightarrow> 'w word \<Rightarrow> tag \<Rightarrow> nat \<Rightarrow> 'w parse_result" where
  "text_result a b c t n =
     \<lparr>pr_wildcard = Wild_None, pr_valid = True,
      pr_version = \<lparr>part_major = Some a, part_minor = Some b, part_patch = Some c, part_tag = t\<rparr>,
      pr_len = word_of_nat n\<rparr>"

lemma version_text_nonempty [simp]: "version_text a b c p q \<noteq> []"
  by (simp add: version_text_def)

text \<open>After the three numbers: the qualifier, or the end of the text.\<close>

lemma version_parse_loop_tail:
  assumes inb: "in_buffer (ss_buf ss) off (ss_slice ss)" and off: "off + length (s_bytes (ss_slice ss)) < 2 ^ 31"
    and dr: "drop i (s_bytes (ss_slice ss)) = qualifier p q @ rest" and rest: "text_ends rest"
    and p: "pre_text p" and q: "build_text q" and r: "part_tag (pr_version r) = tag_default"
  shows "\<exists>t. version_parse_loop ss i 3 r
             = Some (r\<lparr>pr_version := (pr_version r)\<lparr>part_tag := t\<rparr>\<rparr>, 3, i + length (qualifier p q))
           \<and> reads ss (pre t) p \<and> reads ss (build t) q"
proof (cases "p = [] \<and> q = []")
  let ?in = "s_bytes (ss_slice ss)"
  case True
  then have qn: "qualifier p q = []" by (simp add: qualifier_def)
  have "version_parse_loop ss i 3 r = Some (r, 3, i)"
  proof (cases rest)
    case Nil
    then show ?thesis using dr qn by (intro version_parse_loop_end) simp
  next
    case (Cons d ds)
    then have "i < length ?in" "?in ! i = CHR '' ''"
      using dr qn rest drop_eq_ConsD [of i ?in d ds] by (auto simp: text_ends_def)
    then show ?thesis by (intro version_parse_loop_stop(1))
  qed
  then show ?thesis using True qn reads_default r by (intro exI [of _ tag_default]) simp
next
  let ?in = "s_bytes (ss_slice ss)"
  case False
  then obtain d ds where d: "qualifier p q = d # ds" "d = CHR ''-'' \<or> d = CHR ''+''"
    by (cases "p = []") (auto simp: qualifier_def)
  then have i: "i < length ?in" and c: "?in ! i = CHR ''-'' \<or> ?in ! i = CHR ''+''"
    using dr drop_eq_ConsD [of i ?in d "ds @ rest"] by auto
  let ?rest = "\<lparr>s_addr = s_addr (ss_slice ss) + word_of_nat i, s_bytes = drop i ?in\<rparr>"
  have sf: "slice_from (ss_slice ss) i = Some ?rest" using i by (simp add: slice_from_Some)
  define R where "R = ss_sub ss ?rest"
  have R: "ss_buf R = ss_buf ss" "s_bytes (ss_slice R) = qualifier p q @ rest"
    using dr by (simp_all add: R_def ss_sub_def)
  have inR: "in_buffer (ss_buf R) (off + i) (ss_slice R)"
    using in_buffer_sub [OF inb sf [unfolded slice_from_def]] by (simp add: R_def ss_sub_def)
  have lq: "length (qualifier p q @ rest) = length ?in - i" using dr by (metis length_drop)
  then have bR: "off + i + length (s_bytes (ss_slice R)) < 2 ^ 31" using off i R(2) by simp
  have "p \<noteq> [] \<or> q \<noteq> []" using False by blast
  then obtain t where t: "tag_parse R = Some \<lparr>tr_tag = t, tr_len = word_of_nat (length (qualifier p q))\<rparr>"
      "reads R (pre t) p" "reads R (build t) q"
    using tag_parse_qualifier [OF inR bR R(2) _ p q rest [unfolded text_ends_def]] by blast
  have "length (qualifier p q) < 2 ^ 32" using lq off by simp
  then show ?thesis
    using version_parse_loop_tag [OF i c sf t(1) [unfolded R_def], of 3 r] t(2,3) R(1)
    by (auto simp: reads_def unat_of_nat)
qed

lemma version_parse_text:
  assumes len: "LENGTH('w::len) \<le> 64"
    and inb: "in_buffer (ss_buf ss) off (ss_slice ss)" and off: "off + length (s_bytes (ss_slice ss)) < 2 ^ 31"
    and inp: "s_bytes (ss_slice ss) = pfx @ version_text (a :: 'w word) b c p q @ rest"
    and pfx: "\<forall>c\<in>set pfx. is_version_separator c" and rest: "text_ends rest"
    and p: "pre_text p" and q: "build_text q"
  shows "\<exists>t. version_parse ss = Some (text_result a b c t (length pfx + length (version_text a b c p q)))
           \<and> reads ss (pre t) p \<and> reads ss (build t) q"
proof -
  let ?in = "s_bytes (ss_slice ss)"
  let ?i = "length pfx + core_length a b c"
  let ?r = "parse_result_default\<lparr>pr_version := \<lparr>part_major = Some a, part_minor = Some b,
                part_patch = Some c, part_tag = tag_default\<rparr>\<rparr>"
  have il: "?i + length (qualifier p q) = length pfx + length (version_text a b c p q)"
    by (simp add: core_length_def version_text_def qualifier_def)
  have dr: "drop ?i ?in = qualifier p q @ rest"
    by (simp add: inp core_length_def version_text_def qualifier_def)
  have fvb: "first_version_byte ?in = length pfx"
    using first_version_byte_text [OF pfx] by (simp add: inp version_text_def)
  have small: "length pfx + length (version_text a b c p q) < 2 ^ 32" using off inp by simp
  obtain t where "version_parse_loop ss ?i 3 ?r = Some (?r\<lparr>pr_version := (pr_version ?r)\<lparr>part_tag := t\<rparr>\<rparr>, 3,
      length pfx + length (version_text a b c p q))" and rd: "reads ss (pre t) p" "reads ss (build t) q"
    using version_parse_loop_tail [OF inb off dr rest p q, of ?r] unfolding il by auto
  then have "version_parse ss = Some (text_result a b c t (length pfx + length (version_text a b c p q)))"
    using version_parse_loop_core [OF len inp rest] fvb small inp
    by (simp add: version_parse_def Let_def close_wildcard_def text_result_def parse_result_default_def)
  then show ?thesis using rd by blast
qed

section \<open>The formatter\<close>

lemma pre_text_ascii: "pre_text p \<Longrightarrow> is_all_ascii p"
  by (auto simp: pre_text_def is_all_ascii_def list_all_iff is_tag_byte_def ascii_defs code_def)

text \<open>The tag texts of a version, empty when there is no such part.\<close>

definition pre_of :: "'w::len version_type \<Rightarrow> bytes \<Rightarrow> bytes" where
  "pre_of v buf = (if has_pre (vtag v) then es_slice (pre (vtag v)) buf else [])"

definition build_of :: "'w::len version_type \<Rightarrow> bytes \<Rightarrow> bytes" where
  "build_of v buf = (if has_build (vtag v) then es_slice (build (vtag v)) buf else [])"

text \<open>
  A version whose pre-release is made of the bytes that semver.org allows, and whose build metadata
  is made of these without hyphens: semver.org allows hyphens there too, but the parser takes a
  hyphen for the start of a pre-release (\<open>tag_parse_build_hyphen\<close>).
\<close>

definition printable :: "'w::len version_type \<Rightarrow> bytes \<Rightarrow> bool" where
  "printable v buf \<longleftrightarrow>
     pre_text (pre_of v buf) \<and> build_text (build_of v buf)
     \<and> (has_pre (vtag v) \<longrightarrow> pre_of v buf \<noteq> []) \<and> (has_build (vtag v) \<longrightarrow> build_of v buf \<noteq> [])"

lemma version_fmt_text:
  assumes "printable v buf" and "\<And>s. is_all_ascii s \<Longrightarrow> bstr s = s"
  shows "version_fmt bstr v buf = version_text (major v) (minor v) (patch v) (pre_of v buf) (build_of v buf)"
proof -
  have "is_all_ascii (pre_of v buf)" "is_all_ascii (build_of v buf)"
    using assms(1) pre_text_ascii build_text_pre_text by (auto simp: printable_def)
  then have "bstr (pre_of v buf) = pre_of v buf" "bstr (build_of v buf) = build_of v buf"
    using assms(2) by blast+
  then show ?thesis
    using assms(1) by (auto simp: version_fmt_def version_text_def qualifier_def pre_of_def build_of_def printable_def)
qed

lemma reads_pre_of: "reads ss (pre (vtag w)) p \<Longrightarrow> pre_of w (s_bytes (ss_buf ss)) = p"
  by (auto simp: reads_def pre_of_def has_pre_def)

lemma reads_build_of: "reads ss (build (vtag w)) p \<Longrightarrow> build_of w (s_bytes (ss_buf ss)) = p"
  by (auto simp: reads_def build_of_def has_build_def)

section \<open>Properties\<close>

text \<open>
  C27. The version parser is total and stays in bounds.  On every input shorter than 4 GiB, of any
  bytes, \<open>Version::parse\<close> returns (no slice or integer cast panics, the loop ends), has consumed
  no more than the input, and the handles of its tag are well formed.
\<close>

theorem version_parse_no_panic:
  assumes "length (s_bytes (ss_slice ss)) < 2 ^ 32"
  shows "\<exists>r :: 64 parse_result. version_parse ss = Some r
           \<and> unat (pr_len r) \<le> length (s_bytes (ss_slice ss)) \<and> version_wf (partial_min (pr_version r))"
  using version_parse_total [OF assms, where 'w = 64]
  by (auto simp: result_wf_def version_wf_tag partial_min_def)

theorem version_parse_no_panic_witness:
  "\<exists>r :: 64 parse_result. version_parse \<lparr>ss_buf = \<lparr>s_addr = 64, s_bytes = '' ..^-''\<rparr>, ss_slice = \<lparr>s_addr = 64, s_bytes = '' ..^-''\<rparr>\<rparr>
     = Some r \<and> unat (pr_len r) \<le> 5"
  using version_parse_no_panic [of "\<lparr>ss_buf = \<lparr>s_addr = 64, s_bytes = '' ..^-''\<rparr>, ss_slice = \<lparr>s_addr = 64, s_bytes = '' ..^-''\<rparr>\<rparr>"]
  by auto

text \<open>
  C4. Printing and parsing.  A version whose pre-release is made of the bytes semver.org allows, and
  whose build metadata is made of these bytes but hyphens, printed by its formatter and parsed again,
  comes back, if the text is shorter than 2^31 bytes: the parse is valid, without a wildcard, it consumes
  the whole text, the three numbers are the same, and the tag handles (inline or pointing into
  the printed text) read the same pre-release and build metadata.
\<close>

theorem version_fmt_parse_roundtrip:
  fixes v :: version
  assumes "printable v buf" and "\<And>s. is_all_ascii s \<Longrightarrow> bstr s = s"
    and "length (version_fmt bstr v buf) < 2 ^ 31"
  shows "\<exists>r. parse_utf8 \<lparr>s_addr = addr, s_bytes = version_fmt bstr v buf\<rparr> = Some r
    \<and> pr_valid r \<and> pr_wildcard r = Wild_None \<and> unat (pr_len r) = length (version_fmt bstr v buf)
    \<and> major (partial_max (pr_version r)) = major v \<and> minor (partial_max (pr_version r)) = minor v
    \<and> patch (partial_max (pr_version r)) = patch v
    \<and> pre_of (partial_max (pr_version r)) (version_fmt bstr v buf) = pre_of v buf
    \<and> build_of (partial_max (pr_version r)) (version_fmt bstr v buf) = build_of v buf"
proof -
  let ?s = "\<lparr>s_addr = addr, s_bytes = version_fmt bstr v buf\<rparr>"
  let ?ss = "\<lparr>ss_buf = ?s, ss_slice = ?s\<rparr>"
  note fmt_eq = version_fmt_text [OF assms(1,2)]
  obtain t where t: "version_parse ?ss = Some (text_result (major v) (minor v) (patch v) t
        (length (version_fmt bstr v buf)))"
      "reads ?ss (pre t) (pre_of v buf)" "reads ?ss (build t) (build_of v buf)"
    using version_parse_text [of ?ss 0 "[]" "major v" "minor v" "patch v" "pre_of v buf" "build_of v buf" "[]"]
      assms(1,3) fmt_eq in_buffer_refl [of ?s]
    by (auto simp: text_ends_def printable_def)
  let ?w = "\<lparr>major = major v, minor = minor v, patch = patch v, vtag = t\<rparr>"
  have "pre_of ?w (version_fmt bstr v buf) = pre_of v buf" "build_of ?w (version_fmt bstr v buf) = build_of v buf"
    using reads_pre_of [of ?ss ?w] reads_build_of [of ?ss ?w] t(2,3) by simp_all
  then show ?thesis
    using assms(3) t(1) by (simp add: parse_utf8_def text_result_def partial_max_def unat_of_nat)
qed

theorem version_fmt_parse_roundtrip_witness:
  "\<exists>r :: 64 parse_result. parse_utf8 \<lparr>s_addr = 64,
       s_bytes = version_fmt id \<lparr>major = 10 :: u64, minor = 0, patch = 7,
         vtag = \<lparr>pre = \<lparr>es_value = pad8 ''rc.1'', es_hash = 3\<rparr>, build = es_default\<rparr>\<rparr> []\<rparr> = Some r
     \<and> pr_valid r \<and> major (partial_max (pr_version r)) = 10"
proof -
  let ?v = "\<lparr>major = 10, minor = 0, patch = 7,
      vtag = \<lparr>pre = \<lparr>es_value = pad8 ''rc.1'', es_hash = 3\<rparr>, build = es_default\<rparr>\<rparr> :: version"
  have p: "has_pre (vtag ?v)" "\<not> has_build (vtag ?v)" "es_slice (pre (vtag ?v)) [] = ''rc.1''"
    using string_is_empty_pad8 [of "''rc.1''"] string_slice_pad8 [of "''rc.1''" "[]"]
      es_default_empty(1)
    by (simp_all add: has_pre_def has_build_def es_is_empty_def can_inline_def es_slice_def)
  have "printable ?v []"
    using p by (simp add: printable_def pre_of_def build_of_def pre_text_def build_text_def is_tag_byte_def
        ascii_defs code_def)
  moreover have "length (version_fmt id ?v []) < 2 ^ 31"
    using p by (simp add: version_fmt_def fmt_uint_def fmt_nat.simps)
  ultimately show ?thesis using version_fmt_parse_roundtrip [of ?v "[]" id 64] by auto
qed

text \<open>
  Build metadata with a hyphen.  A hyphen inside the build metadata, which semver.org allows,
  starts a pre-release: what follows it is returned as the pre-release and the build metadata is
  dropped.
\<close>

lemma tag_parse_build_hyphen:
  assumes "in_buffer (ss_buf ss) off (ss_slice ss)" and "off + length (s_bytes (ss_slice ss)) < 2 ^ 31"
    and "s_bytes (ss_slice ss) = ''+'' @ x @ ''-'' @ y" and "build_text x" and "pre_text y" and "y \<noteq> []"
  shows "\<exists>t. tag_parse ss = Some \<lparr>tr_tag = t, tr_len = word_of_nat (length x + length y + 2)\<rparr>
           \<and> reads ss (pre t) y \<and> build t = es_default"
proof -
  have "storable y" using assms(2,3,5) by (intro pre_text_storable) simp_all
  then obtain e where e: "sub_external ss (length x + 2) (length x + 2 + length y) = Some e" "reads ss e y"
    using sub_external_reads [OF assms(1), of "length x + 2" "''+'' @ x @ ''-''" y "[]"] assms(2,3,6) by auto
  have "count_qualifiers (s_bytes (ss_slice ss)) 0 0 \<noteq> (0, 0)"
    using assms(2,3) count_qualifiers_nonzero [of "CHR ''+''" "x @ ''-'' @ y"] by simp
  moreover have "tag_loop ss 0 (''+'' @ x @ ''-'' @ y) 0 0 State_None tag_default
      = Some (tag_default, State_Pre, length x + 2, length x + 2 + length y)"
    using assms(4,5) by (simp add: tag_loop_text)
  ultimately show ?thesis
    using e assms(3)
    by (intro exI [of _ "tag_default\<lparr>pre := e\<rparr>"])
      (auto simp: tag_parse_def parse_with_pre_count_def Let_def tag_finish_def tag_default_def algebra_simps split: prod.split)
qed

text \<open>
  Blank versions.  The scan over leading separators leaves the position at 0 when it finds
  nothing else, so the check for an empty remainder does not fire: a text of separators that starts
  with a space is reported as a valid version with no numbers and length 0.
\<close>

lemma version_parse_blank_valid:
  assumes "list_all is_version_separator s"
  shows "\<exists>r :: 64 parse_result. parse_utf8 \<lparr>s_addr = a, s_bytes = CHR '' '' # s\<rparr> = Some r
     \<and> pr_valid r \<and> pr_wildcard r = Wild_Major \<and> pr_len r = 0 \<and> part_major (pr_version r) = None"
proof -
  have "is_version_separator (CHR '' '')" by (simp add: is_version_separator_def WHITESPACE_CHARS_def)
  then have "takeWhile is_version_separator (CHR '' '' # s) = CHR '' '' # s"
    using assms by (simp add: takeWhile_eq_all_conv list_all_iff)
  then have "first_version_byte (CHR '' '' # s) = 0"
    by (simp add: first_version_byte_def skip_while_def Let_def)
  then show ?thesis
    by (simp add: parse_utf8_def version_parse_def Let_def version_parse_loop.simps close_wildcard_def
        parse_result_default_def partial_default_def)
qed

end
