(* ===== verification/Semver_Range.thy ===== *)
theory Semver_Range
  imports Version_Parse
begin

text \<open>
  Ranges, \<^verbatim>\<open>src/src/semver/SemverRange.rs\<close>: a comparator (an operator and a version) and a range
  of at most two comparators, their evaluation against a version, with and without the
  pre-release rule, and their text.
\<close>

section \<open>Comparator\<close>

datatype range_op = Op_Unset | Op_Eql | Op_Lt | Op_Lte | Op_Gt | Op_Gte

record comparator =
  cop :: range_op
  cversion :: version

definition comparator_default :: comparator where
  "comparator_default = \<lparr>cop = Op_Unset, cversion = version_default\<rparr>"

definition comparator_eql :: "comparator \<Rightarrow> comparator \<Rightarrow> bool" where
  "comparator_eql a b \<longleftrightarrow> cop a = cop b \<and> version_eql (cversion a) (cversion b)"

definition comparator_satisfies :: "comparator \<Rightarrow> version \<Rightarrow> bytes \<Rightarrow> bytes \<Rightarrow> bool" where
  "comparator_satisfies c v comparator_buf version_buf =
     (case version_order_without_build v (cversion c) version_buf comparator_buf of
        Equal \<Rightarrow> cop c \<in> {Op_Lte, Op_Gte, Op_Eql}
      | Greater \<Rightarrow> cop c \<in> {Op_Gt, Op_Gte}
      | Less \<Rightarrow> cop c \<in> {Op_Lt, Op_Lte})"

fun op_text :: "range_op \<Rightarrow> bytes" where
  "op_text Op_Unset = []"
| "op_text Op_Eql = ''==''"
| "op_text Op_Lt = ''<''"
| "op_text Op_Lte = ''<=''"
| "op_text Op_Gt = ''>''"
| "op_text Op_Gte = ''>=''"

definition comparator_fmt :: "(bytes \<Rightarrow> bytes) \<Rightarrow> comparator \<Rightarrow> bytes \<Rightarrow> bytes" where
  "comparator_fmt bstr c buf =
     (if cop c = Op_Unset then [] else op_text (cop c) @ version_fmt bstr (cversion c) buf)"

section \<open>Range\<close>

record range =
  left :: comparator
  right :: comparator

definition range_default :: range where
  "range_default = \<lparr>left = comparator_default, right = comparator_default\<rparr>"

text \<open>\<open>u64::saturating_add\<close>.\<close>

definition saturating_add :: "u64 \<Rightarrow> u64 \<Rightarrow> u64" where
  "saturating_add a b = (if unat a + unat b < 2 ^ 64 then a + b else - 1)"

definition init_wildcard :: "version \<Rightarrow> wildcard \<Rightarrow> range" where
  "init_wildcard v w =
     (case w of
        Wild_None \<Rightarrow> range_default\<lparr>left := \<lparr>cop = Op_Eql, cversion = v\<rparr>\<rparr>
      | Wild_Major \<Rightarrow> range_default\<lparr>left := \<lparr>cop = Op_Gte, cversion = version_default\<rparr>\<rparr>
      | Wild_Minor \<Rightarrow>
          \<lparr>left = \<lparr>cop = Op_Lt, cversion = version_default\<lparr>major := saturating_add (major v) 1\<rparr>\<rparr>,
           right = \<lparr>cop = Op_Gte, cversion = version_default\<lparr>major := major v\<rparr>\<rparr>\<rparr>
      | Wild_Patch \<Rightarrow>
          \<lparr>left = \<lparr>cop = Op_Lt, cversion = version_default\<lparr>major := major v, minor := saturating_add (minor v) 1\<rparr>\<rparr>,
           right = \<lparr>cop = Op_Gte, cversion = version_default\<lparr>major := major v, minor := minor v\<rparr>\<rparr>\<rparr>)"

definition has_left :: "range \<Rightarrow> bool" where
  "has_left r \<longleftrightarrow> cop (left r) \<noteq> Op_Unset"

definition has_right :: "range \<Rightarrow> bool" where
  "has_right r \<longleftrightarrow> cop (right r) \<noteq> Op_Unset"

definition range_eql :: "range \<Rightarrow> range \<Rightarrow> bool" where
  "range_eql a b \<longleftrightarrow> comparator_eql (left a) (left b) \<and> comparator_eql (right a) (right b)"

definition range_satisfies :: "range \<Rightarrow> version \<Rightarrow> bytes \<Rightarrow> bytes \<Rightarrow> bool" where
  "range_satisfies r v range_buf version_buf =
     (if \<not> has_left r then True
      else if \<not> comparator_satisfies (left r) v range_buf version_buf then False
      else if has_right r \<and> \<not> comparator_satisfies (right r) v range_buf version_buf then False
      else True)"

text \<open>The comparator names the same core version and has a pre-release of its own.\<close>

definition same_core_pre :: "comparator \<Rightarrow> version \<Rightarrow> bool" where
  "same_core_pre c v \<longleftrightarrow>
     has_pre (vtag (cversion c)) \<and> patch v = patch (cversion c)
     \<and> minor v = minor (cversion c) \<and> major v = major (cversion c)"

text \<open>\<open>pre_matched\<close> is passed in and returned next to the answer.\<close>

definition range_satisfies_pre :: "range \<Rightarrow> version \<Rightarrow> bytes \<Rightarrow> bytes \<Rightarrow> bool \<Rightarrow> bool \<times> bool" where
  "range_satisfies_pre r v range_buf version_buf pre_matched =
     (if \<not> has_left r then (True, pre_matched)
      else
        (let pre_matched' = (pre_matched \<or> same_core_pre (left r) v \<or> (has_right r \<and> same_core_pre (right r) v))
         in if \<not> comparator_satisfies (left r) v range_buf version_buf then (False, pre_matched')
            else if has_right r \<and> \<not> comparator_satisfies (right r) v range_buf version_buf
            then (False, pre_matched')
            else (True, pre_matched')))"

definition range_fmt :: "(bytes \<Rightarrow> bytes) \<Rightarrow> range \<Rightarrow> bytes \<Rightarrow> bytes" where
  "range_fmt bstr r buf =
     (if cop (left r) = Op_Unset \<and> cop (right r) = Op_Unset then []
      else if cop (right r) = Op_Unset then comparator_fmt bstr (left r) buf
      else comparator_fmt bstr (left r) buf @ '' '' @ comparator_fmt bstr (right r) buf)"

section \<open>What the comparators mean\<close>

text \<open>The relation of the abstract precedences that an operator asks for.\<close>

fun op_holds :: "range_op \<Rightarrow> ordering \<Rightarrow> bool" where
  "op_holds Op_Unset _ = False"
| "op_holds Op_Eql ord = (ord = Equal)"
| "op_holds Op_Lt ord = (ord = Less)"
| "op_holds Op_Lte ord = (ord \<noteq> Greater)"
| "op_holds Op_Gt ord = (ord = Greater)"
| "op_holds Op_Gte ord = (ord \<noteq> Less)"

lemma comparator_satisfies_op:
  assumes "version_wf v" and "version_wf (cversion c)"
  shows "comparator_satisfies c v c_buf v_buf
    \<longleftrightarrow> op_holds (cop c) (precedence_cmp (parsed_precedence v v_buf) (parsed_precedence (cversion c) c_buf))"
  using version_order_without_build_precedence [OF assms, of v_buf c_buf]
  by (cases "cop c"; cases "precedence_cmp (parsed_precedence v v_buf) (parsed_precedence (cversion c) c_buf)")
    (simp_all add: comparator_satisfies_def)

definition range_wf :: "range \<Rightarrow> bool" where
  "range_wf r \<longleftrightarrow> version_wf (cversion (left r)) \<and> version_wf (cversion (right r))"

lemma version_wf_default [simp]: "version_wf version_default"
  by (simp add: version_wf_tag version_default_def)

lemma range_wf_default [simp]: "range_wf range_default"
  by (simp add: range_wf_def range_default_def comparator_default_def)

lemma range_satisfies_alt:
  "range_satisfies r v rb vb \<longleftrightarrow>
     has_left r \<longrightarrow> comparator_satisfies (left r) v rb vb
       \<and> (has_right r \<longrightarrow> comparator_satisfies (right r) v rb vb)"
  by (auto simp: range_satisfies_def)

lemma range_satisfies_pre_fst:
  "fst (range_satisfies_pre r v rb vb m) = range_satisfies r v rb vb"
  by (simp add: range_satisfies_pre_def range_satisfies_def Let_def)

lemma range_satisfies_pre_snd:
  "snd (range_satisfies_pre r v rb vb m) \<longleftrightarrow>
     m \<or> (has_left r \<and> (same_core_pre (left r) v \<or> (has_right r \<and> same_core_pre (right r) v)))"
  by (auto simp: range_satisfies_pre_def Let_def)

text \<open>Release versions compare by their core numbers alone.\<close>

definition core :: "'w::len version_type \<Rightarrow> nat \<times> nat \<times> nat" where
  "core v = (unat (major v), unat (minor v), unat (patch v))"

definition core_less :: "nat \<times> nat \<times> nat \<Rightarrow> nat \<times> nat \<times> nat \<Rightarrow> bool" where
  "core_less a b \<longleftrightarrow>
     fst a < fst b \<or> fst a = fst b \<and> (fst (snd a) < fst (snd b)
       \<or> fst (snd a) = fst (snd b) \<and> snd (snd a) < snd (snd b))"

lemma comparator_satisfies_release:
  assumes "\<not> has_pre (vtag v)" and "\<not> has_pre (vtag (cversion c))" and "version_wf v" and "version_wf (cversion c)"
  shows "comparator_satisfies c v c_buf v_buf \<longleftrightarrow>
    (case cop c of Op_Unset \<Rightarrow> False
     | Op_Eql \<Rightarrow> core v = core (cversion c)
     | Op_Lt \<Rightarrow> core_less (core v) (core (cversion c))
     | Op_Lte \<Rightarrow> \<not> core_less (core (cversion c)) (core v)
     | Op_Gt \<Rightarrow> core_less (core (cversion c)) (core v)
     | Op_Gte \<Rightarrow> \<not> core_less (core v) (core (cversion c)))"
  using assms
  by (cases "cop c")
    (auto simp: comparator_satisfies_op precedence_cmp_def parsed_precedence_def core_def core_less_def
      then_ord_def ord_cmp_def)

end
