(* ===== verification/Bit_Set.thy ===== *)
theory Bit_Set
  imports Prelude
begin

unbundle bit_operations_syntax

text \<open>
  \<open>IntegerBitSet<SIZE>\<close> of \<^verbatim>\<open>src/src/collections/bit_set.rs\<close>: a set of indices below \<open>SIZE\<close>
  in one machine word.  The word is the whole state; \<open>SIZE\<close> is an argument.  Each
  operation is described by its effect on the members, and the iterator is shown to enumerate them
  in order.
\<close>

section \<open>Operations\<close>

definition bool_mask_usize :: "bool \<Rightarrow> u64" where
  "bool_mask_usize value = (if value then - 1 else 0)"

definition FULL_MASK :: "nat \<Rightarrow> u64" where
  "FULL_MASK sz = (if sz \<ge> 64 then - 1 else push_bit sz 1 - 1)"

definition mask_bit :: "nat \<Rightarrow> nat \<Rightarrow> u64" where
  "mask_bit sz index = (if sz = 0 then 0 else push_bit index 1)"

definition bs_init_empty :: u64 where
  "bs_init_empty = 0"

definition bs_init_full :: "nat \<Rightarrow> u64" where
  "bs_init_full sz = FULL_MASK sz"

definition bs_is_set :: "nat \<Rightarrow> u64 \<Rightarrow> nat \<Rightarrow> bool" where
  "bs_is_set sz m index \<longleftrightarrow> m AND mask_bit sz index \<noteq> 0"

definition bs_set_value :: "nat \<Rightarrow> u64 \<Rightarrow> nat \<Rightarrow> bool \<Rightarrow> u64" where
  "bs_set_value sz m index value =
     (if sz = 0 then m
      else let b = mask_bit sz index; new_bit = b AND bool_mask_usize value
           in (m AND NOT b) OR new_bit)"

definition bs_set :: "nat \<Rightarrow> u64 \<Rightarrow> nat \<Rightarrow> u64" where
  "bs_set sz m index = m OR mask_bit sz index"

definition bs_unset :: "nat \<Rightarrow> u64 \<Rightarrow> nat \<Rightarrow> u64" where
  "bs_unset sz m index = (if sz = 0 then m else m AND NOT (mask_bit sz index))"

definition bs_toggle :: "nat \<Rightarrow> u64 \<Rightarrow> nat \<Rightarrow> u64" where
  "bs_toggle sz m index = m XOR mask_bit sz index"

definition range_mask :: "nat \<Rightarrow> nat \<Rightarrow> nat \<Rightarrow> bool \<Rightarrow> u64" where
  "range_mask sz start end_ix value =
     (let mask1 = push_bit start (bool_mask_usize value);
          mask2 = (if end_ix \<noteq> sz then mask1 AND drop_bit (64 - end_ix) (bool_mask_usize value) else mask1)
      in mask2 AND FULL_MASK sz)"

definition bs_set_range_value :: "nat \<Rightarrow> u64 \<Rightarrow> nat \<Rightarrow> nat \<Rightarrow> bool \<Rightarrow> u64" where
  "bs_set_range_value sz m start end_ix value =
     (if start = end_ix then m
      else if sz = 0 then m
      else (m AND NOT (range_mask sz start end_ix True)) OR range_mask sz start end_ix value)"

definition bs_toggle_set :: "u64 \<Rightarrow> u64 \<Rightarrow> u64" where
  "bs_toggle_set m toggles = m XOR toggles"

definition bs_toggle_all :: "nat \<Rightarrow> u64 \<Rightarrow> u64" where
  "bs_toggle_all sz m = NOT m AND FULL_MASK sz"

definition bs_set_union :: "u64 \<Rightarrow> u64 \<Rightarrow> u64" where
  "bs_set_union m other = m OR other"

definition bs_set_intersection :: "u64 \<Rightarrow> u64 \<Rightarrow> u64" where
  "bs_set_intersection m other = m AND other"

text \<open>\<open>usize::trailing_zeros\<close> and \<open>leading_zeros\<close>.\<close>

definition trailing_zeros :: "u64 \<Rightarrow> nat" where
  "trailing_zeros m = length (takeWhile (\<lambda>i. \<not> bit m i) [0..<64])"

definition leading_zeros :: "u64 \<Rightarrow> nat" where
  "leading_zeros m = length (takeWhile (\<lambda>i. \<not> bit m (63 - i)) [0..<64])"

definition bs_count :: "u64 \<Rightarrow> nat" where
  "bs_count m = length (filter (bit m) [0..<64])"

definition bs_find_first_set :: "u64 \<Rightarrow> nat option" where
  "bs_find_first_set m = (if m = 0 then None else Some (trailing_zeros m))"

definition bs_find_first_unset :: "nat \<Rightarrow> u64 \<Rightarrow> nat option" where
  "bs_find_first_unset sz m =
     (let mask = NOT m AND FULL_MASK sz in if mask = 0 then None else Some (trailing_zeros mask))"

definition bs_toggle_first_set :: "u64 \<Rightarrow> nat option \<times> u64" where
  "bs_toggle_first_set m = (if m = 0 then (None, m) else (Some (trailing_zeros m), m AND (m - 1)))"

definition bs_eql :: "nat \<Rightarrow> u64 \<Rightarrow> u64 \<Rightarrow> bool" where
  "bs_eql sz a b \<longleftrightarrow> sz = 0 \<or> a = b"

definition bs_complement :: "nat \<Rightarrow> u64 \<Rightarrow> u64" where
  "bs_complement sz m = bs_toggle_all sz m"

definition bs_union_with :: "u64 \<Rightarrow> u64 \<Rightarrow> u64" where
  "bs_union_with a b = bs_set_union a b"

definition bs_intersect_with :: "u64 \<Rightarrow> u64 \<Rightarrow> u64" where
  "bs_intersect_with a b = bs_set_intersection a b"

definition bs_xor_with :: "u64 \<Rightarrow> u64 \<Rightarrow> u64" where
  "bs_xor_with a b = bs_toggle_set a b"

definition bs_difference_with :: "nat \<Rightarrow> u64 \<Rightarrow> u64 \<Rightarrow> u64" where
  "bs_difference_with sz a b = bs_set_intersection a (bs_complement sz b)"

definition bs_subset_of :: "nat \<Rightarrow> u64 \<Rightarrow> u64 \<Rightarrow> bool" where
  "bs_subset_of sz a b = bs_eql sz (bs_intersect_with a b) a"

definition bs_superset_of :: "nat \<Rightarrow> u64 \<Rightarrow> u64 \<Rightarrow> bool" where
  "bs_superset_of sz a b = bs_subset_of sz b a"

text \<open>\<open>SingleWordIterator\<close>: its state is the word of the bits not yet visited.\<close>

definition bs_iterator :: "nat \<Rightarrow> bool \<Rightarrow> u64 \<Rightarrow> u64" where
  "bs_iterator sz kind_set m = (if kind_set then m else NOT m AND FULL_MASK sz)"

definition iter_next :: "bool \<Rightarrow> u64 \<Rightarrow> nat option \<times> u64" where
  "iter_next dir_fwd bits_remain =
     (if bits_remain = 0 then (None, bits_remain)
      else if dir_fwd then
        (Some (trailing_zeros bits_remain), bits_remain AND (bits_remain - 1))
      else
        (let top_bit = 63 - leading_zeros bits_remain
         in (Some top_bit, bits_remain AND (push_bit top_bit 1 - 1))))"

section \<open>The members of a word\<close>

definition members :: "u64 \<Rightarrow> nat set" where
  "members m = {i. bit m i}"

text \<open>The representation invariant: no bit at or above the size.\<close>

definition bs_ok :: "nat \<Rightarrow> u64 \<Rightarrow> bool" where
  "bs_ok sz m \<longleftrightarrow> members m \<subseteq> {..<sz}"

lemma bit_FULL_MASK: "bit (FULL_MASK sz) i \<longleftrightarrow> i < sz \<and> i < 64"
proof (cases "sz \<ge> 64")
  case False
  then have "FULL_MASK sz = mask sz" by (simp add: FULL_MASK_def mask_eq_exp_minus_1)
  then show ?thesis using False by (auto simp: bit_mask_iff)
qed (auto simp: FULL_MASK_def bit_simps)

lemma bit_mask_bit: "0 < sz \<Longrightarrow> bit (mask_bit sz index) i \<longleftrightarrow> i = index \<and> i < 64"
  by (auto simp: mask_bit_def bit_simps)

lemma bit_bool_mask: "bit (bool_mask_usize v) i \<longleftrightarrow> v \<and> i < 64"
  by (auto simp: bool_mask_usize_def bit_simps)

lemmas bs_bits = bit_FULL_MASK bit_mask_bit bit_bool_mask bit_and_iff bit_or_iff bit_xor_iff bit_not_iff

lemma members_less: "i \<in> members m \<Longrightarrow> i < 64"
  by (auto simp: members_def dest: bit_imp_le_length)

lemma members_inject: "members a = members b \<longleftrightarrow> a = b"
  by (auto simp: members_def set_eq_iff intro: bit_eqI)

lemma members_zero [simp]: "members 0 = {}"
  by (simp add: members_def)

lemma members_nonzero: "m \<noteq> 0 \<Longrightarrow> members m \<noteq> {}"
  using members_inject [of m 0] by simp

lemma bs_set_members: "0 < sz \<Longrightarrow> i < 64 \<Longrightarrow> members (bs_set sz m i) = insert i (members m)"
  by (auto simp: members_def bs_set_def bs_bits)

lemma bs_unset_members: "0 < sz \<Longrightarrow> members (bs_unset sz m i) = members m - {i}"
  by (auto simp: members_def bs_unset_def bs_bits dest: bit_imp_le_length)

lemma bs_is_set_iff: "0 < sz \<Longrightarrow> i < 64 \<Longrightarrow> bs_is_set sz m i \<longleftrightarrow> i \<in> members m"
proof -
  assume s: "0 < sz" and i: "i < 64"
  have "m AND mask_bit sz i \<noteq> 0 \<longleftrightarrow> (\<exists>k. bit (m AND mask_bit sz i) k)"
    by (metis bit_eqI bit_0_eq bot_apply bot_bool_def)
  then show ?thesis using s i by (auto simp: bs_is_set_def members_def bs_bits)
qed

lemma bs_set_value_members:
  "0 < sz \<Longrightarrow> i < 64 \<Longrightarrow> members (bs_set_value sz m i v) = (if v then insert i (members m) else members m - {i})"
  by (auto simp: members_def bs_set_value_def bs_bits Let_def dest: bit_imp_le_length)

lemma bs_toggle_members:
  "0 < sz \<Longrightarrow> i < 64 \<Longrightarrow> members (bs_toggle sz m i) = (if i \<in> members m then members m - {i} else insert i (members m))"
  by (auto simp: members_def bs_toggle_def bs_bits)

section \<open>The other operations\<close>

lemma bit_range_mask:
  assumes "end_ix \<le> sz" and "sz \<le> 64" and "start < end_ix"
  shows "bit (range_mask sz start end_ix v) i \<longleftrightarrow> v \<and> start \<le> i \<and> i < end_ix"
proof -
  have "bit (drop_bit (64 - end_ix) (bool_mask_usize v)) i \<longleftrightarrow> v \<and> i < end_ix"
    using assms by (auto simp: bit_drop_bit_eq bit_bool_mask)
  moreover have "bit (push_bit start (bool_mask_usize v)) i \<longleftrightarrow> v \<and> start \<le> i \<and> i < 64"
    using assms by (auto simp: bit_push_bit_iff bit_bool_mask)
  ultimately show ?thesis
    using assms by (auto simp: range_mask_def Let_def bit_FULL_MASK bit_and_iff)
qed

lemma bs_set_range_value_members:
  assumes "end_ix \<le> sz" and "sz \<le> 64" and "start \<le> end_ix"
  shows "members (bs_set_range_value sz m start end_ix v)
           = (if v then members m \<union> {start..<end_ix} else members m - {start..<end_ix})"
proof (cases "start = end_ix")
  case False
  then show ?thesis
    using assms
    by (auto simp: members_def bs_set_range_value_def bit_or_iff bit_and_iff bit_not_iff bit_range_mask
        dest: bit_imp_le_length)
qed (auto simp: bs_set_range_value_def)

lemma bs_toggle_all_members: "members (bs_toggle_all sz m) = {..<min sz 64} - members m"
  by (auto simp: members_def bs_toggle_all_def bs_bits)

lemmas algebra_defs = bs_union_with_def bs_intersect_with_def bs_xor_with_def bs_difference_with_def
  bs_set_union_def bs_set_intersection_def bs_toggle_set_def bs_complement_def

lemma bs_algebra_members:
  "members (bs_union_with a b) = members a \<union> members b"
  "members (bs_intersect_with a b) = members a \<inter> members b"
  "members (bs_xor_with a b) = (members a - members b) \<union> (members b - members a)"
  by (auto simp: members_def algebra_defs bs_bits)

lemma bs_difference_members:
  assumes "bs_ok sz a"
  shows "members (bs_difference_with sz a b) = members a - members b"
proof -
  have "members (bs_difference_with sz a b) = members a \<inter> members (bs_toggle_all sz b)"
    by (auto simp: algebra_defs members_def bit_and_iff)
  then show ?thesis
    using assms members_less [of _ a] by (auto simp: bs_toggle_all_members bs_ok_def)
qed

lemma bs_subset_of_iff: "0 < sz \<Longrightarrow> bs_subset_of sz a b \<longleftrightarrow> members a \<subseteq> members b"
  using members_inject [of "bs_intersect_with a b" a]
  by (auto simp: bs_subset_of_def bs_eql_def bs_algebra_members)

section \<open>Lowest and highest bit\<close>

lemma takeWhile_upt:
  assumes "k < n" and "P k" and "\<forall>i<k. \<not> P i"
  shows "length (takeWhile (\<lambda>i. \<not> P i) [0..<n]) = k"
proof -
  have "[0..<n] = [0..<k] @ [k..<n]" using upt_add_eq_append [of 0 k "n - k"] assms(1) by simp
  also have "[k..<n] = k # [Suc k..<n]" using assms(1) by (rule upt_conv_Cons)
  finally have split: "[0..<n] = [0..<k] @ k # [Suc k..<n]" .
  have "takeWhile (\<lambda>i. \<not> P i) [0..<n] = [0..<k] @ takeWhile (\<lambda>i. \<not> P i) (k # [Suc k..<n])"
    unfolding split using assms(3) by (intro takeWhile_append2) auto
  then show ?thesis using assms(2) by simp
qed

lemma finite_members [simp]: "finite (members m)"
  using members_less by (meson bounded_nat_set_is_finite)

lemma Min_member_le: "bit m i \<Longrightarrow> Min (members m) \<le> i"
  by (rule Min_le) (simp_all add: members_def [of m, symmetric], simp add: members_def)

lemma trailing_zeros_Min:
  assumes "m \<noteq> 0"
  shows "trailing_zeros m = Min (members m)"
proof -
  have mem: "Min (members m) \<in> members m" using assms by (simp add: members_nonzero)
  have "\<not> bit m i" if "i < Min (members m)" for i
    using that Min_member_le [of m i] by auto
  moreover have "bit m (Min (members m))" using mem by (simp add: members_def)
  ultimately show ?thesis
    using members_less [OF mem] unfolding trailing_zeros_def by (intro takeWhile_upt) auto
qed

lemma leading_zeros_Max:
  assumes "m \<noteq> 0"
  shows "63 - leading_zeros m = Max (members m)"
proof -
  let ?k = "63 - Max (members m)"
  have mem: "Max (members m) \<in> members m" using assms by (simp add: members_nonzero)
  then have le: "Max (members m) < 64" by (rule members_less)
  have "\<not> bit m (63 - i)" if "i < ?k" for i
  proof
    assume "bit m (63 - i)"
    then have "63 - i \<in> members m" by (simp add: members_def)
    then have "63 - i \<le> Max (members m)" by (intro Max_ge) auto
    then show False using that by linarith
  qed
  moreover have "bit m (63 - ?k)" using mem le by (simp add: members_def)
  ultimately have "leading_zeros m = ?k"
    using le unfolding leading_zeros_def by (intro takeWhile_upt) auto
  then show ?thesis using le by simp
qed

text \<open>\<open>m & (m - 1)\<close> clears the lowest bit.\<close>

lemma minus_one_bits:
  fixes m :: u64
  assumes k: "bit m k" "\<forall>i<k. \<not> bit m i"
  shows "bit (m - 1) i \<longleftrightarrow> i < k \<or> (k < i \<and> bit m i)"
proof -
  define l where "l = Suc k"
  define h where "h = push_bit l (drop_bit l m)"
  have k64: "k < 64" using k(1) by (auto dest: bit_imp_le_length)
  have hb: "bit h n \<longleftrightarrow> k < n \<and> bit m n" for n
    unfolding h_def by (auto simp: bit_push_bit_iff bit_drop_bit_eq l_def [symmetric] Suc_le_eq [symmetric]
        dest: bit_imp_le_length)
  define e where "e = (push_bit k 1 :: u64)"
  have pb: "bit e n \<longleftrightarrow> n = k" for n
    using k64 unfolding e_def by (auto simp: bit_simps)
  have "m = h OR e"
    by (rule bit_word_eqI) (use k in \<open>auto simp: bit_or_iff hb pb not_less_iff_gr_or_eq\<close>)
  also have "\<dots> = h + e"
    by (rule disjunctive_add [symmetric]) (auto simp: hb pb)
  finally have m: "m = h + e" .
  have mk: "e - 1 = mask k" by (simp add: e_def mask_eq_exp_minus_1)
  have "m - 1 = h + mask k" by (subst m) (simp flip: mk)
  also have "\<dots> = h OR mask k"
    by (rule disjunctive_add) (auto simp: hb bit_mask_iff)
  finally show ?thesis using k64 by (auto simp: bit_or_iff hb bit_mask_iff)
qed

lemma clear_lowest_members:
  assumes "m \<noteq> 0"
  shows "members (m AND (m - 1)) = members m - {Min (members m)}"
proof -
  let ?k = "Min (members m)"
  have lb: "?k \<le> i" if "bit m i" for i
    using that by (rule Min_member_le)
  have "?k \<in> members m" using assms by (simp add: members_nonzero)
  then have k: "bit m ?k" "\<forall>i<?k. \<not> bit m i" using lb by (auto simp: members_def not_le [symmetric])
  have "bit (m AND (m - 1)) i \<longleftrightarrow> bit m i \<and> i \<noteq> ?k" for i
    using lb [of i] by (auto simp: bit_and_iff minus_one_bits [OF k])
  then show ?thesis by (auto simp: members_def)
qed

lemma clear_highest_members:
  assumes "m \<noteq> 0"
  shows "members (m AND (push_bit (Max (members m)) 1 - 1)) = members m - {Max (members m)}"
proof -
  let ?k = "Max (members m)"
  have "push_bit ?k 1 - 1 = (mask ?k :: u64)" by (simp add: mask_eq_exp_minus_1)
  then have "bit (m AND (push_bit ?k 1 - 1)) i \<longleftrightarrow> bit m i \<and> i < ?k" for i
    by (auto simp: bit_and_iff bit_mask_iff dest: bit_imp_le_length)
  then show ?thesis using Max_ge [OF finite_members, of _ m] by (auto simp: members_def le_less)
qed

section \<open>Iteration\<close>

lemma iter_next_members:
  assumes "m \<noteq> 0"
  shows "iter_next True m = (Some (Min (members m)), m AND (m - 1))"
    and "iter_next False m = (Some (Max (members m)), m AND (push_bit (Max (members m)) 1 - 1))"
  using assms by (simp_all add: iter_next_def trailing_zeros_Min leading_zeros_Max Let_def)

lemma iter_next_card:
  assumes "iter_next d m = (Some i, m')"
  shows "card (members m') < card (members m)"
proof -
  have m: "m \<noteq> 0" using assms by (auto simp: iter_next_def)
  then have ne: "members m \<noteq> {}" by (rule members_nonzero)
  have "members m' = members m - {if d then Min (members m) else Max (members m)}"
    using assms iter_next_members [OF m] clear_lowest_members [OF m] clear_highest_members [OF m]
    by (cases d) auto
  moreover have "(if d then Min (members m) else Max (members m)) \<in> members m" using ne by simp
  ultimately show ?thesis by (simp add: card_gt_0_iff ne)
qed

text \<open>The client's loop \<open>while let Some(i) = it.next()\<close>.\<close>

function bs_iterate :: "bool \<Rightarrow> u64 \<Rightarrow> nat list" where
  "bs_iterate dir_fwd m =
     (case iter_next dir_fwd m of (None, _) \<Rightarrow> [] | (Some i, m') \<Rightarrow> i # bs_iterate dir_fwd m')"
  by pat_completeness auto
termination
  by (relation "measure (\<lambda>(d, m). card (members m))") (auto dest: sym intro: iter_next_card)

declare bs_iterate.simps [simp del]

lemma sorted_list_of_set_Min:
  "finite A \<Longrightarrow> A \<noteq> {} \<Longrightarrow> sorted_list_of_set (A :: nat set) = Min A # sorted_list_of_set (A - {Min A})"
  by (rule sorted_list_of_set_nonempty)

lemma sorted_list_of_set_Max:
  assumes "finite A" and "A \<noteq> {}"
  shows "sorted_list_of_set (A :: nat set) = sorted_list_of_set (A - {Max A}) @ [Max A]"
proof (rule sorted_distinct_set_unique)
  show "sorted (sorted_list_of_set (A - {Max A}) @ [Max A])"
    using assms by (auto simp: sorted_append)
qed (use assms in \<open>auto intro: Max_in\<close>)

lemma bs_iterate_sorted:
  "bs_iterate True m = sorted_list_of_set (members m)"
  "bs_iterate False m = rev (sorted_list_of_set (members m))"
proof (induction "card (members m)" arbitrary: m rule: less_induct)
  case less
  have "bs_iterate True m = sorted_list_of_set (members m)
      \<and> bs_iterate False m = rev (sorted_list_of_set (members m))"
  proof (cases "m = 0")
    case True
    then show ?thesis by (subst (1 2) bs_iterate.simps) (simp add: iter_next_def)
  next
    case False
    note ne = members_nonzero [OF False]
    note nx = iter_next_members [OF False]
    have t: "bs_iterate True (m AND (m - 1)) = sorted_list_of_set (members m - {Min (members m)})"
      using less(1) [OF iter_next_card [OF nx(1)]] clear_lowest_members [OF False] by simp
    have f: "bs_iterate False (m AND (push_bit (Max (members m)) 1 - 1))
        = rev (sorted_list_of_set (members m - {Max (members m)}))"
      using less(2) [OF iter_next_card [OF nx(2)]] clear_highest_members [OF False] by simp
    have "bs_iterate True m = sorted_list_of_set (members m)"
      using nx(1) t sorted_list_of_set_Min [OF finite_members ne] by (subst bs_iterate.simps) simp
    moreover have "bs_iterate False m = rev (sorted_list_of_set (members m))"
      using nx(2) f unfolding sorted_list_of_set_Max [OF finite_members ne]
      by (subst bs_iterate.simps) simp
    ultimately show ?thesis by blast
  qed
  then show "bs_iterate True m = sorted_list_of_set (members m)"
    and "bs_iterate False m = rev (sorted_list_of_set (members m))" by blast+
qed

end
