(* ===== verification/Semver_Query.thy ===== *)
theory Semver_Query
  imports Semver_Range Bit_Set
begin

text \<open>
  Queries, \<^verbatim>\<open>src/src/semver/SemverQuery.rs\<close>: an AND chain of ranges (\<open>Query\<close>), an OR chain of
  those (\<open>List\<close>), the \<open>Group\<close> that owns the chain with its tail pointers, the tokens of the
  range syntax and their translation to ranges, and the parser.

  The back references \<open>tail: Option<NonNull<..>>\<close> point at a node of the chain that their owner
  holds.  The model stores the position of that node, counted from the head; following a
  position that is not in the chain is \<open>None\<close>, the undefined behaviour of the pointer.
  The allocation failures that \<open>Result<(), AllocError>\<close> could report abort the process, so the
  results here only distinguish a panic.
\<close>

section \<open>Query\<close>

datatype query = Query (q_range: range) (q_next: "query option")

definition query_default :: query where
  "query_default = Query range_default None"

fun query_satisfies :: "query \<Rightarrow> version \<Rightarrow> bytes \<Rightarrow> bytes \<Rightarrow> bool" where
  "query_satisfies (Query r nx) v query_buf version_buf =
     (if \<not> range_satisfies r v query_buf version_buf then False
      else case nx of Some n \<Rightarrow> query_satisfies n v query_buf version_buf | None \<Rightarrow> True)"

fun query_satisfies_pre :: "query \<Rightarrow> version \<Rightarrow> bytes \<Rightarrow> bytes \<Rightarrow> bool \<Rightarrow> bool \<times> bool" where
  "query_satisfies_pre (Query r nx) v query_buf version_buf pre_matched =
     (case range_satisfies_pre r v query_buf version_buf pre_matched of
        (ok, pre_matched') \<Rightarrow>
          if \<not> ok then (False, pre_matched')
          else case nx of
                 Some n \<Rightarrow> query_satisfies_pre n v query_buf version_buf pre_matched'
               | None \<Rightarrow> (True, pre_matched'))"

fun query_eql :: "query \<Rightarrow> query \<Rightarrow> bool" where
  "query_eql (Query r nx) (Query r' nx') =
     (if \<not> range_eql r r' then False
      else case nx of
             None \<Rightarrow> nx' = None
           | Some n \<Rightarrow> (case nx' of None \<Rightarrow> False | Some n' \<Rightarrow> query_eql n n'))"

fun query_clone :: "query \<Rightarrow> query" where
  "query_clone (Query r nx) = Query r (case nx of None \<Rightarrow> None | Some n \<Rightarrow> Some (query_clone n))"

definition query_fmt :: "(bytes \<Rightarrow> bytes) \<Rightarrow> query \<Rightarrow> bytes \<Rightarrow> bytes" where
  "query_fmt bstr q buf =
     (case q_next q of
        Some p \<Rightarrow>
          if has_left (q_range p) \<or> has_right (q_range p)
          then range_fmt bstr (q_range q) buf @ '' && '' @ range_fmt bstr (q_range p) buf
          else range_fmt bstr (q_range q) buf
      | None \<Rightarrow> range_fmt bstr (q_range q) buf)"

text \<open>\<open>p.next = Some(q)\<close> through a pointer to the node at position \<open>n\<close> of the chain.\<close>

fun query_set_next :: "query \<Rightarrow> nat \<Rightarrow> query \<Rightarrow> query option" where
  "query_set_next (Query r nx) 0 q = Some (Query r (Some q))"
| "query_set_next (Query r None) (Suc n) q = None"
| "query_set_next (Query r (Some m)) (Suc n) q =
     map_option (\<lambda>m'. Query r (Some m')) (query_set_next m n q)"

section \<open>List\<close>

datatype or_list = Or_List (ol_head: query) (ol_tail: "nat option") (ol_next: "or_list option")

definition or_list_default :: or_list where
  "or_list_default = Or_List query_default None None"

fun list_satisfies :: "or_list \<Rightarrow> version \<Rightarrow> bytes \<Rightarrow> bytes \<Rightarrow> bool" where
  "list_satisfies (Or_List h t nx) v list_buf version_buf =
     (if query_satisfies h v list_buf version_buf then True
      else case nx of Some n \<Rightarrow> list_satisfies n v list_buf version_buf | None \<Rightarrow> False)"

fun list_satisfies_pre :: "or_list \<Rightarrow> version \<Rightarrow> bytes \<Rightarrow> bytes \<Rightarrow> bool" where
  "list_satisfies_pre (Or_List h t nx) v list_buf version_buf =
     (case query_satisfies_pre h v list_buf version_buf False of
        (ok, pre_matched) \<Rightarrow>
          if ok \<and> pre_matched then True
          else case nx of Some n \<Rightarrow> list_satisfies_pre n v list_buf version_buf | None \<Rightarrow> False)"

fun list_eql :: "or_list \<Rightarrow> or_list \<Rightarrow> bool" where
  "list_eql (Or_List h t nx) (Or_List h' t' nx') =
     (if \<not> query_eql h h' then False
      else case nx of
             None \<Rightarrow> nx' = None
           | Some n \<Rightarrow> (case nx' of None \<Rightarrow> False | Some n' \<Rightarrow> list_eql n n'))"

text \<open>The walk to the last node of a freshly cloned chain.\<close>

fun query_last :: "query \<Rightarrow> nat" where
  "query_last (Query r nx) = (case nx of None \<Rightarrow> 0 | Some n \<Rightarrow> Suc (query_last n))"

fun list_clone :: "or_list \<Rightarrow> or_list" where
  "list_clone (Or_List h t nx) =
     (let h' = query_clone h
      in Or_List h' (if q_next h' \<noteq> None then Some (query_last h') else None)
           (case nx of None \<Rightarrow> None | Some n \<Rightarrow> Some (list_clone n)))"

fun list_fmt :: "(bytes \<Rightarrow> bytes) \<Rightarrow> or_list \<Rightarrow> bytes \<Rightarrow> bytes" where
  "list_fmt bstr (Or_List h t nx) buf =
     (case nx of
        Some n \<Rightarrow> query_fmt bstr h buf @ '' || '' @ list_fmt bstr n buf
      | None \<Rightarrow> query_fmt bstr h buf)"

definition list_and_range :: "or_list \<Rightarrow> range \<Rightarrow> or_list option" where
  "list_and_range l r =
     (if \<not> has_left (q_range (ol_head l)) \<and> \<not> has_right (q_range (ol_head l))
      then Some (Or_List (Query r (q_next (ol_head l))) (ol_tail l) (ol_next l))
      else
        (let at = (case ol_tail l of Some p \<Rightarrow> p | None \<Rightarrow> 0)
         in map_option (\<lambda>h. Or_List h (Some (Suc at)) (ol_next l))
              (query_set_next (ol_head l) at (Query r None))))"

section \<open>Group\<close>

definition Flags_PRE :: nat where "Flags_PRE = 1"
definition Flags_BUILD :: nat where "Flags_BUILD = 0"

record group =
  g_head :: or_list
  g_tail :: "nat option"
  g_input :: slice
  g_flags :: u64

text \<open>\<open>Group::default\<close>; \<open>ea\<close> is the address of the literal \<open>b""\<close>.\<close>

definition group_default :: "u64 \<Rightarrow> group" where
  "group_default ea =
     \<lparr>g_head = or_list_default, g_tail = None, g_input = \<lparr>s_addr = ea, s_bytes = []\<rparr>, g_flags = bs_init_empty\<rparr>"

fun list_last :: "or_list \<Rightarrow> nat" where
  "list_last (Or_List h t nx) = (case nx of None \<Rightarrow> 0 | Some n \<Rightarrow> Suc (list_last n))"

definition group_clone :: "group \<Rightarrow> group" where
  "group_clone g =
     (let h = list_clone (g_head g)
      in \<lparr>g_head = h, g_tail = (if ol_next h \<noteq> None then Some (list_last h) else None),
          g_input = g_input g, g_flags = g_flags g\<rparr>)"

text \<open>The loop of the formatter over the OR chain; each node prints the whole rest of the chain.\<close>

fun group_fmt_loop :: "(bytes \<Rightarrow> bytes) \<Rightarrow> or_list \<Rightarrow> bytes \<Rightarrow> bytes" where
  "group_fmt_loop bstr (Or_List h t nx) buf =
     (case nx of
        Some n \<Rightarrow> list_fmt bstr (Or_List h t nx) buf @ '' && '' @ group_fmt_loop bstr n buf
      | None \<Rightarrow> list_fmt bstr (Or_List h t nx) buf)"

definition group_fmt :: "(bytes \<Rightarrow> bytes) \<Rightarrow> group \<Rightarrow> bytes \<Rightarrow> bytes" where
  "group_fmt bstr g buf =
     (if g_tail g = None \<and> ol_tail (g_head g) = None \<and> \<not> has_left (q_range (ol_head (g_head g))) then []
      else if g_tail g = None \<and> ol_tail (g_head g) = None then list_fmt bstr (g_head g) buf
      else group_fmt_loop bstr (g_head g) buf)"

definition get_exact_version :: "group \<Rightarrow> version option" where
  "get_exact_version g =
     (let r = q_range (ol_head (g_head g)) in
      if ol_next (g_head g) = None \<and> q_next (ol_head (g_head g)) = None \<and> has_left r
         \<and> cop (left r) = Op_Eql \<and> \<not> has_right r
      then Some (cversion (left r)) else None)"

definition group_from :: "u64 \<Rightarrow> version \<Rightarrow> group" where
  "group_from ea v =
     (group_default ea)\<lparr>g_head :=
        Or_List (Query (range_default\<lparr>left := \<lparr>cop = Op_Eql, cversion = v\<rparr>\<rparr>) None) None None\<rparr>"

definition is_exact :: "group \<Rightarrow> bool" where
  "is_exact g \<longleftrightarrow>
     ol_next (g_head g) = None \<and> q_next (ol_head (g_head g)) = None
     \<and> \<not> has_right (q_range (ol_head (g_head g))) \<and> cop (left (q_range (ol_head (g_head g)))) = Op_Eql"

definition is_star :: "group \<Rightarrow> bool" where
  "is_star g \<longleftrightarrow>
     cop (right (q_range (ol_head (g_head g)))) = Op_Unset
     \<and> cop (left (q_range (ol_head (g_head g)))) = Op_Gte
     \<and> ol_next (g_head g) = None \<and> q_next (ol_head (g_head g)) = None
     \<and> is_zero (cversion (left (q_range (ol_head (g_head g)))))
     \<and> \<not> bs_is_set 3 (g_flags g) Flags_BUILD"

definition group_eql :: "group \<Rightarrow> group \<Rightarrow> bool" where
  "group_eql a b = list_eql (g_head a) (g_head b)"

definition to_version :: "group \<Rightarrow> version" where
  "to_version g = cversion (left (q_range (ol_head (g_head g))))"

text \<open>Writing \<open>next\<close>, and calling \<open>and_range\<close>, through the tail pointer of the OR chain.\<close>

fun list_set_next :: "or_list \<Rightarrow> nat \<Rightarrow> or_list \<Rightarrow> or_list option" where
  "list_set_next (Or_List h t nx) 0 l = Some (Or_List h t (Some l))"
| "list_set_next (Or_List h t None) (Suc n) l = None"
| "list_set_next (Or_List h t (Some m)) (Suc n) l =
     map_option (\<lambda>m'. Or_List h t (Some m')) (list_set_next m n l)"

fun list_and_range_at :: "or_list \<Rightarrow> nat \<Rightarrow> range \<Rightarrow> or_list option" where
  "list_and_range_at l 0 r = list_and_range l r"
| "list_and_range_at (Or_List h t None) (Suc n) r = None"
| "list_and_range_at (Or_List h t (Some m)) (Suc n) r =
     map_option (\<lambda>m'. Or_List h t (Some m')) (list_and_range_at m n r)"

text \<open>The end shared by \<open>or_version\<close> and \<open>or_range\<close>: a new node behind the tail.\<close>

definition group_push :: "group \<Rightarrow> or_list \<Rightarrow> group option" where
  "group_push g new_tail =
     (let at = (case g_tail g of Some p \<Rightarrow> p | None \<Rightarrow> 0)
      in map_option (\<lambda>h. g\<lparr>g_head := h, g_tail := Some (Suc at)\<rparr>) (list_set_next (g_head g) at new_tail))"

definition exact_range :: "version \<Rightarrow> range \<Rightarrow> range" where
  "exact_range v r = r\<lparr>left := \<lparr>cop = Op_Eql, cversion = v\<rparr>\<rparr>"

definition group_or_version :: "group \<Rightarrow> version \<Rightarrow> group option" where
  "group_or_version g v =
     (if g_tail g = None \<and> \<not> has_left (q_range (ol_head (g_head g))) then
        (case g_head g of Or_List (Query r nx) t n \<Rightarrow>
           Some (g\<lparr>g_head := Or_List (Query (exact_range v r) nx) t n\<rparr>))
      else group_push g (Or_List (Query (exact_range v range_default) None) None None))"

definition group_and_range :: "group \<Rightarrow> range \<Rightarrow> group option" where
  "group_and_range g r =
     map_option (\<lambda>h. g\<lparr>g_head := h\<rparr>)
       (list_and_range_at (g_head g) (case g_tail g of Some p \<Rightarrow> p | None \<Rightarrow> 0) r)"

definition group_or_range :: "group \<Rightarrow> range \<Rightarrow> group option" where
  "group_or_range g r =
     (if g_tail g = None \<and> ol_tail (g_head g) = None \<and> \<not> has_left (q_range (ol_head (g_head g))) then
        (case g_head g of Or_List (Query _ nx) t n \<Rightarrow> Some (g\<lparr>g_head := Or_List (Query r nx) t n\<rparr>))
      else group_push g (Or_List (Query r None) None None))"

definition group_satisfies :: "group \<Rightarrow> version \<Rightarrow> bytes \<Rightarrow> bytes \<Rightarrow> bool" where
  "group_satisfies g v group_buf version_buf =
     (if has_pre (vtag v) then list_satisfies_pre (g_head g) v group_buf version_buf
      else list_satisfies (g_head g) v group_buf version_buf)"

section \<open>Tokens\<close>

datatype token_tag = Tok_None | Tok_Gt | Tok_Gte | Tok_Lt | Tok_Lte | Tok_Version | Tok_Tilda | Tok_Caret

record token =
  tok_tag :: token_tag
  tok_wildcard :: wildcard

definition token_default :: token where
  "token_default = \<lparr>tok_tag = Tok_None, tok_wildcard = Wild_None\<rparr>"

definition caret_range :: "64 partial \<Rightarrow> range" where
  "caret_range p =
     (case part_major p of
        None \<Rightarrow> range_default
      | Some ma \<Rightarrow>
          (let lv = version_default\<lparr>major := ma\<rparr>;
               up_major = version_default\<lparr>major := saturating_add ma 1\<rparr>
           in case part_minor p of
                None \<Rightarrow> \<lparr>left = \<lparr>cop = Op_Gte, cversion = lv\<rparr>, right = \<lparr>cop = Op_Lt, cversion = up_major\<rparr>\<rparr>
              | Some mi \<Rightarrow>
                  (let lv = lv\<lparr>minor := mi\<rparr>;
                       up_minor = version_default\<lparr>minor := saturating_add mi 1\<rparr>
                   in case part_patch p of
                        None \<Rightarrow>
                          \<lparr>left = \<lparr>cop = Op_Gte, cversion = lv\<rparr>,
                           right = \<lparr>cop = Op_Lt, cversion = (if ma = 0 then up_minor else up_major)\<rparr>\<rparr>
                      | Some pa \<Rightarrow>
                          \<lparr>left = \<lparr>cop = Op_Gte, cversion = lv\<lparr>patch := pa, vtag := part_tag p\<rparr>\<rparr>,
                           right = \<lparr>cop = Op_Lt,
                             cversion =
                               (if ma = 0 then
                                  (if mi = 0 then version_default\<lparr>patch := saturating_add pa 1\<rparr> else up_minor)
                                else up_major)\<rparr>\<rparr>)))"

definition tilda_range :: "64 partial \<Rightarrow> range" where
  "tilda_range p =
     (case part_major p of
        None \<Rightarrow> range_default
      | Some ma \<Rightarrow>
          (let lv = version_default\<lparr>major := ma\<rparr>
           in case part_minor p of
                None \<Rightarrow>
                  \<lparr>left = \<lparr>cop = Op_Gte, cversion = lv\<rparr>,
                   right = \<lparr>cop = Op_Lt, cversion = version_default\<lparr>major := saturating_add ma 1\<rparr>\<rparr>\<rparr>
              | Some mi \<Rightarrow>
                  \<lparr>left = \<lparr>cop = Op_Gte,
                     cversion = (case part_patch p of
                        None \<Rightarrow> lv\<lparr>minor := mi\<rparr>
                      | Some pa \<Rightarrow> lv\<lparr>minor := mi, patch := pa, vtag := part_tag p\<rparr>)\<rparr>,
                   right = \<lparr>cop = Op_Lt, cversion = version_default\<lparr>major := ma, minor := saturating_add mi 1\<rparr>\<rparr>\<rparr>))"

text \<open>\<open>match self.tag\<close> of the comparison operators; the others are \<open>unreachable!\<close>.\<close>

fun tag_op :: "token_tag \<Rightarrow> range_op option" where
  "tag_op Tok_Gt = Some Op_Gt"
| "tag_op Tok_Gte = Some Op_Gte"
| "tag_op Tok_Lt = Some Op_Lt"
| "tag_op Tok_Lte = Some Op_Lte"
| "tag_op _ = None"

text \<open>
  The arms for a missing minor or patch number: \<open>Lte\<close> and \<open>Gt\<close> compare with the largest version
  of the given prefix, \<open>Lt\<close> and \<open>Gte\<close> with the smallest.
\<close>

definition prefix_fill :: "range_op \<Rightarrow> u64" where
  "prefix_fill op = (if op \<in> {Op_Lte, Op_Gt} then - 1 else 0)"

definition to_range :: "token \<Rightarrow> 64 partial \<Rightarrow> range option" where
  "to_range tok p =
     (case tok_tag tok of
        Tok_Caret \<Rightarrow> Some (caret_range p)
      | Tok_Tilda \<Rightarrow> Some (tilda_range p)
      | Tok_None \<Rightarrow> None
      | Tok_Version \<Rightarrow>
          Some (if tok_wildcard tok \<noteq> Wild_None then init_wildcard (partial_min p) (tok_wildcard tok)
                else range_default\<lparr>left := \<lparr>cop = Op_Eql, cversion = partial_min p\<rparr>\<rparr>)
      | tg \<Rightarrow>
          (case tok_wildcard tok of
             Wild_Major \<Rightarrow>
               Some \<lparr>left = \<lparr>cop = Op_Gte, cversion = partial_min p\<rparr>,
                     right = \<lparr>cop = Op_Lte,
                       cversion = version_default\<lparr>major := - 1, minor := - 1, patch := - 1\<rparr>\<rparr>\<rparr>
           | Wild_Minor \<Rightarrow>
               map_option (\<lambda>op. range_default\<lparr>left := \<lparr>cop = op,
                   cversion = version_default\<lparr>major := unwrap_or (part_major p) 0,
                     minor := prefix_fill op, patch := prefix_fill op\<rparr>\<rparr>\<rparr>) (tag_op tg)
           | Wild_Patch \<Rightarrow>
               map_option (\<lambda>op. range_default\<lparr>left := \<lparr>cop = op,
                   cversion = version_default\<lparr>major := unwrap_or (part_major p) 0,
                     minor := unwrap_or (part_minor p) 0, patch := prefix_fill op\<rparr>\<rparr>\<rparr>) (tag_op tg)
           | Wild_None \<Rightarrow>
               map_option (\<lambda>op. range_default\<lparr>left := \<lparr>cop = op, cversion = partial_min p\<rparr>\<rparr>) (tag_op tg)))"

section \<open>The parser\<close>

abbreviation skip_spaces :: "bytes \<Rightarrow> nat \<Rightarrow> nat" where
  "skip_spaces \<equiv> skip_while (\<lambda>c. c = CHR '' '')"

text \<open>
  The \<open>match input[i]\<close> at the head of the loop: the new position, tag, \<open>is_or\<close> and \<open>skip_round\<close>.
\<close>

definition parse_operator :: "bytes \<Rightarrow> nat \<Rightarrow> token_tag \<Rightarrow> bool \<Rightarrow> nat \<times> token_tag \<times> bool \<times> bool" where
  "parse_operator input i tg is_or =
     (let c = input ! i in
      if c = CHR ''>'' then
        (if length input > i + 1 \<and> input ! (i + 1) = CHR ''=''
         then (skip_spaces input (i + 2), Tok_Gte, is_or, False)
         else (skip_spaces input (i + 1), Tok_Gt, is_or, False))
      else if c = CHR ''<'' then
        (if length input > i + 1 \<and> input ! (i + 1) = CHR ''=''
         then (skip_spaces input (i + 2), Tok_Lte, is_or, False)
         else (skip_spaces input (i + 1), Tok_Lt, is_or, False))
      else if c = CHR ''='' \<or> c = CHR ''v'' then (skip_spaces input (i + 1), Tok_Version, True, False)
      else if c = CHR ''~'' then
        (let i' = i + 1;
             i'' = (if i' < length input \<and> input ! i' = CHR ''>'' then i' + 1 else i')
         in (skip_spaces input i'', Tok_Tilda, is_or, False))
      else if c = CHR ''^'' then (skip_spaces input (i + 1), Tok_Caret, is_or, False)
      else if is_ascii_digit c \<or> c = CHR ''X'' \<or> c = CHR ''x'' \<or> c = CHR ''*''
      then (i, Tok_Version, True, False)
      else if c = CHR ''|'' then
        (skip_spaces input (skip_while (\<lambda>d. d = CHR ''|'') input (i + 1)), Tok_None, True, True)
      else if c = CHR ''-'' then (skip_spaces input (i + 1), tg, is_or, False)
      else if c = CHR '' '' then (skip_spaces input (i + 1), tg, is_or, True)
      else (skip_while (\<lambda>d. d \<noteq> CHR '' '' \<and> d \<noteq> CHR ''|'') input (i + 1), Tok_None, is_or, True))"

text \<open>
  The block \<open>'possibly_hyphenate\<close> from position \<open>i\<close>: the position of the second version, if the
  text goes on as a hyphen range.  Its slices \<open>input[i..]\<close> are all at positions up to the length.
\<close>

definition possibly_hyphenate :: "bytes \<Rightarrow> nat \<Rightarrow> nat option" where
  "possibly_hyphenate input i =
     (let i1 = i + length_of_leading_whitespace_ascii (drop i input) in
      if \<not> (i1 < length input \<and> input ! i1 = CHR ''-'') then None
      else
        (let i2 = i1 + 1;
             i3 = i2 + length_of_leading_whitespace_ascii (drop i2 input) in
         if i3 = length input then None
         else
           (let i4 = (if input ! i3 = CHR ''v'' \<or> input ! i3 = CHR ''='' then i3 + 1 else i3) in
            if i4 = length input then None
            else
              (let i5 = i4 + length_of_leading_whitespace_ascii (drop i4 input) in
               if i5 = length input then None
               else if \<not> (i5 < length input \<and> (is_ascii_digit (input ! i5) \<or> input ! i5 = CHR ''X''
                            \<or> input ! i5 = CHR ''x'' \<or> input ! i5 = CHR ''*'')) then None
               else Some i5))))"

definition hyphen_range :: "version \<Rightarrow> 64 parse_result \<Rightarrow> range" where
  "hyphen_range v second_parsed =
     (let w = partial_min (pr_version second_parsed)
      in case pr_wildcard second_parsed of
           Wild_Major \<Rightarrow> range_default\<lparr>left := \<lparr>cop = Op_Gte, cversion = v\<rparr>\<rparr>
         | Wild_Minor \<Rightarrow>
             \<lparr>left = \<lparr>cop = Op_Gte, cversion = v\<rparr>,
              right = \<lparr>cop = Op_Lt, cversion = w\<lparr>major := saturating_add (major w) 1, minor := 0, patch := 0\<rparr>\<rparr>\<rparr>
         | Wild_Patch \<Rightarrow>
             \<lparr>left = \<lparr>cop = Op_Gte, cversion = v\<rparr>,
              right = \<lparr>cop = Op_Lt, cversion = w\<lparr>minor := saturating_add (minor w) 1, patch := 0\<rparr>\<rparr>\<rparr>
         | Wild_None \<Rightarrow>
             \<lparr>left = \<lparr>cop = Op_Gte, cversion = v\<rparr>, right = \<lparr>cop = Op_Lte, cversion = w\<rparr>\<rparr>)"

text \<open>\<open>list.flags.set_value(..)\<close> for the tag of a parsed version.\<close>

definition mark_flags :: "group \<Rightarrow> version \<Rightarrow> group" where
  "mark_flags g v =
     (let f1 = (if has_build (vtag v) then bs_set_value 3 (g_flags g) Flags_BUILD True else g_flags g);
          f2 = (if has_pre (vtag v) then bs_set_value 3 f1 Flags_PRE True else f1)
      in g\<lparr>g_flags := f2\<rparr>)"

record parse_state =
  ps_list :: group
  ps_token :: token
  ps_count :: u32
  ps_is_or :: bool

text \<open>How a parsed comparator joins the group, when it is no hyphen range.\<close>

definition join_comparator :: "parse_state \<Rightarrow> 64 parse_result \<Rightarrow> group option" where
  "join_comparator st r =
     (if ps_count st = 0 \<and> tok_tag (ps_token st) = Tok_Version then
        (if pr_wildcard r = Wild_None then group_or_version (ps_list st) (partial_min (pr_version r))
         else case to_range (ps_token st) (pr_version r) of
                None \<Rightarrow> None | Some rg \<Rightarrow> group_or_range (ps_list st) rg)
      else
        (case to_range (ps_token st) (pr_version r) of
           None \<Rightarrow> None
         | Some rg \<Rightarrow>
             if ps_count st = 0 then group_and_range (ps_list st) rg
             else if ps_is_or st then group_or_range (ps_list st) rg
             else group_and_range (ps_list st) rg))"

text \<open>
  One round that is not skipped, from the position \<open>i\<close> of the version: the new state and
  position.
\<close>

definition parse_round :: "slice \<Rightarrow> sliced_string \<Rightarrow> nat \<Rightarrow> parse_state \<Rightarrow> (parse_state \<times> nat) option" where
  "parse_round input sliced i st =
     (case slice_from input i of
        None \<Rightarrow> None
      | Some rest \<Rightarrow>
          (case version_parse (ss_sub sliced rest) of
             None \<Rightarrow> None
           | Some r \<Rightarrow>
               (let v = partial_min (pr_version r);
                    st = st\<lparr>ps_list := mark_flags (ps_list st) v,
                            ps_token := (ps_token st)\<lparr>tok_wildcard := pr_wildcard r\<rparr>\<rparr>;
                    i = i + unat (pr_len r);
                    maybe_hyphenate = (i < length (s_bytes input)
                      \<and> (s_bytes input ! i = CHR '' '' \<or> s_bytes input ! i = CHR ''-''));
                    done = (\<lambda>g. st\<lparr>ps_list := g, ps_is_or := False, ps_count := ps_count st + 1,
                                   ps_token := (ps_token st)\<lparr>tok_wildcard := Wild_None\<rparr>\<rparr>)
                in case (if maybe_hyphenate then possibly_hyphenate (s_bytes input) i else None) of
                     Some i' \<Rightarrow>
                       (case slice_from input i' of
                          None \<Rightarrow> None
                        | Some rest' \<Rightarrow>
                            (case version_parse (ss_sub sliced rest') of
                               None \<Rightarrow> None
                             | Some r' \<Rightarrow>
                                 (let g = mark_flags (ps_list st) (partial_min (pr_version r'));
                                      rg = hyphen_range v r'
                                  in map_option (\<lambda>g'. (done g', i' + unat (pr_len r') + 1))
                                       (if ps_is_or st then group_or_range g rg else group_and_range g rg))))
                   | None \<Rightarrow>
                       if tok_tag (ps_token st) = Tok_None
                       then Some (st\<lparr>ps_token := (ps_token st)\<lparr>tok_wildcard := Wild_None\<rparr>\<rparr>, i + 1)
                       else map_option (\<lambda>g. (done g, i + 1)) (join_comparator st r))))"

lemma possibly_hyphenate_bounds: "possibly_hyphenate s i = Some j \<Longrightarrow> i < j \<and> j < length s"
  by (auto simp: possibly_hyphenate_def Let_def split: if_splits)

lemma parse_round_progress: "parse_round input sliced i st = Some (st', i') \<Longrightarrow> i < i'"
  by (auto simp: parse_round_def Let_def split: option.splits if_splits dest!: possibly_hyphenate_bounds)

lemma skip_while_within:
  "i < length s \<Longrightarrow> i < skip_while P s (Suc i) \<and> skip_while P s (Suc i) \<le> length s"
  "Suc i < length s \<Longrightarrow> i < skip_while P s (Suc (Suc i)) \<and> skip_while P s (Suc (Suc i)) \<le> length s"
  using skip_while_le [of "Suc i" s P] skip_while_le [of "Suc (Suc i)" s P]
    skip_while_ge [of "Suc i" P s] skip_while_ge [of "Suc (Suc i)" P s] by auto

lemma parse_operator_progress:
  assumes "i < length s" and "parse_operator s i tg is_or = (i', tg', is_or', skip)"
  shows "i \<le> i' \<and> i' \<le> length s \<and> (skip \<longrightarrow> i < i')"
proof -
  let ?j = "skip_while (\<lambda>d. d = CHR ''|'') s (Suc i)"
  have "i < skip_spaces s ?j" "skip_spaces s ?j \<le> length s"
    using skip_while_within(1) [OF assms(1), of "\<lambda>d. d = CHR ''|''"]
      skip_while_ge [of ?j "\<lambda>c. c = CHR '' ''" s] skip_while_le [of ?j s "\<lambda>c. c = CHR '' ''"] by auto
  then show ?thesis
    using assms skip_while_within [of i s]
    by (auto simp: parse_operator_def Let_def split: if_splits intro: less_imp_le)
qed

function query_parse_loop :: "slice \<Rightarrow> sliced_string \<Rightarrow> nat \<Rightarrow> parse_state \<Rightarrow> group option" where
  "query_parse_loop input sliced i st =
     (if i < length (s_bytes input) then
        (case parse_operator (s_bytes input) i (tok_tag (ps_token st)) (ps_is_or st) of
           (i', tg, is_or, skip_round) \<Rightarrow>
             (let st' = st\<lparr>ps_token := (ps_token st)\<lparr>tok_tag := tg\<rparr>, ps_is_or := is_or\<rparr>
              in if skip_round then query_parse_loop input sliced i' st'
                 else (case parse_round input sliced i' st' of
                         None \<Rightarrow> None
                       | Some (st'', i'') \<Rightarrow> query_parse_loop input sliced i'' st'')))
      else Some (ps_list st))"
  by pat_completeness auto
termination
proof (relation "measure (\<lambda>(input, sliced, i, st). length (s_bytes input) - i)", goal_cases)
  case 1
  show ?case by simp
next
  case (2 input sliced i st x y xa ya xb yb xc)
  then have "parse_operator (s_bytes input) i (tok_tag (ps_token st)) (ps_is_or st) = (x, xa, xb, yb)" by simp
  from parse_operator_progress [OF 2(1) this] show ?case using 2 by (simp add: diff_less_mono2)
next
  case (3 input sliced i st x y xa ya xb yb xc x2 xd yc)
  then have op: "parse_operator (s_bytes input) i (tok_tag (ps_token st)) (ps_is_or st) = (x, xa, xb, yb)" by simp
  have "parse_round input sliced x xc = Some (xd, yc)" using 3 by simp
  from parse_round_progress [OF this] parse_operator_progress [OF 3(1) op]
  show ?case using 3(1) by (simp add: diff_less_mono2)
qed

declare query_parse_loop.simps [simp del]

definition query_parse :: "slice \<Rightarrow> sliced_string \<Rightarrow> group option" where
  "query_parse input sliced =
     query_parse_loop input sliced 0
       \<lparr>ps_list = \<lparr>g_head = or_list_default, g_tail = None, g_input = input, g_flags = bs_init_empty\<rparr>,
        ps_token = token_default, ps_count = 0, ps_is_or = False\<rparr>"

end
