(* ===== verification/Query_Semantics.thy ===== *)
theory Query_Semantics
  imports Semver_Query
begin

text \<open>
  What a group means.  The abstract state of a group is a disjunction of conjunctions of ranges
  (a list of clauses); evaluating the two linked chains is evaluating that formula, with
  the pre-release rule of each clause, and the operations that extend the chains through
  their tail pointers append to it.  The contract of the extension operations is the locale
  \<open>clause_store\<close>, interpreted on the operations of the group.
\<close>

section \<open>Chains as lists\<close>

fun chain :: "query \<Rightarrow> range list" where
  "chain (Query r nx) = r # (case nx of None \<Rightarrow> [] | Some n \<Rightarrow> chain n)"

fun clauses :: "or_list \<Rightarrow> range list list" where
  "clauses (Or_List h t nx) = chain h # (case nx of None \<Rightarrow> [] | Some n \<Rightarrow> clauses n)"

lemma chain_nonempty [simp]: "chain q \<noteq> []"
  by (cases q) simp

lemma clauses_nonempty [simp]: "clauses l \<noteq> []"
  by (cases l) simp

text \<open>A comparator of the range names the core version of \<open>v\<close> with a pre-release.\<close>

definition range_names :: "version \<Rightarrow> range \<Rightarrow> bool" where
  "range_names v r \<longleftrightarrow> has_left r \<and> (same_core_pre (left r) v \<or> (has_right r \<and> same_core_pre (right r) v))"

lemma query_satisfies_chain:
  "query_satisfies q v qb vb \<longleftrightarrow> (\<forall>r\<in>set (chain q). range_satisfies r v qb vb)"
  by (induction q v qb vb rule: query_satisfies.induct) (auto split: option.split)

lemma query_satisfies_pre_chain:
  "fst (query_satisfies_pre q v qb vb m) \<longleftrightarrow> (\<forall>r\<in>set (chain q). range_satisfies r v qb vb)"
  "fst (query_satisfies_pre q v qb vb m) \<Longrightarrow>
   snd (query_satisfies_pre q v qb vb m) \<longleftrightarrow> m \<or> (\<exists>r\<in>set (chain q). range_names v r)"
proof (induction q v qb vb m rule: query_satisfies_pre.induct)
  case (1 r nx v qb vb m)
  obtain ok m' where p: "range_satisfies_pre r v qb vb m = (ok, m')" by fastforce
  have ok: "ok = range_satisfies r v qb vb" using range_satisfies_pre_fst [of r v qb vb m] p by simp
  have m': "m' \<longleftrightarrow> m \<or> range_names v r"
    using range_satisfies_pre_snd [of r v qb vb m] p by (simp add: range_names_def)
  {
    case 1
    then show ?case using p ok "1.IH"(1) [OF p [symmetric]] by (cases nx) auto
  next
    case 2
    then show ?case
      using p ok m' "1.IH"(2) [OF p [symmetric]] by (cases nx) (auto split: if_splits)
  }
qed

text \<open>A formula holds for a release, and, with the extra condition per clause, for a pre-release.\<close>

definition clause_holds :: "version \<Rightarrow> bytes \<Rightarrow> bytes \<Rightarrow> range list \<Rightarrow> bool" where
  "clause_holds v qb vb cl \<longleftrightarrow>
     (\<forall>r\<in>set cl. range_satisfies r v qb vb) \<and> (has_pre (vtag v) \<longrightarrow> (\<exists>r\<in>set cl. range_names v r))"

lemma list_satisfies_clauses:
  "list_satisfies l v qb vb \<longleftrightarrow> (\<exists>cl\<in>set (clauses l). \<forall>r\<in>set cl. range_satisfies r v qb vb)"
  by (induction l v qb vb rule: list_satisfies.induct) (auto simp: query_satisfies_chain split: option.split)

lemma list_satisfies_pre_clauses:
  "list_satisfies_pre l v qb vb \<longleftrightarrow>
     (\<exists>cl\<in>set (clauses l). (\<forall>r\<in>set cl. range_satisfies r v qb vb) \<and> (\<exists>r\<in>set cl. range_names v r))"
proof (induction l v qb vb rule: list_satisfies_pre.induct)
  case (1 h t nx v qb vb)
  obtain ok m where p: "query_satisfies_pre h v qb vb False = (ok, m)" by fastforce
  then have "ok \<and> m \<longleftrightarrow> (\<forall>r\<in>set (chain h). range_satisfies r v qb vb) \<and> (\<exists>r\<in>set (chain h). range_names v r)"
    using query_satisfies_pre_chain [of h v qb vb False] by auto
  then show ?case using p 1 by (cases nx) auto
qed

lemma group_satisfies_clauses:
  "group_satisfies g v qb vb \<longleftrightarrow> (\<exists>cl\<in>set (clauses (g_head g)). clause_holds v qb vb cl)"
  by (auto simp: group_satisfies_def list_satisfies_clauses list_satisfies_pre_clauses clause_holds_def)

section \<open>Extending the chains\<close>

lemma query_set_next_last:
  "\<exists>q'. query_set_next q (query_last q) (Query r None) = Some q'
     \<and> chain q' = chain q @ [r] \<and> query_last q' = Suc (query_last q) \<and> q_next q' \<noteq> None
     \<and> q_range q' = q_range q"
proof (induction q rule: query_last.induct)
  case (1 r0 nx)
  then show ?case by (cases nx) fastforce+
qed

text \<open>The tail position of a node is that of the last query of its chain, and absent for one query.\<close>

definition tail_ok :: "or_list \<Rightarrow> bool" where
  "tail_ok l \<longleftrightarrow> ol_tail l = (if q_next (ol_head l) = None then None else Some (query_last (ol_head l)))"

fun tails_ok :: "or_list \<Rightarrow> bool" where
  "tails_ok (Or_List h t nx) \<longleftrightarrow> tail_ok (Or_List h t nx) \<and> (case nx of None \<Rightarrow> True | Some n \<Rightarrow> tails_ok n)"

lemma query_last_single: "q_next q = None \<Longrightarrow> query_last q = 0"
  by (cases q) simp

lemma list_and_range_last:
  assumes "tail_ok l" and "has_left (q_range (ol_head l))"
  shows "\<exists>l'. list_and_range l r = Some l' \<and> chain (ol_head l') = chain (ol_head l) @ [r]
           \<and> ol_next l' = ol_next l \<and> tail_ok l' \<and> q_range (ol_head l') = q_range (ol_head l)"
proof -
  have at: "(case ol_tail l of None \<Rightarrow> 0 | Some p \<Rightarrow> p) = query_last (ol_head l)"
    using assms(1) query_last_single [of "ol_head l"] by (auto simp: tail_ok_def)
  obtain q' where "query_set_next (ol_head l) (query_last (ol_head l)) (Query r None) = Some q'"
      "chain q' = chain (ol_head l) @ [r]" "query_last q' = Suc (query_last (ol_head l))" "q_next q' \<noteq> None"
      "q_range q' = q_range (ol_head l)"
    using query_set_next_last by blast
  then show ?thesis using assms(2) at by (simp add: list_and_range_def tail_ok_def Let_def)
qed

lemma list_set_next_last:
  "\<exists>l'. list_set_next l (list_last l) (Or_List (Query r None) None None) = Some l'
     \<and> clauses l' = clauses l @ [[r]] \<and> list_last l' = Suc (list_last l) \<and> ol_next l' \<noteq> None
     \<and> (tails_ok l \<longrightarrow> tails_ok l') \<and> ol_head l' = ol_head l"
proof (induction l rule: list_last.induct)
  case (1 h t nx)
  then show ?case by (cases nx) (fastforce simp: tail_ok_def)+
qed

text \<open>Every range of a node's chains has a left comparator.\<close>

definition ranges_set :: "or_list \<Rightarrow> bool" where
  "ranges_set l \<longleftrightarrow> (\<forall>cl\<in>set (clauses l). \<forall>r\<in>set cl. has_left r)"

lemma chain_head: "q_range q \<in> set (chain q)"
  by (cases q) simp

lemma ranges_set_head: "ranges_set l \<Longrightarrow> has_left (q_range (ol_head l))"
  using chain_head [of "ol_head l"] by (cases l) (auto simp: ranges_set_def)

lemma list_and_range_at_last:
  assumes "tails_ok l" and "ranges_set l" and "has_left r"
  shows "\<exists>l'. list_and_range_at l (list_last l) r = Some l'
           \<and> clauses l' = butlast (clauses l) @ [last (clauses l) @ [r]]
           \<and> list_last l' = list_last l \<and> (ol_next l' = None \<longleftrightarrow> ol_next l = None) \<and> tails_ok l'"
  using assms
proof (induction l rule: list_last.induct)
  case (1 h t nx)
  show ?case
  proof (cases nx)
    case None
    obtain l' where l': "list_and_range (Or_List h t None) r = Some l'" "chain (ol_head l') = chain h @ [r]"
        "ol_next l' = None" "tail_ok l'"
      using list_and_range_last [of "Or_List h t None" r] "1.prems"(1) ranges_set_head [OF "1.prems"(2)] None
      by auto
    then show ?thesis using None by (cases l') auto
  next
    case (Some n)
    have "ranges_set n" using "1.prems"(2) Some by (auto simp: ranges_set_def)
    then obtain l' where "list_and_range_at n (list_last n) r = Some l'"
        "clauses l' = butlast (clauses n) @ [last (clauses n) @ [r]]" "list_last l' = list_last n" "tails_ok l'"
      using "1.IH" [OF Some] "1.prems"(1,3) Some by auto
    then show ?thesis using Some "1.prems"(1) by (auto simp: tail_ok_def)
  qed
qed

section \<open>The group as a store of clauses\<close>

definition blank :: "group \<Rightarrow> bool" where
  "blank g \<longleftrightarrow> \<not> has_left (q_range (ol_head (g_head g)))"

definition group_ok :: "group \<Rightarrow> bool" where
  "group_ok g \<longleftrightarrow>
     tails_ok (g_head g)
     \<and> g_tail g = (if ol_next (g_head g) = None then None else Some (list_last (g_head g)))
     \<and> (if blank g
        then ol_next (g_head g) = None \<and> q_next (ol_head (g_head g)) = None \<and> \<not> has_right (q_range (ol_head (g_head g)))
        else ranges_set (g_head g))"

text \<open>The clauses a group was given: none for a blank group.\<close>

definition group_clauses :: "group \<Rightarrow> range list list" where
  "group_clauses g = (if blank g then [] else clauses (g_head g))"

definition or_clause :: "range list list \<Rightarrow> range \<Rightarrow> range list list" where
  "or_clause cs r = cs @ [[r]]"

definition and_clause :: "range list list \<Rightarrow> range \<Rightarrow> range list list" where
  "and_clause cs r = (if cs = [] then [[r]] else butlast cs @ [last cs @ [r]])"

datatype join = Join_And range | Join_Or range

fun join_range :: "join \<Rightarrow> range" where
  "join_range (Join_And r) = r"
| "join_range (Join_Or r) = r"

fun join_clauses :: "range list list \<Rightarrow> join \<Rightarrow> range list list" where
  "join_clauses cs (Join_And r) = and_clause cs r"
| "join_clauses cs (Join_Or r) = or_clause cs r"

lemma join_clauses_nonempty [simp]: "join_clauses cs j \<noteq> []"
  by (cases j) (simp_all add: and_clause_def or_clause_def)

text \<open>A sequence of extensions; \<open>None\<close> when one of them follows a dangling tail.\<close>

fun run_joins :: "('g \<Rightarrow> range \<Rightarrow> 'g option) \<Rightarrow> ('g \<Rightarrow> range \<Rightarrow> 'g option) \<Rightarrow> 'g \<Rightarrow> join list \<Rightarrow> 'g option" where
  "run_joins and_op or_op g [] = Some g"
| "run_joins and_op or_op g (Join_And r # js) =
     (case and_op g r of None \<Rightarrow> None | Some g' \<Rightarrow> run_joins and_op or_op g' js)"
| "run_joins and_op or_op g (Join_Or r # js) =
     (case or_op g r of None \<Rightarrow> None | Some g' \<Rightarrow> run_joins and_op or_op g' js)"

text \<open>The contract of a store that is extended clause by clause and range by range.\<close>

locale clause_store =
  fixes and_op :: "'g \<Rightarrow> range \<Rightarrow> 'g option"
    and or_op :: "'g \<Rightarrow> range \<Rightarrow> 'g option"
    and abs :: "'g \<Rightarrow> range list list"
    and ok :: "'g \<Rightarrow> bool"
  assumes and_step: "ok g \<Longrightarrow> has_left r \<Longrightarrow> \<exists>g'. and_op g r = Some g' \<and> ok g' \<and> abs g' = and_clause (abs g) r"
    and or_step: "ok g \<Longrightarrow> has_left r \<Longrightarrow> \<exists>g'. or_op g r = Some g' \<and> ok g' \<and> abs g' = or_clause (abs g) r"
begin

lemma run_abs:
  "ok g \<Longrightarrow> \<forall>j\<in>set js. has_left (join_range j) \<Longrightarrow>
   \<exists>g'. run_joins and_op or_op g js = Some g' \<and> ok g' \<and> abs g' = foldl join_clauses (abs g) js"
proof (induction js arbitrary: g)
  case (Cons j js)
  show ?case
  proof (cases j)
    case (Join_And r)
    then obtain g1 where "and_op g r = Some g1" "ok g1" "abs g1 = and_clause (abs g) r"
      using and_step [of g r] Cons.prems by auto
    then show ?thesis using Cons.IH [of g1] Cons.prems Join_And by simp
  next
    case (Join_Or r)
    then obtain g1 where "or_op g r = Some g1" "ok g1" "abs g1 = or_clause (abs g) r"
      using or_step [of g r] Cons.prems by auto
    then show ?thesis using Cons.IH [of g1] Cons.prems Join_Or by simp
  qed
qed simp

end

lemma group_at: "group_ok g \<Longrightarrow> (case g_tail g of None \<Rightarrow> 0 | Some p \<Rightarrow> p) = list_last (g_head g)"
  by (cases "g_head g") (auto simp: group_ok_def)

lemma group_push_ok:
  assumes "group_ok g" and "\<not> blank g" and "has_left r"
  shows "\<exists>g'. group_push g (Or_List (Query r None) None None) = Some g' \<and> group_ok g'
           \<and> group_clauses g' = group_clauses g @ [[r]]"
proof -
  obtain l' where l': "list_set_next (g_head g) (list_last (g_head g)) (Or_List (Query r None) None None) = Some l'"
      "clauses l' = clauses (g_head g) @ [[r]]" "list_last l' = Suc (list_last (g_head g))" "ol_next l' \<noteq> None"
      "tails_ok (g_head g) \<longrightarrow> tails_ok l'" "ol_head l' = ol_head (g_head g)"
    using list_set_next_last by blast
  then show ?thesis
    using assms group_at [OF assms(1)]
    by (auto simp: group_push_def Let_def group_ok_def blank_def group_clauses_def ranges_set_def)
qed

lemma blank_shape:
  assumes "group_ok g" and "blank g"
  obtains r where "g_head g = Or_List (Query r None) None None" and "\<not> has_left r" and "\<not> has_right r"
    and "g_tail g = None"
  using assms
  by (cases "g_head g"; cases "ol_head (g_head g)") (auto simp: group_ok_def blank_def tail_ok_def)

lemma group_or_range_ok:
  assumes "group_ok g" and "has_left r"
  shows "\<exists>g'. group_or_range g r = Some g' \<and> group_ok g' \<and> group_clauses g' = or_clause (group_clauses g) r"
proof (cases "blank g")
  case True
  then obtain r0 where "g_head g = Or_List (Query r0 None) None None" "\<not> has_left r0" "g_tail g = None"
    using blank_shape [OF assms(1)] by metis
  then show ?thesis
    using assms(2) True
    by (auto simp: group_or_range_def group_ok_def blank_def group_clauses_def or_clause_def tail_ok_def ranges_set_def)
next
  case False
  then show ?thesis
    using group_push_ok [OF assms(1) False assms(2)] by (auto simp: group_or_range_def blank_def or_clause_def)
qed

lemma group_or_version_ok:
  assumes "group_ok g"
  shows "\<exists>g' r. group_or_version g v = Some g' \<and> group_ok g'
           \<and> group_clauses g' = or_clause (group_clauses g) r
           \<and> left r = \<lparr>cop = Op_Eql, cversion = v\<rparr> \<and> has_left r \<and> \<not> has_right r"
proof (cases "blank g")
  case True
  then obtain r0 where "g_head g = Or_List (Query r0 None) None None" "\<not> has_left r0" "\<not> has_right r0" "g_tail g = None"
    using blank_shape [OF assms(1)] by metis
  then show ?thesis
    using True
    by (auto simp: group_or_version_def group_ok_def blank_def group_clauses_def or_clause_def tail_ok_def
        ranges_set_def exact_range_def has_left_def has_right_def)
next
  case False
  have r: "has_left (exact_range v range_default)" "\<not> has_right (exact_range v range_default)"
    by (simp_all add: exact_range_def has_left_def has_right_def range_default_def comparator_default_def)
  obtain g' where "group_push g (Or_List (Query (exact_range v range_default) None) None None) = Some g'"
      "group_ok g'" "group_clauses g' = group_clauses g @ [[exact_range v range_default]]"
    using group_push_ok [OF assms False r(1)] by blast
  then show ?thesis
    using False r
    by (intro exI [of _ g'] exI [of _ "exact_range v range_default"])
      (simp add: group_or_version_def blank_def or_clause_def exact_range_def)
qed

lemma group_and_range_ok:
  assumes "group_ok g" and "has_left r"
  shows "\<exists>g'. group_and_range g r = Some g' \<and> group_ok g' \<and> group_clauses g' = and_clause (group_clauses g) r"
proof (cases "blank g")
  case True
  then obtain r0 where "g_head g = Or_List (Query r0 None) None None" "\<not> has_left r0" "\<not> has_right r0" "g_tail g = None"
    using blank_shape [OF assms(1)] by metis
  then show ?thesis
    using assms(2) True
    by (auto simp: group_and_range_def list_and_range_def group_ok_def blank_def group_clauses_def and_clause_def
        tail_ok_def ranges_set_def)
next
  case False
  have ok: "tails_ok (g_head g)" "ranges_set (g_head g)" using assms(1) False by (auto simp: group_ok_def)
  obtain l' where l': "list_and_range_at (g_head g) (list_last (g_head g)) r = Some l'"
      "clauses l' = butlast (clauses (g_head g)) @ [last (clauses (g_head g)) @ [r]]"
      "list_last l' = list_last (g_head g)" "ol_next l' = None \<longleftrightarrow> ol_next (g_head g) = None" "tails_ok l'"
    using list_and_range_at_last [OF ok assms(2)] by (elim exE conjE)
  have "\<forall>cl\<in>set (clauses (g_head g)). \<forall>r\<in>set cl. has_left r" using ok(2) by (simp add: ranges_set_def)
  then have rs: "ranges_set l'"
    using l'(2) assms(2) last_in_set [OF clauses_nonempty, of "g_head g"]
    by (auto simp: ranges_set_def dest: in_set_butlastD)
  then have "has_left (q_range (ol_head l'))" by (rule ranges_set_head)
  then show ?thesis
    using l' rs assms(1) False group_at [OF assms(1)]
    by (auto simp: group_and_range_def group_ok_def blank_def group_clauses_def and_clause_def)
qed

interpretation grp: clause_store group_and_range group_or_range group_clauses group_ok
  by unfold_locales (auto intro: group_and_range_ok group_or_range_ok)

lemma group_ok_default: "group_ok (group_default ea)" "group_clauses (group_default ea) = []"
  by (simp_all add: group_ok_def group_default_def or_list_default_def query_default_def tail_ok_def blank_def
      has_left_def has_right_def range_default_def comparator_default_def group_clauses_def)

section \<open>Cloning\<close>

lemma query_clone_id [simp]: "query_clone q = q"
  by (induction q rule: query_clone.induct) (auto split: option.split)

lemma list_clone_id: "tails_ok l \<Longrightarrow> list_clone l = l"
  by (induction l rule: list_clone.induct) (auto simp: tail_ok_def Let_def split: option.split)

section \<open>Safety of the tail pointers\<close>

text \<open>
  The part of the invariant that the pointers need; unlike \<open>group_ok\<close> it does not ask that the
  ranges have a left comparator.  \<open>P\<close> is any property of the ranges.
\<close>

definition group_inv :: "(range \<Rightarrow> bool) \<Rightarrow> group \<Rightarrow> bool" where
  "group_inv P g \<longleftrightarrow>
     tails_ok (g_head g)
     \<and> g_tail g = (if ol_next (g_head g) = None then None else Some (list_last (g_head g)))
     \<and> (\<forall>cl\<in>set (clauses (g_head g)). \<forall>r\<in>set cl. P r)"

lemma group_inv_at: "group_inv P g \<Longrightarrow> (case g_tail g of None \<Rightarrow> 0 | Some p \<Rightarrow> p) = list_last (g_head g)"
  by (cases "g_head g") (auto simp: group_inv_def)

lemma list_and_range_inv:
  assumes "tail_ok l" and "\<forall>r\<in>set (chain (ol_head l)). P r" and "P r"
  shows "\<exists>l'. list_and_range l r = Some l' \<and> (\<forall>r\<in>set (chain (ol_head l')). P r) \<and> ol_next l' = ol_next l \<and> tail_ok l'"
proof -
  have at: "(case ol_tail l of None \<Rightarrow> 0 | Some p \<Rightarrow> p) = query_last (ol_head l)"
    using assms(1) query_last_single [of "ol_head l"] by (auto simp: tail_ok_def)
  obtain q' where "query_set_next (ol_head l) (query_last (ol_head l)) (Query r None) = Some q'"
      "chain q' = chain (ol_head l) @ [r]" "query_last q' = Suc (query_last (ol_head l))" "q_next q' \<noteq> None"
    using query_set_next_last by blast
  then show ?thesis
    using assms at by (cases "ol_head l") (auto simp: list_and_range_def tail_ok_def Let_def)
qed

lemma list_and_range_at_inv:
  assumes "tails_ok l" and "\<forall>cl\<in>set (clauses l). \<forall>r\<in>set cl. P r" and "P r"
  shows "\<exists>l'. list_and_range_at l (list_last l) r = Some l' \<and> (\<forall>cl\<in>set (clauses l'). \<forall>r\<in>set cl. P r)
           \<and> list_last l' = list_last l \<and> (ol_next l' = None \<longleftrightarrow> ol_next l = None) \<and> tails_ok l'"
  using assms
proof (induction l rule: list_last.induct)
  case (1 h t nx)
  show ?case
  proof (cases nx)
    case None
    obtain l' where l': "list_and_range (Or_List h t None) r = Some l'" "\<forall>r\<in>set (chain (ol_head l')). P r"
        "ol_next l' = None" "tail_ok l'"
      using list_and_range_inv [of "Or_List h t None" P r] "1.prems" None by auto
    then show ?thesis using None by (cases l') auto
  next
    case (Some n)
    then obtain l' where "list_and_range_at n (list_last n) r = Some l'"
        "\<forall>cl\<in>set (clauses l'). \<forall>r\<in>set cl. P r" "list_last l' = list_last n" "tails_ok l'"
      using "1.IH" [OF Some] "1.prems" by auto
    then show ?thesis using Some "1.prems" by (auto simp: tail_ok_def)
  qed
qed

lemma group_and_range_inv:
  assumes "group_inv P g" and "P r"
  shows "\<exists>g'. group_and_range g r = Some g' \<and> group_inv P g'"
proof -
  have "tails_ok (g_head g)" "\<forall>cl\<in>set (clauses (g_head g)). \<forall>r\<in>set cl. P r"
    using assms(1) by (auto simp: group_inv_def)
  from list_and_range_at_inv [OF this assms(2)] show ?thesis
    using assms(1) group_inv_at [OF assms(1)] by (auto simp: group_and_range_def group_inv_def)
qed

lemma group_push_inv:
  assumes "group_inv P g" and "P r"
  shows "\<exists>g'. group_push g (Or_List (Query r None) None None) = Some g' \<and> group_inv P g'"
proof -
  obtain l' where "list_set_next (g_head g) (list_last (g_head g)) (Or_List (Query r None) None None) = Some l'"
      "clauses l' = clauses (g_head g) @ [[r]]" "list_last l' = Suc (list_last (g_head g))" "ol_next l' \<noteq> None"
      "tails_ok (g_head g) \<longrightarrow> tails_ok l'"
    using list_set_next_last by blast
  then show ?thesis
    using assms group_inv_at [OF assms(1)] by (auto simp: group_push_def Let_def group_inv_def)
qed

lemma group_replace_inv:
  assumes "group_inv P g" and "P r" and "g_head g = Or_List (Query r0 nx) t n"
  shows "group_inv P (g\<lparr>g_head := Or_List (Query r nx) t n\<rparr>)"
  using assms by (auto simp: group_inv_def tail_ok_def split: option.split)

lemma group_or_range_inv:
  assumes "group_inv P g" and "P r"
  shows "\<exists>g'. group_or_range g r = Some g' \<and> group_inv P g'"
  using group_push_inv [OF assms] group_replace_inv [OF assms]
  by (cases "g_head g"; cases "ol_head (g_head g)") (auto simp: group_or_range_def)

lemma group_or_version_inv:
  assumes "group_inv P g" and "\<And>r. P (exact_range v r) \<longleftrightarrow> P (exact_range v range_default)" and "P (exact_range v range_default)"
  shows "\<exists>g'. group_or_version g v = Some g' \<and> group_inv P g'"
  using group_push_inv [OF assms(1,3)] group_replace_inv [OF assms(1), of "exact_range v r" for r] assms(2,3)
  by (cases "g_head g"; cases "ol_head (g_head g)") (auto simp: group_or_version_def)

lemma group_satisfies_joins:
  assumes "group_clauses g = foldl join_clauses [] js" and "js \<noteq> []"
  shows "group_satisfies g v qb vb = list_ex (clause_holds v qb vb) (foldl join_clauses [] js)"
proof -
  have "foldl join_clauses [] js \<noteq> []"
    using assms(2) join_clauses_nonempty by (cases js rule: rev_cases) auto
  then have "group_clauses g = clauses (g_head g)" using assms(1) by (auto simp: group_clauses_def split: if_splits)
  then show ?thesis using assms(1) by (simp add: group_satisfies_clauses list_ex_iff)
qed

section \<open>Properties\<close>

text \<open>
  C20. Evaluation of a group.  A version satisfies a group exactly when it satisfies every range of
  some clause of it; a pre-release must moreover find, in the same clause, a comparator with a
  pre-release of the same core version.  The loops over the two chains, their early exits and
  the \<open>pre_matched\<close> flag compute this formula.
\<close>

theorem group_satisfies_dnf:
  "group_satisfies g v group_buf version_buf = list_ex (clause_holds v group_buf version_buf) (clauses (g_head g))"
  by (simp add: group_satisfies_clauses list_ex_iff)

text \<open>
  C10. Building a group.  Any non-empty sequence of \<open>and_range\<close> and \<open>or_range\<close> calls with ranges that all
  have a left comparator (without one, as in \<open>^*\<close>, an alternative can be overwritten, see
  \<open>unset_alternative_overwritten\<close>), from an empty group, never follows a dangling tail pointer and leaves the
  disjunction of conjunctions that the calls spell out; evaluating the group evaluates it.
\<close>

theorem group_joins_build_dnf:
  assumes "\<forall>j\<in>set js. has_left (join_range j)" and "js \<noteq> []"
  shows "\<exists>g. run_joins group_and_range group_or_range (group_default ea) js = Some g
    \<and> group_clauses g = foldl join_clauses [] js
    \<and> (\<forall>v qb vb. group_satisfies g v qb vb = list_ex (clause_holds v qb vb) (foldl join_clauses [] js))"
proof -
  obtain g where g: "run_joins group_and_range group_or_range (group_default ea) js = Some g"
      "group_clauses g = foldl join_clauses [] js"
    using grp.run_abs [OF group_ok_default(1) assms(1), of ea] by (auto simp: group_ok_default(2))
  then show ?thesis using group_satisfies_joins [OF g(2) assms(2)] by blast
qed

theorem group_joins_build_dnf_witness:
  "\<exists>g. run_joins group_and_range group_or_range (group_default 16)
         [Join_And (exact_range version_default range_default), Join_Or (exact_range version_default range_default)] = Some g
     \<and> group_clauses g = [[exact_range version_default range_default], [exact_range version_default range_default]]"
  using group_joins_build_dnf [of "[Join_And (exact_range version_default range_default),
      Join_Or (exact_range version_default range_default)]" 16]
  by (auto simp: exact_range_def has_left_def and_clause_def or_clause_def)

text \<open>
  Cloning a group.  The iterative clone copies both chains and walks to their ends to rebuild
  the tail pointers: on a group whose tails point at the last nodes it is the identity, so a
  clone can be extended like the original.
\<close>

lemma group_clone_id:
  assumes "group_inv (\<lambda>_. True) g"
  shows "group_clone g = g"
  using assms list_clone_id [of "g_head g"] by (simp add: group_inv_def group_clone_def Let_def)

text \<open>
  A lost alternative.  A caret without a major number (\<open>^*\<close>) is translated to the unset range,
  which every release satisfies.  As the first alternative it is indistinguishable from an empty
  group, so the next alternative overwrites it and the group accepts that one alone; as the
  second alternative it is kept.
\<close>

lemma unset_alternative_overwritten:
  assumes "part_major p = None" and "has_left r"
  shows "\<exists>g1 g2 h1 h2.
      group_and_range (group_default ea) (caret_range p) = Some g1 \<and> group_or_range g1 r = Some g2
    \<and> clauses (g_head g2) = [[r]]
    \<and> group_or_range (group_default ea) r = Some h1 \<and> group_or_range h1 (caret_range p) = Some h2
    \<and> clauses (g_head h2) = [[r], [caret_range p]]"
  using assms
  by (simp add: caret_range_def group_and_range_def list_and_range_def group_default_def or_list_default_def
      query_default_def has_left_def has_right_def range_default_def comparator_default_def group_or_range_def
      group_push_def Let_def)

end
