(* ===== verification/Query_Ranges.thy ===== *)
theory Query_Ranges
  imports Query_Semantics
begin

text \<open>
  What the range operators accept.  For release versions each token of the range syntax, with a
  full or a partial version, is shown to accept exactly the set of core numbers that the npm
  documentation gives it; the bounds are the saturating additions of the code, so the
  statements for \<open>^\<close>, \<open>~\<close> and \<open>x\<close> ask that the number to be incremented is not the largest.
\<close>

section \<open>Core numbers\<close>

definition release :: "version \<Rightarrow> bool" where
  "release v \<longleftrightarrow> version_wf v \<and> \<not> has_pre (vtag v)"

lemma release_default [simp]: "release version_default"
  by (simp add: release_def has_pre_def) (simp add: version_default_def)

lemma release_update [simp]:
  "release (v\<lparr>major := a\<rparr>) = release v" "release (v\<lparr>minor := a\<rparr>) = release v" "release (v\<lparr>patch := a\<rparr>) = release v"
  by (simp_all add: release_def version_wf_def)

lemma core_default [simp]: "core (version_default :: version) = (0, 0, 0)"
  by (simp add: core_def version_default_def)

lemma core_update:
  "core (v\<lparr>major := a\<rparr>) = (unat a, snd (core v))"
  "core (v\<lparr>minor := a\<rparr>) = (fst (core v), unat a, snd (snd (core v)))"
  "core (v\<lparr>patch := a\<rparr>) = (fst (core v), fst (snd (core v)), unat a)"
  by (simp_all add: core_def)

text \<open>The half-open intervals of the operators, as equations on the leading numbers.\<close>

lemma core_interval:
  fixes x y z a b c :: nat
  shows "\<not> core_less (x, y, z) (a, b, c) \<and> core_less (x, y, z) (Suc a, 0, 0) \<longleftrightarrow> \<not> core_less (x, y, z) (a, b, c) \<and> x = a"
    and "\<not> core_less (x, y, z) (a, b, c) \<and> core_less (x, y, z) (a, Suc b, 0) \<longleftrightarrow> x = a \<and> y = b \<and> c \<le> z"
    and "\<not> core_less (x, y, z) (a, b, c) \<and> core_less (x, y, z) (a, b, Suc c) \<longleftrightarrow> x = a \<and> y = b \<and> z = c"
  by (auto simp: core_less_def)

lemma core_less_zero: "\<not> core_less (x, y, z) (x, 0, 0)" "\<not> core_less (x, y, z) (x, y, 0)"
  by (simp_all add: core_less_def)

lemma unat_max: "unat (- 1 :: u64) = 2 ^ 64 - 1"
  by (simp add: unsigned_minus_1_eq_mask mask_eq_exp_minus_1)

lemma u64_eq_iff: "(a :: u64) = b \<longleftrightarrow> unat a = unat b"
  by (auto intro: unsigned_word_eqI)

lemma unat_le_max: "unat (a :: u64) \<le> unat (- 1 :: u64)"
  using unat_lt [of a] by (simp add: unat_max)

lemma saturating_add_one: "a \<noteq> - 1 \<Longrightarrow> unat (saturating_add a 1) = unat a + 1"
proof -
  assume "a \<noteq> - 1"
  then have "unat a \<noteq> unat (- 1 :: u64)" by (metis u64_eq_iff)
  then have lt: "unat a + 1 < 2 ^ 64" using unat_lt [of a] by (simp add: unat_max)
  then have "unat (a + 1) = unat a + 1" by (intro unat_add_lem [THEN iffD1, THEN trans]) simp_all
  then show ?thesis using lt by (simp add: saturating_add_def)
qed

text \<open>A release by its three numbers.\<close>

definition ver :: "u64 \<Rightarrow> u64 \<Rightarrow> u64 \<Rightarrow> version" where
  "ver a b c = version_default\<lparr>major := a, minor := b, patch := c\<rparr>"

lemma ver_simps [simp]:
  "release (ver a b c)" "major (ver a b c) = a" "minor (ver a b c) = b" "patch (ver a b c) = c"
  "core (ver a b c) = (unat a, unat b, unat c)"
  by (simp_all add: ver_def core_update)

text \<open>A comparator between releases is a comparison of core numbers.\<close>

lemma comparator_release:
  assumes "release v" and "release (cversion c)"
  shows "comparator_satisfies c v cb vb \<longleftrightarrow>
    (case cop c of Op_Unset \<Rightarrow> False
     | Op_Eql \<Rightarrow> core v = core (cversion c)
     | Op_Lt \<Rightarrow> core_less (core v) (core (cversion c))
     | Op_Lte \<Rightarrow> \<not> core_less (core (cversion c)) (core v)
     | Op_Gt \<Rightarrow> core_less (core (cversion c)) (core v)
     | Op_Gte \<Rightarrow> \<not> core_less (core v) (core (cversion c)))"
  using assms comparator_satisfies_release [of v c cb vb] by (simp add: release_def)

lemmas range_sets = range_satisfies_def has_left_def has_right_def comparator_release
  range_default_def comparator_default_def

lemma default_numbers [simp]:
  "major (version_default :: version) = 0" "minor (version_default :: version) = 0" "patch (version_default :: version) = 0"
  by (simp_all add: version_default_def)

text \<open>The half-open interval between two releases, in both orders the code writes it.\<close>

lemma interval_release:
  assumes "release v" and "release lo" and "release hi"
  shows "range_satisfies \<lparr>left = \<lparr>cop = Op_Gte, cversion = lo\<rparr>, right = \<lparr>cop = Op_Lt, cversion = hi\<rparr>\<rparr> v rb vb
           \<longleftrightarrow> \<not> core_less (core v) (core lo) \<and> core_less (core v) (core hi)"
    and "range_satisfies \<lparr>left = \<lparr>cop = Op_Lt, cversion = hi\<rparr>, right = \<lparr>cop = Op_Gte, cversion = lo\<rparr>\<rparr> v rb vb
           \<longleftrightarrow> \<not> core_less (core v) (core lo) \<and> core_less (core v) (core hi)"
  using assms by (auto simp: range_satisfies_def has_left_def has_right_def comparator_release)

text \<open>The full version that a partial version with all three numbers stands for.\<close>

definition full :: "u64 \<Rightarrow> u64 \<Rightarrow> u64 \<Rightarrow> 64 partial" where
  "full a b c = \<lparr>part_major = Some a, part_minor = Some b, part_patch = Some c, part_tag = tag_default\<rparr>"

lemma full_version: "version_default\<lparr>major := a, minor := b, patch := c, vtag := tag_default\<rparr>
    = version_default\<lparr>major := a, minor := b, patch := c\<rparr>"
  by (simp add: version_default_def)

section \<open>Properties\<close>

text \<open>
  C9. The caret operator.  For a full version \<open>a.b.c\<close> without a pre-release, \<open>^a.b.c\<close> accepts
  exactly the releases that are not below it and agree with it up to and including the left-most
  non-zero number: the changes that do not modify that number.
\<close>

theorem caret_accepts:
  assumes "release v" and "a \<noteq> - 1" and "b \<noteq> - 1" and "c \<noteq> - 1"
  shows "range_satisfies (caret_range (full a b c)) v rb vb \<longleftrightarrow>
     \<not> core_less (core v) (unat a, unat b, unat c)
     \<and> (if a \<noteq> 0 then major v = a
        else if b \<noteq> 0 then major v = 0 \<and> minor v = b
        else major v = 0 \<and> minor v = 0 \<and> patch v = c)"
proof -
  have up: "unat (saturating_add a 1) = Suc (unat a)" "unat (saturating_add b 1) = Suc (unat b)"
      "unat (saturating_add c 1) = Suc (unat c)"
    using assms saturating_add_one by auto
  obtain x y z where v: "core v = (x, y, z)" "x = unat (major v)" "y = unat (minor v)" "z = unat (patch v)"
    by (simp add: core_def)
  note nums = u64_eq_iff [of "major v"] u64_eq_iff [of "minor v"] u64_eq_iff [of "patch v"]
  note range = caret_range_def full_def full_version interval_release core_update
  consider "a \<noteq> 0" | "a = 0" "b \<noteq> 0" | "a = 0" "b = 0" by blast
  then show ?thesis
  proof cases
    case 1
    have "range_satisfies (caret_range (full a b c)) v rb vb \<longleftrightarrow>
        \<not> core_less (core v) (unat a, unat b, unat c) \<and> core_less (core v) (Suc (unat a), 0, 0)"
      using assms(1) up 1 by (simp add: range)
    then show ?thesis using 1 by (simp only: v(1) core_interval) (simp add: nums flip: v)
  next
    case 2
    have "range_satisfies (caret_range (full a b c)) v rb vb \<longleftrightarrow>
        \<not> core_less (core v) (0, unat b, unat c) \<and> core_less (core v) (0, Suc (unat b), 0)"
      using assms(1) up 2 by (simp add: range)
    then show ?thesis using 2 by (simp only: v(1) core_interval) (auto simp: nums core_less_def simp flip: v(2-4))
  next
    case 3
    have "range_satisfies (caret_range (full a b c)) v rb vb \<longleftrightarrow>
        \<not> core_less (core v) (0, 0, unat c) \<and> core_less (core v) (0, 0, Suc (unat c))"
      using assms(1) up 3 by (simp add: range)
    then show ?thesis using 3 by (simp only: v(1) core_interval) (auto simp: nums core_less_def simp flip: v(2-4))
  qed
qed

theorem caret_accepts_witness:
  "range_satisfies (caret_range (full 0 2 3)) (ver 0 2 9) [] []
   \<and> \<not> range_satisfies (caret_range (full 0 2 3)) (ver 0 3 0) [] []"
  using caret_accepts [of "ver 0 2 9" 0 2 3 "[]" "[]"]
    caret_accepts [of "ver 0 3 0" 0 2 3 "[]" "[]"]
  by (simp add: core_less_def)

text \<open>
  C31. The tilde operator.  \<open>~a.b.c\<close> accepts exactly the releases of the same major and minor
  number that are not below it, and \<open>~a\<close> exactly those of the same major number.
\<close>

theorem tilde_accepts:
  assumes "release v" and "a \<noteq> - 1" and "b \<noteq> - 1"
  shows "(range_satisfies (tilda_range (full a b c)) v rb vb \<longleftrightarrow>
            major v = a \<and> minor v = b \<and> c \<le> patch v)
       \<and> (range_satisfies (tilda_range ((full a b c)\<lparr>part_minor := None, part_patch := None\<rparr>)) v rb vb \<longleftrightarrow>
            major v = a)"
proof -
  have up: "unat (saturating_add a 1) = Suc (unat a)" "unat (saturating_add b 1) = Suc (unat b)"
    using assms saturating_add_one by auto
  have "range_satisfies (tilda_range (full a b c)) v rb vb \<longleftrightarrow>
      \<not> core_less (core v) (unat a, unat b, unat c) \<and> core_less (core v) (unat a, Suc (unat b), 0)"
    using assms(1) up by (simp add: tilda_range_def full_def full_version interval_release core_update)
  moreover have "range_satisfies (tilda_range ((full a b c)\<lparr>part_minor := None, part_patch := None\<rparr>)) v rb vb \<longleftrightarrow>
      \<not> core_less (core v) (unat a, 0, 0) \<and> core_less (core v) (Suc (unat a), 0, 0)"
    using assms(1) up by (simp add: tilda_range_def full_def full_version interval_release core_update)
  ultimately show ?thesis
    unfolding u64_eq_iff [of "major v"] u64_eq_iff [of "minor v"] word_le_nat_alt core_def
    by (simp only: core_interval) (auto simp: core_less_zero)
qed

theorem tilde_accepts_witness:
  "range_satisfies (tilda_range (full 1 2 3)) (ver 1 2 4) [] []"
  using tilde_accepts [of "ver 1 2 4" 1 2 3 "[]" "[]"]
  by simp

text \<open>
  Wildcards.  \<open>*\<close> accepts every release, \<open>a.x\<close> exactly the releases with major number \<open>a\<close> and
  \<open>a.b.x\<close> exactly those with major number \<open>a\<close> and minor number \<open>b\<close>.
\<close>

lemma wildcard_accepts:
  assumes "release v" and "major w \<noteq> - 1" and "minor w \<noteq> - 1"
  shows "range_satisfies (init_wildcard w Wild_Major) v rb vb
    \<and> (range_satisfies (init_wildcard w Wild_Minor) v rb vb \<longleftrightarrow> major v = major w)
    \<and> (range_satisfies (init_wildcard w Wild_Patch) v rb vb \<longleftrightarrow> major v = major w \<and> minor v = minor w)"
proof -
  have up: "unat (saturating_add (major w) 1) = Suc (unat (major w))"
      "unat (saturating_add (minor w) 1) = Suc (unat (minor w))"
    using assms saturating_add_one by auto
  have "range_satisfies (init_wildcard w Wild_Major) v rb vb"
    using assms(1) by (simp add: init_wildcard_def range_sets core_less_def)
  moreover have "range_satisfies (init_wildcard w Wild_Minor) v rb vb \<longleftrightarrow>
      \<not> core_less (core v) (unat (major w), 0, 0) \<and> core_less (core v) (Suc (unat (major w)), 0, 0)"
    using assms(1) up by (simp add: init_wildcard_def interval_release core_update)
  moreover have "range_satisfies (init_wildcard w Wild_Patch) v rb vb \<longleftrightarrow>
      \<not> core_less (core v) (unat (major w), unat (minor w), 0)
      \<and> core_less (core v) (unat (major w), Suc (unat (minor w)), 0)"
    using assms(1) up by (simp add: init_wildcard_def interval_release core_update)
  ultimately show ?thesis
    unfolding u64_eq_iff [of "major v"] u64_eq_iff [of "minor v"] core_def
    by (simp only: core_interval) (auto simp: core_less_zero)
qed

text \<open>
  Comparisons with a partial version.  With only a major number, \<open><a\<close>, \<open><=a\<close>, \<open>>a\<close> and \<open>>=a\<close>
  compare the major numbers, whatever the minor and patch numbers are: the missing numbers are
  filled with zeros or with the largest number, as the operator needs.
\<close>

lemma partial_comparison_accepts:
  assumes "release v"
  shows "(\<exists>r. to_range \<lparr>tok_tag = Tok_Lt, tok_wildcard = Wild_Minor\<rparr> ((full a 0 0)\<lparr>part_minor := None, part_patch := None\<rparr>) = Some r
            \<and> (range_satisfies r v rb vb \<longleftrightarrow> major v < a))
       \<and> (\<exists>r. to_range \<lparr>tok_tag = Tok_Lte, tok_wildcard = Wild_Minor\<rparr> ((full a 0 0)\<lparr>part_minor := None, part_patch := None\<rparr>) = Some r
            \<and> (range_satisfies r v rb vb \<longleftrightarrow> major v \<le> a))
       \<and> (\<exists>r. to_range \<lparr>tok_tag = Tok_Gt, tok_wildcard = Wild_Minor\<rparr> ((full a 0 0)\<lparr>part_minor := None, part_patch := None\<rparr>) = Some r
            \<and> (range_satisfies r v rb vb \<longleftrightarrow> major v > a))
       \<and> (\<exists>r. to_range \<lparr>tok_tag = Tok_Gte, tok_wildcard = Wild_Minor\<rparr> ((full a 0 0)\<lparr>part_minor := None, part_patch := None\<rparr>) = Some r
            \<and> (range_satisfies r v rb vb \<longleftrightarrow> major v \<ge> a))"
  using assms unat_le_max [of "minor v"] unat_le_max [of "patch v"]
  by (auto simp: to_range_def prefix_fill_def full_def range_sets core_update core_less_def core_def
      word_less_nat_alt word_le_nat_alt)

text \<open>
  Hyphen ranges.  \<open>a.b.c - d.e.f\<close> includes both ends; with a partial upper version the whole
  prefix is included (\<open>1.0.0 - 1.x\<close> ends before \<open>2.0.0\<close>).
\<close>

lemma hyphen_range_accepts:
  assumes "release v" and "release lo" and "pr_version r = full a b c" and "a \<noteq> - 1" and "b \<noteq> - 1"
  shows "range_satisfies (hyphen_range lo r) v rb vb \<longleftrightarrow>
     \<not> core_less (core v) (core lo)
     \<and> (case pr_wildcard r of
          Wild_Major \<Rightarrow> True
        | Wild_Minor \<Rightarrow> major v \<le> a
        | Wild_Patch \<Rightarrow> major v < a \<or> major v = a \<and> minor v \<le> b
        | Wild_None \<Rightarrow> \<not> core_less (unat a, unat b, unat c) (core v))"
proof -
  have min: "partial_min (full a b c) = version_default\<lparr>major := a, minor := b, patch := c\<rparr>"
    by (simp add: partial_min_def full_def version_default_def)
  show ?thesis
    using assms saturating_add_one [of a] saturating_add_one [of b]
    by (cases "pr_wildcard r")
      (auto simp: hyphen_range_def min range_sets core_update core_less_def core_def Let_def
        word_less_nat_alt word_le_nat_alt u64_eq_iff)
qed

end
