(* ===== verification/Query_Parse.thy ===== *)
theory Query_Parse
  imports Query_Ranges
begin

text \<open>
  The range parser.  It returns a group for every input, whatever its bytes: no slice, integer
  cast or \<open>unreachable!\<close> panics, and the tail pointers it extends the chains through are never
  dangling.  On the text of a list of comparators it builds the formula that the text spells.
\<close>

section \<open>Well-formed ranges\<close>

lemma version_wf_update [simp]:
  "version_wf (v\<lparr>major := a\<rparr>) = version_wf v" "version_wf (v\<lparr>minor := a\<rparr>) = version_wf v"
  "version_wf (v\<lparr>patch := a\<rparr>) = version_wf v" "version_wf (v\<lparr>vtag := t\<rparr>) = tag_wf t"
  by (simp_all add: version_wf_def tag_wf_def)

lemma range_wf_left [simp]:
  "range_wf (range_default\<lparr>left := \<lparr>cop = op, cversion = v\<rparr>\<rparr>) = version_wf v"
  "range_wf \<lparr>left = \<lparr>cop = op, cversion = v\<rparr>, right = \<lparr>cop = op', cversion = w\<rparr>\<rparr> \<longleftrightarrow> version_wf v \<and> version_wf w"
  by (simp_all add: range_wf_def range_default_def comparator_default_def)

lemma partial_min_wf: "version_wf (partial_min p) = tag_wf (part_tag p)"
  by (simp add: partial_min_def version_wf_tag)

lemma caret_range_wf: "tag_wf (part_tag p) \<Longrightarrow> range_wf (caret_range p)"
  by (simp add: caret_range_def Let_def split: option.split)

lemma tilda_range_wf: "tag_wf (part_tag p) \<Longrightarrow> range_wf (tilda_range p)"
  by (simp add: tilda_range_def Let_def split: option.split)

lemma init_wildcard_wf: "version_wf v \<Longrightarrow> range_wf (init_wildcard v w)"
  by (cases w) (simp_all add: init_wildcard_def)

lemma to_range_total:
  assumes "tok_tag tok \<noteq> Tok_None" and "tag_wf (part_tag p)"
  shows "\<exists>r. to_range tok p = Some r \<and> range_wf r"
  using assms caret_range_wf [OF assms(2)] tilda_range_wf [OF assms(2)] init_wildcard_wf [of "partial_min p"]
  by (cases "tok_tag tok"; cases "tok_wildcard tok") (simp_all add: to_range_def partial_min_wf)

lemma hyphen_range_wf: "version_wf v \<Longrightarrow> result_wf r \<Longrightarrow> range_wf (hyphen_range v r)"
  by (cases "pr_wildcard r") (simp_all add: hyphen_range_def Let_def result_wf_def partial_min_wf)

lemma exact_range_wf: "range_wf (exact_range v r) \<longleftrightarrow> version_wf v \<and> version_wf (cversion (right r))"
  by (simp add: exact_range_def range_wf_def)

section \<open>The parser is total\<close>

lemma group_inv_flags [simp]: "group_inv P (mark_flags g v) = group_inv P g"
  by (simp add: group_inv_def mark_flags_def Let_def)

text \<open>
  \<open>or_version\<close> keeps the right comparator of a head without a left one; it is well formed because
  all ranges of the group are.
\<close>

lemma group_or_version_wf:
  assumes "group_inv range_wf g" and "version_wf v"
  shows "\<exists>g'. group_or_version g v = Some g' \<and> group_inv range_wf g'"
proof -
  obtain r nx t n where h: "g_head g = Or_List (Query r nx) t n"
    by (cases "g_head g"; cases "ol_head (g_head g)") auto
  then have "range_wf r" using assms(1) by (auto simp: group_inv_def)
  then have e: "range_wf (exact_range v r)" unfolding exact_range_wf using assms(2) by (simp add: range_wf_def)
  have d: "range_wf (exact_range v range_default)"
    using assms(2) by (simp add: exact_range_wf range_default_def comparator_default_def)
  from group_push_inv [OF assms(1) d] group_replace_inv [OF assms(1) e h] h
  show ?thesis by (auto simp: group_or_version_def)
qed

lemma join_comparator_total:
  assumes "group_inv range_wf (ps_list st)" and "result_wf r" and "tok_tag (ps_token st) \<noteq> Tok_None"
  shows "\<exists>g. join_comparator st r = Some g \<and> group_inv range_wf g"
proof -
  have wf: "tag_wf (part_tag (pr_version r))" using assms(2) by (simp add: result_wf_def)
  obtain rg where rg: "to_range (ps_token st) (pr_version r) = Some rg" "range_wf rg"
    using to_range_total [OF assms(3) wf] by blast
  have v: "version_wf (partial_min (pr_version r))" using wf by (simp add: partial_min_wf)
  show ?thesis
    using group_or_version_wf [OF assms(1) v] group_or_range_inv [OF assms(1) rg(2)]
      group_and_range_inv [OF assms(1) rg(2)] rg(1)
    by (simp add: join_comparator_def)
qed

lemma parse_round_total:
  assumes len: "length (s_bytes input) < 2 ^ 32" and i: "i \<le> length (s_bytes input)"
    and inv: "group_inv range_wf (ps_list st)"
  shows "\<exists>st' i'. parse_round input sliced i st = Some (st', i') \<and> group_inv range_wf (ps_list st')"
proof -
  have parse: "\<exists>rest (r :: 64 parse_result). slice_from input k = Some rest \<and> version_parse (ss_sub sliced rest) = Some r \<and> result_wf r"
    if "k \<le> length (s_bytes input)" for k
  proof -
    let ?rest = "\<lparr>s_addr = s_addr input + word_of_nat k, s_bytes = drop k (s_bytes input)\<rparr>"
    have "length (s_bytes (ss_slice (ss_sub sliced ?rest))) < 2 ^ 32" using len by (simp add: ss_sub_def)
    from version_parse_total [OF this, where 'w = 64] that show ?thesis by (auto simp: slice_from_Some)
  qed
  obtain rest and r :: "64 parse_result" where r: "slice_from input i = Some rest" "version_parse (ss_sub sliced rest) = Some r" "result_wf r"
    using parse [OF i] by blast
  define v where "v = partial_min (pr_version r)"
  define s1 where "s1 = st\<lparr>ps_list := mark_flags (ps_list st) v, ps_token := (ps_token st)\<lparr>tok_wildcard := pr_wildcard r\<rparr>\<rparr>"
  have inv1: "group_inv range_wf (ps_list s1)" using inv by (simp add: s1_def)
  have tg: "tok_tag (ps_token s1) = tok_tag (ps_token st)" by (simp add: s1_def)
  have vwf: "version_wf v" using r(3) by (simp add: v_def result_wf_def partial_min_wf)
  define hy where "hy = (let j = i + unat (pr_len r) in
      if j < length (s_bytes input) \<and> (s_bytes input ! j = CHR '' '' \<or> s_bytes input ! j = CHR ''-'')
      then possibly_hyphenate (s_bytes input) j else None)"
  show ?thesis
  proof (cases hy)
    case None
    then show ?thesis
      using r join_comparator_total [OF inv1 r(3)] inv1 unfolding tg
      by (auto simp: parse_round_def Let_def hy_def simp flip: v_def s1_def)
  next
    case (Some j)
    then have "j \<le> length (s_bytes input)"
      by (auto simp: hy_def Let_def split: if_splits dest: possibly_hyphenate_bounds)
    then obtain rest' and r' :: "64 parse_result" where r': "slice_from input j = Some rest'" "version_parse (ss_sub sliced rest') = Some r'"
        "result_wf r'"
      using parse by blast
    have rw: "range_wf (hyphen_range v r')" using vwf r'(3) by (rule hyphen_range_wf)
    have inv2: "group_inv range_wf (mark_flags (ps_list s1) (partial_min (pr_version r')))" using inv1 by simp
    show ?thesis
      using Some r r' group_or_range_inv [OF inv2 rw] group_and_range_inv [OF inv2 rw]
      by (auto simp: parse_round_def Let_def hy_def simp flip: v_def s1_def)
  qed
qed

lemma query_parse_loop_total:
  assumes "length (s_bytes input) < 2 ^ 32" and "group_inv range_wf (ps_list st)"
  shows "\<exists>g. query_parse_loop input sliced i st = Some g \<and> group_inv range_wf g"
  using assms(2)
proof (induction "length (s_bytes input) - i" arbitrary: i st rule: less_induct)
  case less
  show ?case
  proof (cases "i < length (s_bytes input)")
    case False
    then show ?thesis using less.prems by (subst query_parse_loop.simps) simp
  next
    case True
    obtain i' tg is_or skip where op: "parse_operator (s_bytes input) i (tok_tag (ps_token st)) (ps_is_or st)
        = (i', tg, is_or, skip)" by (metis prod_cases4)
    note pr = parse_operator_progress [OF True op]
    define st1 where "st1 = st\<lparr>ps_token := (ps_token st)\<lparr>tok_tag := tg\<rparr>, ps_is_or := is_or\<rparr>"
    have inv1: "group_inv range_wf (ps_list st1)" using less.prems by (simp add: st1_def)
    show ?thesis
    proof (cases skip)
      case sk: True
      have "length (s_bytes input) - i' < length (s_bytes input) - i" using True pr sk by (intro diff_less_mono2) auto
      from less.hyps [OF this inv1] show ?thesis
        using True op sk by (subst query_parse_loop.simps) (simp add: Let_def flip: st1_def)
    next
      case False
      obtain st2 i2 where rd: "parse_round input sliced i' st1 = Some (st2, i2)" "group_inv range_wf (ps_list st2)"
        using parse_round_total [OF assms(1) _ inv1, of i'] pr by blast
      have "length (s_bytes input) - i2 < length (s_bytes input) - i"
        using True pr parse_round_progress [OF rd(1)] by (intro diff_less_mono2) auto
      from less.hyps [OF this rd(2)] show ?thesis
        using True op False rd(1) by (subst query_parse_loop.simps) (simp add: Let_def flip: st1_def)
    qed
  qed
qed

text \<open>The group that \<open>parse\<close> starts from.\<close>

definition parse_group :: "slice \<Rightarrow> group" where
  "parse_group input = \<lparr>g_head = or_list_default, g_tail = None, g_input = input, g_flags = bs_init_empty\<rparr>"

lemma parse_group_inv: "group_inv range_wf (parse_group input)"
  by (simp add: parse_group_def group_inv_def or_list_default_def query_default_def tail_ok_def)

lemma query_parse_total:
  assumes "length (s_bytes input) < 2 ^ 32"
  shows "\<exists>g. query_parse input sliced = Some g \<and> group_inv range_wf g"
  unfolding query_parse_def parse_group_def [symmetric]
  by (rule query_parse_loop_total [OF assms]) (simp add: parse_group_inv)

section \<open>The text of a query\<close>

text \<open>
  A comparator as it is written: whether \<open>||\<close> or only a space comes before it, its operator, and
  a full version with the texts of its tag.
\<close>

record citem =
  ci_or :: bool
  ci_op :: token_tag
  ci_major :: u64
  ci_minor :: u64
  ci_patch :: u64
  ci_pre :: bytes
  ci_build :: bytes

fun op_prefix :: "token_tag \<Rightarrow> bytes" where
  "op_prefix Tok_Gt = ''>''"
| "op_prefix Tok_Gte = ''>=''"
| "op_prefix Tok_Lt = ''<''"
| "op_prefix Tok_Lte = ''<=''"
| "op_prefix Tok_Tilda = ''~''"
| "op_prefix Tok_Caret = ''^''"
| "op_prefix _ = []"

definition item_version :: "citem \<Rightarrow> bytes" where
  "item_version c = version_text (ci_major c) (ci_minor c) (ci_patch c) (ci_pre c) (ci_build c)"

definition item_text :: "citem \<Rightarrow> bytes" where
  "item_text c = op_prefix (ci_op c) @ item_version c"

definition item_sep :: "citem \<Rightarrow> bytes" where
  "item_sep c = (if ci_or c then '' || '' else '' '')"

fun items_tail :: "citem list \<Rightarrow> bytes" where
  "items_tail [] = []"
| "items_tail (c # cs) = item_sep c @ item_text c @ items_tail cs"

definition item_ok :: "citem \<Rightarrow> bool" where
  "item_ok c \<longleftrightarrow> ci_op c \<noteq> Tok_None \<and> pre_text (ci_pre c) \<and> build_text (ci_build c)"

fun op_of :: "token_tag \<Rightarrow> range_op" where
  "op_of Tok_Gt = Op_Gt"
| "op_of Tok_Gte = Op_Gte"
| "op_of Tok_Lt = Op_Lt"
| "op_of Tok_Lte = Op_Lte"
| "op_of _ = Op_Eql"

text \<open>The range that a comparator asks for, with the tag \<open>t\<close> of its version.\<close>

definition item_range :: "citem \<Rightarrow> tag \<Rightarrow> range" where
  "item_range c t =
     (let p = \<lparr>part_major = Some (ci_major c), part_minor = Some (ci_minor c), part_patch = Some (ci_patch c), part_tag = t\<rparr>
      in case ci_op c of
           Tok_Caret \<Rightarrow> caret_range p
         | Tok_Tilda \<Rightarrow> tilda_range p
         | op \<Rightarrow> range_default\<lparr>left := \<lparr>cop = op_of op, cversion = partial_min p\<rparr>\<rparr>)"


text \<open>What the code does: an exact version always starts a new alternative, also after a mere space.\<close>

definition code_join :: "citem \<Rightarrow> tag \<Rightarrow> join" where
  "code_join c t = (if ci_or c \<or> ci_op c = Tok_Version then Join_Or (item_range c t) else Join_And (item_range c t))"


lemma item_range_to_range:
  assumes "ci_op c \<noteq> Tok_None"
  shows "to_range \<lparr>tok_tag = ci_op c, tok_wildcard = Wild_None\<rparr>
     \<lparr>part_major = Some (ci_major c), part_minor = Some (ci_minor c), part_patch = Some (ci_patch c), part_tag = t\<rparr>
     = Some (item_range c t)"
  using assms by (cases "ci_op c") (simp_all add: to_range_def item_range_def Let_def)

lemma item_range_left: "has_left (item_range c t)"
  by (cases "ci_op c")
    (simp_all add: item_range_def has_left_def caret_range_def tilda_range_def Let_def)

lemma digit_not_special:
  "is_ascii_digit c \<Longrightarrow> c \<notin> set ''<>=v~^|- ''" "is_ascii_digit c \<Longrightarrow> c \<notin> set WHITESPACE_CHARS"
  by (auto simp: is_ascii_digit_def code_def WHITESPACE_CHARS_def)

lemma item_version_head: "\<exists>d r. item_version c = d # r \<and> is_ascii_digit d"
proof -
  obtain d r where "fmt_uint (ci_major c) = d # r" by (metis fmt_uint_nonempty neq_Nil_conv)
  then show ?thesis
    using fmt_uint_digits [of d "ci_major c"] by (simp add: item_version_def version_text_def)
qed

lemma skip_while_stop: "drop k s = d # r \<Longrightarrow> \<not> P d \<Longrightarrow> skip_while P s k = k"
  by (simp add: skip_while_def)

lemma parse_operator_item:
  assumes "drop i s = op_prefix op @ d # r" and "is_ascii_digit d" and "op \<noteq> Tok_None"
  shows "parse_operator s i tg is_or = (i + length (op_prefix op), op, is_or \<or> op = Tok_Version, False)"
proof -
  have d: "d \<notin> set ''<>=v~^|- ''" using assms(2) by (rule digit_not_special)
  have at: "i < length s" "s ! i = hd (op_prefix op @ d # r)" "drop (Suc i) s = tl (op_prefix op @ d # r)"
    using assms(1) by (cases "op_prefix op"; auto dest!: drop_eq_ConsD)+
  have at1: "Suc i < length s \<and> s ! Suc i = e \<and> drop (Suc (Suc i)) s = es" if "drop (Suc i) s = e # es" for e es
    using drop_eq_ConsD [OF that] by auto
  have stop: "skip_spaces s k = k" if "drop k s = d # r" for k
    using that d by (intro skip_while_stop) auto
  show ?thesis
    using at at1 [of "CHR ''=''" "d # r"] at1 [of d r] stop [of "Suc i"] stop [of "Suc (Suc i)"] d assms(2,3)
    by (cases op) (simp_all add: parse_operator_def Let_def)
qed

section \<open>One comparator\<close>

definition reads_tag :: "sliced_string \<Rightarrow> citem \<Rightarrow> tag \<Rightarrow> bool" where
  "reads_tag ss c t \<longleftrightarrow> reads ss (pre t) (ci_pre c) \<and> reads ss (build t) (ci_build c)"

text \<open>The state of the loop between two comparators, after \<open>n\<close> of them.\<close>

definition between :: "slice \<Rightarrow> nat \<Rightarrow> parse_state \<Rightarrow> bool" where
  "between input n st \<longleftrightarrow>
     group_ok (ps_list st) \<and> ps_count st = word_of_nat n
     \<and> (n = 0 \<longrightarrow> ps_list st = parse_group input)"

lemma mark_flags_parts [simp]:
  "g_head (mark_flags g v) = g_head g" "g_tail (mark_flags g v) = g_tail g"
  by (simp_all add: mark_flags_def Let_def)

lemma group_ok_mark [simp]:
  "group_ok (mark_flags g v) = group_ok g" "group_clauses (mark_flags g v) = group_clauses g"
  by (simp_all add: group_ok_def group_clauses_def blank_def)

lemma parse_group_ok: "group_ok (parse_group input)" "group_clauses (parse_group input) = []"
  by (simp_all add: parse_group_def group_ok_def or_list_default_def query_default_def tail_ok_def blank_def
      has_left_def has_right_def range_default_def comparator_default_def group_clauses_def)

lemma or_version_parse_group:
  assumes "g_head g = or_list_default" and "g_tail g = None"
  shows "\<exists>g'. group_or_version g v = Some g' \<and> group_ok g' \<and> group_clauses g' = [[exact_range v range_default]]"
  using assms
  by (simp add: group_or_version_def or_list_default_def query_default_def has_left_def range_default_def
      comparator_default_def group_ok_def tail_ok_def blank_def exact_range_def ranges_set_def group_clauses_def)

lemma u32_of_nat_zero: "n < 2 ^ 32 \<Longrightarrow> (word_of_nat n :: u32) = 0 \<longleftrightarrow> n = 0"
proof -
  assume "n < 2 ^ 32"
  then have "unat (word_of_nat n :: u32) = n" by (simp add: unat_of_nat)
  then show ?thesis by (metis unat_eq_zero)
qed

text \<open>How a parsed full version joins the group.\<close>

lemma join_comparator_item:
  assumes st: "between input n (st\<lparr>ps_list := g\<rparr>)" and n: "n < 2 ^ 32" and op: "ci_op c \<noteq> Tok_None"
    and tok: "ps_token st = \<lparr>tok_tag = ci_op c, tok_wildcard = Wild_None\<rparr>"
    and or_flag: "ps_is_or st \<longleftrightarrow> (ci_or c \<and> n \<noteq> 0) \<or> ci_op c = Tok_Version"
    and r: "r = text_result (ci_major c) (ci_minor c) (ci_patch c) t k"
  shows "\<exists>g'. join_comparator (st\<lparr>ps_list := mark_flags g v\<rparr>) r = Some g' \<and> group_ok g'
           \<and> group_clauses g' = join_clauses (group_clauses g) (code_join c t)"
proof -
  let ?g = "mark_flags g v"
  have gok: "group_ok ?g" using st by (simp add: between_def)
  have to: "to_range (ps_token st) (pr_version r) = Some (item_range c t)"
    using item_range_to_range [OF op] by (simp add: tok r text_result_def)
  have cnt: "ps_count st = 0 \<longleftrightarrow> n = 0"
    using st n by (simp add: between_def u32_of_nat_zero)
  note ok = group_and_range_ok [OF gok item_range_left [of c t]] group_or_range_ok [OF gok item_range_left [of c t]]
  show ?thesis
  proof (cases "n = 0")
    case True
    then have g: "g = parse_group input" using st by (simp add: between_def)
    have blank: "group_clauses g = []" by (simp add: g parse_group_ok)
    show ?thesis
    proof (cases "ci_op c = Tok_Version")
      case ver: True
      have e: "exact_range (partial_min (pr_version r)) range_default = item_range c t"
        by (simp add: exact_range_def item_range_def ver r text_result_def Let_def)
      have "g_head ?g = or_list_default" "g_tail ?g = None" by (simp_all add: g parse_group_def)
      from or_version_parse_group [OF this, of "partial_min (pr_version r)"] show ?thesis
        using True cnt ver tok blank e
        by (auto simp: join_comparator_def r text_result_def code_join_def or_clause_def)
    next
      case False
      then show ?thesis
        using True cnt tok blank ok to
        by (auto simp: join_comparator_def code_join_def or_clause_def and_clause_def)
    qed
  next
    case False
    then show ?thesis using cnt ok to or_flag tok by (auto simp: join_comparator_def code_join_def)
  qed
qed

text \<open>A round of the loop that reads a version and no hyphen after it.\<close>

lemma parse_round_plain:
  assumes "slice_from input i = Some R" and "version_parse (ss_sub sliced R) = Some r"
    and "i + unat (pr_len r) = k"
    and "k < length (s_bytes input) \<Longrightarrow> possibly_hyphenate (s_bytes input) k = None"
    and "tok_tag (ps_token st) \<noteq> Tok_None"
    and "join_comparator (st\<lparr>ps_list := mark_flags (ps_list st) (partial_min (pr_version r)),
           ps_token := (ps_token st)\<lparr>tok_wildcard := pr_wildcard r\<rparr>\<rparr>) r = Some g"
  shows "parse_round input sliced i st
    = Some (st\<lparr>ps_list := g, ps_is_or := False, ps_count := ps_count st + 1,
               ps_token := (ps_token st)\<lparr>tok_wildcard := Wild_None\<rparr>\<rparr>, Suc k)"
proof -
  have "(if k < length (s_bytes input) \<and> Q then possibly_hyphenate (s_bytes input) k else None) = None" for Q
    using assms(4) by simp
  then show ?thesis using assms(1-3,5,6) by (simp add: parse_round_def Let_def)
qed

text \<open>The comparator at position \<open>i\<close> is read, and the loop goes on after the byte behind it.\<close>

lemma query_parse_loop_item:
  assumes inb: "in_buffer (ss_buf sliced) off input" and off: "off + length (s_bytes input) < 2 ^ 31"
    and dr: "drop i (s_bytes input) = item_text c @ rest" and rest: "text_ends rest"
    and hy: "rest \<noteq> [] \<Longrightarrow> possibly_hyphenate (s_bytes input) (i + length (item_text c)) = None"
    and ok: "item_ok c" and st: "between input n st" and n: "n < 2 ^ 31"
    and or_flag: "ps_is_or st \<longleftrightarrow> ci_or c \<and> n \<noteq> 0"
  shows "\<exists>t st'. query_parse_loop input sliced i st
             = query_parse_loop input sliced (Suc (i + length (item_text c))) st'
           \<and> reads_tag sliced c t \<and> between input (Suc n) st' \<and> \<not> ps_is_or st'
           \<and> group_clauses (ps_list st') = join_clauses (group_clauses (ps_list st)) (code_join c t)"
proof -
  let ?in = "s_bytes input"
  let ?j = "i + length (op_prefix (ci_op c))"
  obtain d ds where d: "item_version c = d # ds" "is_ascii_digit d" using item_version_head by blast
  have i: "i < length ?in" using dr d by (metis append_is_Nil_conv drop_all item_text_def leI list.distinct(1))
  have op: "parse_operator ?in i tg is_or = (?j, ci_op c, is_or \<or> ci_op c = Tok_Version, False)" for tg is_or
    using dr d ok by (intro parse_operator_item) (auto simp: item_text_def item_ok_def)
  have drj: "drop ?j ?in = item_version c @ rest"
    using dr by (metis add.commute append.assoc append_eq_conv_conj drop_drop item_text_def)
  have jl: "?j \<le> length ?in" using drj d by (metis append_Cons drop_all leI less_imp_le list.distinct(1))
  define R where "R = \<lparr>s_addr = s_addr input + word_of_nat ?j, s_bytes = drop ?j ?in\<rparr>"
  have sf: "slice_from input ?j = Some R" using jl by (simp add: slice_from_Some R_def)
  have inR: "in_buffer (ss_buf (ss_sub sliced R)) (off + ?j) (ss_slice (ss_sub sliced R))"
    using in_buffer_sub [OF inb sf [unfolded slice_from_def]] by (simp add: ss_sub_def)
  have lR: "off + ?j + length (s_bytes (ss_slice (ss_sub sliced R))) < 2 ^ 31"
    using off jl by (simp add: R_def ss_sub_def)
  obtain t where t: "version_parse (ss_sub sliced R)
        = Some (text_result (ci_major c) (ci_minor c) (ci_patch c) t (length (item_version c)))"
      "reads (ss_sub sliced R) (pre t) (ci_pre c)" "reads (ss_sub sliced R) (build t) (ci_build c)"
    using version_parse_text [OF _ inR lR, of "[]" "ci_major c" "ci_minor c" "ci_patch c" "ci_pre c" "ci_build c" rest]
      drj rest ok
    by (auto simp: R_def ss_sub_def item_version_def item_ok_def)
  define r where "r = text_result (ci_major c) (ci_minor c) (ci_patch c) t (length (item_version c))"
  have lv: "length (item_version c) \<le> length ?in" using drj by (metis length_append length_drop diff_le_self le_add1 le_trans)
  have rl: "?j + unat (pr_len r) = i + length (item_text c)" "pr_wildcard r = Wild_None"
    using lv off by (simp_all add: r_def text_result_def unat_of_nat item_text_def)
  define st0 where "st0 = st\<lparr>ps_token := (ps_token st)\<lparr>tok_tag := ci_op c\<rparr>,
      ps_is_or := (ps_is_or st \<or> ci_op c = Tok_Version)\<rparr>"
  define st1 where "st1 = st0\<lparr>ps_token := (ps_token st0)\<lparr>tok_wildcard := Wild_None\<rparr>\<rparr>"
  have st1: "between input n (st1\<lparr>ps_list := ps_list st\<rparr>)" using st by (simp add: st1_def st0_def between_def)
  have tok1: "ps_token st1 = \<lparr>tok_tag = ci_op c, tok_wildcard = Wild_None\<rparr>" by (simp add: st1_def st0_def)
  obtain g' where g': "join_comparator (st1\<lparr>ps_list := mark_flags (ps_list st) (partial_min (pr_version r))\<rparr>) r = Some g'"
      "group_ok g'" "group_clauses g' = join_clauses (group_clauses (ps_list st)) (code_join c t)"
    using join_comparator_item [OF st1, of c r t "length (item_version c)"] n ok or_flag tok1
    by (auto simp: st1_def st0_def r_def item_ok_def)
  have nohy: "possibly_hyphenate ?in (i + length (item_text c)) = None" if "i + length (item_text c) < length ?in"
  proof (rule hy)
    show "rest \<noteq> []"
    proof
      assume "rest = []"
      then have "length ?in - i = length (item_text c)" using dr by (metis append_Nil2 length_drop)
      then show False using that i by simp
    qed
  qed
  define st2 where "st2 = st0\<lparr>ps_list := g', ps_is_or := False, ps_count := ps_count st0 + 1,
      ps_token := (ps_token st0)\<lparr>tok_wildcard := Wild_None\<rparr>\<rparr>"
  have round: "parse_round input sliced ?j st0 = Some (st2, Suc (i + length (item_text c)))"
    unfolding st2_def
  proof (rule parse_round_plain [OF sf _ rl(1) nohy])
    show "version_parse (ss_sub sliced R) = Some r" using t(1) by (simp only: r_def)
    show "tok_tag (ps_token st0) \<noteq> Tok_None" using ok by (simp add: st0_def item_ok_def)
    show "join_comparator (st0\<lparr>ps_list := mark_flags (ps_list st0) (partial_min (pr_version r)),
        ps_token := (ps_token st0)\<lparr>tok_wildcard := pr_wildcard r\<rparr>\<rparr>) r = Some g'"
      using g'(1) by (cases st) (simp add: rl(2) st1_def st0_def)
  qed
  have "query_parse_loop input sliced i st = query_parse_loop input sliced (Suc (i + length (item_text c))) st2"
    using i op round by (subst query_parse_loop.simps) (simp add: Let_def flip: st0_def)
  moreover have "reads_tag sliced c t" using t(2,3) by (simp add: reads_tag_def reads_def ss_sub_def)
  moreover have "between input (Suc n) st2" using st g'(2) by (simp add: between_def st2_def st0_def)
  moreover have "\<not> ps_is_or st2" "ps_list st2 = g'" by (simp_all add: st2_def)
  ultimately show ?thesis using g'(3) by blast
qed

section \<open>A list of comparators\<close>

lemma item_text_head: "item_ok c \<Longrightarrow> \<exists>h r. item_text c = h # r \<and> h \<notin> set WHITESPACE_CHARS \<and> h \<noteq> CHR ''-''"
proof -
  assume ok: "item_ok c"
  obtain d r where d: "item_version c = d # r" "is_ascii_digit d" using item_version_head by blast
  have "d \<noteq> CHR ''-''" using digit_not_special(1) [OF d(2)] by simp
  then show ?thesis
    using ok d(1) digit_not_special(2) [OF d(2)]
    by (cases "ci_op c") (simp_all add: item_text_def item_ok_def WHITESPACE_CHARS_def)
qed

lemma text_ends_items_tail: "text_ends (items_tail cs)"
  by (cases cs) (simp_all add: text_ends_def item_sep_def)

text \<open>After a separator no hyphen range can start.\<close>

lemma possibly_hyphenate_sep:
  assumes "drop i s = item_sep c @ item_text c @ r" and "item_ok c"
  shows "possibly_hyphenate s i = None"
proof -
  obtain h t where h: "drop i s = CHR '' '' # h # t" "h \<notin> set WHITESPACE_CHARS" "h \<noteq> CHR ''-''"
    using assms(1) item_text_head [OF assms(2)]
    by (cases "ci_or c") (auto simp: item_sep_def WHITESPACE_CHARS_def)
  have "drop (Suc i) s = h # t" using drop_eq_ConsD [OF h(1)] by simp
  then have "s ! Suc i = h" using drop_eq_ConsD by metis
  moreover have "length_of_leading_whitespace_ascii (drop i s) = 1"
    using h by (simp add: WHITESPACE_CHARS_def)
  ultimately show ?thesis using h(3) by (simp add: possibly_hyphenate_def Let_def)
qed

text \<open>The bars of an alternative are skipped and set \<open>is_or\<close>.\<close>

lemma query_parse_loop_bars:
  assumes "drop i (s_bytes input) = ''|| '' @ item_text c @ r" and "item_ok c"
  shows "query_parse_loop input sliced i st
           = query_parse_loop input sliced (i + 3)
               (st\<lparr>ps_token := (ps_token st)\<lparr>tok_tag := Tok_None\<rparr>, ps_is_or := True\<rparr>)"
proof -
  let ?s = "s_bytes input"
  obtain h t where h: "item_text c = h # t" "h \<notin> set WHITESPACE_CHARS" using item_text_head [OF assms(2)] by blast
  have d0: "drop i ?s = CHR ''|'' # CHR ''|'' # CHR '' '' # h # t @ r" using assms(1) h by simp
  have d1: "i < length ?s" "?s ! i = CHR ''|''" "drop (Suc i) ?s = CHR ''|'' # CHR '' '' # h # t @ r"
    using drop_eq_ConsD [OF d0] by auto
  have d2: "drop (Suc (Suc i)) ?s = CHR '' '' # h # t @ r" using drop_eq_ConsD [OF d1(3)] by simp
  have "skip_while (\<lambda>d. d = CHR ''|'') ?s (Suc i) = Suc (Suc i)" using d1(3) by (simp add: skip_while_def)
  moreover have "skip_spaces ?s (Suc (Suc i)) = i + 3"
    using d2 h(2) by (simp add: skip_while_def WHITESPACE_CHARS_def)
  ultimately show ?thesis
    using d1 by (subst query_parse_loop.simps) (simp add: parse_operator_def Let_def is_ascii_digit_def code_def)
qed

lemma query_parse_loop_done: "length (s_bytes input) \<le> i \<Longrightarrow> query_parse_loop input sliced i st = Some (ps_list st)"
  by (subst query_parse_loop.simps) simp

lemma items_count_less: "length cs \<le> length (items_tail cs)"
  by (induction cs) (auto simp: item_sep_def)

text \<open>The loop over the rest of the list, from the byte after the first space of the separator.\<close>

lemma query_parse_loop_items:
  assumes inb: "in_buffer (ss_buf sliced) off input" and off: "off + length (s_bytes input) < 2 ^ 31"
    and dr: "drop i (s_bytes input) = tl (items_tail cs)" and ok: "\<forall>c\<in>set cs. item_ok c"
    and st: "between input n st" "\<not> ps_is_or st" and n: "0 < n" "n + length cs < 2 ^ 31"
  shows "\<exists>ts g. query_parse_loop input sliced i st = Some g \<and> group_ok g \<and> list_all2 (reads_tag sliced) cs ts
           \<and> group_clauses g = foldl join_clauses (group_clauses (ps_list st)) (map2 code_join cs ts)"
  using dr ok st n
proof (induction cs arbitrary: i st n)
  case Nil
  then have "query_parse_loop input sliced i st = Some (ps_list st)" by (intro query_parse_loop_done) simp
  then show ?case using Nil.prems(3) by (auto simp: between_def)
next
  case (Cons c cs)
  let ?s = "s_bytes input"
  have c: "item_ok c" using Cons.prems(2) by simp
  obtain j st1 where j: "drop j ?s = item_text c @ items_tail cs" "between input n st1" "ps_is_or st1 \<longleftrightarrow> ci_or c"
      "query_parse_loop input sliced i st = query_parse_loop input sliced j st1" "ps_list st1 = ps_list st"
  proof (cases "ci_or c")
    case True
    let ?st = "st\<lparr>ps_token := (ps_token st)\<lparr>tok_tag := Tok_None\<rparr>, ps_is_or := True\<rparr>"
    have bars: "drop i ?s = ''|| '' @ item_text c @ items_tail cs"
      using Cons.prems(1) True by (simp add: item_sep_def)
    then have "drop (i + 3) ?s = item_text c @ items_tail cs" by (simp add: drop_drop [symmetric] add.commute [of i])
    moreover have "between input n ?st" using Cons.prems(3) by (simp add: between_def)
    ultimately show ?thesis using that [of "i + 3" ?st] True query_parse_loop_bars [OF bars c] by simp
  next
    case False
    then have "drop i ?s = item_text c @ items_tail cs" using Cons.prems(1) by (simp add: item_sep_def)
    then show ?thesis using that [of i st] False Cons.prems(3,4) by simp
  qed
  have hy: "possibly_hyphenate ?s (j + length (item_text c)) = None" if ne: "items_tail cs \<noteq> []"
  proof -
    obtain d ds where cs: "cs = d # ds" using ne by (cases cs) auto
    have "drop (j + length (item_text c)) ?s = items_tail cs"
      using j(1) by (metis add.commute append_eq_conv_conj drop_drop)
    then show ?thesis
      using cs Cons.prems(2) by (intro possibly_hyphenate_sep [where r = "items_tail ds"]) auto
  qed
  obtain t st2 where t: "query_parse_loop input sliced j st1
        = query_parse_loop input sliced (Suc (j + length (item_text c))) st2"
      "reads_tag sliced c t" "between input (Suc n) st2" "\<not> ps_is_or st2"
      "group_clauses (ps_list st2) = join_clauses (group_clauses (ps_list st1)) (code_join c t)"
    using query_parse_loop_item [OF inb off j(1) text_ends_items_tail hy c j(2)] j(3) Cons.prems(5,6) by auto
  have "drop (Suc (j + length (item_text c))) ?s = tl (items_tail cs)"
    using j(1) by (metis add.commute append_eq_conv_conj drop_Suc drop_drop tl_drop)
  then obtain ts g where "query_parse_loop input sliced (Suc (j + length (item_text c))) st2 = Some g" "group_ok g"
      "list_all2 (reads_tag sliced) cs ts"
      "group_clauses g = foldl join_clauses (group_clauses (ps_list st2)) (map2 code_join cs ts)"
    using Cons.IH [where i = "Suc (j + length (item_text c))" and st = st2 and n = "Suc n"] t(3,4) Cons.prems(2,6) by auto
  then show ?case using t j by (intro exI [of _ "t # ts"] exI [of _ g]) simp
qed

lemma query_parse_items:
  assumes inb: "in_buffer (ss_buf sliced) off input" and off: "off + length (s_bytes input) < 2 ^ 31"
    and inp: "s_bytes input = item_text c @ items_tail cs" and ok: "\<forall>d\<in>set (c # cs). item_ok d"
  shows "\<exists>ts g. query_parse input sliced = Some g \<and> group_ok g \<and> list_all2 (reads_tag sliced) (c # cs) ts
           \<and> group_clauses g = foldl join_clauses [] (map2 code_join (c # cs) ts)"
proof -
  let ?s = "s_bytes input"
  let ?st = "\<lparr>ps_list = parse_group input, ps_token = token_default, ps_count = 0, ps_is_or = False\<rparr>"
  have dr: "drop 0 ?s = item_text c @ items_tail cs" by (simp add: inp)
  have hy: "possibly_hyphenate ?s (0 + length (item_text c)) = None" if ne: "items_tail cs \<noteq> []"
  proof -
    obtain d ds where cs: "cs = d # ds" using ne by (cases cs) auto
    then show ?thesis
      using ok inp by (intro possibly_hyphenate_sep [where r = "items_tail ds" and c = d]) auto
  qed
  have st: "between input 0 ?st" by (simp add: between_def parse_group_ok)
  obtain t st2 where t: "query_parse_loop input sliced 0 ?st
        = query_parse_loop input sliced (Suc (0 + length (item_text c))) st2"
      "reads_tag sliced c t" "between input (Suc 0) st2" "\<not> ps_is_or st2"
      "group_clauses (ps_list st2) = join_clauses [] (code_join c t)"
    using query_parse_loop_item [OF inb off dr text_ends_items_tail hy _ st] ok by (auto simp: parse_group_ok)
  have d1: "drop (Suc (0 + length (item_text c))) ?s = tl (items_tail cs)"
    by (simp add: inp drop_Suc)
  have "Suc 0 + length cs < 2 ^ 31"
    using items_count_less [of cs] off inp item_text_head [of c] ok by (cases "item_text c") auto
  then obtain ts g where "query_parse_loop input sliced (Suc (0 + length (item_text c))) st2 = Some g" "group_ok g"
      "list_all2 (reads_tag sliced) cs ts"
      "group_clauses g = foldl join_clauses (group_clauses (ps_list st2)) (map2 code_join cs ts)"
    using query_parse_loop_items [OF inb off d1 _ t(3,4)] ok by auto
  then show ?thesis
    using t unfolding query_parse_def parse_group_def [symmetric]
    by (intro exI [of _ "t # ts"] exI [of _ g]) simp
qed

section \<open>Properties\<close>

text \<open>
  C5. The range parser is total.  On every input shorter than 4 GiB, of any bytes, \<open>Group::parse\<close>
  returns a group: no slice, integer cast or \<open>unreachable!\<close> panics and the loop ends.  The tail
  pointers of the group are at the last nodes of its chains, and every version in it has
  well-formed handles.
\<close>

theorem query_parse_no_panic:
  assumes "length (s_bytes input) < 2 ^ 32"
  shows "\<exists>g. query_parse input sliced = Some g \<and> group_inv range_wf g"
  by (rule query_parse_total [OF assms])

theorem query_parse_no_panic_witness:
  "\<exists>g. query_parse \<lparr>s_addr = 64, s_bytes = ''|| -^ 1.'' @ [CHR 0xFF]\<rparr>
        \<lparr>ss_buf = \<lparr>s_addr = 64, s_bytes = []\<rparr>, ss_slice = \<lparr>s_addr = 64, s_bytes = []\<rparr>\<rparr> = Some g
     \<and> group_inv range_wf g"
  using query_parse_no_panic [of "\<lparr>s_addr = 64, s_bytes = ''|| -^ 1.'' @ [CHR 0xFF]\<rparr>"] by simp



text \<open>
  C34. An exact version after a mere space widens the range.  Where \<open>node-semver\<close> reads
  "\<open>c v\<close>" as a conjunction, the parsed group accepts what the comparator \<open>c\<close> accepts and what the
  version \<open>v\<close> accepts: \<open>>=1.2.1 1.2.3\<close> accepts 1.5.0.
\<close>

theorem exact_version_after_space_disjoins:
  assumes "in_buffer (ss_buf sliced) off input" and "off + length (s_bytes input) < 2 ^ 31"
    and "item_ok c" and "item_ok d" and "ci_op d = Tok_Version"
    and "s_bytes input = item_text c @ '' '' @ item_text d"
  shows "\<exists>t u g. query_parse input sliced = Some g \<and> reads_tag sliced c t \<and> reads_tag sliced d u
    \<and> (\<forall>v qb vb. group_satisfies g v qb vb
         \<longleftrightarrow> clause_holds v qb vb [item_range c t] \<or> clause_holds v qb vb [item_range d u])"
proof -
  let ?d = "d\<lparr>ci_or := False\<rparr>"
  have same: "item_text ?d = item_text d" "item_range ?d u = item_range d u" "reads_tag sliced ?d u = reads_tag sliced d u" "item_ok ?d" for u
    using assms(4) by (simp_all add: item_text_def item_version_def item_range_def reads_tag_def item_ok_def)
  have inp: "s_bytes input = item_text c @ items_tail [?d]" using assms(6) by (simp add: item_sep_def same)
  obtain ts g where g: "query_parse input sliced = Some g" "list_all2 (reads_tag sliced) [c, ?d] ts"
      "group_clauses g = foldl join_clauses [] (map2 code_join [c, ?d] ts)"
    using query_parse_items [OF assms(1,2) inp] assms(3) same(4) by auto
  obtain t u where ts: "ts = [t, u]" "reads_tag sliced c t" "reads_tag sliced d u"
    using g(2) same(3) by (auto simp: list_all2_Cons1)
  have "foldl join_clauses [] (map2 code_join [c, ?d] ts) = [[item_range c t], [item_range d u]]"
    by (simp add: ts(1) code_join_def assms(5) and_clause_def or_clause_def same(2))
  then show ?thesis
    using group_satisfies_joins [OF g(3)] g(1) ts by (intro exI [of _ t] exI [of _ u] exI [of _ g]) simp
qed

theorem exact_version_after_space_disjoins_witness:
  "\<exists>g. query_parse \<lparr>s_addr = 64, s_bytes = ''>=1.2.1 1.2.3''\<rparr>
        \<lparr>ss_buf = \<lparr>s_addr = 64, s_bytes = ''>=1.2.1 1.2.3''\<rparr>,
          ss_slice = \<lparr>s_addr = 64, s_bytes = ''>=1.2.1 1.2.3''\<rparr>\<rparr> = Some g
     \<and> group_satisfies g (version_default\<lparr>major := 1, minor := 5\<rparr>) [] []"
proof -
  let ?s = "\<lparr>s_addr = 64, s_bytes = ''>=1.2.1 1.2.3''\<rparr>"
  let ?v = "version_default\<lparr>major := 1, minor := 5\<rparr> :: version"
  let ?c = "\<lparr>ci_or = False, ci_op = Tok_Gte, ci_major = 1, ci_minor = 2, ci_patch = 1, ci_pre = [], ci_build = []\<rparr>"
  let ?d = "\<lparr>ci_or = False, ci_op = Tok_Version, ci_major = 1, ci_minor = 2, ci_patch = 3, ci_pre = [], ci_build = []\<rparr>"
  have inp: "s_bytes ?s = item_text ?c @ '' '' @ item_text ?d" by code_simp
  have ok: "item_ok ?c" "item_ok ?d" by (simp_all add: item_ok_def pre_text_def build_text_def)
  have inb: "in_buffer (ss_buf \<lparr>ss_buf = ?s, ss_slice = ?s\<rparr>) 0 ?s" by (simp add: in_buffer_refl)
  have len: "0 + length (s_bytes ?s) < 2 ^ 31" by simp
  have op: "ci_op ?d = Tok_Version" by simp
  obtain t u g where g: "query_parse ?s \<lparr>ss_buf = ?s, ss_slice = ?s\<rparr> = Some g"
      "group_satisfies g ?v [] [] \<longleftrightarrow> clause_holds ?v [] [] [item_range ?c t] \<or> clause_holds ?v [] [] [item_range ?d u]"
    using exact_version_after_space_disjoins [OF inb len ok op inp] by blast
  have "\<not> has_pre (vtag ?v)"
    by (simp add: version_default_def tag_default_def has_pre_def es_is_empty_def es_default_def string_is_empty_def EMPTY_def numeral_eq_Suc)
  then have "clause_holds ?v [] [] [item_range ?c t]"
    by (simp add: clause_holds_def item_range_def range_satisfies_def range_default_def comparator_default_def has_left_def has_right_def
        comparator_satisfies_def version_order_without_build_def order_without_tag_def partial_min_def version_default_def)
  then show ?thesis using g by blast
qed

end
