(* ===== verification/Version_Text.thy ===== *)
theory Version_Text
  imports Version_Parse
begin

text \<open>
  The scans of version literals in \<open>package.json\<close> that avoid a parse: how far a literal is pinned
  (\<open>which_version_is_pinned\<close>) and whether it is only a dist tag (\<open>is_tagged_version_only\<close>).  The
  hand-written scanner of the first is shown to decide a grammar.
\<close>

section \<open>Definitions\<close>

datatype pinned_version = Pin_Major | Pin_Minor | Pin_Patch

definition valid_pre_or_build_tag_character :: "byte \<Rightarrow> bool" where
  "valid_pre_or_build_tag_character c \<longleftrightarrow>
     c = CHR ''-'' \<or> c = CHR ''+'' \<or> c = CHR ''.'' \<or> is_ascii_upper c \<or> is_ascii_lower c \<or> is_ascii_digit c"

text \<open>
  The block \<open>'pinned\<close>: the pinned part that the operator asks for and the text from position
  \<open>i\<close> on; \<open>None\<close> where the block returns \<open>Major\<close> at once.
\<close>

definition pinned_prefix :: "bytes \<Rightarrow> (pinned_version \<times> bytes) option" where
  "pinned_prefix version =
     (case dropWhile is_version_separator version of
        [] \<Rightarrow> None
      | c # cs \<Rightarrow>
          if c = CHR ''~'' \<or> c = CHR ''^'' then
            (case dropWhile (\<lambda>d. d \<in> set WHITESPACE_CHARS) cs of
               [] \<Rightarrow> None
             | r \<Rightarrow> Some (if c = CHR ''~'' then Pin_Minor else Pin_Major, r))
          else if is_ascii_digit c then Some (Pin_Patch, c # cs)
          else None)"

text \<open>The scans of the major, minor and patch number and of the tag, each from position \<open>i\<close>.\<close>

definition pinned_tag :: "pinned_version \<Rightarrow> bytes \<Rightarrow> pinned_version" where
  "pinned_tag pinned r =
     (case r of
        [] \<Rightarrow> pinned
      | d # r' \<Rightarrow>
          if \<not> valid_pre_or_build_tag_character d \<or> is_ascii_whitespace d then Pin_Major
          else if dropWhile (\<lambda>d. valid_pre_or_build_tag_character d \<and> \<not> is_ascii_whitespace d) r' = []
          then pinned else Pin_Major)"

definition pinned_patch :: "pinned_version \<Rightarrow> bytes \<Rightarrow> pinned_version" where
  "pinned_patch pinned r =
     (if r = [] \<or> \<not> is_ascii_digit (hd r) then Pin_Major
      else pinned_tag pinned (dropWhile is_ascii_digit r))"

definition pinned_minor :: "pinned_version \<Rightarrow> bytes \<Rightarrow> pinned_version" where
  "pinned_minor pinned r =
     (if r = [] \<or> \<not> is_ascii_digit (hd r) then Pin_Major
      else case dropWhile is_ascii_digit r of
             [] \<Rightarrow> if pinned = Pin_Patch then Pin_Minor else pinned
           | d # r' \<Rightarrow> if d \<noteq> CHR ''.'' then Pin_Major else pinned_patch pinned r')"

definition pinned_major :: "pinned_version \<Rightarrow> bytes \<Rightarrow> pinned_version" where
  "pinned_major pinned r =
     (if r = [] \<or> \<not> is_ascii_digit (hd r) then Pin_Major
      else case dropWhile is_ascii_digit r of
             [] \<Rightarrow> if pinned = Pin_Patch then Pin_Major else pinned
           | d # r' \<Rightarrow> if d \<noteq> CHR ''.'' then Pin_Major else pinned_minor pinned r')"

definition which_version_is_pinned :: "bytes \<Rightarrow> pinned_version" where
  "which_version_is_pinned input =
     (case pinned_prefix (trim input WHITESPACE_CHARS) of
        None \<Rightarrow> Pin_Major
      | Some (pinned, r) \<Rightarrow> pinned_major pinned r)"

definition is_tagged_version_only :: "bytes \<Rightarrow> bool" where
  "is_tagged_version_only input =
     (let version = trim input WHITESPACE_CHARS
      in if version = [] \<or> \<not> is_ascii_alphabetic (hd version) then False
         else list_all is_ascii_alphanumeric (tl version))"

section \<open>The grammar\<close>

definition number :: "bytes \<Rightarrow> bool" where
  "number a \<longleftrightarrow> a \<noteq> [] \<and> list_all is_ascii_digit a"

definition tag_text :: "bytes \<Rightarrow> bool" where
  "tag_text q \<longleftrightarrow> list_all valid_pre_or_build_tag_character q \<and> (q \<noteq> [] \<longrightarrow> \<not> is_ascii_digit (hd q))"

text \<open>What a scan over a number meets: either no number starts here, or a unique one does.\<close>

abbreviation ends_number :: "bytes \<Rightarrow> bool" where
  "ends_number q \<equiv> q = [] \<or> \<not> is_ascii_digit (hd q)"

lemma number_scan:
  assumes "number a" and "ends_number q"
  shows "a @ q \<noteq> []" "is_ascii_digit (hd (a @ q))" "dropWhile is_ascii_digit (a @ q) = q"
proof -
  have "dropWhile is_ascii_digit (a @ q) = dropWhile is_ascii_digit q"
    using assms(1) by (intro dropWhile_append2) (auto simp: number_def list_all_iff)
  also have "\<dots> = q" using assms(2) by (cases q) auto
  finally show "dropWhile is_ascii_digit (a @ q) = q" .
  show "a @ q \<noteq> []" "is_ascii_digit (hd (a @ q))" using assms(1) by (cases a; auto simp: number_def)+
qed

lemma number_unique:
  assumes "a @ q = a' @ q'" and "number a" and "ends_number q" and "number a'" and "ends_number q'"
  shows "a' = a \<and> q' = q"
  using number_scan(3) [OF assms(2,3)] number_scan(3) [OF assms(4,5)] assms(1) by auto

lemma number_cases:
  obtains (none) "ends_number r" "\<And>a q. number a \<Longrightarrow> r \<noteq> a @ q"
  | (num) a q where "r = a @ q" "number a" "ends_number q"
proof (cases "ends_number r")
  case True
  have "r \<noteq> a @ q" if "number a" for a q
    using that True by (cases a) (auto simp: number_def)
  then show thesis using True none by blast
next
  case False
  have "number (takeWhile is_ascii_digit r)"
    using False by (cases r) (auto simp: number_def list_all_iff dest: set_takeWhileD)
  moreover have "ends_number (dropWhile is_ascii_digit r)" using hd_dropWhile [of is_ascii_digit r] by blast
  ultimately show thesis using num [of "takeWhile is_ascii_digit r" "dropWhile is_ascii_digit r"] by simp
qed

lemma ends_number_special [simp]: "\<not> is_ascii_digit (CHR ''.'')" "ends_number (CHR ''.'' # r)"
  by (simp_all add: is_ascii_digit_def code_def)

section \<open>The scanner decides the grammar\<close>

lemma tag_character_not_space:
  "valid_pre_or_build_tag_character c \<Longrightarrow> \<not> is_ascii_whitespace c"
  by (auto simp: valid_pre_or_build_tag_character_def ascii_defs code_def)

lemma pinned_tag_text:
  assumes "ends_number r"
  shows "pinned_tag p r = (if tag_text r then p else Pin_Major)"
proof (cases r)
  case (Cons d r')
  have "dropWhile (\<lambda>d. valid_pre_or_build_tag_character d \<and> \<not> is_ascii_whitespace d) r' = []
      \<longleftrightarrow> list_all valid_pre_or_build_tag_character r'"
    using tag_character_not_space by (auto simp: dropWhile_eq_Nil_conv list_all_iff)
  then show ?thesis using assms Cons tag_character_not_space [of d] by (simp add: pinned_tag_def tag_text_def)
qed (simp add: pinned_tag_def tag_text_def)

definition patch_tail :: "bytes \<Rightarrow> bool" where
  "patch_tail r \<longleftrightarrow> (\<exists>c q. r = c @ q \<and> number c \<and> tag_text q)"

definition minor_tail :: "bytes \<Rightarrow> bool" where
  "minor_tail r \<longleftrightarrow> (\<exists>b r'. r = b @ ''.'' @ r' \<and> number b \<and> patch_tail r')"

lemma tag_text_ends: "tag_text q \<Longrightarrow> ends_number q"
  by (auto simp: tag_text_def)

lemma patch_tail_append:
  assumes "number c" and "ends_number q"
  shows "patch_tail (c @ q) = tag_text q"
  using number_unique [OF _ assms] tag_text_ends assms unfolding patch_tail_def by blast

lemma minor_tail_append:
  assumes "number b" and "ends_number q"
  shows "minor_tail (b @ q) \<longleftrightarrow> (\<exists>r'. q = ''.'' @ r' \<and> patch_tail r')"
  using number_unique [OF _ assms] assms unfolding minor_tail_def by fastforce

lemma number_append: "number b \<Longrightarrow> ends_number q \<Longrightarrow> number (b @ q) \<longleftrightarrow> q = []"
  by (cases q) (auto simp: number_def)

lemma pinned_patch_text: "pinned_patch p r = (if patch_tail r then p else Pin_Major)"
proof (cases rule: number_cases [of r])
  case none
  then show ?thesis by (auto simp: pinned_patch_def patch_tail_def)
next
  case (num c q)
  show ?thesis
    using number_scan [OF num(2,3), folded num(1)] pinned_tag_text [OF num(3)]
      patch_tail_append [OF num(2,3), folded num(1)]
    by (simp add: pinned_patch_def)
qed

lemma pinned_minor_text:
  "pinned_minor p r = (if number r then (if p = Pin_Patch then Pin_Minor else p) else if minor_tail r then p else Pin_Major)"
proof (cases rule: number_cases [of r])
  case none
  then show ?thesis using none(2) [of r "[]"] by (auto simp: pinned_minor_def minor_tail_def)
next
  case (num b q)
  show ?thesis
    using number_scan [OF num(2,3), folded num(1)] minor_tail_append [OF num(2,3), folded num(1)]
      number_append [OF num(2,3), folded num(1)]
    by (cases q) (auto simp: pinned_minor_def pinned_patch_text simp del: dropWhile_eq_Nil_conv)
qed

definition major_tail :: "bytes \<Rightarrow> bool" where
  "major_tail r \<longleftrightarrow> (\<exists>a r'. r = a @ ''.'' @ r' \<and> number a \<and> minor_tail r')"

definition two_numbers :: "bytes \<Rightarrow> bool" where
  "two_numbers r \<longleftrightarrow> (\<exists>a b. r = a @ ''.'' @ b \<and> number a \<and> number b)"

lemma major_append:
  assumes "number a" and "ends_number q"
  shows "major_tail (a @ q) \<longleftrightarrow> (\<exists>r'. q = ''.'' @ r' \<and> minor_tail r')"
    and "two_numbers (a @ q) \<longleftrightarrow> (\<exists>b. q = ''.'' @ b \<and> number b)"
  using number_unique [OF _ assms] assms unfolding major_tail_def two_numbers_def by fastforce+

lemma pinned_major_text:
  "pinned_major p r =
     (if number r then (if p = Pin_Patch then Pin_Major else p)
      else if two_numbers r then (if p = Pin_Patch then Pin_Minor else p)
      else if major_tail r then p else Pin_Major)"
proof (cases rule: number_cases [of r])
  case none
  then show ?thesis using none(2) [of r "[]"] by (auto simp: pinned_major_def major_tail_def two_numbers_def)
next
  case (num a q)
  show ?thesis
    using number_scan [OF num(2,3), folded num(1)] major_append [OF num(2,3), folded num(1)]
      number_append [OF num(2,3), folded num(1)]
    by (cases q) (auto simp: pinned_major_def pinned_minor_text simp del: dropWhile_eq_Nil_conv)
qed

text \<open>The prefix in front of the numbers.\<close>

lemma version_start:
  "number t \<or> two_numbers t \<or> major_tail t \<Longrightarrow> t \<noteq> [] \<and> is_ascii_digit (hd t)"
  by (auto simp: two_numbers_def major_tail_def number_def neq_Nil_conv)

lemma digit_not_white: "is_ascii_digit c \<Longrightarrow> c \<notin> set WHITESPACE_CHARS"
  by (auto simp: WHITESPACE_CHARS_def is_ascii_digit_def code_def)

lemma dropWhile_prefix:
  assumes "list_all P s" and "t \<noteq> []" and "\<not> P (hd t)"
  shows "dropWhile P (s @ t) = t"
  using assms by (induction s) (auto simp: neq_Nil_conv)

lemma pinned_prefix_version:
  assumes "list_all is_version_separator s" and "t \<noteq> []" and "is_ascii_digit (hd t)"
  shows "pinned_prefix (s @ t) = Some (Pin_Patch, t)"
proof -
  have "dropWhile is_version_separator (s @ t) = t"
    using assms digit_not_separator by (intro dropWhile_prefix) auto
  then show ?thesis
    using assms(2,3) by (cases t) (auto simp: pinned_prefix_def is_ascii_digit_def code_def)
qed

lemma pinned_prefix_operator:
  assumes "list_all is_version_separator s" and "list_all (\<lambda>d. d \<in> set WHITESPACE_CHARS) w"
    and "t \<noteq> []" and "is_ascii_digit (hd t)" and "c = CHR ''~'' \<or> c = CHR ''^''"
  shows "pinned_prefix (s @ c # w @ t) = Some (if c = CHR ''~'' then Pin_Minor else Pin_Major, t)"
proof -
  have "dropWhile is_version_separator (s @ c # w @ t) = c # w @ t"
    using assms(1,5) by (intro dropWhile_prefix) (auto simp: is_version_separator_def WHITESPACE_CHARS_def)
  moreover have "dropWhile (\<lambda>d. d \<in> set WHITESPACE_CHARS) (w @ t) = t"
    using assms(2-4) digit_not_white by (intro dropWhile_prefix) auto
  ultimately show ?thesis using assms(3,5) by (cases t) (auto simp: pinned_prefix_def)
qed

lemma dropWhile_split: "dropWhile P v = r \<Longrightarrow> \<exists>s. v = s @ r \<and> list_all P s"
  by (metis list.pred_set set_takeWhileD takeWhile_dropWhile_id)

lemma pinned_prefix_Some:
  assumes "pinned_prefix v = Some (p, r)"
  obtains s where "v = s @ r" "list_all is_version_separator s" "p = Pin_Patch"
  | s w c where "v = s @ c # w @ r" "list_all is_version_separator s" "list_all (\<lambda>d. d \<in> set WHITESPACE_CHARS) w"
      "c = CHR ''~'' \<and> p = Pin_Minor \<or> c = CHR ''^'' \<and> p = Pin_Major"
proof -
  obtain c cs where d: "dropWhile is_version_separator v = c # cs"
    using assms by (auto simp: pinned_prefix_def split: list.splits)
  obtain s where s: "v = s @ c # cs" "list_all is_version_separator s" using dropWhile_split [OF d] by blast
  show thesis
  proof (cases "c = CHR ''~'' \<or> c = CHR ''^''")
    case True
    then have r: "dropWhile (\<lambda>d. d \<in> set WHITESPACE_CHARS) cs = r"
        and p: "c = CHR ''~'' \<and> p = Pin_Minor \<or> c = CHR ''^'' \<and> p = Pin_Major"
      using assms d by (auto simp: pinned_prefix_def split: list.splits)
    from dropWhile_split [OF r] obtain w where "cs = w @ r" "list_all (\<lambda>d. d \<in> set WHITESPACE_CHARS) w" by blast
    then show thesis using that(2) s p by blast
  next
    case False
    then have "p = Pin_Patch" "r = c # cs" using assms d by (auto simp: pinned_prefix_def split: if_splits)
    then show thesis using that(1) s by blast
  qed
qed

text \<open>The three shapes exclude each other.\<close>

lemma shapes_disjoint:
  "minor_tail r \<Longrightarrow> \<not> number r" "two_numbers r \<Longrightarrow> \<not> number r"
  "major_tail r \<Longrightarrow> \<not> number r" "major_tail r \<Longrightarrow> \<not> two_numbers r"
proof -
  show m: "\<not> number r" if "minor_tail r" for r using that by (auto simp: minor_tail_def number_def)
  show "two_numbers r \<Longrightarrow> \<not> number r" by (auto simp: two_numbers_def number_def)
  show "major_tail r \<Longrightarrow> \<not> number r" by (auto simp: major_tail_def number_def)
  assume "major_tail r"
  then obtain a r' where r: "r = a @ ''.'' @ r'" "number a" "minor_tail r'" by (auto simp: major_tail_def)
  then show "\<not> two_numbers r" using major_append(2) [of a "''.'' @ r'"] m by auto
qed

lemma pinned_exact:
  assumes "trim input WHITESPACE_CHARS = s @ t" and "list_all is_version_separator s"
  shows "major_tail t \<Longrightarrow> which_version_is_pinned input = Pin_Patch"
    and "two_numbers t \<Longrightarrow> which_version_is_pinned input = Pin_Minor"
  using pinned_prefix_version [OF assms(2), of t] version_start [of t] shapes_disjoint [of t] assms(1)
  by (auto simp: which_version_is_pinned_def pinned_major_text)

lemma pinned_operator:
  assumes "trim input WHITESPACE_CHARS = s @ c # w @ t" and "list_all is_version_separator s"
    and "list_all (\<lambda>d. d \<in> set WHITESPACE_CHARS) w" and "number t \<or> two_numbers t \<or> major_tail t"
    and "c = CHR ''~'' \<or> c = CHR ''^''"
  shows "which_version_is_pinned input = (if c = CHR ''~'' then Pin_Minor else Pin_Major)"
proof -
  have "pinned_prefix (s @ c # w @ t) = Some (if c = CHR ''~'' then Pin_Minor else Pin_Major, t)"
    using version_start [OF assms(4)] assms(2,3,5) by (intro pinned_prefix_operator) auto
  then show ?thesis using assms(1,4) by (auto simp: which_version_is_pinned_def pinned_major_text)
qed

text \<open>Printed versions are in the grammar and need no trimming.\<close>

lemma fmt_uint_number: "number (fmt_uint w)"
  using fmt_uint_nonempty fmt_uint_digits by (auto simp: number_def list_all_iff)

lemma qualifier_tag_text: "pre_text p \<Longrightarrow> build_text q \<Longrightarrow> tag_text (qualifier p q)"
  by (auto simp: tag_text_def qualifier_def pre_text_def build_text_def list_all_iff is_tag_byte_def
      valid_pre_or_build_tag_character_def is_ascii_alphabetic_def)

lemma version_text_shape:
  assumes "pre_text p" and "build_text q"
  shows "major_tail (version_text a b c p q)" and "list_all valid_pre_or_build_tag_character (version_text a b c p q)"
proof -
  note tag = qualifier_tag_text [OF assms]
  have "patch_tail (fmt_uint c @ qualifier p q)" using tag fmt_uint_number unfolding patch_tail_def by blast
  then have "minor_tail (fmt_uint b @ ''.'' @ fmt_uint c @ qualifier p q)"
    using fmt_uint_number unfolding minor_tail_def by blast
  then show "major_tail (version_text a b c p q)"
    using fmt_uint_number unfolding major_tail_def version_text_def by blast
  have "valid_pre_or_build_tag_character d" if "d \<in> set (fmt_uint w)" for d and w :: "'x::len word"
    using fmt_uint_digits [OF that] by (simp add: valid_pre_or_build_tag_character_def)
  then show "list_all valid_pre_or_build_tag_character (version_text a b c p q)"
    using tag by (auto simp: version_text_def list_all_iff tag_text_def) (simp_all add: valid_pre_or_build_tag_character_def)
qed

lemma tag_characters_not_white: "valid_pre_or_build_tag_character c \<Longrightarrow> c \<notin> set WHITESPACE_CHARS"
  by (auto simp: WHITESPACE_CHARS_def valid_pre_or_build_tag_character_def ascii_defs code_def)

lemma trim_characters:
  "list_all (\<lambda>c. c \<notin> set WHITESPACE_CHARS) t \<Longrightarrow> trim t WHITESPACE_CHARS = t"
  by (rule trim_id) (auto simp: list_all_iff)

section \<open>Properties\<close>

text \<open>
  The pinning scanner decides a grammar.  After trimming whitespace, a literal pins the patch
  number exactly when it is three numbers with an optional tag, after any whitespace, \<open>v\<close> and \<open>=\<close>;
  it pins the minor number exactly when it is two numbers there, or a tilde, whitespace and one,
  two or three numbers (with a tag); everything else, invalid input included, pins the major.
\<close>

lemma which_version_is_pinned_grammar:
  "(which_version_is_pinned input = Pin_Patch \<longleftrightarrow>
      (\<exists>s t. trim input WHITESPACE_CHARS = s @ t \<and> list_all is_version_separator s \<and> major_tail t))
   \<and> (which_version_is_pinned input = Pin_Minor \<longleftrightarrow>
      (\<exists>s t. trim input WHITESPACE_CHARS = s @ t \<and> list_all is_version_separator s \<and> two_numbers t)
      \<or> (\<exists>s w t. trim input WHITESPACE_CHARS = s @ ''~'' @ w @ t \<and> list_all is_version_separator s
           \<and> list_all (\<lambda>d. d \<in> set WHITESPACE_CHARS) w \<and> (number t \<or> two_numbers t \<or> major_tail t)))"
proof -
  let ?v = "trim input WHITESPACE_CHARS"
  have "(\<exists>s t. ?v = s @ t \<and> list_all is_version_separator s \<and> major_tail t)"
    if patch: "which_version_is_pinned input = Pin_Patch"
  proof -
    obtain p r where pr: "pinned_prefix ?v = Some (p, r)" "pinned_major p r = Pin_Patch"
      using patch by (auto simp: which_version_is_pinned_def split: option.splits)
    from pr(1) show ?thesis
      using pr(2) by (cases rule: pinned_prefix_Some) (auto simp: pinned_major_text split: if_splits)
  qed
  moreover have "(\<exists>s t. ?v = s @ t \<and> list_all is_version_separator s \<and> two_numbers t)
      \<or> (\<exists>s w t. ?v = s @ ''~'' @ w @ t \<and> list_all is_version_separator s
           \<and> list_all (\<lambda>d. d \<in> set WHITESPACE_CHARS) w \<and> (number t \<or> two_numbers t \<or> major_tail t))"
    if minor: "which_version_is_pinned input = Pin_Minor"
  proof -
    obtain p r where pr: "pinned_prefix ?v = Some (p, r)" "pinned_major p r = Pin_Minor"
      using minor by (auto simp: which_version_is_pinned_def split: option.splits)
    from pr(1) show ?thesis
    proof (cases rule: pinned_prefix_Some)
      case (1 s)
      then show ?thesis using pr(2) by (auto simp: pinned_major_text split: if_splits)
    next
      case (2 s w c)
      then show ?thesis using pr(2) by (intro disjI2 exI [of _ s] exI [of _ w] exI [of _ r])
          (auto simp: pinned_major_text split: if_splits)
    qed
  qed
  ultimately show ?thesis
    using pinned_exact [of input] pinned_operator [of input _ "CHR ''~''"] by (simp, blast)
qed

text \<open>
  Pinning of printed versions.  A version printed by its formatter pins its patch number, with a
  tilde in front its minor number and with a caret its major number, and it is never taken for a
  dist tag.
\<close>

lemma printed_version_pinned:
  fixes v :: version
  assumes "printable v buf" and "\<And>s. is_all_ascii s \<Longrightarrow> bstr s = s"
  shows "which_version_is_pinned (version_fmt bstr v buf) = Pin_Patch
    \<and> which_version_is_pinned (''~'' @ version_fmt bstr v buf) = Pin_Minor
    \<and> which_version_is_pinned (''^'' @ version_fmt bstr v buf) = Pin_Major
    \<and> \<not> is_tagged_version_only (version_fmt bstr v buf)"
proof -
  define t where "t = version_fmt bstr v buf"
  have eq: "t = version_text (major v) (minor v) (patch v) (pre_of v buf) (build_of v buf)"
    unfolding t_def by (rule version_fmt_text [OF assms])
  have t: "major_tail t" "list_all valid_pre_or_build_tag_character t"
    using version_text_shape [of "pre_of v buf" "build_of v buf"] assms(1) by (auto simp: eq printable_def)
  have white: "list_all (\<lambda>c. c \<notin> set WHITESPACE_CHARS) t"
    using t(2) tag_characters_not_white by (auto simp: list_all_iff)
  have op: "trim (c # t) WHITESPACE_CHARS = [] @ c # [] @ t" if "c = CHR ''~'' \<or> c = CHR ''^''" for c
    using white that by (subst trim_characters) (auto simp: WHITESPACE_CHARS_def)
  have "trim t WHITESPACE_CHARS = [] @ t" using trim_characters [OF white] by simp
  then have "which_version_is_pinned t = Pin_Patch" "\<not> is_tagged_version_only t"
    using pinned_exact(1) [of t "[]" t] t(1) version_start [of t] by (auto simp: is_tagged_version_only_def ascii_defs)
  moreover have "which_version_is_pinned (CHR ''~'' # t) = Pin_Minor" "which_version_is_pinned (CHR ''^'' # t) = Pin_Major"
    using pinned_operator [OF op, of "CHR ''~''"] pinned_operator [OF op, of "CHR ''^''"] t(1) by simp_all
  ultimately show ?thesis unfolding t_def by simp
qed

end
