(* ===== verification/Version_Copy.thy ===== *)
theory Version_Copy
  imports Version_Parse
begin

text \<open>
  Moving versions between string buffers: \<open>count\<close> and \<open>append\<close> through the two-phase builder, and
  \<open>clone_into\<close> through a caller's slice.  What is compared is the text of the tag, read against
  the buffer a version lives in.
\<close>

section \<open>Through the builder\<close>

text \<open>The strings of a tag that live in the buffer, in the order they are counted and appended.\<close>

definition outside :: "external_string \<Rightarrow> bool" where
  "outside e \<longleftrightarrow> \<not> es_is_empty e \<and> \<not> es_is_inline e"

definition tag_strings :: "u64 \<Rightarrow> tag \<Rightarrow> bytes \<Rightarrow> slice list" where
  "tag_strings sa t buf =
     map (\<lambda>e. \<lparr>s_addr = sa, s_bytes = es_slice e buf\<rparr>) (filter outside [pre t, build t])"

lemma version_count_strings:
  "version_count v buf b = foldl (\<lambda>b x. builder_count b (s_bytes x)) b (tag_strings sa (vtag v) buf)"
  by (simp add: version_count_def tag_strings_def outside_def has_pre_def has_build_def Let_def)

text \<open>A handle against a new buffer stands for the same string as the old one did.\<close>

definition same_text :: "external_string \<Rightarrow> bytes \<Rightarrow> external_string \<Rightarrow> bytes \<Rightarrow> bool" where
  "same_text e buf e' buf' \<longleftrightarrow> es_is_empty e' = es_is_empty e \<and> es_slice e' buf' = es_slice e buf
     \<and> handle_ok (es_value e') buf'"

lemma same_text_append: "same_text e buf e' buf' \<Longrightarrow> same_text e buf e' (buf' @ ext)"
  by (simp add: same_text_def es_slice_def string_slice_append handle_ok_append)

lemma es_slice_inline: "es_is_inline e \<Longrightarrow> es_slice e buf = es_slice e buf'"
  by (simp add: es_is_inline_def is_inline_def es_slice_def string_slice_def)

lemma es_empty_inline: "es_wf e \<Longrightarrow> es_is_empty e \<Longrightarrow> es_is_inline e"
  by (simp add: es_wf_def es_is_empty_def string_is_empty_def from_le_bytes_zero es_is_inline_def is_inline_def code_def)

lemma same_text_inline:
  assumes "es_wf e" and "\<not> outside e"
  shows "same_text e buf e buf'"
proof -
  have "es_is_inline e" using assms es_empty_inline by (auto simp: outside_def)
  then show ?thesis
    using assms(1) es_slice_inline
    by (auto simp: same_text_def handle_ok_def es_wf_def es_is_inline_def is_inline_def)
qed

lemma es_nonempty: "length (raw (es_value e)) = 8 \<Longrightarrow> es_slice e buf \<noteq> [] \<Longrightarrow> \<not> es_is_empty e"
  using string_is_empty_slice [of "es_value e" buf] by (auto simp: es_is_empty_def es_slice_def)

text \<open>One string of a tag.\<close>

lemma builder_append_same_text:
  assumes ok: "builder_ok b" and out: "outside e" and len: "8 < length (es_slice e buf)" "length (es_slice e buf) < 2 ^ 31"
    and fit: "b_len b + length (es_slice e buf) \<le> b_cap b"
  shows "\<exists>b' e'. builder_append ea b \<lparr>s_addr = sa, s_bytes = es_slice e buf\<rparr> = Some (b', e') \<and> builder_ok b'
     \<and> (\<exists>ext. b_written b' = b_written b @ ext) \<and> b_cap b' = b_cap b
     \<and> b_len b' \<le> b_len b + length (es_slice e buf) \<and> same_text e buf e' (b_written b')"
proof -
  have st: "builder_storable (es_slice e buf)"
    using len by (auto simp: builder_storable_def storable_def can_inline_def)
  obtain b' e' where a: "builder_append ea b \<lparr>s_addr = sa, s_bytes = es_slice e buf\<rparr> = Some (b', e')" "builder_ok b'"
      "\<exists>ext. b_written b' = b_written b @ ext" "b_cap b' = b_cap b"
      "b_len b' \<le> b_len b + length (es_slice e buf)"
      "handle_ok (es_value e') (b_written b')" "es_slice e' (b_written b') = es_slice e buf"
    using builder_append_ok [OF ok, of "\<lparr>s_addr = sa, s_bytes = es_slice e buf\<rparr>" ea] st fit len by auto
  have "\<not> es_is_empty e'"
    using a(6,7) len(1) by (intro es_nonempty [of e' "b_written b'"]) (auto simp: handle_ok_def)
  then show ?thesis using a out by (auto simp: same_text_def outside_def)
qed

text \<open>Either half of \<open>append\<close>: a string in the buffer is appended, another handle is kept.\<close>

definition append_part :: "u64 \<Rightarrow> u64 \<Rightarrow> external_string \<Rightarrow> bytes \<Rightarrow> builder \<Rightarrow> (builder \<times> external_string) option" where
  "append_part ea sa e buf b =
     (if outside e then builder_append ea b \<lparr>s_addr = sa, s_bytes = es_slice e buf\<rparr> else Some (b, e))"

lemma version_append_parts:
  "version_append ea sa v buf b =
     (case append_part ea sa (pre (vtag v)) buf b of
        None \<Rightarrow> None
      | Some (b1, p) \<Rightarrow> map_option (\<lambda>(b2, q). (b2, v\<lparr>vtag := \<lparr>pre = p, build = q\<rparr>\<rparr>))
          (append_part ea sa (build (vtag v)) buf b1))"
  by (cases v; cases "vtag v")
    (auto simp: version_append_def append_part_def outside_def has_pre_def has_build_def
      split: option.splits prod.splits)

definition part_size :: "external_string \<Rightarrow> bytes \<Rightarrow> nat" where
  "part_size e buf = (if outside e then length (es_slice e buf) else 0)"

definition part_ok :: "external_string \<Rightarrow> bytes \<Rightarrow> bool" where
  "part_ok e buf \<longleftrightarrow> es_wf e \<and> (outside e \<longrightarrow> 8 < length (es_slice e buf) \<and> length (es_slice e buf) < 2 ^ 31)"

lemma append_part_ok:
  assumes "builder_ok b" and "part_ok e buf" and "b_len b + part_size e buf \<le> b_cap b"
  shows "\<exists>b' e'. append_part ea sa e buf b = Some (b', e') \<and> builder_ok b'
     \<and> (\<exists>ext. b_written b' = b_written b @ ext) \<and> b_cap b' = b_cap b
     \<and> b_len b' \<le> b_len b + part_size e buf \<and> same_text e buf e' (b_written b')"
proof (cases "outside e")
  case True
  then show ?thesis
    using builder_append_same_text [OF assms(1) True, of buf ea sa] assms(2,3)
    by (auto simp: append_part_def part_ok_def part_size_def)
next
  case False
  then show ?thesis
    using assms same_text_inline [OF _ False] by (auto simp: append_part_def part_ok_def part_size_def)
qed

text \<open>A whole version, then a list of versions, each with the buffer it lives in.\<close>

definition version_size :: "version \<Rightarrow> bytes \<Rightarrow> nat" where
  "version_size v buf = part_size (pre (vtag v)) buf + part_size (build (vtag v)) buf"

definition version_ok :: "version \<Rightarrow> bytes \<Rightarrow> bool" where
  "version_ok v buf \<longleftrightarrow> part_ok (pre (vtag v)) buf \<and> part_ok (build (vtag v)) buf"

definition same_version :: "version \<Rightarrow> bytes \<Rightarrow> version \<Rightarrow> bytes \<Rightarrow> bool" where
  "same_version v buf v' buf' \<longleftrightarrow> major v' = major v \<and> minor v' = minor v \<and> patch v' = patch v
     \<and> same_text (pre (vtag v)) buf (pre (vtag v')) buf' \<and> same_text (build (vtag v)) buf (build (vtag v')) buf'"

lemma version_append_ok:
  assumes "builder_ok b" and "version_ok v buf" and "b_len b + version_size v buf \<le> b_cap b"
  shows "\<exists>b' v'. version_append ea sa v buf b = Some (b', v') \<and> builder_ok b'
     \<and> (\<exists>ext. b_written b' = b_written b @ ext) \<and> b_cap b' = b_cap b
     \<and> b_len b' \<le> b_len b + version_size v buf \<and> same_version v buf v' (b_written b')"
proof -
  obtain b1 p where p: "append_part ea sa (pre (vtag v)) buf b = Some (b1, p)" "builder_ok b1"
      "\<exists>ext. b_written b1 = b_written b @ ext" "b_cap b1 = b_cap b"
      "b_len b1 \<le> b_len b + part_size (pre (vtag v)) buf" "same_text (pre (vtag v)) buf p (b_written b1)"
    using append_part_ok [OF assms(1), of "pre (vtag v)" buf ea sa] assms(2,3)
    by (auto simp: version_ok_def version_size_def)
  have fit: "b_len b1 + part_size (build (vtag v)) buf \<le> b_cap b1"
    using p(4,5) assms(3) by (simp add: version_size_def)
  obtain b2 q where q: "append_part ea sa (build (vtag v)) buf b1 = Some (b2, q)" "builder_ok b2"
      "\<exists>ext. b_written b2 = b_written b1 @ ext" "b_cap b2 = b_cap b1"
      "b_len b2 \<le> b_len b1 + part_size (build (vtag v)) buf" "same_text (build (vtag v)) buf q (b_written b2)"
    using append_part_ok [OF p(2) _ fit, of ea sa] assms(2) by (auto simp: version_ok_def)
  have "same_text (pre (vtag v)) buf p (b_written b2)" using p(6) q(3) same_text_append by metis
  moreover have "\<exists>ext. b_written b2 = b_written b @ ext" using p(3) q(3) by auto
  ultimately show ?thesis
    using p q by (auto simp: version_append_parts version_size_def same_version_def)
qed

fun append_versions :: "u64 \<Rightarrow> u64 \<Rightarrow> builder \<Rightarrow> (version \<times> bytes) list \<Rightarrow> (builder \<times> version list) option" where
  "append_versions ea sa b [] = Some (b, [])"
| "append_versions ea sa b ((v, buf) # vs) =
     (case version_append ea sa v buf b of
        None \<Rightarrow> None
      | Some (b', v') \<Rightarrow> map_option (\<lambda>(b'', vs'). (b'', v' # vs')) (append_versions ea sa b' vs))"

definition count_versions :: "(version \<times> bytes) list \<Rightarrow> builder \<Rightarrow> builder" where
  "count_versions vs b = foldl (\<lambda>b (v, buf). version_count v buf b) b vs"

lemma append_versions_ok:
  assumes "builder_ok b" and "\<forall>(v, buf)\<in>set vs. version_ok v buf"
    and "b_len b + (\<Sum>(v, buf)\<leftarrow>vs. version_size v buf) \<le> b_cap b"
  shows "\<exists>b' vs'. append_versions ea sa b vs = Some (b', vs')
     \<and> (\<exists>ext. b_written b' = b_written b @ ext)
     \<and> list_all2 (\<lambda>(v, buf) v'. same_version v buf v' (b_written b')) vs vs'"
  using assms
proof (induction vs arbitrary: b)
  case (Cons w vs)
  obtain v buf where w: "w = (v, buf)" by (cases w)
  have "b_len b + version_size v buf \<le> b_cap b" using Cons.prems(3) by (simp add: w)
  then obtain b1 v' where v': "version_append ea sa v buf b = Some (b1, v')" "builder_ok b1"
      "\<exists>ext. b_written b1 = b_written b @ ext" "b_cap b1 = b_cap b"
      "b_len b1 \<le> b_len b + version_size v buf" "same_version v buf v' (b_written b1)"
    using version_append_ok [OF Cons.prems(1), of v buf ea sa] Cons.prems(2) by (auto simp: w)
  have "b_len b1 + (\<Sum>(v, buf)\<leftarrow>vs. version_size v buf) \<le> b_cap b1"
    using v'(4,5) Cons.prems(3) by (simp add: w)
  then obtain b2 vs' where vs': "append_versions ea sa b1 vs = Some (b2, vs')"
      "\<exists>ext. b_written b2 = b_written b1 @ ext"
      "list_all2 (\<lambda>(v, buf) v'. same_version v buf v' (b_written b2)) vs vs'"
    using Cons.IH [OF v'(2)] Cons.prems(2) by auto
  have "same_version v buf v' (b_written b2)"
    using v'(6) vs'(2) same_text_append unfolding same_version_def by metis
  then show ?case using v' vs' by (auto simp: w)
qed simp

lemma version_count_cap:
  assumes "b_pool b = Map.empty" and "version_ok v buf"
  shows "version_count v buf b = b\<lparr>b_cap := b_cap b + version_size v buf\<rparr>"
  using assms builder_count_cap [OF assms(1), of "tag_strings 0 (vtag v) buf"]
  by (auto simp: version_count_strings [where sa = 0] tag_strings_def counted_def version_size_def part_size_def
      version_ok_def part_ok_def)

lemma count_versions_cap:
  assumes "b_pool b = Map.empty" and "\<forall>(v, buf)\<in>set vs. version_ok v buf"
  shows "count_versions vs b = b\<lparr>b_cap := b_cap b + (\<Sum>(v, buf)\<leftarrow>vs. version_size v buf)\<rparr>"
  using assms
proof (induction vs arbitrary: b)
  case (Cons w vs)
  then show ?case by (cases w) (auto simp: count_versions_def version_count_cap)
qed (simp add: count_versions_def)

section \<open>Through a slice\<close>

text \<open>
  A part of \<open>clone_into\<close> that is copied: its handle has offset 0, so against any buffer it reads
  the first bytes of that buffer.
\<close>

lemma clone_part_outside:
  assumes "\<not> es_is_inline e" and "8 < length (es_slice e src)" and "length (es_slice e src) < 2 ^ 31"
    and "length (es_slice e src) \<le> length (s_bytes dst)"
  obtains h where "clone_part e src dst = Some (h, es_slice e src,
        \<lparr>s_addr = s_addr dst + word_of_nat (length (es_slice e src)), s_bytes = drop (length (es_slice e src)) (s_bytes dst)\<rparr>)"
    and "\<And>X. length (es_slice e src) \<le> length X \<Longrightarrow> string_slice h X = take (length (es_slice e src)) X"
proof -
  define sl where "sl = es_slice e src"
  define dst' where "dst' = dst\<lparr>s_bytes := blit (s_bytes dst) 0 sl\<rparr>"
  define copy where "copy = \<lparr>s_addr = s_addr dst, s_bytes = sl\<rparr>"
  have big: "\<not> can_inline (s_bytes copy)" using assms(2) by (auto simp: copy_def sl_def can_inline_def)
  have "sub_slice dst' 0 (length sl) = Some copy"
    using assms(4) by (simp add: dst'_def copy_def sl_def sub_slice_def blit_def)
  moreover have "slice_from dst' (length sl)
      = Some \<lparr>s_addr = s_addr dst + word_of_nat (length sl), s_bytes = drop (length sl) (s_bytes dst)\<rparr>"
    using assms(4) by (simp add: dst'_def sl_def slice_from_def sub_slice_def blit_def)
  ultimately have c: "clone_part e src dst = Some (string_init dst' copy, sl,
      \<lparr>s_addr = s_addr dst + word_of_nat (length sl), s_bytes = drop (length sl) (s_bytes dst)\<rparr>)"
    using assms(1,4) by (simp add: clone_part_def Let_def flip: sl_def dst'_def)
  have "in_buffer dst' 0 copy"
    using assms(4) by (simp add: in_buffer_def dst'_def copy_def sl_def blit_def)
  from pointer_init_in_buffer [OF this] assms(3)
  have p: "unat (p_off (pointer_init dst' copy)) = 0" "unat (p_len (pointer_init dst' copy)) = length sl"
    by (simp_all add: copy_def sl_def)
  have "string_slice (string_init dst' copy) X = take (length sl) X" if "length sl \<le> length X" for X
    using string_slice_pack [of "pointer_init dst' copy" X] p assms(3) that big
    by (simp add: string_init_external_case sl_def)
  then show thesis using that [of "string_init dst' copy"] c by (simp add: sl_def)
qed

text \<open>A handle to a string that is a buffer of its own, and the handle of no string.\<close>

lemma external_example:
  assumes "8 < length s" and "length s < 2 ^ 31"
  shows "es_slice \<lparr>es_value = string_init \<lparr>s_addr = a, s_bytes = s\<rparr> \<lparr>s_addr = a, s_bytes = s\<rparr>, es_hash = h\<rparr> s = s"
    and "es_wf \<lparr>es_value = string_init \<lparr>s_addr = a, s_bytes = s\<rparr> \<lparr>s_addr = a, s_bytes = s\<rparr>, es_hash = h\<rparr>"
    and "outside \<lparr>es_value = string_init \<lparr>s_addr = a, s_bytes = s\<rparr> \<lparr>s_addr = a, s_bytes = s\<rparr>, es_hash = h\<rparr>"
proof -
  let ?s = "\<lparr>s_addr = a, s_bytes = s\<rparr>"
  have big: "\<not> can_inline (s_bytes ?s)" using assms by (auto simp: can_inline_def)
  show sl: "es_slice \<lparr>es_value = string_init ?s ?s, es_hash = h\<rparr> s = s"
    using string_slice_init [OF in_buffer_refl, of ?s] assms big by (simp add: es_slice_def storable_def)
  show wf: "es_wf \<lparr>es_value = string_init ?s ?s, es_hash = h\<rparr>" by (simp add: es_wf_def)
  show "outside \<lparr>es_value = string_init ?s ?s, es_hash = h\<rparr>"
    using pack_pointer_external [of "pointer_init ?s ?s"] string_is_empty_pack [of "pointer_init ?s ?s"] big
    by (simp add: outside_def es_is_inline_def is_inline_def es_is_empty_def string_init_external_case)
qed

lemma default_part: "\<not> outside es_default" "es_wf es_default" "es_is_inline es_default"
  using es_empty_inline [of es_default]
  by (simp_all add: outside_def es_wf_def) (simp_all add: es_default_def EMPTY_def)

section \<open>Properties\<close>

text \<open>
  Versions survive a move to a new buffer.  Counting a list of versions, allocating once and
  appending them in the same order never panics, and each resulting version has the same numbers
  and, read against the new allocation, the same pre-release and build metadata as the original
  against its own buffer.
\<close>

lemma versions_count_append_roundtrip:
  assumes "\<forall>(v, buf)\<in>set vs. version_ok v buf" and "b_cap (count_versions vs builder_default) < 2 ^ 32"
  shows "\<exists>b' vs'. append_versions ea sa (builder_allocate addr (count_versions vs builder_default)) vs = Some (b', vs')
    \<and> list_all2 (\<lambda>(v, buf) v'. major v' = major v \<and> minor v' = minor v \<and> patch v' = patch v
          \<and> pre_of v' (b_bytes b') = pre_of v buf \<and> build_of v' (b_bytes b') = build_of v buf) vs vs'"
proof -
  let ?b = "builder_allocate addr (count_versions vs builder_default)"
  have cnt: "count_versions vs builder_default
      = builder_default\<lparr>b_cap := (\<Sum>(v, buf)\<leftarrow>vs. version_size v buf)\<rparr>"
    using count_versions_cap [OF _ assms(1), of builder_default] by (simp add: builder_default_def)
  have ok: "builder_ok ?b"
    using assms(2) unfolding cnt by (intro builder_allocate_ok) (simp_all add: builder_default_def)
  have fit: "b_len ?b + (\<Sum>(v, buf)\<leftarrow>vs. version_size v buf) \<le> b_cap ?b"
    unfolding cnt by (simp add: builder_allocate_def builder_default_def)
  obtain b' vs' where r: "append_versions ea sa ?b vs = Some (b', vs')"
      "list_all2 (\<lambda>(v, buf) v'. same_version v buf v' (b_written b')) vs vs'"
    using append_versions_ok [OF ok assms(1) fit, of ea sa] by blast
  have "pre_of v' (b_bytes b') = pre_of v buf \<and> build_of v' (b_bytes b') = build_of v buf"
    if "same_version v buf v' (b_written b')" for v v' buf
    using that es_slice_b_bytes
    by (auto simp: same_version_def same_text_def pre_of_def build_of_def has_pre_def has_build_def)
  then show ?thesis
    using r by (intro exI conjI) (auto elim!: list_all2_mono simp: same_version_def)
qed

text \<open>
  Cloning a tag into a slice: a tag with one string in the buffer and the other one inline is
  cloned faithfully: read against the bytes of the slice it was cloned into, it stands for the
  same pre-release and build metadata.
\<close>

lemma tag_clone_into_one_outside:
  assumes "part_ok (pre t) src" and "part_ok (build t) src" and "es_is_inline (pre t) \<noteq> es_is_inline (build t)"
    and "length (es_slice (pre t) src) + length (es_slice (build t) src) \<le> length (s_bytes dst)"
  shows "\<exists>t' w rest. tag_clone_into t src dst = Some (t', w, rest)
    \<and> es_slice (pre t') (w @ s_bytes rest) = es_slice (pre t) src
    \<and> es_slice (build t') (w @ s_bytes rest) = es_slice (build t) src"
proof -
  have out: "8 < length (es_slice e src) \<and> length (es_slice e src) < 2 ^ 31"
    if "part_ok e src" "\<not> es_is_inline e" for e
    using that es_empty_inline by (auto simp: part_ok_def outside_def)
  show ?thesis
  proof (cases "es_is_inline (pre t)")
    case True
    then have b: "\<not> es_is_inline (build t)" using assms(3) by simp
    obtain h where "clone_part (build t) src dst = Some (h, es_slice (build t) src,
        \<lparr>s_addr = s_addr dst + word_of_nat (length (es_slice (build t) src)), s_bytes = drop (length (es_slice (build t) src)) (s_bytes dst)\<rparr>)"
      "\<And>X. length (es_slice (build t) src) \<le> length X \<Longrightarrow> string_slice h X = take (length (es_slice (build t) src)) X"
      using clone_part_outside [OF b, of src dst] out [OF assms(2) b] assms(4) by auto
    then show ?thesis
      using True es_slice_inline [of "pre t"] by (auto simp: tag_clone_into_def clone_part_def es_slice_def)
  next
    case False
    then have b: "es_is_inline (build t)" using assms(3) by simp
    obtain h where "clone_part (pre t) src dst = Some (h, es_slice (pre t) src,
        \<lparr>s_addr = s_addr dst + word_of_nat (length (es_slice (pre t) src)), s_bytes = drop (length (es_slice (pre t) src)) (s_bytes dst)\<rparr>)"
      "\<And>X. length (es_slice (pre t) src) \<le> length X \<Longrightarrow> string_slice h X = take (length (es_slice (pre t) src)) X"
      using clone_part_outside [OF False, of src dst] out [OF assms(1) False] assms(4) by auto
    then show ?thesis
      using b es_slice_inline [of "build t"] by (auto simp: tag_clone_into_def clone_part_def es_slice_def)
  qed
qed

text \<open>
  Cloning a tag with two strings in the buffer.  The handle of the build metadata is made
  relative to the rest of the slice, behind the pre-release, so against the slice as a whole it
  reads the bytes of the pre-release (and of what follows) instead of the build metadata.
\<close>

lemma tag_clone_into_two_outside:
  assumes "part_ok (pre t) src" and "part_ok (build t) src" and "outside (pre t)" and "outside (build t)"
    and "length (es_slice (pre t) src) + length (es_slice (build t) src) \<le> length (s_bytes dst)"
  shows "\<exists>t' w rest. tag_clone_into t src dst = Some (t', w, rest)
    \<and> w = es_slice (pre t) src @ es_slice (build t) src
    \<and> es_slice (pre t') (w @ s_bytes rest) = es_slice (pre t) src
    \<and> es_slice (build t') (w @ s_bytes rest) = take (length (es_slice (build t) src)) (w @ s_bytes rest)"
proof -
  obtain h where p: "clone_part (pre t) src dst = Some (h, es_slice (pre t) src,
        \<lparr>s_addr = s_addr dst + word_of_nat (length (es_slice (pre t) src)), s_bytes = drop (length (es_slice (pre t) src)) (s_bytes dst)\<rparr>)"
      "\<And>X. length (es_slice (pre t) src) \<le> length X \<Longrightarrow> string_slice h X = take (length (es_slice (pre t) src)) X"
    using clone_part_outside [of "pre t" src dst] assms by (auto simp: part_ok_def outside_def)
  define dst1 where "dst1 = \<lparr>s_addr = s_addr dst + word_of_nat (length (es_slice (pre t) src)),
      s_bytes = drop (length (es_slice (pre t) src)) (s_bytes dst)\<rparr>"
  have fit: "length (es_slice (build t) src) \<le> length (s_bytes dst1)" using assms(5) by (simp add: dst1_def)
  note p1 = p(1) [folded dst1_def]
  obtain k where "clone_part (build t) src dst1 = Some (k, es_slice (build t) src,
        \<lparr>s_addr = s_addr dst1 + word_of_nat (length (es_slice (build t) src)), s_bytes = drop (length (es_slice (build t) src)) (s_bytes dst1)\<rparr>)"
      "\<And>X. length (es_slice (build t) src) \<le> length X \<Longrightarrow> string_slice k X = take (length (es_slice (build t) src)) X"
    using clone_part_outside [of "build t" src dst1] assms(2,4) fit by (auto simp: part_ok_def outside_def)
  then show ?thesis
    using p1 p(2) [of "es_slice (pre t) src @ es_slice (build t) src @ Y" for Y]
    by (auto simp: tag_clone_into_def es_slice_def)
qed

end
