(* ===== verification/Wyhash_Variants.thy ===== *)
theory Wyhash_Variants
  imports Wyhash
begin

text \<open>
  The other entry points of the hash crate: the hash of the lower-cased input, the re-implementation
  for compile-time evaluation, and the integer mixers.  The first two compute the one-shot hash;
  the mixers lose no information.
\<close>

section \<open>Case-insensitive hashing\<close>

definition to_ascii_lowercase :: "byte \<Rightarrow> byte" where
  "to_ascii_lowercase c = (if is_ascii_upper c then char_of (code c + 32) else c)"

function lowercase_loop :: "wyhash \<Rightarrow> bytes \<Rightarrow> wyhash" where
  "lowercase_loop h remain =
     (if remain = [] then h
      else (let n = min (length remain) 48
            in lowercase_loop (wyhash_update h (map to_ascii_lowercase (take n remain))) (drop n remain)))"
  by pat_completeness auto
termination
  by (relation "measure (\<lambda>(h, remain). length remain)") auto

declare lowercase_loop.simps [simp del]

definition hash_ascii_lowercase :: "u64 \<Rightarrow> bytes \<Rightarrow> u64" where
  "hash_ascii_lowercase sd b =
     (if length b \<le> 48 then wyhash_hash sd (map to_ascii_lowercase b)
      else wyhash_final (lowercase_loop (wyhash_init sd) b))"

lemma lowercase_loop_chunks:
  "\<exists>chunks. lowercase_loop h r = foldl wyhash_update h chunks \<and> concat chunks = map to_ascii_lowercase r"
proof (induction h r rule: lowercase_loop.induct)
  case (1 h r)
  show ?case
  proof (cases "r = []")
    case True
    then show ?thesis by (intro exI [of _ "[]"]) (simp add: lowercase_loop.simps)
  next
    case False
    define n where "n = min (length r) 48"
    obtain cs where cs: "lowercase_loop (wyhash_update h (map to_ascii_lowercase (take n r))) (drop n r)
          = foldl wyhash_update (wyhash_update h (map to_ascii_lowercase (take n r))) cs"
        "concat cs = map to_ascii_lowercase (drop n r)"
      using 1 [OF False n_def] by blast
    have "map to_ascii_lowercase (take n r) @ map to_ascii_lowercase (drop n r) = map to_ascii_lowercase r"
      by (simp flip: map_append)
    then show ?thesis
      using False cs
      by (intro exI [of _ "map to_ascii_lowercase (take n r) # cs"])
        (subst lowercase_loop.simps, simp add: Let_def flip: n_def)
  qed
qed

section \<open>Compile-time hashing\<close>

definition const_mix :: "u64 \<Rightarrow> u64 \<Rightarrow> u64" where
  "const_mix a b = (let x = (ucast a :: u128) * ucast b in ucast x XOR ucast (drop_bit 64 x))"

definition const_read4 :: "bytes \<Rightarrow> nat \<Rightarrow> u64" where
  "const_read4 d o' = from_le_bytes [d ! o', d ! (o' + 1), d ! (o' + 2), d ! (o' + 3)]"

definition const_read8 :: "bytes \<Rightarrow> nat \<Rightarrow> u64" where
  "const_read8 d o' =
     from_le_bytes [d ! o', d ! (o' + 1), d ! (o' + 2), d ! (o' + 3), d ! (o' + 4), d ! (o' + 5), d ! (o' + 6), d ! (o' + 7)]"

function const_round_loop :: "u64 \<times> u64 \<times> u64 \<Rightarrow> bytes \<Rightarrow> nat \<Rightarrow> (u64 \<times> u64 \<times> u64) \<times> nat" where
  "const_round_loop state input i =
     (if i + 48 < length input then
        (case state of (s0, s1, s2) \<Rightarrow>
           const_round_loop
             (const_mix (const_read8 input i XOR SECRET ! 1) (const_read8 input (i + 8) XOR s0),
              const_mix (const_read8 input (i + 16) XOR SECRET ! 2) (const_read8 input (i + 24) XOR s1),
              const_mix (const_read8 input (i + 32) XOR SECRET ! 3) (const_read8 input (i + 40) XOR s2))
             input (i + 48))
      else (state, i))"
  by pat_completeness auto
termination
  by (relation "measure (\<lambda>(s, input, i). length input - i)") auto

function const_final_loop :: "u64 \<Rightarrow> bytes \<Rightarrow> nat \<Rightarrow> u64" where
  "const_final_loop s0 input j =
     (if j + 16 < length input
      then const_final_loop (const_mix (const_read8 input j XOR SECRET ! 1) (const_read8 input (j + 8) XOR s0)) input (j + 16)
      else s0)"
  by pat_completeness auto
termination
  by (relation "measure (\<lambda>(s, input, j). length input - j)") auto

declare const_round_loop.simps [simp del] const_final_loop.simps [simp del]

definition hash_const :: "u64 \<Rightarrow> bytes \<Rightarrow> u64" where
  "hash_const sd input =
     (let s0 = sd XOR const_mix (sd XOR SECRET ! 0) (SECRET ! 1);
          len = length input;
          (a, b, s) =
            (if len \<le> 16 then
               (if len \<ge> 4 then
                  (let e = len - 4; quarter = (len div 8) * 4
                   in (push_bit 32 (const_read4 input 0) OR const_read4 input quarter,
                       push_bit 32 (const_read4 input e) OR const_read4 input (e - quarter), s0))
                else if len > 0 then
                  (push_bit 16 (of_char (input ! 0)) OR push_bit 8 (of_char (input ! (len div 2)))
                     OR of_char (input ! (len - 1)), 0, s0)
                else (0, 0, s0))
             else
               (let (s, i) =
                      (if len \<ge> 48 then
                         (case const_round_loop (s0, s0, s0) input 0 of
                            ((t0, t1, t2), i) \<Rightarrow> (t0 XOR (t1 XOR t2), i))
                       else (s0, 0))
                in (const_read8 input (len - 16), const_read8 input (len - 8), const_final_loop s input i)));
          x = (ucast (a XOR SECRET ! 1) :: u128) * ucast (b XOR s)
      in const_mix (ucast x XOR SECRET ! 0 XOR word_of_nat len) (ucast (drop_bit 64 x) XOR SECRET ! 1))"

text \<open>The reads by index are the reads of a suffix.\<close>

lemma take_drop_nth: "i < length d \<Longrightarrow> take (Suc n) (drop i d) = d ! i # take n (drop (Suc i) d)"
  by (simp add: Cons_nth_drop_Suc [symmetric])

lemma const_read4_eq: "i + 4 \<le> length d \<Longrightarrow> const_read4 d i = read4 (drop i d)"
  by (simp add: const_read4_def read4_def take_drop_nth eval_nat_numeral)

lemma const_read8_eq: "i + 8 \<le> length d \<Longrightarrow> const_read8 d i = read8 (drop i d)"
  by (simp add: const_read8_def read8_def take_drop_nth eval_nat_numeral)

lemma const_mix_eq: "const_mix = wy_mix"
  by (simp add: fun_eq_iff const_mix_def wy_mix_def wy_mum_def Let_def)

lemma const_round_loop_eq:
  assumes "48 \<le> length input"
  shows "const_round_loop (s0, s1, s2) input i = (case wy_hash_loop s0 s1 s2 input i of (t0, t1, t2, j) \<Rightarrow> ((t0, t1, t2), j))"
proof (induction "length input - i" arbitrary: s0 s1 s2 i rule: less_induct)
  case less
  show ?case
  proof (cases "i + 48 < length input")
    case True
    let ?r = "\<lambda>o'. read8 (drop (i + o') input)"
    let ?t0 = "wy_mix (?r 0 XOR SECRET ! 1) (?r 8 XOR s0)"
    let ?t1 = "wy_mix (?r 16 XOR SECRET ! 2) (?r 24 XOR s1)"
    let ?t2 = "wy_mix (?r 32 XOR SECRET ! 3) (?r 40 XOR s2)"
    have "const_round_loop (s0, s1, s2) input i = const_round_loop (?t0, ?t1, ?t2) input (i + 48)"
      using True by (subst const_round_loop.simps) (simp add: const_mix_eq const_read8_eq)
    moreover have "wy_hash_loop s0 s1 s2 input i = wy_hash_loop ?t0 ?t1 ?t2 input (i + 48)"
      using less_diff_conv [THEN iffD2, OF True] by (subst wy_hash_loop.simps) (simp add: Let_def wy_mix_def wy_mum_def)
    moreover have "length input - (i + 48) < length input - i" using True by simp
    ultimately show ?thesis using less by simp
  next
    case False
    then show ?thesis
      using less_diff_conv [of i "length input" 48] by (subst const_round_loop.simps, subst wy_hash_loop.simps) simp
  qed
qed

lemma const_final_loop_eq:
  assumes "k \<le> length input"
  shows "const_final_loop s input (k + i) = wy_final1_loop s (drop k input) i"
proof (induction "length input - i" arbitrary: s i rule: less_induct)
  case less
  show ?case
  proof (cases "k + i + 16 < length input")
    case True
    have lt: "i + 16 < length (drop k input)" using True by simp
    let ?t = "wy_mix (read8 (drop (k + i) input) XOR SECRET ! 1) (read8 (drop (k + i + 8) input) XOR s)"
    have "const_final_loop s input (k + i) = const_final_loop ?t input (k + (i + 16))"
      using True by (subst const_final_loop.simps) (simp add: const_mix_eq const_read8_eq add.assoc)
    moreover have "wy_final1_loop s (drop k input) i = wy_final1_loop ?t (drop k input) (i + 16)"
      using lt by (subst wy_final1_loop.simps) (simp add: ac_simps)
    moreover have "length input - (i + 16) < length input - i" using True by simp
    ultimately show ?thesis using less by simp
  next
    case False
    then show ?thesis by (subst const_final_loop.simps, subst wy_final1_loop.simps) auto
  qed
qed

lemma wy_hash_loop_bound: "48 \<le> length input \<Longrightarrow> i < length input \<Longrightarrow>
    wy_hash_loop s0 s1 s2 input i = (t0, t1, t2, j) \<Longrightarrow> j \<le> length input"
proof (induction s0 s1 s2 input i rule: wy_hash_loop.induct)
  case (1 s0 s1 s2 input i)
  show ?case
  proof (cases "i < length input - 48")
    case True
    then show ?thesis
      using 1(1) [OF True refl refl refl refl] 1(2-4) by (subst (asm) wy_hash_loop.simps) (simp add: Let_def)
  next
    case False
    then show ?thesis using 1(3,4) by (subst (asm) wy_hash_loop.simps) simp
  qed
qed

section \<open>Integer mixing\<close>

definition one_shot_write_u8 :: "u64 \<Rightarrow> u8 \<Rightarrow> u64" where
  "one_shot_write_u8 h n = one_shot_write_u64 h (ucast n)"

definition one_shot_write_u16 :: "u64 \<Rightarrow> u16 \<Rightarrow> u64" where
  "one_shot_write_u16 h n = one_shot_write_u64 h (ucast n)"

definition one_shot_write_u32 :: "u64 \<Rightarrow> u32 \<Rightarrow> u64" where
  "one_shot_write_u32 h n = one_shot_write_u64 h (ucast n)"

definition one_shot_write_usize :: "u64 \<Rightarrow> u64 \<Rightarrow> u64" where
  "one_shot_write_usize h n = one_shot_write_u64 h n"

definition hash_int16 :: "16 word \<Rightarrow> 16 word" where
  "hash_int16 x0 =
     (let x = (x0 XOR drop_bit 7 x0) * 0x2993;
          x = (x XOR drop_bit 5 x) * 0xe877;
          x = (x XOR drop_bit 9 x) * 0x0235
      in x XOR drop_bit 10 x)"

definition hash_int32 :: "u32 \<Rightarrow> u32" where
  "hash_int32 x0 =
     (let x = (x0 XOR drop_bit 17 x0) * 0xed5ad4bb;
          x = (x XOR drop_bit 11 x) * 0xac4c1b51;
          x = (x XOR drop_bit 15 x) * 0x31848bab
      in x XOR drop_bit 14 x)"

definition hash_int64 :: "u64 \<Rightarrow> u64" where
  "hash_int64 x0 =
     (let C = 0xbea225f9eb34556d;
          x = (x0 XOR drop_bit 32 x0) * C;
          x = (x XOR drop_bit 29 x) * C;
          x = (x XOR drop_bit 32 x) * C
      in x XOR drop_bit 29 x)"

text \<open>The two steps of a mixer: a shifted exclusive or and a multiplication by an odd number.\<close>

lemma drop_bit_fixpoint:
  fixes d :: "'w::len word"
  assumes "drop_bit k d = d" and "0 < k"
  shows "d = 0"
proof (rule ccontr)
  assume "d \<noteq> 0"
  then have "0 < unat d" by (simp add: unat_gt_0)
  moreover have "unat d = unat d div 2 ^ k"
    using arg_cong [OF assms(1), of unat] unat_drop_bit_eq [of k d] drop_bit_eq_div [of k "unat d"] by simp
  moreover have "(1 :: nat) < 2 ^ k" using assms(2) by (intro one_less_power) simp_all
  ultimately show False using div_less_dividend [of "2 ^ k" "unat d"] by simp
qed

lemma inj_xorshift:
  assumes "0 < k"
  shows "inj (\<lambda>x :: 'w::len word. x XOR drop_bit k x)"
proof (rule injI)
  fix x y :: "'w word"
  assume "x XOR drop_bit k x = y XOR drop_bit k y"
  then have "x XOR y = drop_bit k x XOR drop_bit k y"
    by (metis xor.assoc xor.commute xor.left_neutral xor_self_eq)
  then have "drop_bit k (x XOR y) = x XOR y" by (metis drop_bit_xor)
  from drop_bit_fixpoint [OF this assms] show "x = y"
    by (metis xor.assoc xor.right_neutral xor_self_eq)
qed

lemma inj_times_unit:
  fixes c c' :: "'w::len word"
  assumes "c * c' = 1"
  shows "inj (\<lambda>x. x * c)"
  by (rule injI) (metis assms mult.assoc mult.right_neutral)

lemmas inj_mix = inj_xorshift inj_times_unit

lemma inj_mixer:
  fixes c1 c2 c3 :: "'w::len word"
  assumes "0 < k1" "0 < k2" "0 < k3" "0 < k4" and "c1 * da = 1" "c2 * db = 1" "c3 * dc = 1"
  shows "inj (\<lambda>x0. let x = (x0 XOR drop_bit k1 x0) * c1; x = (x XOR drop_bit k2 x) * c2;
                       x = (x XOR drop_bit k3 x) * c3 in x XOR drop_bit k4 x)"
proof -
  let ?m = "\<lambda>k c x :: 'w word. (x XOR drop_bit k x) * c"
  have m: "inj (?m k c)" if "0 < k" "c * d = 1" for k c d
    using inj_compose [OF inj_times_unit [OF that(2)] inj_xorshift [OF that(1)]] by (simp add: o_def)
  from inj_compose [OF inj_xorshift [OF assms(4)] inj_compose [OF m [OF assms(3,7)] inj_compose [OF m [OF assms(2,6)] m [OF assms(1,5)]]]]
  show ?thesis by (simp add: o_def Let_def)
qed

lemma bij_mixers: "bij hash_int16" "bij hash_int32" "bij hash_int64"
proof -
  have "inj hash_int16"
    unfolding hash_int16_def by (rule inj_mixer [where da = "0x5c9b" and db = "0x7147" and dc = "0xc01d"]) simp_all
  then show "bij hash_int16" by (simp add: bij_def finite_UNIV_inj_surj)
  have "inj hash_int32"
    unfolding hash_int32_def
    by (rule inj_mixer [where da = "0x79a85073" and db = "0x469e0db1" and dc = "0x32b21703"]) simp_all
  then show "bij hash_int32" by (simp add: bij_def finite_UNIV_inj_surj)
  have "inj hash_int64"
    unfolding hash_int64_def Let_def [of "0xbea225f9eb34556d"]
    by (rule inj_mixer [where da = "0xdd01f46a7e6ffc65" and db = "0xdd01f46a7e6ffc65" and dc = "0xdd01f46a7e6ffc65"]) simp_all
  then show "bij hash_int64" by (simp add: bij_def finite_UNIV_inj_surj)
qed

section \<open>Properties\<close>

text \<open>
  The compile-time hash is the run-time hash.  The separate implementation for compile-time
  evaluation, with its own loops and index arithmetic, computes \<open>Wyhash::hash\<close> for every seed and
  every input.
\<close>

lemma hash_const_eq_hash: "hash_const sd input = wyhash_hash sd input"
proof -
  let ?s = "wy_s0 (wyhash_init sd)"
  have s: "sd XOR wy_mix (sd XOR SECRET ! 0) (SECRET ! Suc 0) = ?s" "wy_s1 (wyhash_init sd) = ?s"
      "wy_s2 (wyhash_init sd) = ?s"
    by (simp_all add: wyhash_init_def const_mix_eq Let_def)
  have q: "length input div 8 * 4 + 4 \<le> length input" if "4 \<le> length input"
  proof -
    have "length input div 8 * 8 \<le> length input" by simp
    then show ?thesis using that by (cases "length input div 8") auto
  qed
  consider "length input \<le> 16" | "16 < length input" "length input < 48" | "48 \<le> length input" by linarith
  then show ?thesis
  proof cases
    case 1
    then show ?thesis
      using q by (auto simp: hash_const_def wyhash_hash_def s(1) Let_def wy_final2_def wy_small_key_def const_mix_eq
          wy_mum_def const_read4_eq)
  next
    case 2
    then show ?thesis
      using const_final_loop_eq [of 0 input ?s 0]
      by (simp add: hash_const_def wyhash_hash_def s Let_def wy_final2_def wy_final1_def const_mix_eq
          wy_mum_def const_read8_eq)
  next
    case 3
    obtain t0 t1 t2 j where l: "wy_hash_loop ?s ?s ?s input 0 = (t0, t1, t2, j)" by (metis prod_cases4)
    have "j \<le> length input" using wy_hash_loop_bound [OF 3 _ l] 3 by fastforce
    then show ?thesis
      using const_final_loop_eq [of j input "t0 XOR (t1 XOR t2)" 0] const_round_loop_eq [OF 3, of ?s ?s ?s 0] 3 l
      by (simp add: hash_const_def wyhash_hash_def s Let_def wy_final2_def wy_final1_def wy_final0_def const_mix_eq
          wy_mum_def const_read8_eq)
  qed
qed

text \<open>
  Case-insensitive hashing.  The hash of the lower-cased view, streamed in chunks of 48 bytes
  through a scratch buffer, is the one-shot hash of the lower-cased input, so inputs that differ
  only in the case of ASCII letters have the same hash.
\<close>

lemma hash_ascii_lowercase_eq:
  assumes "length b < 2 ^ 64"
  shows "hash_ascii_lowercase sd b = wyhash_hash sd (map to_ascii_lowercase b)"
proof -
  obtain chunks where c: "lowercase_loop (wyhash_init sd) b = foldl wyhash_update (wyhash_init sd) chunks"
      "concat chunks = map to_ascii_lowercase b"
    using lowercase_loop_chunks by blast
  have "wyhash_final (lowercase_loop (wyhash_init sd) b) = wyhash_hash sd (map to_ascii_lowercase b)"
    unfolding c(1) using wy.final_foldl [of chunks sd] c(2) assms by simp
  then show ?thesis by (simp add: hash_ascii_lowercase_def)
qed

text \<open>
  The integer mixers lose nothing.  Each of the three mixers is a bijection of its width, so
  distinct integer keys never collide before the reduction to a bucket.
\<close>

lemma hash_int_bijective: "bij hash_int16 \<and> bij hash_int32 \<and> bij hash_int64"
  using bij_mixers by blast

end
