(* ===== verification/Bit_Array.thy ===== *)
theory Bit_Array
  imports Bit_Set
begin

unbundle bit_operations_syntax

text \<open>
  The bit sets of several words of \<^verbatim>\<open>src/src/collections/bit_set.rs\<close>, at the level of the mask
  array that \<open>ArrayBitSet\<close> and \<open>DynamicBitSetUnmanaged\<close> share: single-bit updates, the range write
  over word boundaries, the binary operations, the searches and the iterator.  A panic of an index
  outside the array is \<open>None\<close>.
\<close>

section \<open>Definitions\<close>

type_synonym masks = "u64 list"

definition word_mask_bit :: "nat \<Rightarrow> u64" where
  "word_mask_bit index = push_bit (index mod 64) 1"

definition word_mask_index :: "nat \<Rightarrow> nat" where
  "word_mask_index index = index div 64"

definition num_masks_for :: "nat \<Rightarrow> nat" where
  "num_masks_for bit_length = (bit_length + 63) div 64"

text \<open>\<open>usize::MAX >> padding_bits\<close> of the last word of a set of \<open>n\<close> bits.\<close>

definition last_item_mask :: "nat \<Rightarrow> u64" where
  "last_item_mask n = drop_bit (num_masks_for n * 64 - n) (- 1)"

text \<open>\<open>masks[k] = f(masks[k])\<close>.\<close>

definition update_mask :: "masks \<Rightarrow> nat \<Rightarrow> (u64 \<Rightarrow> u64) \<Rightarrow> masks option" where
  "update_mask ms k f = (if k < length ms then Some (ms[k := f (ms ! k)]) else None)"

definition masks_is_set :: "masks \<Rightarrow> nat \<Rightarrow> bool option" where
  "masks_is_set ms index =
     (if word_mask_index index < length ms
      then Some (ms ! word_mask_index index AND word_mask_bit index \<noteq> 0) else None)"

definition masks_set_value :: "masks \<Rightarrow> nat \<Rightarrow> bool \<Rightarrow> masks option" where
  "masks_set_value ms index value =
     (let b = word_mask_bit index; new_bit = b AND bool_mask_usize value
      in update_mask ms (word_mask_index index) (\<lambda>m. (m AND NOT b) OR new_bit))"

definition masks_set :: "masks \<Rightarrow> nat \<Rightarrow> masks option" where
  "masks_set ms index = update_mask ms (word_mask_index index) (\<lambda>m. m OR word_mask_bit index)"

definition masks_unset :: "masks \<Rightarrow> nat \<Rightarrow> masks option" where
  "masks_unset ms index = update_mask ms (word_mask_index index) (\<lambda>m. m AND NOT (word_mask_bit index))"

definition masks_toggle :: "masks \<Rightarrow> nat \<Rightarrow> masks option" where
  "masks_toggle ms index = update_mask ms (word_mask_index index) (\<lambda>m. m XOR word_mask_bit index)"

definition set_range_value_masks :: "masks \<Rightarrow> nat \<Rightarrow> nat \<Rightarrow> bool \<Rightarrow> masks option" where
  "set_range_value_masks ms start end_ix value =
     (if start = end_ix then Some ms
      else
        (let start_mask_index = word_mask_index start; start_bit = start mod 64;
             end_mask_index = word_mask_index end_ix; end_bit = end_ix mod 64
         in if start_mask_index = end_mask_index then
              Option.bind
                (update_mask ms start_mask_index
                   (\<lambda>m. m AND NOT (push_bit start_bit (bool_mask_usize True)
                                 AND drop_bit (63 - (end_bit - 1)) (bool_mask_usize True))))
                (\<lambda>ms. update_mask ms start_mask_index
                   (\<lambda>m. m OR (push_bit start_bit (bool_mask_usize value)
                            AND drop_bit (63 - (end_bit - 1)) (bool_mask_usize value))))
            else
              Option.bind
                (if start_bit > 0
                 then map_option (\<lambda>ms. (ms, start_mask_index + 1))
                        (update_mask ms start_mask_index
                           (\<lambda>m. (m AND NOT (push_bit start_bit (bool_mask_usize True)))
                              OR push_bit start_bit (bool_mask_usize value)))
                 else Some (ms, start_mask_index))
                (\<lambda>(ms, bulk_mask_index).
                   if bulk_mask_index \<le> end_mask_index \<and> end_mask_index \<le> length ms then
                     (let ms = take bulk_mask_index ms
                               @ replicate (end_mask_index - bulk_mask_index) (bool_mask_usize value)
                               @ drop end_mask_index ms
                      in if end_bit > 0
                         then update_mask ms end_mask_index
                                (\<lambda>m. (m AND push_bit end_bit (bool_mask_usize True))
                                   OR drop_bit (63 - (end_bit - 1)) (bool_mask_usize value))
                         else Some ms)
                   else None)))"

section \<open>The members of a mask array\<close>

definition arr_members :: "masks \<Rightarrow> nat set" where
  "arr_members ms = {i. i div 64 < length ms \<and> bit (ms ! (i div 64)) (i mod 64)}"

text \<open>The invariant of a set of \<open>n\<close> bits: the words it needs, with no padding bit set.\<close>

definition masks_ok :: "nat \<Rightarrow> masks \<Rightarrow> bool" where
  "masks_ok n ms \<longleftrightarrow> length ms = num_masks_for n \<and> arr_members ms \<subseteq> {..<n}"

lemma word_index_less: "i < n \<Longrightarrow> i div 64 < num_masks_for n"
proof -
  assume "i < n"
  then have "i div 64 \<le> (n - 1) div 64" by (intro div_le_mono) simp
  moreover have "num_masks_for n = Suc ((n - 1) div 64)"
    using \<open>i < n\<close> by (simp add: num_masks_for_def div_add_self2 [symmetric])
  ultimately show ?thesis by simp
qed

lemma num_masks_covers: "n \<le> 64 * num_masks_for n"
proof (cases n)
  case (Suc m)
  have "m div 64 < num_masks_for n" using word_index_less [of m n] Suc by simp
  then have "m < num_masks_for n * 64" by (simp add: div_less_iff_less_mult)
  then show ?thesis using Suc by simp
qed simp

lemma word_le: "(a :: nat) \<le> i \<longleftrightarrow> a div 64 < i div 64 \<or> a div 64 = i div 64 \<and> a mod 64 \<le> i mod 64"
proof -
  have "a = a div 64 * 64 + a mod 64" "i = i div 64 * 64 + i mod 64" "a mod 64 < 64" "i mod 64 < 64" by simp_all
  then show ?thesis by linarith
qed

lemma word_less: "i < (e :: nat) \<longleftrightarrow> i div 64 < e div 64 \<or> i div 64 = e div 64 \<and> i mod 64 < e mod 64"
  using word_le [of e i] by (auto simp: not_le [symmetric])

lemma bit_word_mask_bit: "j < 64 \<Longrightarrow> bit (word_mask_bit i) j \<longleftrightarrow> j = i mod 64"
  by (auto simp: word_mask_bit_def bit_simps)

lemma word_index_eq: "(i :: nat) = k \<longleftrightarrow> i div 64 = k div 64 \<and> i mod 64 = k mod 64"
  by (metis div_mult_mod_eq)

text \<open>A step that keeps the number of words is described by its bits.\<close>

lemma arr_members_eqI:
  assumes "length ms' = length ms"
    and "\<And>i. i div 64 < length ms \<Longrightarrow> bit (ms' ! (i div 64)) (i mod 64) \<longleftrightarrow> i \<in> S"
    and "\<And>i. i \<in> S \<Longrightarrow> i div 64 < length ms"
  shows "arr_members ms' = S"
  using assms by (auto simp: arr_members_def)

lemma masks_update_members:
  assumes "i div 64 < length ms"
  shows "\<exists>ms'. masks_set ms i = Some ms' \<and> length ms' = length ms \<and> arr_members ms' = insert i (arr_members ms)"
    and "\<exists>ms'. masks_unset ms i = Some ms' \<and> length ms' = length ms \<and> arr_members ms' = arr_members ms - {i}"
    and "\<exists>ms'. masks_toggle ms i = Some ms' \<and> length ms' = length ms
           \<and> arr_members ms' = (if i \<in> arr_members ms then arr_members ms - {i} else insert i (arr_members ms))"
    and "\<exists>ms'. masks_set_value ms i v = Some ms' \<and> length ms' = length ms
           \<and> arr_members ms' = (if v then insert i (arr_members ms) else arr_members ms - {i})"
    and "masks_is_set ms i = Some (i \<in> arr_members ms)"
proof -
  have m: "j mod 64 < 64" for j :: nat by simp
  note bits = bit_and_iff bit_or_iff bit_xor_iff bit_not_iff bit_word_mask_bit [OF m] bit_bool_mask nth_list_update
  note defs = masks_set_def masks_unset_def masks_toggle_def masks_set_value_def update_mask_def word_mask_index_def
  show "\<exists>ms'. masks_set ms i = Some ms' \<and> length ms' = length ms \<and> arr_members ms' = insert i (arr_members ms)"
    using assms by (auto simp: defs arr_members_def bits word_index_eq [of _ i])
  show "\<exists>ms'. masks_unset ms i = Some ms' \<and> length ms' = length ms \<and> arr_members ms' = arr_members ms - {i}"
    using assms by (auto simp: defs arr_members_def bits word_index_eq [of _ i])
  show "\<exists>ms'. masks_toggle ms i = Some ms' \<and> length ms' = length ms
      \<and> arr_members ms' = (if i \<in> arr_members ms then arr_members ms - {i} else insert i (arr_members ms))"
    using assms by (auto simp: defs arr_members_def bits word_index_eq [of _ i])
  show "\<exists>ms'. masks_set_value ms i v = Some ms' \<and> length ms' = length ms
      \<and> arr_members ms' = (if v then insert i (arr_members ms) else arr_members ms - {i})"
    using assms by (auto simp: defs Let_def arr_members_def bits word_index_eq [of _ i])
  define w where "w = ms ! (i div 64)"
  have k: "bit (w AND word_mask_bit i) k \<longleftrightarrow> k = i mod 64 \<and> bit w k" for k
    using bit_imp_le_length [of w k] bit_word_mask_bit [of k i] by (auto simp: bit_and_iff)
  have "w AND word_mask_bit i = 0 \<longleftrightarrow> \<not> bit w (i mod 64)"
  proof
    assume "w AND word_mask_bit i = 0"
    then show "\<not> bit w (i mod 64)" using k [of "i mod 64"] by simp
  next
    assume "\<not> bit w (i mod 64)"
    then show "w AND word_mask_bit i = 0" by (intro bit_word_eqI) (auto simp: k)
  qed
  then show "masks_is_set ms i = Some (i \<in> arr_members ms)"
    using assms by (simp add: masks_is_set_def word_mask_index_def arr_members_def w_def)
qed

text \<open>The range write, word by word.\<close>

lemma bit_high_mask: "j < 64 \<Longrightarrow> bit (push_bit b (bool_mask_usize v)) j \<longleftrightarrow> v \<and> b \<le> j"
  by (auto simp: bit_push_bit_iff bit_bool_mask)

lemma bit_low_mask: "0 < e \<Longrightarrow> e \<le> 64 \<Longrightarrow> j < 64 \<Longrightarrow> bit (drop_bit (63 - (e - 1)) (bool_mask_usize v)) j \<longleftrightarrow> v \<and> j < e"
  by (auto simp: bit_drop_bit_eq bit_bool_mask)

lemma arr_members_range:
  assumes len: "length ms' = length ms" and e: "end_ix \<le> 64 * length ms"
    and bits: "\<And>k j. k < length ms \<Longrightarrow> j < 64 \<Longrightarrow>
      bit (ms' ! k) j \<longleftrightarrow> (if start \<le> 64 * k + j \<and> 64 * k + j < end_ix then v else bit (ms ! k) j)"
  shows "arr_members ms' = (if v then arr_members ms \<union> {start..<end_ix} else arr_members ms - {start..<end_ix})"
proof (rule arr_members_eqI [OF len])
  fix i :: nat
  let ?S = "if v then arr_members ms \<union> {start..<end_ix} else arr_members ms - {start..<end_ix}"
  have i: "64 * (i div 64) + i mod 64 = i" by simp
  show "bit (ms' ! (i div 64)) (i mod 64) \<longleftrightarrow> i \<in> ?S" if "i div 64 < length ms"
    using bits [of "i div 64" "i mod 64"] that unfolding i by (auto simp: arr_members_def)
  show "i div 64 < length ms" if "i \<in> ?S"
  proof (cases "i < end_ix")
    case True
    then have "i < length ms * 64" using e by linarith
    then show ?thesis by (rule less_mult_imp_div_less)
  next
    case False
    then show ?thesis using that by (auto simp: arr_members_def split: if_splits)
  qed
qed

text \<open>The new content of word \<open>k\<close>, as the code computes it in the first, the inner and the last word.\<close>

definition range_word :: "nat \<Rightarrow> nat \<Rightarrow> bool \<Rightarrow> nat \<Rightarrow> u64 \<Rightarrow> u64" where
  "range_word start end_ix v k w =
     (let s = start div 64; b = start mod 64; e = end_ix div 64; f = end_ix mod 64
      in if s = e then
           (if k = s then (w AND NOT (push_bit b (bool_mask_usize True) AND drop_bit (63 - (f - 1)) (bool_mask_usize True)))
                          OR (push_bit b (bool_mask_usize v) AND drop_bit (63 - (f - 1)) (bool_mask_usize v))
            else w)
         else if k = s \<and> 0 < b then (w AND NOT (push_bit b (bool_mask_usize True))) OR push_bit b (bool_mask_usize v)
         else if s \<le> k \<and> k < e then bool_mask_usize v
         else if k = e \<and> 0 < f then (w AND push_bit f (bool_mask_usize True)) OR drop_bit (63 - (f - 1)) (bool_mask_usize v)
         else w)"

lemma bit_range_word:
  assumes "start < end_ix" and "j < 64"
  shows "bit (range_word start end_ix v k w) j \<longleftrightarrow> (if start \<le> 64 * k + j \<and> 64 * k + j < end_ix then v else bit w j)"
proof -
  define s b e f where "s = start div 64" and "b = start mod 64" and "e = end_ix div 64" and "f = end_ix mod 64"
  have f64: "f \<le> 64" by (simp add: f_def)
  have kj: "(64 * k + j) div 64 = k" "(64 * k + j) mod 64 = j" using assms(2) by simp_all
  have inr: "start \<le> 64 * k + j \<and> 64 * k + j < end_ix \<longleftrightarrow> (s < k \<or> s = k \<and> b \<le> j) \<and> (k < e \<or> k = e \<and> j < f)"
    using word_le [of start "64 * k + j"] word_less [of "64 * k + j" end_ix] unfolding kj by (simp add: s_def b_def e_def f_def)
  have se: "s < e \<or> s = e \<and> b < f" using word_less [of start end_ix] assms(1) by (simp add: s_def b_def e_def f_def)
  have low: "0 < f \<Longrightarrow> bit (drop_bit (64 - f) (bool_mask_usize v)) j \<longleftrightarrow> v \<and> j < f" for v
    using bit_low_mask [OF _ f64 assms(2)] by simp
  note bits = bit_and_iff bit_or_iff bit_not_iff bit_high_mask [OF assms(2)] bit_bool_mask low
  show ?thesis
    unfolding inr range_word_def Let_def s_def [symmetric] b_def [symmetric] e_def [symmetric] f_def [symmetric]
    using se assms(2) by (auto simp: bits)
qed

lemma set_range_value_masks_members:
  assumes "start \<le> end_ix" and "end_ix \<le> 64 * length ms"
  shows "\<exists>ms'. set_range_value_masks ms start end_ix v = Some ms' \<and> length ms' = length ms
     \<and> arr_members ms' = (if v then arr_members ms \<union> {start..<end_ix} else arr_members ms - {start..<end_ix})"
proof (cases "start = end_ix")
  case False
  then have lt: "start < end_ix" using assms(1) by simp
  define s b e f where "s = start div 64" and "b = start mod 64" and "e = end_ix div 64" and "f = end_ix mod 64"
  note folds = s_def [symmetric] b_def [symmetric] e_def [symmetric] f_def [symmetric]
  have el: "e \<le> length ms" using div_le_mono [OF assms(2), of 64] by (simp add: e_def)
  have el': "e < length ms" if "0 < f"
    using that assms(2) word_less [of "64 * length ms" end_ix] el by (auto simp: e_def f_def not_less [symmetric])
  have se: "s < e \<or> s = e \<and> b < f" using word_less [of start end_ix] lt by (simp add: s_def b_def e_def f_def)
  have "\<exists>ms'. set_range_value_masks ms start end_ix v = Some ms' \<and> length ms' = length ms
      \<and> (\<forall>k<length ms. ms' ! k = range_word start end_ix v k (ms ! k))"
  proof (cases "s = e")
    case True
    then show ?thesis
      using False el' se
      by (simp add: set_range_value_masks_def range_word_def Let_def word_mask_index_def update_mask_def folds nth_list_update)
  next
    case ne: False
    then have "s < e" using se by blast
    define ms1 where "ms1 = (if 0 < b then ms[s := (ms ! s AND NOT (push_bit b (bool_mask_usize True))) OR push_bit b (bool_mask_usize v)] else ms)"
    define bulk where "bulk = (if 0 < b then s + 1 else s)"
    define ms2 where "ms2 = take bulk ms1 @ replicate (e - bulk) (bool_mask_usize v) @ drop e ms1"
    define ms3 where "ms3 = (if 0 < f then ms2[e := (ms2 ! e AND push_bit f (bool_mask_usize True)) OR drop_bit (63 - (f - 1)) (bool_mask_usize v)] else ms2)"
    have l1: "length ms1 = length ms" by (simp add: ms1_def)
    have be: "bulk \<le> e" using \<open>s < e\<close> by (simp add: bulk_def)
    have l2: "length ms2 = length ms" using be el l1 by (simp add: ms2_def)
    have l3: "length ms3 = length ms" using l2 by (simp add: ms3_def)
    have "set_range_value_masks ms start end_ix v = Some ms3"
      using False ne el el' be l1 l2 \<open>s < e\<close>
      by (cases "0 < f") (auto simp: set_range_value_masks_def Let_def word_mask_index_def update_mask_def folds
          ms1_def bulk_def ms2_def ms3_def)
    moreover have "ms3 ! k = range_word start end_ix v k (ms ! k)" if "k < length ms" for k
    proof -
      have n1: "ms1 ! k = (if k = s \<and> 0 < b then (ms ! s AND NOT (push_bit b (bool_mask_usize True))) OR push_bit b (bool_mask_usize v) else ms ! k)"
        using that \<open>s < e\<close> el by (auto simp: ms1_def nth_list_update)
      have n2: "ms2 ! k = (if bulk \<le> k \<and> k < e then bool_mask_usize v else ms1 ! k)"
        using that be el l1 by (auto simp: ms2_def nth_append)
      have n3: "ms3 ! k = (if k = e \<and> 0 < f then (ms2 ! k AND push_bit f (bool_mask_usize True)) OR drop_bit (63 - (f - 1)) (bool_mask_usize v) else ms2 ! k)"
        using that l2 by (auto simp: ms3_def nth_list_update)
      show ?thesis
        using ne \<open>s < e\<close> unfolding n3 n2 n1 range_word_def Let_def folds by (auto simp: bulk_def n1 n2)
    qed
    ultimately show ?thesis using l3 by blast
  qed
  then obtain ms' where ms': "set_range_value_masks ms start end_ix v = Some ms'" "length ms' = length ms"
      "\<And>k. k < length ms \<Longrightarrow> ms' ! k = range_word start end_ix v k (ms ! k)"
    by blast
  then show ?thesis
    using arr_members_range [OF ms'(2) assms(2), of start v] bit_range_word [OF lt] by auto
qed (simp add: set_range_value_masks_def)

section \<open>Whole-array operations\<close>

text \<open>
  \<open>zip\<close> of two mask arrays under a word operation; the raw loop of the dynamic sets reads word \<open>i\<close>
  of the other set for every word of this one, so a shorter other set is read out of bounds.
\<close>

definition zip_masks_raw :: "(u64 \<Rightarrow> u64 \<Rightarrow> u64) \<Rightarrow> masks \<Rightarrow> masks \<Rightarrow> masks option" where
  "zip_masks_raw f dst src = (if length dst \<le> length src then Some (map2 f dst src) else None)"

text \<open>The padding bits of the last word are cleared.\<close>

definition clear_padding :: "nat \<Rightarrow> masks \<Rightarrow> masks option" where
  "clear_padding n ms = update_mask ms (num_masks_for n - 1) (\<lambda>m. m AND last_item_mask n)"

fun masks_find_first :: "nat \<Rightarrow> masks \<Rightarrow> nat option" where
  "masks_find_first offset [] = None"
| "masks_find_first offset (m # ms) =
     (if m \<noteq> 0 then Some (offset + trailing_zeros m) else masks_find_first (offset + 64) ms)"

fun masks_toggle_first :: "nat \<Rightarrow> masks \<Rightarrow> nat option \<times> masks" where
  "masks_toggle_first offset [] = (None, [])"
| "masks_toggle_first offset (m # ms) =
     (if m \<noteq> 0 then (Some (offset + trailing_zeros m), (m AND (m - 1)) # ms)
      else (case masks_toggle_first (offset + 64) ms of (r, ms') \<Rightarrow> (r, m # ms')))"

definition masks_count :: "masks \<Rightarrow> nat" where
  "masks_count ms = (\<Sum>m\<leftarrow>ms. bs_count m)"

definition masks_has_intersection :: "masks \<Rightarrow> masks \<Rightarrow> bool" where
  "masks_has_intersection a b = list_ex (\<lambda>(x, y). x AND y \<noteq> 0) (zip a b)"

lemma bit_last_item_mask:
  assumes "0 < n" and "j < 64"
  shows "bit (last_item_mask n) j \<longleftrightarrow> 64 * (num_masks_for n - 1) + j < n"
proof -
  define q where "q = (n - 1) div 64"
  have q: "num_masks_for n = Suc q" "q * 64 \<le> n - 1"
    using assms(1) by (simp_all add: q_def num_masks_for_def div_add_self2 [symmetric])
  then have "num_masks_for n * 64 - n + j < 64 \<longleftrightarrow> 64 * (num_masks_for n - 1) + j < n"
    using assms by auto
  then show ?thesis using assms(2) by (auto simp: last_item_mask_def bit_drop_bit_eq bit_minus_1_iff bit_mask_iff)
qed

lemma arr_members_less: "i \<in> arr_members ms \<Longrightarrow> i < 64 * length ms"
  by (auto simp: arr_members_def dest: div_less_iff_less_mult [of 64 i "length ms", THEN iffD1, rotated])

lemma finite_arr_members [simp]: "finite (arr_members ms)"
  using arr_members_less by (meson bounded_nat_set_is_finite)

lemma arr_members_inject:
  assumes "length a = length b"
  shows "arr_members a = arr_members b \<longleftrightarrow> a = b"
proof
  assume eq: "arr_members a = arr_members b"
  show "a = b"
  proof (rule nth_equalityI [OF assms])
    fix k assume k: "k < length a"
    show "a ! k = b ! k"
    proof (rule bit_word_eqI)
      fix j assume "j < LENGTH(64)"
      then have "(64 * k + j) div 64 = k" "(64 * k + j) mod 64 = j" by simp_all
      moreover have "64 * k + j \<in> arr_members a \<longleftrightarrow> 64 * k + j \<in> arr_members b" using eq by simp
      ultimately show "bit (a ! k) j = bit (b ! k) j" using k assms by (simp add: arr_members_def)
    qed
  qed
qed simp

lemma zip_masks_members:
  assumes "length a = length b"
  shows "arr_members (map2 (OR) a b) = arr_members a \<union> arr_members b"
    and "arr_members (map2 (AND) a b) = arr_members a \<inter> arr_members b"
    and "arr_members (map2 (XOR) a b) = (arr_members a - arr_members b) \<union> (arr_members b - arr_members a)"
    and "arr_members (map2 (\<lambda>x y. x AND NOT y) a b) = arr_members a - arr_members b"
  using assms by (auto simp: arr_members_def bit_and_iff bit_or_iff bit_xor_iff bit_not_iff)

lemma clear_padding_members:
  assumes "0 < n" and "length ms = num_masks_for n"
  shows "\<exists>ms'. clear_padding n ms = Some ms' \<and> length ms' = length ms \<and> arr_members ms' = arr_members ms \<inter> {..<n}"
proof -
  let ?k = "num_masks_for n - 1"
  have k: "?k < length ms" using word_index_less [of 0 n] assms by simp
  let ?ms = "ms[?k := ms ! ?k AND last_item_mask n]"
  have "arr_members ?ms = arr_members ms \<inter> {..<n}"
  proof (rule arr_members_eqI)
    fix i :: nat assume i: "i div 64 < length ms"
    have ij: "64 * (i div 64) + i mod 64 = i" by simp
    have "i < n" if "i div 64 < ?k"
    proof -
      have "i < 64 * ?k" using that by (simp add: div_less_iff_less_mult)
      also have "64 * ?k \<le> n" using assms(1) by (simp add: num_masks_for_def)
      finally show ?thesis .
    qed
    then show "bit (?ms ! (i div 64)) (i mod 64) \<longleftrightarrow> i \<in> arr_members ms \<inter> {..<n}"
      using i assms(2) k bit_last_item_mask [OF assms(1), of "i mod 64"] ij
      by (auto simp: nth_list_update bit_and_iff arr_members_def)
  qed (auto simp: arr_members_def)
  then show ?thesis using k by (auto simp: clear_padding_def update_mask_def)
qed

section \<open>Searching, counting and iterating\<close>

text \<open>The members of an array, word by word.\<close>

lemma arr_members_Nil [simp]: "arr_members [] = {}"
  by (simp add: arr_members_def)

lemma arr_members_Cons: "arr_members (m # ms) = members m \<union> (\<lambda>i. i + 64) ` arr_members ms"
proof (rule set_eqI)
  fix i
  show "i \<in> arr_members (m # ms) \<longleftrightarrow> i \<in> members m \<union> (\<lambda>i. i + 64) ` arr_members ms"
  proof (cases "i < 64")
    case True
    then show ?thesis by (auto simp: arr_members_def members_def)
  next
    case False
    then obtain k where k: "i = k + 64" by (metis add.commute le_add_diff_inverse not_less)
    have "(k + 64) div 64 = Suc (k div 64)" "(k + 64) mod 64 = k mod 64" by simp_all
    then have "i \<in> arr_members (m # ms) \<longleftrightarrow> k \<in> arr_members ms" unfolding k by (simp add: arr_members_def)
    then show ?thesis using members_less [of i m] False by (auto simp: k)
  qed
qed

lemma arr_members_sorted:
  "sorted_list_of_set (arr_members (m # ms))
     = sorted_list_of_set (members m) @ map (\<lambda>i. i + 64) (sorted_list_of_set (arr_members ms))"
proof (rule sorted_distinct_set_unique)
  show "sorted (sorted_list_of_set (members m) @ map (\<lambda>i. i + 64) (sorted_list_of_set (arr_members ms)))"
    using members_less [of _ m] by (fastforce simp: sorted_append sorted_map)
  show "distinct (sorted_list_of_set (members m) @ map (\<lambda>i. i + 64) (sorted_list_of_set (arr_members ms)))"
    using members_less [of _ m] by (auto simp: distinct_map inj_on_def)
qed (auto simp: arr_members_Cons)

lemma masks_find_first_hd:
  "masks_find_first off ms
     = (if arr_members ms = {} then None else Some (off + hd (sorted_list_of_set (arr_members ms))))"
proof (induction ms arbitrary: off)
  case (Cons m ms)
  show ?case
  proof (cases "m = 0")
    case True
    then show ?thesis
      using Cons.IH [of "off + 64"] unfolding arr_members_sorted by (auto simp: arr_members_Cons hd_map)
  next
    case False
    note ne = members_nonzero [OF False]
    have "hd (sorted_list_of_set (members m)) = Min (members m)"
      using sorted_list_of_set_Min [OF finite_members ne] by simp
    then show ?thesis
      using False ne unfolding arr_members_sorted by (auto simp: arr_members_Cons trailing_zeros_Min hd_append)
  qed
qed simp

lemma masks_find_first_Min:
  "masks_find_first 0 ms = (if arr_members ms = {} then None else Some (Min (arr_members ms)))"
  using sorted_list_of_set_Min [OF finite_arr_members, of ms] by (simp add: masks_find_first_hd)

lemma masks_toggle_first_members:
  "masks_toggle_first off ms = (masks_find_first off ms, snd (masks_toggle_first off ms))
   \<and> length (snd (masks_toggle_first off ms)) = length ms
   \<and> arr_members (snd (masks_toggle_first off ms)) = arr_members ms - {Min (arr_members ms)}"
proof (induction ms arbitrary: off)
  case (Cons m ms)
  obtain r ms' where r: "masks_toggle_first (off + 64) ms = (r, ms')" by (cases "masks_toggle_first (off + 64) ms")
  show ?case
  proof (cases "m = 0")
    case True
    define A where "A = arr_members ms"
    have "Min ((\<lambda>i. i + 64) ` A) = Min A + 64" if "A \<noteq> {}"
      using that by (intro mono_Min_commute [symmetric]) (auto simp: mono_def A_def)
    then have "(\<lambda>i. i + 64) ` A - {Min ((\<lambda>i. i + 64) ` A)} = (\<lambda>i. i + 64) ` (A - {Min A})" by (cases "A = {}") auto
    moreover have "r = masks_find_first (off + 64) ms" "length ms' = length ms" "arr_members ms' = A - {Min A}"
      using Cons.IH [of "off + 64"] by (simp_all add: r A_def)
    ultimately show ?thesis using True by (simp add: r arr_members_Cons flip: A_def)
  next
    case False
    have "Min (arr_members (m # ms)) = Min (members m)"
    proof (rule Min_eqI)
      show "Min (members m) \<in> arr_members (m # ms)"
        using members_nonzero [OF False] by (simp add: arr_members_Cons)
      fix i assume "i \<in> arr_members (m # ms)"
      then show "Min (members m) \<le> i"
        using members_less [of "Min (members m)" m] members_nonzero [OF False] by (auto simp: arr_members_Cons)
    qed simp
    moreover have "Min (members m) < 64" using members_less [of "Min (members m)" m] members_nonzero [OF False] by simp
    ultimately have "(members m - {Min (members m)}) \<union> (\<lambda>i. i + 64) ` arr_members ms
        = arr_members (m # ms) - {Min (arr_members (m # ms))}"
      by (auto simp: arr_members_Cons)
    then show ?thesis
      using False clear_lowest_members [OF False] by (simp add: arr_members_Cons [of "m AND (m - 1)"])
  qed
qed simp

lemma bs_count_card: "bs_count m = card (members m)"
proof -
  have "members m = set (filter (bit m) [0..<64])" using members_less [of _ m] by (auto simp: members_def)
  then show ?thesis unfolding bs_count_def by (simp only:) (rule distinct_card [symmetric], simp)
qed

lemma masks_count_card: "masks_count ms = card (arr_members ms)"
proof (induction ms)
  case (Cons m ms)
  have "card (arr_members (m # ms)) = card (members m) + card ((\<lambda>i. i + 64) ` arr_members ms)"
    unfolding arr_members_Cons using members_less [of _ m] by (intro card_Un_disjoint) auto
  also have "card ((\<lambda>i. i + 64) ` arr_members ms) = card (arr_members ms)"
    by (intro card_image) (simp add: inj_on_def)
  finally show ?case using Cons by (simp add: masks_count_def bs_count_card)
qed (simp add: masks_count_def)

lemma list_all_zero: "list_all (\<lambda>w. w = 0) xs \<longleftrightarrow> xs = replicate (length xs) 0"
  by (induction xs) auto

lemma masks_has_intersection_iff:
  assumes "length a = length b"
  shows "masks_has_intersection a b \<longleftrightarrow> arr_members a \<inter> arr_members b \<noteq> {}"
proof -
  have "masks_has_intersection a b \<longleftrightarrow> \<not> list_all (\<lambda>w. w = 0) (map2 (AND) a b)"
    by (fastforce simp: masks_has_intersection_def list_ex_iff list_all_iff)
  also have "list_all (\<lambda>w. w = 0) (map2 (AND) a b) \<longleftrightarrow> map2 (AND) a b = replicate (length a) 0"
    using list_all_zero [of "map2 (AND) a b"] assms by simp
  also have "\<dots> \<longleftrightarrow> arr_members (map2 (AND) a b) = arr_members (replicate (length a) 0)"
    using assms by (intro arr_members_inject [symmetric]) simp
  also have "arr_members (replicate (length a) 0) = {}" by (auto simp: arr_members_def)
  finally show ?thesis using zip_masks_members(2) [OF assms] by simp
qed

end
