(* ===== verification/Bit_Iterator.thy ===== *)
theory Bit_Iterator
  imports Bit_Array
begin

unbundle bit_operations_syntax

text \<open>
  The iterator over a mask array (\<open>BitSetIterator\<close>), in both directions, over the set and over the
  unset bits.  It is shown to stop and to enumerate the members, or the non-members below the size,
  in order.
\<close>

section \<open>Definitions\<close>

record bsi =
  bits_remain :: u64
  words_remain :: masks
  bit_offset :: nat
  last_word_mask :: u64

definition bsi_next_word :: "bool \<Rightarrow> bool \<Rightarrow> bool \<Rightarrow> bsi \<Rightarrow> bsi" where
  "bsi_next_word kind_set dir_fwd is_first_word it =
     (let ws = words_remain it;
          word = (if dir_fwd then hd ws else last ws);
          word =
            (if \<not> kind_set then
               (let w = NOT word
                in if (\<not> dir_fwd \<and> is_first_word) \<or> (dir_fwd \<and> length ws = 1) then w AND last_word_mask it else w)
             else word)
      in it\<lparr>words_remain := (if dir_fwd then tl ws else butlast ws), bits_remain := word\<rparr>)"

definition bsi_init :: "bool \<Rightarrow> bool \<Rightarrow> masks \<Rightarrow> u64 \<Rightarrow> bsi" where
  "bsi_init kind_set dir_fwd ms last_mask =
     (if ms = [] then \<lparr>bits_remain = 0, words_remain = [], bit_offset = 0, last_word_mask = last_mask\<rparr>
      else bsi_next_word kind_set dir_fwd True
             \<lparr>bits_remain = 0, words_remain = ms, bit_offset = (if dir_fwd then 0 else (length ms - 1) * 64),
              last_word_mask = last_mask\<rparr>)"

text \<open>The body of the loop of \<open>next\<close>, for a word without bits left.\<close>

definition bsi_advance :: "bool \<Rightarrow> bool \<Rightarrow> bsi \<Rightarrow> bsi" where
  "bsi_advance kind_set dir_fwd it =
     (let it = bsi_next_word kind_set dir_fwd False it
      in it\<lparr>bit_offset := (if dir_fwd then bit_offset it + 64 else bit_offset it - 64)\<rparr>)"

lemma bsi_advance_words [simp]:
  "words_remain (bsi_advance k d it) = (if d then tl (words_remain it) else butlast (words_remain it))"
  by (simp add: bsi_advance_def bsi_next_word_def Let_def)

function bsi_next :: "bool \<Rightarrow> bool \<Rightarrow> bsi \<Rightarrow> nat option \<times> bsi" where
  "bsi_next kind_set dir_fwd it =
     (if bits_remain it = 0 then
        (if words_remain it = [] then (None, it) else bsi_next kind_set dir_fwd (bsi_advance kind_set dir_fwd it))
      else if dir_fwd then
        (Some (trailing_zeros (bits_remain it) + bit_offset it),
         it\<lparr>bits_remain := bits_remain it AND (bits_remain it - 1)\<rparr>)
      else
        (let top_bit = 63 - leading_zeros (bits_remain it)
         in (Some (top_bit + bit_offset it), it\<lparr>bits_remain := bits_remain it AND (push_bit top_bit 1 - 1)\<rparr>)))"
  by pat_completeness auto
termination
  by (relation "measure (\<lambda>(k, d, it). length (words_remain it))") auto

declare bsi_next.simps [simp del]

lemma bsi_next_bits:
  assumes "bits_remain it \<noteq> 0"
  shows "bsi_next k d it = (case iter_next d (bits_remain it) of (r, w) \<Rightarrow>
     (map_option (\<lambda>i. i + bit_offset it) r, it\<lparr>bits_remain := w\<rparr>))"
  using assms by (subst bsi_next.simps) (simp add: iter_next_def Let_def)

text \<open>The size of what is left, for the client's loop.\<close>

definition bsi_left :: "bsi \<Rightarrow> nat" where
  "bsi_left it = 65 * length (words_remain it) + card (members (bits_remain it))"

lemma bsi_advance_left:
  assumes "words_remain it \<noteq> []" and "bits_remain it = 0"
  shows "bsi_left (bsi_advance k d it) < bsi_left it"
proof -
  have "members w \<subseteq> {..<64}" for w using members_less by auto
  then have "card (members w) \<le> 64" for w using card_mono [of "{..<64 :: nat}" "members w"] by simp
  from this [of "bits_remain (bsi_advance k d it)"] show ?thesis
    using assms by (cases "words_remain it") (auto simp: bsi_left_def)
qed

lemma bsi_next_left: "bsi_next k d it = (Some i, it') \<Longrightarrow> bsi_left it' < bsi_left it"
proof (induction k d it rule: bsi_next.induct)
  case (1 k d it)
  show ?case
  proof (cases "bits_remain it = 0")
    case True
    then have w: "words_remain it \<noteq> []" using 1(2) by (auto simp: bsi_next.simps [of k d it])
    have "bsi_next k d (bsi_advance k d it) = (Some i, it')"
      using 1(2) True w by (simp add: bsi_next.simps [of k d it])
    from 1(1) [OF True w this] bsi_advance_left [OF w True, of k d] show ?thesis by simp
  next
    case False
    obtain r w where n: "iter_next d (bits_remain it) = (r, w)" by (cases "iter_next d (bits_remain it)")
    obtain j where "r = Some j" using n False by (auto simp: iter_next_def Let_def split: if_splits)
    then show ?thesis
      using 1(2) iter_next_card [of d "bits_remain it" j w] n by (auto simp: bsi_next_bits [OF False] bsi_left_def)
  qed
qed

function bsi_iterate :: "bool \<Rightarrow> bool \<Rightarrow> bsi \<Rightarrow> nat list" where
  "bsi_iterate k d it = (case bsi_next k d it of (None, _) \<Rightarrow> [] | (Some i, it') \<Rightarrow> i # bsi_iterate k d it')"
  by pat_completeness auto
termination
  by (relation "measure (\<lambda>(k, d, it). bsi_left it)") (auto dest: sym intro: bsi_next_left)

declare bsi_iterate.simps [simp del]

section \<open>What is enumerated\<close>

lemma bsi_iterate_done: "bits_remain it = 0 \<Longrightarrow> words_remain it = [] \<Longrightarrow> bsi_iterate k d it = []"
  by (subst bsi_iterate.simps, subst bsi_next.simps) simp

lemma bsi_iterate_advance:
  assumes "bits_remain it = 0" and "words_remain it \<noteq> []"
  shows "bsi_iterate k d it = bsi_iterate k d (bsi_advance k d it)"
proof -
  have "bsi_next k d it = bsi_next k d (bsi_advance k d it)" using assms by (subst bsi_next.simps) simp
  then show ?thesis by (subst (1 2) bsi_iterate.simps) simp
qed

lemma bsi_iterate_word:
  "bsi_iterate k d it = map (\<lambda>i. i + bit_offset it) (bs_iterate d (bits_remain it)) @ bsi_iterate k d (it\<lparr>bits_remain := 0\<rparr>)"
proof (induction "card (members (bits_remain it))" arbitrary: it rule: less_induct)
  case less
  show ?case
  proof (cases "bits_remain it = 0")
    case True
    then have eq: "it\<lparr>bits_remain := 0\<rparr> = it" by (cases it) simp
    have "bs_iterate d 0 = []" by (subst bs_iterate.simps) (simp add: iter_next_def)
    then show ?thesis unfolding eq True by simp
  next
    case False
    obtain i w where n: "iter_next d (bits_remain it) = (Some i, w)"
      using False by (cases d) (auto simp: iter_next_def Let_def)
    have c: "card (members w) < card (members (bits_remain it))" using iter_next_card [OF n] .
    have "bsi_iterate k d it = (i + bit_offset it) # bsi_iterate k d (it\<lparr>bits_remain := w\<rparr>)"
      using n by (subst bsi_iterate.simps) (simp add: bsi_next_bits [OF False])
    also have "bsi_iterate k d (it\<lparr>bits_remain := w\<rparr>)
        = map (\<lambda>i. i + bit_offset it) (bs_iterate d w) @ bsi_iterate k d (it\<lparr>bits_remain := 0\<rparr>)"
      using less [of "it\<lparr>bits_remain := w\<rparr>"] c by simp
    also have "(i + bit_offset it) # \<dots> = map (\<lambda>i. i + bit_offset it) (bs_iterate d (bits_remain it)) @ bsi_iterate k d (it\<lparr>bits_remain := 0\<rparr>)"
      using n by (subst (2) bs_iterate.simps) simp
    finally show ?thesis .
  qed
qed

text \<open>The words as the iterator sees them: complemented, and the last one without its padding, for the unset bits.\<close>

definition seen_words :: "bool \<Rightarrow> u64 \<Rightarrow> masks \<Rightarrow> masks" where
  "seen_words k lm ws = (if k then ws else (map NOT ws)[length ws - 1 := NOT (last ws) AND lm])"

lemma seen_words_Cons:
  "seen_words k lm (w # ws) = (if k then w else if ws = [] then NOT w AND lm else NOT w) # seen_words k lm ws"
  by (cases ws) (auto simp: seen_words_def)

lemma bsi_forward:
  assumes "bits_remain it = 0"
  shows "bsi_iterate k True it
     = map (\<lambda>i. i + bit_offset it + 64) (sorted_list_of_set (arr_members (seen_words k (last_word_mask it) (words_remain it))))"
  using assms
proof (induction "words_remain it" arbitrary: it)
  case Nil
  then show ?case by (simp add: bsi_iterate_done seen_words_def)
next
  case (Cons w ws)
  let ?w = "if k then w else if ws = [] then NOT w AND last_word_mask it else NOT w"
  let ?a = "bsi_advance k True it"
  have w: "words_remain it = w # ws" using Cons.hyps(2) by simp
  have a: "bits_remain ?a = ?w" "words_remain ?a = ws" "bit_offset ?a = bit_offset it + 64" "last_word_mask ?a = last_word_mask it"
    using w by (auto simp: bsi_advance_def bsi_next_word_def Let_def)
  have "bsi_iterate k True it = bsi_iterate k True ?a"
    using Cons.prems w by (intro bsi_iterate_advance) simp_all
  also have "\<dots> = map (\<lambda>i. i + bit_offset it + 64) (sorted_list_of_set (members ?w)) @ bsi_iterate k True (?a\<lparr>bits_remain := 0\<rparr>)"
    using bsi_iterate_word [of k True ?a] by (simp add: a bs_iterate_sorted add.assoc)
  also have "bsi_iterate k True (?a\<lparr>bits_remain := 0\<rparr>)
      = map (\<lambda>i. i + bit_offset it + 64) (map (\<lambda>i. i + 64) (sorted_list_of_set (arr_members (seen_words k (last_word_mask it) ws))))"
    using Cons.hyps(1) [of "?a\<lparr>bits_remain := 0\<rparr>"] by (simp add: a w ac_simps comp_def)
  finally show ?case unfolding w seen_words_Cons arr_members_sorted by simp
qed

text \<open>Backwards the words are taken from the end, and the padding is masked once, at the start.\<close>

lemma arr_members_snoc: "arr_members (ws @ [w]) = arr_members ws \<union> (\<lambda>i. i + 64 * length ws) ` members w"
proof (induction ws)
  case (Cons v ws)
  then show ?case by (auto simp: arr_members_Cons image_Un image_image ac_simps)
qed (simp add: arr_members_Cons)

lemma arr_members_sorted_snoc:
  "sorted_list_of_set (arr_members (ws @ [w]))
     = sorted_list_of_set (arr_members ws) @ map (\<lambda>i. i + 64 * length ws) (sorted_list_of_set (members w))"
proof (rule sorted_distinct_set_unique)
  show "sorted (sorted_list_of_set (arr_members ws) @ map (\<lambda>i. i + 64 * length ws) (sorted_list_of_set (members w)))"
    using arr_members_less [of _ ws] by (fastforce simp: sorted_append sorted_map)
  show "distinct (sorted_list_of_set (arr_members ws) @ map (\<lambda>i. i + 64 * length ws) (sorted_list_of_set (members w)))"
    using arr_members_less [of _ ws] by (fastforce simp: distinct_map inj_on_def)
qed (auto simp: arr_members_snoc)

lemma bsi_backward:
  assumes "bits_remain it = 0" and "bit_offset it = 64 * length (words_remain it)"
  shows "bsi_iterate k False it = rev (sorted_list_of_set (arr_members (if k then words_remain it else map NOT (words_remain it))))"
  using assms
proof (induction "length (words_remain it)" arbitrary: it)
  case 0
  then show ?case by (simp add: bsi_iterate_done)
next
  case (Suc n)
  obtain ws w where w: "words_remain it = ws @ [w]" using Suc.hyps(2) by (cases "words_remain it" rule: rev_cases) auto
  let ?w = "if k then w else NOT w"
  let ?a = "bsi_advance k False it"
  have n: "length ws = n" using Suc.hyps(2) w by simp
  have a: "bits_remain ?a = ?w" "words_remain ?a = ws" "bit_offset ?a = 64 * n"
    using w n Suc.prems(2) by (auto simp: bsi_advance_def bsi_next_word_def Let_def)
  have "bsi_iterate k False it = bsi_iterate k False ?a"
    using Suc.prems w by (intro bsi_iterate_advance) simp_all
  also have "\<dots> = map (\<lambda>i. i + 64 * n) (rev (sorted_list_of_set (members ?w))) @ bsi_iterate k False (?a\<lparr>bits_remain := 0\<rparr>)"
    using bsi_iterate_word [of k False ?a] by (simp add: a bs_iterate_sorted)
  also have "bsi_iterate k False (?a\<lparr>bits_remain := 0\<rparr>) = rev (sorted_list_of_set (arr_members (if k then ws else map NOT ws)))"
    using Suc.hyps(1) [of "?a\<lparr>bits_remain := 0\<rparr>"] n by (simp add: a w)
  finally show ?case
    using arr_members_sorted_snoc [of "if k then ws else map NOT ws" ?w] n by (cases k) (simp_all add: w rev_map)
qed

text \<open>The whole iteration from \<open>init\<close>, in terms of the words as they are seen.\<close>

lemma bsi_init_forward:
  "bsi_iterate k True (bsi_init k True ms lm) = sorted_list_of_set (arr_members (seen_words k lm ms))"
proof (cases ms)
  case Nil
  then show ?thesis by (simp add: bsi_init_def bsi_iterate_done seen_words_def)
next
  case (Cons w ws)
  define v where "v = (if k then w else if ws = [] then NOT w AND lm else NOT w)"
  have i: "bsi_init k True ms lm = \<lparr>bits_remain = v, words_remain = ws, bit_offset = 0, last_word_mask = lm\<rparr>"
    using Cons by (auto simp: bsi_init_def bsi_next_word_def Let_def v_def)
  have s: "seen_words k lm ms = v # seen_words k lm ws" by (simp add: Cons seen_words_Cons v_def)
  show ?thesis
    using bsi_iterate_word [of k True "bsi_init k True ms lm"]
      bsi_forward [of "\<lparr>bits_remain = 0, words_remain = ws, bit_offset = 0, last_word_mask = lm\<rparr>" k]
    by (simp add: i s arr_members_sorted bs_iterate_sorted)
qed

lemma bsi_init_backward:
  "bsi_iterate k False (bsi_init k False ms lm) = rev (sorted_list_of_set (arr_members (seen_words k lm ms)))"
proof (cases ms rule: rev_cases)
  case Nil
  then show ?thesis by (simp add: bsi_init_def bsi_iterate_done seen_words_def)
next
  case (snoc ws w)
  define v us where "v = (if k then w else NOT w AND lm)" and "us = (if k then ws else map NOT ws)"
  have i: "bsi_init k False ms lm = \<lparr>bits_remain = v, words_remain = ws, bit_offset = 64 * length ws, last_word_mask = lm\<rparr>"
    using snoc by (auto simp: bsi_init_def bsi_next_word_def Let_def v_def)
  have s: "seen_words k lm ms = us @ [v]" "length us = length ws"
    using snoc by (auto simp: seen_words_def list_update_append v_def us_def)
  show ?thesis
    using bsi_iterate_word [of k False "bsi_init k False ms lm"] arr_members_sorted_snoc [of us v]
      bsi_backward [of "\<lparr>bits_remain = 0, words_remain = ws, bit_offset = 64 * length ws, last_word_mask = lm\<rparr>" k]
    by (simp add: i s bs_iterate_sorted rev_map us_def)
qed

lemma arr_members_not: "length ms = num_masks_for n \<Longrightarrow> arr_members (map NOT ms) = {..<64 * num_masks_for n} - arr_members ms"
  by (auto simp: arr_members_def bit_not_iff div_less_iff_less_mult mult.commute)

lemma diff_inter_subset: "A \<subseteq> B \<Longrightarrow> (B - C) \<inter> A = A - C"
  by blast

lemma seen_words_members:
  assumes "masks_ok n ms"
  shows "arr_members (seen_words k (last_item_mask n) ms) = (if k then arr_members ms else {..<n} - arr_members ms)"
proof (cases "k \<or> n = 0")
  case True
  then show ?thesis using assms by (auto simp: seen_words_def masks_ok_def num_masks_for_def)
next
  case False
  then have n: "0 < n" "\<not> k" by auto
  have l: "length ms = num_masks_for n" using assms by (simp add: masks_ok_def)
  have ne: "0 < num_masks_for n" using word_index_less [of 0 n] n by simp
  then have "ms \<noteq> []" using l by auto
  have "clear_padding n (map NOT ms) = Some (seen_words k (last_item_mask n) ms)"
    using n l ne \<open>ms \<noteq> []\<close> by (simp add: clear_padding_def update_mask_def seen_words_def last_conv_nth)
  moreover obtain ms' where "clear_padding n (map NOT ms) = Some ms'" "arr_members ms' = arr_members (map NOT ms) \<inter> {..<n}"
    using clear_padding_members [OF n(1), of "map NOT ms"] l by (auto simp only: length_map)
  ultimately have eq: "arr_members (seen_words k (last_item_mask n) ms) = arr_members (map NOT ms) \<inter> {..<n}" by simp
  have sub: "{..<n} \<subseteq> {..<64 * num_masks_for n}" using num_masks_covers [of n] by (simp add: subset_eq)
  have "arr_members (map NOT ms) \<inter> {..<n} = {..<n} - arr_members ms"
    unfolding arr_members_not [OF l] by (rule diff_inter_subset [OF sub])
  then show ?thesis using n(2) eq by simp
qed

end
