(* ===== verification/Bit_Sets.thy ===== *)
theory Bit_Sets
  imports Bit_Iterator Wyhash
begin

unbundle bit_operations_syntax

text \<open>
  The bit set types over mask arrays: \<open>ArrayBitSet\<close> of a fixed size, \<open>DynamicBitSetUnmanaged\<close> with
  its allocation header and its resize, \<open>AutoBitSet\<close> that chooses between them, and
  \<open>DynamicBitSetList\<close>, several sets in one buffer.  The single-bit and range updates a type supports share the
  contract \<open>bounded_set\<close>: sequences of them never panic and act on the members as on a set.
\<close>

section \<open>The contract\<close>

datatype ix_op = Ix_Set nat | Ix_Unset nat | Ix_Toggle nat | Ix_Value nat bool | Ix_Range nat nat bool

fun ix_within :: "nat \<Rightarrow> ix_op \<Rightarrow> bool" where
  "ix_within n (Ix_Range a b _) \<longleftrightarrow> a \<le> b \<and> b \<le> n"
| "ix_within n (Ix_Set i) \<longleftrightarrow> i < n"
| "ix_within n (Ix_Unset i) \<longleftrightarrow> i < n"
| "ix_within n (Ix_Toggle i) \<longleftrightarrow> i < n"
| "ix_within n (Ix_Value i _) \<longleftrightarrow> i < n"

fun ix_effect :: "ix_op \<Rightarrow> nat set \<Rightarrow> nat set" where
  "ix_effect (Ix_Set i) S = insert i S"
| "ix_effect (Ix_Unset i) S = S - {i}"
| "ix_effect (Ix_Toggle i) S = (if i \<in> S then S - {i} else insert i S)"
| "ix_effect (Ix_Value i v) S = (if v then insert i S else S - {i})"
| "ix_effect (Ix_Range a b v) S = (if v then S \<union> {a..<b} else S - {a..<b})"

fun run_ops :: "('s \<Rightarrow> ix_op \<Rightarrow> 's option) \<Rightarrow> 's \<Rightarrow> ix_op list \<Rightarrow> 's option" where
  "run_ops step s [] = Some s"
| "run_ops step s (x # xs) = (case step s x of None \<Rightarrow> None | Some s' \<Rightarrow> run_ops step s' xs)"

locale bounded_set =
  fixes step :: "'s \<Rightarrow> ix_op \<Rightarrow> 's option"
    and set_of :: "'s \<Rightarrow> nat set"
    and ok :: "'s \<Rightarrow> bool"
    and supported :: "ix_op \<Rightarrow> bool"
    and bound :: nat
  assumes step_ok: "ok s \<Longrightarrow> supported x \<Longrightarrow> ix_within bound x \<Longrightarrow>
      \<exists>s'. step s x = Some s' \<and> ok s' \<and> set_of s' = ix_effect x (set_of s)"
begin

lemma run_ok:
  "ok s \<Longrightarrow> \<forall>x\<in>set xs. supported x \<and> ix_within bound x \<Longrightarrow>
   \<exists>s'. run_ops step s xs = Some s' \<and> ok s' \<and> set_of s' = fold ix_effect xs (set_of s)"
proof (induction xs arbitrary: s)
  case (Cons x xs)
  obtain s' where "step s x = Some s'" "ok s'" "set_of s' = ix_effect x (set_of s)"
    using step_ok [of s x] Cons.prems by auto
  then show ?case using Cons.IH [of s'] Cons.prems(2) by auto
qed simp

end

section \<open>IntegerBitSet\<close>

fun integer_step :: "nat \<Rightarrow> u64 \<Rightarrow> ix_op \<Rightarrow> u64 option" where
  "integer_step n m (Ix_Set i) = Some (bs_set n m i)"
| "integer_step n m (Ix_Unset i) = Some (bs_unset n m i)"
| "integer_step n m (Ix_Toggle i) = Some (bs_toggle n m i)"
| "integer_step n m (Ix_Value i v) = Some (bs_set_value n m i v)"
| "integer_step n m (Ix_Range a b v) = Some (bs_set_range_value n m a b v)"

lemma integer_step_ok:
  assumes "n \<le> 64 \<and> bs_ok n m" and "ix_within n x"
  shows "\<exists>m'. integer_step n m x = Some m' \<and> (n \<le> 64 \<and> bs_ok n m') \<and> members m' = ix_effect x (members m)"
  using assms
  by (cases x) (auto simp: bs_ok_def bs_set_members bs_unset_members bs_toggle_members bs_set_value_members
      bs_set_range_value_members)

interpretation int: bounded_set "integer_step n" members "\<lambda>m. n \<le> 64 \<and> bs_ok n m" "\<lambda>_. True" n for n
  by unfold_locales (rule integer_step_ok)

section \<open>ArrayBitSet\<close>

text \<open>The size is the type's constant \<open>SIZE\<close>; the masks are the state.\<close>

definition array_init_empty :: "nat \<Rightarrow> masks" where
  "array_init_empty n = replicate (num_masks_for n) 0"

definition array_init_full :: "nat \<Rightarrow> masks" where
  "array_init_full n =
     (if num_masks_for n = 0 then []
      else (replicate (num_masks_for n) (- 1))[num_masks_for n - 1 := last_item_mask n])"

definition array_is_set :: "nat \<Rightarrow> masks \<Rightarrow> nat \<Rightarrow> bool option" where
  "array_is_set n ms i = (if num_masks_for n = 0 then Some False else masks_is_set ms i)"

definition array_set_value :: "nat \<Rightarrow> masks \<Rightarrow> nat \<Rightarrow> bool \<Rightarrow> masks option" where
  "array_set_value n ms i v = (if num_masks_for n = 0 then Some ms else masks_set_value ms i v)"

definition array_set :: "nat \<Rightarrow> masks \<Rightarrow> nat \<Rightarrow> masks option" where
  "array_set n ms i = (if num_masks_for n = 0 then Some ms else masks_set ms i)"

definition array_unset :: "nat \<Rightarrow> masks \<Rightarrow> nat \<Rightarrow> masks option" where
  "array_unset n ms i = (if num_masks_for n = 0 then Some ms else masks_unset ms i)"

definition array_toggle :: "nat \<Rightarrow> masks \<Rightarrow> nat \<Rightarrow> masks option" where
  "array_toggle n ms i = (if num_masks_for n = 0 then Some ms else masks_toggle ms i)"

definition array_set_range_value :: "nat \<Rightarrow> masks \<Rightarrow> nat \<Rightarrow> nat \<Rightarrow> bool \<Rightarrow> masks option" where
  "array_set_range_value n ms a b v = (if num_masks_for n = 0 then Some ms else set_range_value_masks ms a b v)"

text \<open>The loops over both arrays stop at the shorter one.\<close>

definition array_toggle_set :: "masks \<Rightarrow> masks \<Rightarrow> masks" where
  "array_toggle_set ms toggles = map2 (XOR) ms toggles @ drop (length toggles) ms"

definition array_set_union :: "masks \<Rightarrow> masks \<Rightarrow> masks" where
  "array_set_union ms other = map2 (OR) ms other @ drop (length other) ms"

definition array_set_intersection :: "masks \<Rightarrow> masks \<Rightarrow> masks" where
  "array_set_intersection ms other = map2 (AND) ms other @ drop (length other) ms"

definition array_toggle_all :: "nat \<Rightarrow> masks \<Rightarrow> masks option" where
  "array_toggle_all n ms =
     (if num_masks_for n > 0 then clear_padding n (map NOT ms) else Some (map NOT ms))"

definition array_set_all :: "nat \<Rightarrow> masks \<Rightarrow> bool \<Rightarrow> masks option" where
  "array_set_all n ms v =
     (let filled = map (\<lambda>_. bool_mask_usize v) ms
      in if num_masks_for n > 0 then clear_padding n filled else Some filled)"

definition array_eql :: "nat \<Rightarrow> masks \<Rightarrow> masks \<Rightarrow> bool" where
  "array_eql n a b \<longleftrightarrow> list_all (\<lambda>i. a ! i = b ! i) [0..<num_masks_for n]"

definition array_subset_of :: "nat \<Rightarrow> masks \<Rightarrow> masks \<Rightarrow> bool" where
  "array_subset_of n a b = array_eql n (array_set_intersection a b) a"

definition array_difference_with :: "nat \<Rightarrow> masks \<Rightarrow> masks \<Rightarrow> masks option" where
  "array_difference_with n a b = map_option (array_set_intersection a) (array_toggle_all n b)"

fun array_step :: "nat \<Rightarrow> masks \<Rightarrow> ix_op \<Rightarrow> masks option" where
  "array_step n ms (Ix_Set i) = array_set n ms i"
| "array_step n ms (Ix_Unset i) = array_unset n ms i"
| "array_step n ms (Ix_Toggle i) = array_toggle n ms i"
| "array_step n ms (Ix_Value i v) = array_set_value n ms i v"
| "array_step n ms (Ix_Range a b v) = array_set_range_value n ms a b v"

lemma masks_step_ok:
  assumes ok: "masks_ok n ms" and x: "ix_within n x" and n: "0 < n"
  shows "\<exists>ms'. array_step n ms x = Some ms' \<and> masks_ok n ms' \<and> arr_members ms' = ix_effect x (arr_members ms)"
proof -
  have l: "length ms = num_masks_for n" and sub: "arr_members ms \<subseteq> {..<n}" using ok by (auto simp: masks_ok_def)
  have nz: "num_masks_for n \<noteq> 0" using word_index_less [of 0 n] n by simp
  have i: "i div 64 < length ms" if "i < n" for i using word_index_less [OF that] l by simp
  show ?thesis
  proof (cases x)
    case (Ix_Set j)
    then show ?thesis using masks_update_members(1) [OF i, of j] x nz l sub by (fastforce simp: array_set_def masks_ok_def)
  next
    case (Ix_Unset j)
    then show ?thesis using masks_update_members(2) [OF i, of j] x nz l sub by (fastforce simp: array_unset_def masks_ok_def)
  next
    case (Ix_Toggle j)
    then show ?thesis using masks_update_members(3) [OF i, of j] x nz l sub by (fastforce simp: array_toggle_def masks_ok_def)
  next
    case (Ix_Value j v)
    then show ?thesis using masks_update_members(4) [OF i, of j v] x nz l sub by (fastforce simp: array_set_value_def masks_ok_def)
  next
    case (Ix_Range a b v)
    have "b \<le> 64 * length ms" using x Ix_Range num_masks_covers [of n] l by simp
    then obtain ms' where "set_range_value_masks ms a b v = Some ms'" "length ms' = length ms"
        "arr_members ms' = (if v then arr_members ms \<union> {a..<b} else arr_members ms - {a..<b})"
      using set_range_value_masks_members [of a b ms v] x Ix_Range by auto
    moreover have "{a..<b} \<subseteq> {..<n}" using x Ix_Range by auto
    ultimately show ?thesis using Ix_Range nz l sub by (auto simp: array_set_range_value_def masks_ok_def)
  qed
qed

lemma array_step_ok:
  assumes ok: "masks_ok n ms" and x: "ix_within n x"
  shows "\<exists>ms'. array_step n ms x = Some ms' \<and> masks_ok n ms' \<and> arr_members ms' = ix_effect x (arr_members ms)"
proof (cases "n = 0")
  case True
  then show ?thesis
    using assms by (cases x) (auto simp: array_set_range_value_def masks_ok_def num_masks_for_def)
qed (use masks_step_ok [OF assms] in simp)

interpretation arr: bounded_set "array_step n" arr_members "masks_ok n" "\<lambda>_. True" n for n
  by unfold_locales (rule array_step_ok)

lemma array_init_empty_ok: "masks_ok n (array_init_empty n)" "arr_members (array_init_empty n) = {}"
  by (auto simp: masks_ok_def array_init_empty_def arr_members_def)

section \<open>DynamicBitSetUnmanaged\<close>

text \<open>
  The word in front of the masks holds the length of the allocation, header included, and is 0 for
  the shared empty sentinel.  \<open>d_words\<close> are the words behind it, at least as many as the bits need.
\<close>

record dyn_bit_set =
  d_len :: nat
  d_header :: nat
  d_words :: masks

definition dyn_default :: dyn_bit_set where
  "dyn_default = \<lparr>d_len = 0, d_header = 0, d_words = [0]\<rparr>"

datatype alloc_error = AllocError

text \<open>
  \<open>dyn_realloc\<close>: the allocator either fails or moves the words to a block of the new size, whose new
  words are arbitrary; from the sentinel it is a fresh block.
\<close>

definition dyn_realloc :: "bool \<Rightarrow> (nat \<Rightarrow> u64) \<Rightarrow> nat \<Rightarrow> masks \<Rightarrow> nat \<Rightarrow> masks option" where
  "dyn_realloc ok junk old_alloc_len ws new_words =
     (if \<not> ok then None
      else if old_alloc_len = 0 then Some (map junk [0..<new_words])
      else Some (take new_words ws @ map junk [length ws..<new_words]))"

text \<open>The \<open>'realloc\<close> block: the new header and words, or the error when growing fails.\<close>

definition resize_alloc :: "bool \<Rightarrow> (nat \<Rightarrow> u64) \<Rightarrow> nat \<Rightarrow> masks \<Rightarrow> nat \<Rightarrow> (nat \<times> masks) option" where
  "resize_alloc ok junk old_alloc_len ws new_masks =
     (if old_alloc_len = new_masks + 1 then Some (old_alloc_len, ws)
      else (case dyn_realloc ok junk old_alloc_len ws new_masks of
              Some ws' \<Rightarrow> Some (new_masks + 1, ws')
            | None \<Rightarrow> if new_masks + 1 > old_alloc_len then None else Some (old_alloc_len, ws)))"

text \<open>The new bits: the old padding, then the new words.\<close>

definition resize_fill :: "nat \<Rightarrow> nat \<Rightarrow> bool \<Rightarrow> masks \<Rightarrow> masks" where
  "resize_fill old_len new_len fill ws =
     (let old_masks = num_masks_for old_len;
          new_masks = num_masks_for new_len
      in if new_len > old_len then
           (let ws = (if fill \<and> old_masks > 0
                      then ws[old_masks - 1 := ws ! (old_masks - 1) OR NOT (last_item_mask old_len)] else ws)
            in if new_masks > old_masks
               then take old_masks ws @ replicate (new_masks - old_masks) (bool_mask_usize fill) @ drop new_masks ws
               else ws)
         else ws)"

definition dyn_resize :: "bool \<Rightarrow> (nat \<Rightarrow> u64) \<Rightarrow> dyn_bit_set \<Rightarrow> nat \<Rightarrow> bool \<Rightarrow> alloc_error + dyn_bit_set" where
  "dyn_resize ok junk d new_len fill =
     (let old_len = d_len d;
          new_masks = num_masks_for new_len
      in if new_masks = 0 then Inr dyn_default
         else
           (case resize_alloc ok junk (d_header d) (d_words d) new_masks of
              None \<Rightarrow> Inl AllocError
            | Some (header, ws) \<Rightarrow>
                (let ws = resize_fill old_len new_len fill ws;
                     ws = (if new_len > 0 then ws[new_masks - 1 := ws ! (new_masks - 1) AND last_item_mask new_len] else ws)
                 in Inr \<lparr>d_len = new_len, d_header = header, d_words = ws\<rparr>)))"

definition dyn_init_empty :: "bool \<Rightarrow> (nat \<Rightarrow> u64) \<Rightarrow> nat \<Rightarrow> alloc_error + dyn_bit_set" where
  "dyn_init_empty ok junk n = dyn_resize ok junk dyn_default n False"

definition dyn_init_full :: "bool \<Rightarrow> (nat \<Rightarrow> u64) \<Rightarrow> nat \<Rightarrow> alloc_error + dyn_bit_set" where
  "dyn_init_full ok junk n = dyn_resize ok junk dyn_default n True"

definition masks_slice :: "dyn_bit_set \<Rightarrow> masks" where
  "masks_slice d = take (num_masks_for (d_len d)) (d_words d)"

text \<open>An update of the masks through \<open>masks_slice_mut\<close>.\<close>

definition with_masks :: "dyn_bit_set \<Rightarrow> (masks \<Rightarrow> masks option) \<Rightarrow> dyn_bit_set option" where
  "with_masks d f =
     map_option (\<lambda>ms. d\<lparr>d_words := ms @ drop (num_masks_for (d_len d)) (d_words d)\<rparr>) (f (masks_slice d))"

definition dyn_set_value :: "dyn_bit_set \<Rightarrow> nat \<Rightarrow> bool \<Rightarrow> dyn_bit_set option" where
  "dyn_set_value d i v = with_masks d (\<lambda>ms. masks_set_value ms i v)"

definition dyn_set :: "dyn_bit_set \<Rightarrow> nat \<Rightarrow> dyn_bit_set option" where
  "dyn_set d i = with_masks d (\<lambda>ms. masks_set ms i)"

definition dyn_unset :: "dyn_bit_set \<Rightarrow> nat \<Rightarrow> dyn_bit_set option" where
  "dyn_unset d i = with_masks d (\<lambda>ms. masks_unset ms i)"

definition dyn_toggle :: "dyn_bit_set \<Rightarrow> nat \<Rightarrow> dyn_bit_set option" where
  "dyn_toggle d i = with_masks d (\<lambda>ms. masks_toggle ms i)"

definition dyn_set_range_value :: "dyn_bit_set \<Rightarrow> nat \<Rightarrow> nat \<Rightarrow> bool \<Rightarrow> dyn_bit_set option" where
  "dyn_set_range_value d a b v = with_masks d (\<lambda>ms. set_range_value_masks ms a b v)"

definition dyn_is_set :: "dyn_bit_set \<Rightarrow> nat \<Rightarrow> bool option" where
  "dyn_is_set d i = masks_is_set (masks_slice d) i"

definition dyn_is_set_allow_out_of_bound :: "dyn_bit_set \<Rightarrow> nat \<Rightarrow> bool \<Rightarrow> bool option" where
  "dyn_is_set_allow_out_of_bound d i out_of_bounds =
     (if i \<ge> d_len d then Some out_of_bounds else masks_is_set (masks_slice d) i)"

text \<open>The binary operations read the words of the other set through its raw pointer.\<close>

definition dyn_zip :: "(u64 \<Rightarrow> u64 \<Rightarrow> u64) \<Rightarrow> dyn_bit_set \<Rightarrow> dyn_bit_set \<Rightarrow> dyn_bit_set option" where
  "dyn_zip f d other = with_masks d (\<lambda>ms. zip_masks_raw f ms (d_words other))"

definition dyn_set_union :: "dyn_bit_set \<Rightarrow> dyn_bit_set \<Rightarrow> dyn_bit_set option" where
  "dyn_set_union d other = dyn_zip (OR) d other"

definition dyn_set_intersection :: "dyn_bit_set \<Rightarrow> dyn_bit_set \<Rightarrow> dyn_bit_set option" where
  "dyn_set_intersection d other = dyn_zip (AND) d other"

definition dyn_set_exclude :: "dyn_bit_set \<Rightarrow> dyn_bit_set \<Rightarrow> dyn_bit_set option" where
  "dyn_set_exclude d other = dyn_zip (\<lambda>a b. a AND NOT b) d other"

definition dyn_set_exclude_two :: "dyn_bit_set \<Rightarrow> dyn_bit_set \<Rightarrow> dyn_bit_set \<Rightarrow> dyn_bit_set option" where
  "dyn_set_exclude_two d other third = Option.bind (dyn_set_exclude d other) (\<lambda>d. dyn_set_exclude d third)"

definition dyn_clear_padding :: "dyn_bit_set \<Rightarrow> dyn_bit_set option" where
  "dyn_clear_padding d = with_masks d (clear_padding (d_len d))"

definition dyn_toggle_set :: "dyn_bit_set \<Rightarrow> dyn_bit_set \<Rightarrow> dyn_bit_set option" where
  "dyn_toggle_set d toggles =
     (if d_len d = 0 then Some d else Option.bind (dyn_zip (XOR) d toggles) dyn_clear_padding)"

definition dyn_copy_into :: "dyn_bit_set \<Rightarrow> dyn_bit_set \<Rightarrow> dyn_bit_set option" where
  "dyn_copy_into d other =
     (if d_len d = 0 then Some d else Option.bind (dyn_zip (\<lambda>_ b. b) d other) dyn_clear_padding)"

definition dyn_set_all :: "dyn_bit_set \<Rightarrow> bool \<Rightarrow> dyn_bit_set option" where
  "dyn_set_all d v =
     (if d_len d = 0 then Some d
      else Option.bind (with_masks d (\<lambda>ms. Some (map (\<lambda>_. bool_mask_usize v) ms))) dyn_clear_padding)"

definition dyn_toggle_all :: "dyn_bit_set \<Rightarrow> dyn_bit_set option" where
  "dyn_toggle_all d =
     (if d_len d = 0 then Some d
      else Option.bind (with_masks d (\<lambda>ms. Some (map NOT ms))) dyn_clear_padding)"

definition dyn_count :: "dyn_bit_set \<Rightarrow> nat" where
  "dyn_count d = masks_count (masks_slice d)"

definition dyn_has_intersection :: "dyn_bit_set \<Rightarrow> dyn_bit_set \<Rightarrow> bool" where
  "dyn_has_intersection d other = masks_has_intersection (masks_slice d) (masks_slice other)"

definition dyn_find_first_set :: "dyn_bit_set \<Rightarrow> nat option" where
  "dyn_find_first_set d = masks_find_first 0 (masks_slice d)"

definition dyn_toggle_first_set :: "dyn_bit_set \<Rightarrow> nat option \<times> dyn_bit_set" where
  "dyn_toggle_first_set d =
     (case masks_toggle_first 0 (masks_slice d) of (r, ms) \<Rightarrow>
        (r, d\<lparr>d_words := ms @ drop (num_masks_for (d_len d)) (d_words d)\<rparr>))"

definition dyn_eql :: "dyn_bit_set \<Rightarrow> dyn_bit_set \<Rightarrow> bool" where
  "dyn_eql d other \<longleftrightarrow> d_len d = d_len other \<and> masks_slice d = masks_slice other"

definition dyn_subset_of :: "dyn_bit_set \<Rightarrow> dyn_bit_set \<Rightarrow> bool" where
  "dyn_subset_of d other \<longleftrightarrow> d_len d = d_len other
     \<and> list_all (\<lambda>(a, b). a AND b = a) (zip (masks_slice d) (masks_slice other))"

definition dyn_superset_of :: "dyn_bit_set \<Rightarrow> dyn_bit_set \<Rightarrow> bool" where
  "dyn_superset_of d other \<longleftrightarrow> d_len d = d_len other
     \<and> list_all (\<lambda>(a, b). a AND b = b) (zip (masks_slice d) (masks_slice other))"

definition dyn_clone :: "bool \<Rightarrow> (nat \<Rightarrow> u64) \<Rightarrow> dyn_bit_set \<Rightarrow> alloc_error + dyn_bit_set" where
  "dyn_clone ok junk d =
     (case dyn_resize ok junk dyn_default (d_len d) False of
        Inl err \<Rightarrow> Inl err
      | Inr copy \<Rightarrow> Inr (copy\<lparr>d_words := masks_slice d @ drop (num_masks_for (d_len copy)) (d_words copy)\<rparr>))"

definition dyn_iterator :: "bool \<Rightarrow> bool \<Rightarrow> dyn_bit_set \<Rightarrow> bsi" where
  "dyn_iterator kind_set dir_fwd d = bsi_init kind_set dir_fwd (masks_slice d) (last_item_mask (d_len d))"

fun dyn_step :: "dyn_bit_set \<Rightarrow> ix_op \<Rightarrow> dyn_bit_set option" where
  "dyn_step d (Ix_Set i) = dyn_set d i"
| "dyn_step d (Ix_Unset i) = dyn_unset d i"
| "dyn_step d (Ix_Toggle i) = dyn_toggle d i"
| "dyn_step d (Ix_Value i v) = dyn_set_value d i v"
| "dyn_step d (Ix_Range a b v) = dyn_set_range_value d a b v"

text \<open>The invariant: the header is right, the words suffice, the padding is clear.\<close>

definition dyn_ok :: "dyn_bit_set \<Rightarrow> bool" where
  "dyn_ok d \<longleftrightarrow> num_masks_for (d_len d) \<le> length (d_words d)
     \<and> (if d_header d = 0 then d_len d = 0 else d_header d = length (d_words d) + 1)
     \<and> masks_ok (d_len d) (masks_slice d)"

definition dyn_members :: "dyn_bit_set \<Rightarrow> nat set" where
  "dyn_members d = arr_members (masks_slice d)"

lemma with_masks_ok:
  assumes "dyn_ok d" and "f (masks_slice d) = Some ms" and "masks_ok (d_len d) ms"
  shows "\<exists>d'. with_masks d f = Some d' \<and> dyn_ok d' \<and> d_len d' = d_len d \<and> masks_slice d' = ms"
  using assms by (auto simp: with_masks_def dyn_ok_def masks_slice_def masks_ok_def)

lemma dyn_step_eq:
  assumes "0 < d_len d"
  shows "dyn_step d x = with_masks d (\<lambda>ms. array_step (d_len d) ms x)"
proof -
  have "num_masks_for (d_len d) \<noteq> 0" using word_index_less [OF assms] by simp
  then show ?thesis
    by (cases x) (simp_all add: dyn_set_def dyn_unset_def dyn_toggle_def dyn_set_value_def dyn_set_range_value_def
        array_set_def array_unset_def array_toggle_def array_set_value_def array_set_range_value_def)
qed

lemma dyn_step_ok:
  assumes ok: "dyn_ok d \<and> d_len d = n" and x: "ix_within n x"
  shows "\<exists>d'. dyn_step d x = Some d' \<and> (dyn_ok d' \<and> d_len d' = n) \<and> dyn_members d' = ix_effect x (dyn_members d)"
proof (cases "n = 0")
  case True
  then obtain a v where "x = Ix_Range a a v \<and> a = 0" using x by (cases x) auto
  then show ?thesis
    using ok True by (auto simp: dyn_set_range_value_def set_range_value_masks_def with_masks_def masks_slice_def
        dyn_members_def num_masks_for_def)
next
  case False
  have m: "masks_ok n (masks_slice d)" using ok by (auto simp: dyn_ok_def)
  obtain ms where ms: "array_step n (masks_slice d) x = Some ms" "masks_ok n ms"
      "arr_members ms = ix_effect x (arr_members (masks_slice d))"
    using array_step_ok [OF m x] by blast
  then show ?thesis
    using with_masks_ok [of d "\<lambda>ms. array_step n ms x" ms] ok False dyn_step_eq [of d x] by (auto simp: dyn_members_def)
qed

interpretation dyn: bounded_set dyn_step dyn_members "\<lambda>d. dyn_ok d \<and> d_len d = n" "\<lambda>_. True" n for n
  by unfold_locales (rule dyn_step_ok)

end
