(* ===== verification/Bit_Dynamic.thy ===== *)
theory Bit_Dynamic
  imports Bit_Sets
begin

unbundle bit_operations_syntax

text \<open>
  What the operations of the dynamic bit sets promise: resizing keeps the members below the new length
  and fills exactly the new ones whatever the allocator does, the set algebra is the algebra of the
  members, and the queries and iterators read them.  The lemmas about masks are those of \<open>Bit_Array\<close>.
\<close>

section \<open>Resizing\<close>

lemma word_index_iff: "i div 64 < q \<longleftrightarrow> (i :: nat) < 64 * q"
  by (simp add: div_less_iff_less_mult mult.commute)

lemma num_masks_mono: "a \<le> b \<Longrightarrow> num_masks_for a \<le> num_masks_for b"
  by (simp add: num_masks_for_def div_le_mono)

lemma num_masks_zero: "num_masks_for n = 0 \<longleftrightarrow> n = 0"
  using word_index_less [of 0 n] by (cases "n = 0") (auto simp: num_masks_for_def)

lemma arr_members_take: "arr_members (take k ms) = arr_members ms \<inter> {..<64 * k}"
  by (auto simp: arr_members_def word_index_iff)

lemma resize_fill_bit:
  assumes grow: "old_len < new_len" and len: "num_masks_for new_len \<le> length ws"
    and ok: "masks_ok old_len (take (num_masks_for old_len) ws)"
    and i: "i < new_len"
  shows "bit (resize_fill old_len new_len fill ws ! (i div 64)) (i mod 64)
           \<longleftrightarrow> i \<in> arr_members (take (num_masks_for old_len) ws) \<or> fill \<and> old_len \<le> i"
proof -
  define om nm k j where "om = num_masks_for old_len" and "nm = num_masks_for new_len" and "k = i div 64" and "j = i mod 64"
  have le: "om \<le> nm" "nm \<le> length ws" using num_masks_mono [of old_len new_len] grow len by (auto simp: om_def nm_def)
  have kn: "k < nm" using word_index_less [OF i] by (simp add: k_def nm_def)
  have ij: "64 * k + j = i" "j < 64" by (auto simp: k_def j_def)
  have mem: "i \<in> arr_members (take om ws) \<longleftrightarrow> k < om \<and> bit (ws ! k) j"
    using le by (auto simp: arr_members_def k_def j_def)
  have low: "i < old_len" if "i \<in> arr_members (take om ws)" using ok that by (auto simp: masks_ok_def om_def)
  have below: "i < old_len" if "k < om - 1"
  proof -
    have "i < 64 * (om - 1)" using that word_index_iff [of i "om - 1"] by (simp add: k_def)
    also have "64 * (om - 1) \<le> old_len" by (simp add: om_def num_masks_for_def)
    finally show ?thesis .
  qed
  have above: "old_len \<le> i" if "om \<le> k"
    using that word_index_less [of i old_len] by (force simp: k_def om_def)
  have last: "bit (last_item_mask old_len) j \<longleftrightarrow> i < old_len" if "k = om - 1" "0 < om"
  proof -
    have "0 < old_len" using that(2) num_masks_zero [of old_len] by (auto simp: om_def)
    then show ?thesis using bit_last_item_mask [of old_len j] ij that by (simp add: om_def)
  qed
  show ?thesis
  proof (cases "k < om")
    case True
    have "resize_fill old_len new_len fill ws ! k = (if fill \<and> k = om - 1 then ws ! k OR NOT (last_item_mask old_len) else ws ! k)"
      using True le grow by (auto simp: resize_fill_def Let_def nth_append nth_list_update om_def nm_def)
    moreover have "k = om - 1 \<or> k < om - 1" using True by linarith
    ultimately show ?thesis
      using True mem low below last ij(2)
      by (auto simp: bit_or_iff bit_not_iff simp flip: om_def k_def j_def)
  next
    case False
    have "resize_fill old_len new_len fill ws ! k = bool_mask_usize fill"
      using False kn le grow by (auto simp: resize_fill_def Let_def nth_append om_def nm_def)
    then show ?thesis
      using False mem above ij(2) by (auto simp: bit_bool_mask simp flip: om_def k_def j_def)
  qed
qed

lemma resize_fill_length:
  assumes "num_masks_for new_len \<le> length ws"
  shows "length (resize_fill old_len new_len fill ws) = length ws"
  using assms num_masks_mono [of old_len new_len] by (auto simp: resize_fill_def Let_def)

lemma resize_fill_members:
  assumes "old_len < new_len" and "num_masks_for new_len \<le> length ws"
    and "masks_ok old_len (take (num_masks_for old_len) ws)"
  shows "arr_members (take (num_masks_for new_len) (resize_fill old_len new_len fill ws)) \<inter> {..<new_len}
           = arr_members (take (num_masks_for old_len) ws) \<union> (if fill then {old_len..<new_len} else {})"
    (is "?l = ?r")
proof -
  have "i \<in> ?l \<longleftrightarrow> i \<in> ?r" for i
  proof (cases "i < new_len")
    case True
    then have "i \<in> ?l \<longleftrightarrow> bit (resize_fill old_len new_len fill ws ! (i div 64)) (i mod 64)"
      using word_index_less [OF True] resize_fill_length [OF assms(2), of old_len fill] assms(2) by (auto simp: arr_members_def)
    then show ?thesis using resize_fill_bit [OF assms True, of fill] True by auto
  next
    case False
    then show ?thesis using assms(1,3) by (force simp: masks_ok_def)
  qed
  then show ?thesis by blast
qed

lemma resize_alloc_words:
  assumes "dyn_ok d" and "resize_alloc ok junk (d_header d) (d_words d) new_masks = Some (h, ws)"
  shows "h = length ws + 1" and "new_masks \<le> length ws"
    and "take new_masks (take (num_masks_for (d_len d)) ws) = take new_masks (masks_slice d)"
proof -
  have len: "num_masks_for (d_len d) \<le> length (d_words d)"
    and hdr: "if d_header d = 0 then d_len d = 0 else d_header d = length (d_words d) + 1"
    using assms(1) by (auto simp: dyn_ok_def)
  note alloc = assms(2) [unfolded resize_alloc_def dyn_realloc_def]
  show h: "h = length ws + 1" using alloc hdr by (auto split: if_splits)
  show "new_masks \<le> length ws" using alloc hdr by (auto split: if_splits)
  show "take new_masks (take (num_masks_for (d_len d)) ws) = take new_masks (masks_slice d)"
  proof (cases "d_header d = 0")
    case True
    then show ?thesis using hdr by (simp add: masks_slice_def num_masks_for_def)
  next
    case False
    then have "ws = d_words d \<or> ws = take new_masks (d_words d) @ map junk [length (d_words d)..<new_masks]"
      using alloc by (auto split: if_splits)
    then show ?thesis using len by (auto simp: masks_slice_def take_append min_def)
  qed
qed

lemma dyn_resize_ok:
  assumes ok: "dyn_ok d"
    and r: "resize_alloc aok junk (d_header d) (d_words d) (num_masks_for new_len) = Some (h, ws)" and n: "0 < new_len"
  shows "\<exists>d'. dyn_resize aok junk d new_len fill = Inr d' \<and> dyn_ok d' \<and> d_len d' = new_len
           \<and> dyn_members d' = dyn_members d \<inter> {..<new_len} \<union> (if fill then {d_len d..<new_len} else {})"
proof -
  define om nm ws' where "om = num_masks_for (d_len d)" and "nm = num_masks_for new_len"
    and "ws' = resize_fill (d_len d) new_len fill ws"
  define ws'' where "ws'' = ws'[nm - 1 := ws' ! (nm - 1) AND last_item_mask new_len]"
  note alloc = resize_alloc_words [OF ok r]
  have nm: "0 < nm" "nm \<le> length ws" using n num_masks_zero [of new_len] alloc(2) by (auto simp: nm_def)
  have len: "length ws' = length ws" using alloc(2) by (simp add: ws'_def resize_fill_length)
  have d: "masks_ok (d_len d) (masks_slice d)" using ok by (simp add: dyn_ok_def)
  have sub: "dyn_members d \<subseteq> {..<d_len d}" using d by (simp add: masks_ok_def dyn_members_def)
  have mem: "arr_members (take nm ws') \<inter> {..<new_len}
      = dyn_members d \<inter> {..<new_len} \<union> (if fill then {d_len d..<new_len} else {})"
  proof (cases "d_len d < new_len")
    case True
    then have "om \<le> nm" using num_masks_mono [of "d_len d" new_len] by (simp add: om_def nm_def)
    then have old: "take om ws = masks_slice d" using alloc(3) by (simp add: masks_slice_def min.absorb2 flip: om_def nm_def)
    have "dyn_members d \<inter> {..<new_len} = dyn_members d" using sub True by force
    then show ?thesis using resize_fill_members [OF True alloc(2), of fill] old d
      by (simp add: ws'_def nm_def om_def dyn_members_def)
  next
    case False
    then have "nm \<le> om" using num_masks_mono [of new_len "d_len d"] by (simp add: om_def nm_def)
    then have old: "take nm ws = take nm (masks_slice d)" using alloc(3) by (simp add: min_def flip: om_def nm_def)
    have "new_len \<le> 64 * nm" using num_masks_covers [of new_len] by (simp add: nm_def)
    then have "{..<64 * nm} \<inter> {..<new_len} = {..<new_len}" by auto
    then show ?thesis using False old
      by (simp add: ws'_def resize_fill_def arr_members_take dyn_members_def Int_assoc)
  qed
  have upd: "take nm ws'' = (take nm ws')[nm - 1 := take nm ws' ! (nm - 1) AND last_item_mask new_len]"
    using nm len by (simp add: ws''_def take_update_swap)
  obtain ms where "clear_padding new_len (take nm ws') = Some ms" "length ms = nm"
      "arr_members ms = arr_members (take nm ws') \<inter> {..<new_len}"
    using clear_padding_members [OF n, of "take nm ws'"] nm len by (auto simp: nm_def)
  then have fin: "arr_members (take nm ws'') = arr_members (take nm ws') \<inter> {..<new_len}"
    using upd nm len by (auto simp: clear_padding_def update_mask_def simp flip: nm_def)
  define d' where "d' = \<lparr>d_len = new_len, d_header = h, d_words = ws''\<rparr>"
  have res: "dyn_resize aok junk d new_len fill = Inr d'"
    using r n nm by (simp add: dyn_resize_def Let_def d'_def ws''_def ws'_def flip: nm_def)
  have l'': "length ws'' = length ws" using len by (simp add: ws''_def)
  have slice: "d_len d' = new_len" "masks_slice d' = take nm ws''" by (simp_all add: d'_def masks_slice_def nm_def)
  have "length (masks_slice d') = nm" "arr_members (masks_slice d') \<subseteq> {..<new_len}"
    unfolding slice fin using nm(2) l'' by simp_all
  then have "masks_ok new_len (masks_slice d')" by (simp add: masks_ok_def nm_def)
  then have "dyn_ok d'" using nm(2) l'' alloc(1) slice by (simp add: dyn_ok_def d'_def flip: nm_def)
  moreover have "dyn_members d' = dyn_members d \<inter> {..<new_len} \<union> (if fill then {d_len d..<new_len} else {})"
    unfolding dyn_members_def [of d'] slice fin by (rule mem)
  ultimately show ?thesis using res slice(1) by blast
qed

lemma dyn_default_ok: "dyn_ok dyn_default" "dyn_members dyn_default = {}"
  by (auto simp: dyn_ok_def dyn_default_def masks_slice_def masks_ok_def num_masks_for_def dyn_members_def)

lemma resize_alloc_Some:
  assumes "ok \<or> m + 1 \<le> h"
  shows "\<exists>h' ws'. resize_alloc ok junk h ws m = Some (h', ws')"
  using assms by (auto simp: resize_alloc_def dyn_realloc_def split: option.splits)

lemma dyn_resize_cases:
  assumes "dyn_ok d"
  obtains d' where "dyn_resize ok junk d new_len fill = Inr d'" "dyn_ok d'" "d_len d' = new_len"
      "dyn_members d' = dyn_members d \<inter> {..<new_len} \<union> (if fill then {d_len d..<new_len} else {})"
  | "dyn_resize ok junk d new_len fill = Inl AllocError" "\<not> ok" "d_header d < num_masks_for new_len + 1"
proof (cases "new_len = 0")
  case True
  then show ?thesis using dyn_default_ok that(1) [of dyn_default]
    by (simp add: dyn_resize_def num_masks_for_def) (simp add: dyn_default_def)
next
  case False
  show ?thesis
  proof (cases "resize_alloc ok junk (d_header d) (d_words d) (num_masks_for new_len)")
    case None
    then have "\<not> (ok \<or> num_masks_for new_len + 1 \<le> d_header d)"
      using resize_alloc_Some [of ok "num_masks_for new_len" "d_header d" junk "d_words d"] by auto
    then show ?thesis using that(2) None False num_masks_zero [of new_len] by (simp add: dyn_resize_def)
  next
    case (Some p)
    obtain h ws where "p = (h, ws)" by (cases p)
    then show ?thesis using dyn_resize_ok [of d ok junk new_len h ws fill] Some assms False that(1) by auto
  qed
qed

lemma dyn_resized:
  assumes "dyn_ok d" and "dyn_resize ok junk d new_len fill = Inr d'"
  shows "dyn_ok d'" and "d_len d' = new_len"
    and "dyn_members d' = dyn_members d \<inter> {..<new_len} \<union> (if fill then {d_len d..<new_len} else {})"
  by (rule dyn_resize_cases [OF assms(1), of ok junk new_len fill]; use assms(2) in simp)+

text \<open>
  C37. Resizing a dynamic bit set keeps the members below the new length, adds every new index when
  \<open>fill\<close> is set and none otherwise, and restores the invariant of the allocation header and of the
  clear padding.  This holds whatever the allocator puts into new words, and when it refuses to
  shrink a block; the only error is a refused growth.
\<close>

theorem dynamic_resize_exact:
  assumes "dyn_ok d"
  shows "(case dyn_resize ok junk d new_len fill of
            Inr d' \<Rightarrow> dyn_ok d' \<and> d_len d' = new_len
              \<and> dyn_members d' = dyn_members d \<inter> {..<new_len} \<union> (if fill then {d_len d..<new_len} else {})
          | Inl err \<Rightarrow> \<not> ok \<and> d_header d < num_masks_for new_len + 1)"
  by (rule dyn_resize_cases [OF assms, of ok junk new_len fill]) simp_all

theorem dynamic_resize_exact_witness:
  "(case dyn_resize True (\<lambda>i. 77) dyn_default 130 True of
      Inr d' \<Rightarrow> dyn_ok d' \<and> d_len d' = 130 \<and> dyn_members d' = {0..<130} | Inl err \<Rightarrow> False)"
  using dynamic_resize_exact [OF dyn_default_ok(1), where ok = True and junk = "\<lambda>i. 77" and new_len = 130 and fill = True] dyn_default_ok(2)
  by (auto simp: dyn_default_def split: sum.splits)

section \<open>Sequences of updates\<close>

text \<open>
  C36. Any sequence of \<open>set\<close>, \<open>unset\<close>, \<open>toggle\<close>, \<open>set_value\<close> and \<open>set_range_value\<close> whose indices are
  below the size (range ends at most the size) runs without a panic on an integer bit set of at
  most 64 bits, an array bit set and a dynamic one, keeps their invariants and changes the members as it would change a set.  The
  range writes cover ranges inside one word, ranges over several words and ranges that end at a
  word boundary.
\<close>

theorem mask_updates_refine_set:
  assumes "\<forall>x\<in>set xs. ix_within n x" and "masks_ok n ms" and "dyn_ok d" and "d_len d = n"
  shows "(\<exists>ms'. run_ops (array_step n) ms xs = Some ms' \<and> masks_ok n ms' \<and> arr_members ms' = fold ix_effect xs (arr_members ms))
    \<and> (\<exists>d'. run_ops dyn_step d xs = Some d' \<and> dyn_ok d' \<and> d_len d' = n \<and> dyn_members d' = fold ix_effect xs (dyn_members d))
    \<and> (n \<le> 64 \<and> bs_ok n m \<longrightarrow>
         (\<exists>m'. run_ops (integer_step n) m xs = Some m' \<and> bs_ok n m' \<and> members m' = fold ix_effect xs (members m)))"
  using arr.run_ok [of n ms xs] dyn.run_ok [of d n xs] int.run_ok [of n m xs] assms by auto

theorem mask_updates_refine_set_witness:
  "\<exists>ms'. run_ops (array_step 200) (array_init_empty 200) [Ix_Range 3 190 True, Ix_Toggle 199] = Some ms'
     \<and> arr_members ms' = insert 199 {3..<190}"
proof -
  obtain d where "dyn_resize True (\<lambda>_. 0) dyn_default 200 False = Inr d"
    by (rule dyn_resize_cases [OF dyn_default_ok(1), of True "\<lambda>_. 0" 200 False]) auto
  note d = dyn_resized [OF dyn_default_ok(1) this]
  show ?thesis
    using mask_updates_refine_set [of "[Ix_Range 3 190 True, Ix_Toggle 199]" 200 "array_init_empty 200" d] d
      array_init_empty_ok [of 200]
    by (auto simp del: run_ops.simps)
qed

section \<open>Set algebra\<close>

text \<open>
  The binary operations read as many words of the other set as this one has; a set of the same
  length has them.  Operations that may set padding bits clear them afterwards.
\<close>

lemma dyn_slice:
  assumes "dyn_ok d"
  shows "masks_ok (d_len d) (masks_slice d)" and "length (masks_slice d) = num_masks_for (d_len d)"
    and "num_masks_for (d_len d) \<le> length (d_words d)"
  using assms by (auto simp: dyn_ok_def masks_ok_def)

lemma zip_take_longer: "length xs = n \<Longrightarrow> zip xs (take n ys) = zip xs ys"
  by (auto simp: list_eq_iff_nth_eq)

lemma dyn_zip_slices:
  assumes "dyn_ok a" and "dyn_ok b" and "d_len b = d_len a"
  shows "zip_masks_raw f (masks_slice a) (d_words b) = Some (map2 f (masks_slice a) (masks_slice b))"
proof -
  have l: "length (masks_slice a) = num_masks_for (d_len a)" "num_masks_for (d_len a) \<le> length (d_words b)"
    using dyn_slice [OF assms(1)] dyn_slice [OF assms(2)] assms(3) by auto
  have "zip (masks_slice a) (d_words b) = zip (masks_slice a) (masks_slice b)"
    using l assms(3) by (simp add: masks_slice_def [of b] zip_take_longer)
  then show ?thesis using l by (simp add: zip_masks_raw_def)
qed

lemma dyn_zip_ok:
  assumes "dyn_ok a" and "dyn_ok b" and "d_len b = d_len a"
    and "arr_members (map2 f (masks_slice a) (masks_slice b)) = S" and "S \<subseteq> {..<d_len a}"
  shows "\<exists>d'. dyn_zip f a b = Some d' \<and> dyn_ok d' \<and> d_len d' = d_len a \<and> dyn_members d' = S"
proof -
  have "masks_ok (d_len a) (map2 f (masks_slice a) (masks_slice b))"
    using assms(3-5) dyn_slice(2) [OF assms(1)] dyn_slice(2) [OF assms(2)] by (simp add: masks_ok_def)
  then show ?thesis
    using with_masks_ok [of a "\<lambda>ms. zip_masks_raw f ms (d_words b)"] dyn_zip_slices [OF assms(1-3), of f] assms(1,4)
    by (auto simp: dyn_zip_def dyn_members_def)
qed

lemma clear_masks_ok:
  assumes "dyn_ok d" and "0 < d_len d" and "f (masks_slice d) = Some ms" and "length ms = num_masks_for (d_len d)"
  shows "\<exists>d'. Option.bind (with_masks d f) dyn_clear_padding = Some d' \<and> dyn_ok d' \<and> d_len d' = d_len d
           \<and> dyn_members d' = arr_members ms \<inter> {..<d_len d}"
proof -
  define n rest where "n = d_len d" and "rest = drop (num_masks_for (d_len d)) (d_words d)"
  obtain ms' where ms': "clear_padding n ms = Some ms'" "length ms' = length ms" "arr_members ms' = arr_members ms \<inter> {..<n}"
    using clear_padding_members [OF assms(2,4)] by (auto simp: n_def)
  have "dyn_clear_padding (d\<lparr>d_words := ms @ rest\<rparr>) = Some (d\<lparr>d_words := ms' @ rest\<rparr>)"
    using ms' assms(4) by (simp add: dyn_clear_padding_def with_masks_def masks_slice_def n_def)
  then have "Option.bind (with_masks d f) dyn_clear_padding = with_masks d (\<lambda>_. Some ms')"
    using assms(3) by (simp add: with_masks_def rest_def)
  moreover have "masks_ok n ms'" using ms' assms(4) by (simp add: masks_ok_def n_def)
  ultimately show ?thesis
    using with_masks_ok [OF assms(1), of "\<lambda>_. Some ms'" ms'] ms'(3) by (auto simp: n_def dyn_members_def)
qed

text \<open>An operation returns a well-formed set of the same length with the members \<open>S\<close>.\<close>

definition dyn_yields :: "nat \<Rightarrow> dyn_bit_set option \<Rightarrow> nat set \<Rightarrow> bool" where
  "dyn_yields n r S \<longleftrightarrow> (\<exists>d'. r = Some d' \<and> dyn_ok d' \<and> d_len d' = n \<and> dyn_members d' = S)"

lemma dyn_members_below: "dyn_ok d \<Longrightarrow> dyn_members d \<subseteq> {..<d_len d}"
  by (simp add: dyn_members_def dyn_ok_def masks_ok_def)

lemma arr_members_fill:
  "arr_members (map (\<lambda>_. bool_mask_usize v) ms) = (if v then {..<64 * length ms} else {})"
  by (auto simp: arr_members_def bit_bool_mask word_index_iff)

lemma arr_members_second: "length a = length b \<Longrightarrow> arr_members (map2 (\<lambda>_ y. y) a b) = arr_members b"
  by (auto simp: arr_members_def)

lemma dyn_empty_members: "dyn_ok d \<Longrightarrow> d_len d = 0 \<Longrightarrow> dyn_members d = {}"
  using dyn_members_below [of d] by simp

lemma dyn_set_all_ok:
  assumes "dyn_ok d"
  shows "dyn_yields (d_len d) (dyn_set_all d v) (if v then {..<d_len d} else {})"
proof (cases "d_len d = 0")
  case True
  then show ?thesis using assms dyn_empty_members [OF assms] by (simp add: dyn_set_all_def dyn_yields_def)
next
  case False
  let ?f = "\<lambda>ms :: masks. Some (map (\<lambda>_. bool_mask_usize v) ms)"
  have l: "length (masks_slice d) = num_masks_for (d_len d)" using dyn_slice [OF assms] by simp
  have "{..<64 * length (masks_slice d)} \<inter> {..<d_len d} = {..<d_len d}" using num_masks_covers [of "d_len d"] l by auto
  then show ?thesis
    using clear_masks_ok [OF assms, of ?f "map (\<lambda>_. bool_mask_usize v) (masks_slice d)"] False l arr_members_fill [of v "masks_slice d"]
    by (auto simp: dyn_set_all_def dyn_yields_def)
qed

lemma dyn_toggle_all_ok:
  assumes "dyn_ok d"
  shows "dyn_yields (d_len d) (dyn_toggle_all d) ({..<d_len d} - dyn_members d)"
proof (cases "d_len d = 0")
  case True
  then show ?thesis using assms dyn_empty_members [OF assms] by (simp add: dyn_toggle_all_def dyn_yields_def)
next
  case False
  have l: "length (masks_slice d) = num_masks_for (d_len d)" using dyn_slice [OF assms] by simp
  have "{..<d_len d} \<subseteq> {..<64 * num_masks_for (d_len d)}" using num_masks_covers [of "d_len d"] by auto
  then have "arr_members (map NOT (masks_slice d)) \<inter> {..<d_len d} = {..<d_len d} - dyn_members d"
    using arr_members_not [OF l] by (simp add: dyn_members_def diff_inter_subset)
  then show ?thesis
    using clear_masks_ok [OF assms, of "\<lambda>ms. Some (map NOT ms)" "map NOT (masks_slice d)"] False l
    by (auto simp: dyn_toggle_all_def dyn_yields_def)
qed

lemma dyn_zip_clear_ok:
  assumes "dyn_ok a" and "dyn_ok b" and "d_len b = d_len a" and "0 < d_len a"
    and "arr_members (map2 f (masks_slice a) (masks_slice b)) = S" and "S \<subseteq> {..<d_len a}"
  shows "dyn_yields (d_len a) (Option.bind (dyn_zip f a b) dyn_clear_padding) S"
proof -
  have "length (map2 f (masks_slice a) (masks_slice b)) = num_masks_for (d_len a)"
    using dyn_slice(2) [OF assms(1)] dyn_slice(2) [OF assms(2)] assms(3) by simp
  then have "\<exists>d'. Option.bind (dyn_zip f a b) dyn_clear_padding = Some d' \<and> dyn_ok d' \<and> d_len d' = d_len a
      \<and> dyn_members d' = S \<inter> {..<d_len a}"
    using clear_masks_ok [of a "\<lambda>ms. zip_masks_raw f ms (d_words b)"] dyn_zip_slices [OF assms(1-3), of f] assms(1,4,5)
    by (simp add: dyn_zip_def)
  moreover have "S \<inter> {..<d_len a} = S" using assms(6) by blast
  ultimately show ?thesis by (simp add: dyn_yields_def)
qed

lemma dyn_union_ok:
  assumes "dyn_ok a" and "dyn_ok b" and "d_len b = d_len a"
  shows "dyn_yields (d_len a) (dyn_set_union a b) (dyn_members a \<union> dyn_members b)"
proof -
  have "length (masks_slice a) = length (masks_slice b)"
    using dyn_slice(2) [OF assms(1)] dyn_slice(2) [OF assms(2)] assms(3) by simp
  moreover have "dyn_members a \<union> dyn_members b \<subseteq> {..<d_len a}"
    using dyn_members_below [OF assms(1)] dyn_members_below [OF assms(2)] assms(3) by simp
  ultimately show ?thesis
    using dyn_zip_ok [OF assms, of "(OR)" "dyn_members a \<union> dyn_members b"] zip_masks_members(1)
    by (simp add: dyn_yields_def dyn_set_union_def dyn_members_def)
qed

text \<open>
  C38. On two well-formed dynamic bit sets of the same length, union, intersection, exclusion,
  symmetric difference, copying, filling and complement never read out of bounds, keep the
  invariant (no padding bit is ever left set) and compute the set operation of the members.
\<close>

theorem dynamic_set_algebra:
  assumes "dyn_ok a" and "dyn_ok b" and "d_len b = d_len a"
  shows "dyn_yields (d_len a) (dyn_set_union a b) (dyn_members a \<union> dyn_members b)
    \<and> dyn_yields (d_len a) (dyn_set_intersection a b) (dyn_members a \<inter> dyn_members b)
    \<and> dyn_yields (d_len a) (dyn_set_exclude a b) (dyn_members a - dyn_members b)
    \<and> dyn_yields (d_len a) (dyn_toggle_set a b) ((dyn_members a - dyn_members b) \<union> (dyn_members b - dyn_members a))
    \<and> dyn_yields (d_len a) (dyn_copy_into a b) (dyn_members b)
    \<and> dyn_yields (d_len a) (dyn_set_all a v) (if v then {..<d_len a} else {})
    \<and> dyn_yields (d_len a) (dyn_toggle_all a) ({..<d_len a} - dyn_members a)"
proof -
  have l: "length (masks_slice a) = length (masks_slice b)"
    using dyn_slice(2) [OF assms(1)] dyn_slice(2) [OF assms(2)] assms(3) by simp
  have A: "dyn_members a \<subseteq> {..<d_len a}" and B: "dyn_members b \<subseteq> {..<d_len a}"
    using dyn_members_below assms by force+
  note zip = zip_masks_members [OF l, folded dyn_members_def]
  note ok = dyn_zip_ok [OF assms] and clear = dyn_zip_clear_ok [OF assms]
  have sub: "dyn_members a \<union> dyn_members b \<subseteq> {..<d_len a}" "dyn_members a \<inter> dyn_members b \<subseteq> {..<d_len a}"
    "dyn_members a - dyn_members b \<subseteq> {..<d_len a}"
    "(dyn_members a - dyn_members b) \<union> (dyn_members b - dyn_members a) \<subseteq> {..<d_len a}"
    using A B by blast+
  have empty: "dyn_members a = {}" "dyn_members b = {}" if "d_len a = 0" using A B that by auto
  have second: "arr_members (map2 (\<lambda>_ y. y) (masks_slice a) (masks_slice b)) = dyn_members b"
    using arr_members_second [OF l] by (simp add: dyn_members_def)
  have t: "dyn_yields (d_len a) (dyn_toggle_set a b) ((dyn_members a - dyn_members b) \<union> (dyn_members b - dyn_members a))"
    using clear [OF _ zip(3) sub(4)] empty assms(1) by (cases "d_len a = 0") (simp_all add: dyn_toggle_set_def dyn_yields_def)
  have c: "dyn_yields (d_len a) (dyn_copy_into a b) (dyn_members b)"
    using clear [OF _ second B] empty assms(1) by (cases "d_len a = 0") (simp_all add: dyn_copy_into_def dyn_yields_def)
  show ?thesis
    using ok [OF zip(1) sub(1)] ok [OF zip(2) sub(2)] ok [OF zip(4) sub(3)] t c
      dyn_set_all_ok [OF assms(1)] dyn_toggle_all_ok [OF assms(1)]
    by (simp add: dyn_yields_def dyn_set_union_def dyn_set_intersection_def dyn_set_exclude_def)
qed

definition sample_dyn :: dyn_bit_set where
  "sample_dyn = \<lparr>d_len = 70, d_header = 3, d_words = [5, 32]\<rparr>"

lemma sample_dyn_ok: "dyn_ok sample_dyn"
proof -
  have b: "bit (32 :: u64) j \<longleftrightarrow> j = 5" for j
    using bit_exp_iff [where 'a = u64, of 5 j] by (auto dest: bit_imp_le_length)
  have "i < 70" if "i div 64 < 2" and "bit ([5, 32 :: u64] ! (i div 64)) (i mod 64)" for i
  proof (cases "i div 64 = 0")
    case False
    then have "i div 64 = 1" using that by simp
    moreover from this have "i mod 64 = 5" using that(2) b [of "i mod 64"] by simp
    ultimately show ?thesis using div_mult_mod_eq [of i 64] by simp
  qed simp
  then show ?thesis
    by (auto simp: dyn_ok_def sample_dyn_def masks_slice_def masks_ok_def num_masks_for_def arr_members_def)
qed

theorem dynamic_set_algebra_witness:
  "dyn_yields 70 (dyn_set_exclude sample_dyn sample_dyn) {}
   \<and> dyn_yields 70 (dyn_set_all sample_dyn True) {..<70}"
  using dynamic_set_algebra [OF sample_dyn_ok sample_dyn_ok refl, of True] by (simp add: sample_dyn_def)

section \<open>Queries and iteration\<close>

lemma dyn_eql_iff:
  assumes "dyn_ok a" and "dyn_ok b"
  shows "dyn_eql a b \<longleftrightarrow> d_len a = d_len b \<and> dyn_members a = dyn_members b"
  using arr_members_inject [of "masks_slice a" "masks_slice b"] dyn_slice(2) [OF assms(1)] dyn_slice(2) [OF assms(2)]
  by (auto simp: dyn_eql_def dyn_members_def)

lemma list_all_zip_and:
  assumes "length a = length b"
  shows "list_all (\<lambda>(x, y). x AND y = x) (zip a b) \<longleftrightarrow> map2 (AND) a b = a"
    and "list_all (\<lambda>(x, y). x AND y = y) (zip a b) \<longleftrightarrow> map2 (AND) a b = b"
  using assms by (auto simp: list_all_length list_eq_iff_nth_eq)

lemma dyn_subset_iff:
  assumes "dyn_ok a" and "dyn_ok b"
  shows "dyn_subset_of a b \<longleftrightarrow> d_len a = d_len b \<and> dyn_members a \<subseteq> dyn_members b"
    and "dyn_superset_of a b \<longleftrightarrow> d_len a = d_len b \<and> dyn_members b \<subseteq> dyn_members a"
proof -
  let ?x = "masks_slice a" and ?y = "masks_slice b"
  have *: "(map2 (AND) ?x ?y = ?x) = (dyn_members a \<subseteq> dyn_members b)" "(map2 (AND) ?x ?y = ?y) = (dyn_members b \<subseteq> dyn_members a)"
    if "d_len a = d_len b"
  proof -
    have l: "length ?x = length ?y" using dyn_slice(2) [OF assms(1)] dyn_slice(2) [OF assms(2)] that by simp
    then show "(map2 (AND) ?x ?y = ?x) = (dyn_members a \<subseteq> dyn_members b)"
      using arr_members_inject [of "map2 (AND) ?x ?y" ?x] zip_masks_members(2) [OF l] by (auto simp: dyn_members_def)
    show "(map2 (AND) ?x ?y = ?y) = (dyn_members b \<subseteq> dyn_members a)"
      using l arr_members_inject [of "map2 (AND) ?x ?y" ?y] zip_masks_members(2) [OF l] by (auto simp: dyn_members_def)
  qed
  have l: "length ?x = length ?y" if "d_len a = d_len b"
    using dyn_slice(2) [OF assms(1)] dyn_slice(2) [OF assms(2)] that by simp
  show "dyn_subset_of a b \<longleftrightarrow> d_len a = d_len b \<and> dyn_members a \<subseteq> dyn_members b"
    using * l list_all_zip_and(1) [of ?x ?y] by (auto simp: dyn_subset_of_def)
  show "dyn_superset_of a b \<longleftrightarrow> d_len a = d_len b \<and> dyn_members b \<subseteq> dyn_members a"
    using * l list_all_zip_and(2) [of ?x ?y] by (auto simp: dyn_superset_of_def)
qed

lemma dyn_is_set_iff:
  assumes "dyn_ok d" and "i < d_len d"
  shows "dyn_is_set d i = Some (i \<in> dyn_members d)"
  using masks_update_members(5) [of i "masks_slice d"] word_index_less [OF assms(2)] dyn_slice(2) [OF assms(1)]
  by (simp add: dyn_is_set_def dyn_members_def)

text \<open>
  The queries of well-formed dynamic bit sets read their members: equality, inclusion and
  intersection are those of the sets (the padding never makes equal sets differ), the count is the
  cardinality, the first set bit the minimum, and a look-up below the length never panics.
\<close>

lemma dynamic_queries:
  assumes "dyn_ok a" and "dyn_ok b"
  shows "(dyn_eql a b \<longleftrightarrow> d_len a = d_len b \<and> dyn_members a = dyn_members b)
    \<and> (dyn_subset_of a b \<longleftrightarrow> d_len a = d_len b \<and> dyn_members a \<subseteq> dyn_members b)
    \<and> (dyn_superset_of a b \<longleftrightarrow> d_len a = d_len b \<and> dyn_members b \<subseteq> dyn_members a)
    \<and> (d_len a = d_len b \<longrightarrow> (dyn_has_intersection a b \<longleftrightarrow> dyn_members a \<inter> dyn_members b \<noteq> {}))
    \<and> dyn_count a = card (dyn_members a)
    \<and> dyn_find_first_set a = (if dyn_members a = {} then None else Some (Min (dyn_members a)))
    \<and> (i < d_len a \<longrightarrow> dyn_is_set a i = Some (i \<in> dyn_members a))"
proof -
  have "dyn_has_intersection a b \<longleftrightarrow> dyn_members a \<inter> dyn_members b \<noteq> {}" if "d_len a = d_len b"
    using masks_has_intersection_iff [of "masks_slice a" "masks_slice b"] dyn_slice(2) [OF assms(1)] dyn_slice(2) [OF assms(2)] that
    by (simp add: dyn_has_intersection_def dyn_members_def)
  then show ?thesis
    using dyn_eql_iff [OF assms] dyn_subset_iff [OF assms] dyn_is_set_iff [OF assms(1)]
    by (simp add: dyn_count_def masks_count_card dyn_find_first_set_def masks_find_first_Min flip: dyn_members_def)
qed

text \<open>
  C39. The four iterators of a well-formed dynamic bit set stop: the forward ones list the set (or
  the unset) indices below the length in increasing order, the backward ones in decreasing order,
  and no index of the padding is ever produced.
\<close>

theorem dynamic_iterator_enumerates:
  assumes "dyn_ok d"
  shows "bsi_iterate kind_set dir_fwd (dyn_iterator kind_set dir_fwd d)
    = (let xs = sorted_list_of_set (if kind_set then dyn_members d else {..<d_len d} - dyn_members d)
       in if dir_fwd then xs else rev xs)"
  using seen_words_members [OF dyn_slice(1) [OF assms], of kind_set]
  by (cases dir_fwd) (simp_all add: dyn_iterator_def bsi_init_forward bsi_init_backward dyn_members_def)

theorem dynamic_iterator_enumerates_witness:
  "bsi_iterate False False (dyn_iterator False False sample_dyn)
    = rev (sorted_list_of_set ({..<70} - dyn_members sample_dyn))"
  using dynamic_iterator_enumerates [OF sample_dyn_ok, of False False] by (simp add: sample_dyn_def)

end
