(* ===== verification/Bit_Auto.thy ===== *)
theory Bit_Auto
  imports Bit_Dynamic
begin

unbundle bit_operations_syntax

text \<open>
  \<open>AutoBitSet\<close>, which keeps up to 127 bits inline and allocates a dynamic set for more, and
  \<open>DynamicBitSetList\<close>, several sets of one length in one buffer.  The first supports the single-bit
  updates of the contract \<open>bounded_set\<close>; for the second, an update of one set leaves the others alone.
\<close>

section \<open>AutoBitSet\<close>

datatype auto_bit_set = Auto_Static masks | Auto_Dynamic dyn_bit_set

definition auto_static_bits :: nat where
  "auto_static_bits = 16 * 8 - 1"

definition auto_needs_dynamic :: "nat \<Rightarrow> bool" where
  "auto_needs_dynamic bit_length \<longleftrightarrow> bit_length > auto_static_bits"

definition auto_init_empty :: "bool \<Rightarrow> (nat \<Rightarrow> u64) \<Rightarrow> nat \<Rightarrow> alloc_error + auto_bit_set" where
  "auto_init_empty ok junk bit_length =
     (if bit_length \<le> auto_static_bits then Inr (Auto_Static (array_init_empty auto_static_bits))
      else map_sum id Auto_Dynamic (dyn_init_empty ok junk bit_length))"

fun auto_is_set :: "auto_bit_set \<Rightarrow> nat \<Rightarrow> bool option" where
  "auto_is_set (Auto_Static b) i = array_is_set auto_static_bits b i"
| "auto_is_set (Auto_Dynamic b) i = dyn_is_set b i"

fun auto_has_intersection :: "auto_bit_set \<Rightarrow> auto_bit_set \<Rightarrow> bool" where
  "auto_has_intersection (Auto_Static a) (Auto_Static b) = masks_has_intersection a b"
| "auto_has_intersection (Auto_Dynamic a) (Auto_Dynamic b) = dyn_has_intersection a b"
| "auto_has_intersection _ _ = False"

fun auto_clone :: "bool \<Rightarrow> (nat \<Rightarrow> u64) \<Rightarrow> auto_bit_set \<Rightarrow> alloc_error + auto_bit_set" where
  "auto_clone ok junk (Auto_Static s) = Inr (Auto_Static s)"
| "auto_clone ok junk (Auto_Dynamic d) = map_sum id Auto_Dynamic (dyn_clone ok junk d)"

fun auto_set :: "auto_bit_set \<Rightarrow> nat \<Rightarrow> auto_bit_set option" where
  "auto_set (Auto_Static b) i = map_option Auto_Static (array_set auto_static_bits b i)"
| "auto_set (Auto_Dynamic b) i = map_option Auto_Dynamic (dyn_set b i)"

fun auto_unset :: "auto_bit_set \<Rightarrow> nat \<Rightarrow> auto_bit_set option" where
  "auto_unset (Auto_Static b) i = map_option Auto_Static (array_unset auto_static_bits b i)"
| "auto_unset (Auto_Dynamic b) i = map_option Auto_Dynamic (dyn_unset b i)"

text \<open>\<open>cast_slice\<close> of the words on a little-endian target.\<close>

definition masks_bytes :: "masks \<Rightarrow> bytes" where
  "masks_bytes ms = concat (map (to_le_bytes 8) ms)"

definition dyn_bytes :: "dyn_bit_set \<Rightarrow> bytes" where
  "dyn_bytes d = masks_bytes (masks_slice d)"

fun auto_raw_bytes :: "auto_bit_set \<Rightarrow> bytes" where
  "auto_raw_bytes (Auto_Static s) = masks_bytes s"
| "auto_raw_bytes (Auto_Dynamic d) = dyn_bytes d"

definition auto_eql :: "auto_bit_set \<Rightarrow> auto_bit_set \<Rightarrow> bool" where
  "auto_eql a b \<longleftrightarrow> auto_raw_bytes a = auto_raw_bytes b"

definition auto_hash :: "auto_bit_set \<Rightarrow> u64" where
  "auto_hash a = bun_hash (auto_raw_bytes a)"

fun auto_set_all :: "auto_bit_set \<Rightarrow> bool \<Rightarrow> auto_bit_set option" where
  "auto_set_all (Auto_Static b) v = map_option Auto_Static (array_set_all auto_static_bits b v)"
| "auto_set_all (Auto_Dynamic b) v = map_option Auto_Dynamic (dyn_set_all b v)"

fun auto_count :: "auto_bit_set \<Rightarrow> nat" where
  "auto_count (Auto_Static b) = masks_count b"
| "auto_count (Auto_Dynamic b) = dyn_count b"

fun auto_find_first_set :: "auto_bit_set \<Rightarrow> nat option" where
  "auto_find_first_set (Auto_Static b) = masks_find_first 0 b"
| "auto_find_first_set (Auto_Dynamic b) = dyn_find_first_set b"

fun auto_iterator :: "bool \<Rightarrow> bool \<Rightarrow> auto_bit_set \<Rightarrow> bsi" where
  "auto_iterator kind_set dir_fwd (Auto_Static b) = bsi_init kind_set dir_fwd b (last_item_mask auto_static_bits)"
| "auto_iterator kind_set dir_fwd (Auto_Dynamic b) = dyn_iterator kind_set dir_fwd b"

definition auto_for_each :: "auto_bit_set \<Rightarrow> ('c \<Rightarrow> nat \<Rightarrow> 'c) \<Rightarrow> 'c \<Rightarrow> 'c" where
  "auto_for_each s function ctx = foldl function ctx (bsi_iterate True True (auto_iterator True True s))"

fun auto_step :: "auto_bit_set \<Rightarrow> ix_op \<Rightarrow> auto_bit_set option" where
  "auto_step s (Ix_Set i) = auto_set s i"
| "auto_step s (Ix_Unset i) = auto_unset s i"
| "auto_step s _ = None"

fun auto_supported :: "ix_op \<Rightarrow> bool" where
  "auto_supported (Ix_Set i) = True"
| "auto_supported (Ix_Unset i) = True"
| "auto_supported _ = False"

section \<open>Its members\<close>

fun auto_members :: "auto_bit_set \<Rightarrow> nat set" where
  "auto_members (Auto_Static ms) = arr_members ms"
| "auto_members (Auto_Dynamic d) = dyn_members d"

fun auto_ok :: "nat \<Rightarrow> auto_bit_set \<Rightarrow> bool" where
  "auto_ok n (Auto_Static ms) \<longleftrightarrow> n \<le> auto_static_bits \<and> masks_ok auto_static_bits ms"
| "auto_ok n (Auto_Dynamic d) \<longleftrightarrow> auto_static_bits < n \<and> dyn_ok d \<and> d_len d = n"

lemma auto_init_empty_ok:
  assumes "auto_init_empty ok junk n = Inr s"
  shows "auto_ok n s" and "auto_members s = {}"
proof -
  have "auto_ok n s \<and> auto_members s = {}"
  proof (cases "n \<le> auto_static_bits")
    case True
    then show ?thesis using assms array_init_empty_ok [of auto_static_bits] by (auto simp: auto_init_empty_def)
  next
    case False
    then obtain d where d: "dyn_resize ok junk dyn_default n False = Inr d" "s = Auto_Dynamic d"
      using assms by (auto simp: auto_init_empty_def dyn_init_empty_def split: sum.splits)
        (metis map_sum.simps old.sum.exhaust sum.distinct(1) sum.inject(2))
    then show ?thesis using dyn_resized [OF dyn_default_ok(1) d(1)] False dyn_default_ok(2) by auto
  qed
  then show "auto_ok n s" "auto_members s = {}" by blast+
qed

lemma auto_step_ok:
  assumes "auto_ok n s" and "auto_supported x" and "ix_within n x"
  shows "\<exists>s'. auto_step s x = Some s' \<and> auto_ok n s' \<and> auto_members s' = ix_effect x (auto_members s)"
proof (cases s)
  case (Auto_Static ms)
  have "ix_within auto_static_bits x" using assms Auto_Static by (cases x) auto
  moreover have "auto_step s x = map_option Auto_Static (array_step auto_static_bits ms x)"
    using assms(2) Auto_Static by (cases x) auto
  ultimately show ?thesis using array_step_ok [of auto_static_bits ms x] assms(1) Auto_Static by auto
next
  case (Auto_Dynamic d)
  moreover have "auto_step s x = map_option Auto_Dynamic (dyn_step d x)"
    using assms(2) Auto_Dynamic by (cases x) auto
  ultimately show ?thesis using dyn_step_ok [of d n x] assms by auto
qed

interpretation auto: bounded_set auto_step auto_members "auto_ok n" auto_supported n for n
  by unfold_locales (rule auto_step_ok)

lemma concat_le_bytes_inject:
  "length xs = length ys \<Longrightarrow> concat (map (to_le_bytes 8) xs) = concat (map (to_le_bytes 8) ys) \<longleftrightarrow> xs = ys"
proof (induction xs ys rule: list_induct2)
  case (Cons x xs y ys)
  have "to_le_bytes 8 x = to_le_bytes 8 y \<longleftrightarrow> x = y" by (metis from_to_le_bytes_8)
  then show ?case using Cons by (simp add: append_eq_append_conv)
qed simp

lemma masks_bytes_eq_iff:
  assumes "length a = length b"
  shows "masks_bytes a = masks_bytes b \<longleftrightarrow> arr_members a = arr_members b"
  using concat_le_bytes_inject [OF assms] arr_members_inject [OF assms] by (simp add: masks_bytes_def)

text \<open>The masks of either arm.\<close>

fun auto_masks :: "auto_bit_set \<Rightarrow> masks" where
  "auto_masks (Auto_Static ms) = ms"
| "auto_masks (Auto_Dynamic d) = masks_slice d"

definition auto_bits :: "nat \<Rightarrow> nat" where
  "auto_bits n = max n auto_static_bits"

lemma auto_masks_ok: "auto_ok n s \<Longrightarrow> masks_ok (auto_bits n) (auto_masks s)"
  by (cases s) (auto simp: auto_bits_def dyn_ok_def max_def)

lemma auto_reads:
  "auto_raw_bytes s = masks_bytes (auto_masks s)" "auto_members s = arr_members (auto_masks s)"
  "auto_count s = masks_count (auto_masks s)" "auto_find_first_set s = masks_find_first 0 (auto_masks s)"
  "auto_ok n s \<Longrightarrow> auto_iterator k d s = bsi_init k d (auto_masks s) (last_item_mask (auto_bits n))"
  by (cases s; simp add: dyn_bytes_def dyn_members_def dyn_count_def dyn_find_first_set_def dyn_iterator_def auto_bits_def max_def)+

lemma auto_is_set_iff:
  assumes "auto_ok n s" and "i < n"
  shows "auto_is_set s i = Some (i \<in> auto_members s)"
proof (cases s)
  case (Auto_Static ms)
  then have "i div 64 < length ms" "num_masks_for auto_static_bits \<noteq> 0"
    using assms word_index_less [of i auto_static_bits] by (auto simp: masks_ok_def)
  then show ?thesis using masks_update_members(5) [of i ms] Auto_Static by (simp add: array_is_set_def)
next
  case (Auto_Dynamic d)
  then show ?thesis using dyn_is_set_iff [of d i] assms by auto
qed

text \<open>
  C40. An automatic bit set made for \<open>n\<close> bits behaves as a set of indices whichever arm it chose:
  after any sequence of \<open>set\<close> and \<open>unset\<close> below \<open>n\<close>, none of which panics, membership, count, first
  member and the order of iteration are those of the set the sequence describes.
\<close>

theorem auto_bit_set_refines_set:
  assumes "auto_init_empty ok junk n = Inr s"
    and "\<forall>x\<in>set xs. auto_supported x \<and> ix_within n x"
  shows "\<exists>s'. run_ops auto_step s xs = Some s' \<and> (let S = fold ix_effect xs {} in
           (\<forall>i. i < n \<longrightarrow> auto_is_set s' i = Some (i \<in> S))
           \<and> auto_count s' = card S
           \<and> auto_find_first_set s' = (if S = {} then None else Some (Min S))
           \<and> bsi_iterate True True (auto_iterator True True s') = sorted_list_of_set S)"
proof -
  obtain s' where s': "run_ops auto_step s xs = Some s'" "auto_ok n s'" "auto_members s' = fold ix_effect xs {}"
    using auto.run_ok [OF auto_init_empty_ok(1) [OF assms(1)] assms(2)] auto_init_empty_ok(2) [OF assms(1)] by auto
  have "bsi_iterate True True (auto_iterator True True s') = sorted_list_of_set (auto_members s')"
    using seen_words_members [OF auto_masks_ok [OF s'(2)], of True] auto_reads(5) [OF s'(2)]
    by (simp add: bsi_init_forward auto_reads(2))
  then show ?thesis
    using s' auto_is_set_iff [OF s'(2)] auto_reads(2) [of s']
    by (simp add: Let_def auto_reads(3,4) masks_count_card masks_find_first_Min)
qed

theorem auto_bit_set_refines_set_witness:
  "\<exists>s'. run_ops auto_step (Auto_Static (array_init_empty auto_static_bits)) [Ix_Set 9, Ix_Set 3, Ix_Unset 9] = Some s'
     \<and> auto_count s' = 1 \<and> bsi_iterate True True (auto_iterator True True s') = [3]"
proof -
  have "auto_init_empty False (\<lambda>_. 0) 10 = Inr (Auto_Static (array_init_empty auto_static_bits))"
    by (simp add: auto_init_empty_def auto_static_bits_def)
  from auto_bit_set_refines_set [OF this, of "[Ix_Set 9, Ix_Set 3, Ix_Unset 9]"]
  have "\<exists>s'. run_ops auto_step (Auto_Static (array_init_empty auto_static_bits)) [Ix_Set 9, Ix_Set 3, Ix_Unset 9] = Some s'
      \<and> auto_count s' = card {3 :: nat} \<and> bsi_iterate True True (auto_iterator True True s') = sorted_list_of_set {3}"
    unfolding Let_def by (auto simp del: run_ops.simps simp: insert_Diff_if)
  then show ?thesis by simp
qed

text \<open>
  Two automatic bit sets made for the same number of bits compare equal, and then hash equal,
  exactly when they have the same members; they report an intersection exactly when they share one.
\<close>

lemma auto_bit_set_eql_iff:
  assumes "auto_ok n a" and "auto_ok n b"
  shows "(auto_eql a b \<longleftrightarrow> auto_members a = auto_members b)
    \<and> (auto_eql a b \<longrightarrow> auto_hash a = auto_hash b)
    \<and> (auto_has_intersection a b \<longleftrightarrow> auto_members a \<inter> auto_members b \<noteq> {})"
proof -
  have l: "length (auto_masks a) = length (auto_masks b)"
    using auto_masks_ok [OF assms(1)] auto_masks_ok [OF assms(2)] by (simp add: masks_ok_def)
  have "auto_has_intersection a b = masks_has_intersection (auto_masks a) (auto_masks b)"
    using assms by (cases a; cases b) (auto simp: dyn_has_intersection_def)
  then show ?thesis
    using masks_bytes_eq_iff [OF l] masks_has_intersection_iff [OF l] by (auto simp: auto_eql_def auto_hash_def auto_reads(1,2))
qed

section \<open>DynamicBitSetList\<close>

text \<open>
  \<open>n\<close> blocks, each a header word followed by the words of one set.  \<open>at\<close> is a view into the buffer:
  what an operation of the view writes is written to its block.  An index past \<open>n\<close>, which only a
  debug assertion catches, would be a pointer past the buffer and is \<open>None\<close>.
\<close>

record bit_set_list =
  l_buf :: masks
  l_n :: nat
  l_bit_length :: nat

definition dbl_init_empty :: "bool \<Rightarrow> nat \<Rightarrow> nat \<Rightarrow> alloc_error + bit_set_list" where
  "dbl_init_empty ok n bit_length =
     (let single_bitset_buf_size = num_masks_for bit_length + 1;
          buf_len = single_bitset_buf_size * n
      in if buf_len = 0 then Inr \<lparr>l_buf = [], l_n = n, l_bit_length = bit_length\<rparr>
         else if \<not> ok then Inl AllocError
         else Inr \<lparr>l_buf = fold (\<lambda>i buf. buf[i * single_bitset_buf_size := of_nat single_bitset_buf_size]) [0..<n]
                              (replicate buf_len 0),
                   l_n = n, l_bit_length = bit_length\<rparr>)"

definition dbl_at :: "bit_set_list \<Rightarrow> nat \<Rightarrow> dyn_bit_set option" where
  "dbl_at l i =
     (let num_masks = num_masks_for (l_bit_length l);
          offset = (num_masks + 1) * i
      in if i < l_n l
         then Some \<lparr>d_len = l_bit_length l, d_header = unat (l_buf l ! offset), d_words = take num_masks (drop (offset + 1) (l_buf l))\<rparr>
         else None)"

definition dbl_write :: "bit_set_list \<Rightarrow> nat \<Rightarrow> dyn_bit_set \<Rightarrow> bit_set_list" where
  "dbl_write l i d =
     (let num_masks = num_masks_for (l_bit_length l);
          offset = (num_masks + 1) * i
      in l\<lparr>l_buf := take (offset + 1) (l_buf l) @ d_words d @ drop (offset + 1 + num_masks) (l_buf l)\<rparr>)"

definition dbl_set :: "bit_set_list \<Rightarrow> nat \<Rightarrow> nat \<Rightarrow> bit_set_list option" where
  "dbl_set l i j = Option.bind (dbl_at l i) (\<lambda>bitset. map_option (dbl_write l i) (dyn_set bitset j))"

definition dbl_set_union :: "bit_set_list \<Rightarrow> nat \<Rightarrow> dyn_bit_set \<Rightarrow> bit_set_list option" where
  "dbl_set_union l i other = Option.bind (dbl_at l i) (\<lambda>bitset. map_option (dbl_write l i) (dyn_set_union bitset other))"

definition dbl_ok :: "bit_set_list \<Rightarrow> bool" where
  "dbl_ok l \<longleftrightarrow> length (l_buf l) = (num_masks_for (l_bit_length l) + 1) * l_n l
     \<and> (\<forall>i < l_n l. \<forall>d. dbl_at l i = Some d \<longrightarrow> dyn_ok d \<and> d_header d \<noteq> 0)"

definition dbl_members :: "bit_set_list \<Rightarrow> nat \<Rightarrow> nat set" where
  "dbl_members l i = (case dbl_at l i of Some d \<Rightarrow> dyn_members d | None \<Rightarrow> {})"

text \<open>Blocks do not overlap.\<close>

lemma block_position:
  assumes "t < m" and "(m + 1) * i + 1 \<le> (m + 1) * k + 1 + t" and "(m + 1) * k + 1 + t < (m + 1) * i + 1 + m"
  shows "k = (i :: nat)"
proof (rule ccontr)
  assume "k \<noteq> i"
  then consider "k + 1 \<le> i" | "i + 1 \<le> k" by linarith
  then show False
  proof cases
    case 1
    have "(m + 1) * (k + 1) \<le> (m + 1) * i" using 1 by (rule mult_le_mono2)
    then show False using assms by (simp add: algebra_simps)
  next
    case 2
    have "(m + 1) * (i + 1) \<le> (m + 1) * k" using 2 by (rule mult_le_mono2)
    then show False using assms by (simp add: algebra_simps)
  qed
qed

lemma block_end: "k < n \<Longrightarrow> (m + 1) * k + 1 + m \<le> (m + 1) * (n :: nat)"
  using mult_le_mono2 [of "k + 1" n "m + 1"] by (simp add: algebra_simps)

lemma splice_nth:
  assumes "off + length xs \<le> length buf" and "p < length buf"
  shows "(take off buf @ xs @ drop (off + length xs) buf) ! p
           = (if off \<le> p \<and> p < off + length xs then xs ! (p - off) else buf ! p)"
  using assms by (auto simp: nth_append)

lemma block_start: "\<not> ((m + 1) * i + 1 \<le> (m + 1) * k \<and> (m + 1) * k < (m + 1) * i + 1 + (m :: nat))"
proof (cases "k \<le> i")
  case True
  then show ?thesis using mult_le_mono2 [of k i "m + 1"] by linarith
next
  case False
  then show ?thesis using mult_le_mono2 [of "i + 1" k "m + 1"] by (simp add: algebra_simps)
qed

definition splice :: "nat \<Rightarrow> masks \<Rightarrow> masks \<Rightarrow> masks" where
  "splice off ws buf = take off buf @ ws @ drop (off + length ws) buf"

lemma splice_blocks:
  assumes len: "length buf = (m + 1) * n" and "i < n" and k: "k < n" and ws: "length ws = m"
  defines "buf' \<equiv> splice ((m + 1) * i + 1) ws buf"
  shows "length buf' = length buf"
    and "buf' ! ((m + 1) * k) = buf ! ((m + 1) * k)"
    and "take m (drop ((m + 1) * k + 1) buf') = (if k = i then ws else take m (drop ((m + 1) * k + 1) buf))"
proof -
  define off where "off = (m + 1) * i"
  have b: "off + 1 + m \<le> length buf" "(m + 1) * k + 1 + m \<le> length buf"
    using len block_end [of i n m] block_end [of k n m] assms(2,3) by (auto simp: off_def)
  show lb: "length buf' = length buf" using b(1) ws by (simp add: buf'_def splice_def off_def)
  have nth: "buf' ! p = (if off + 1 \<le> p \<and> p < off + 1 + m then ws ! (p - (off + 1)) else buf ! p)" if "p < length buf" for p
    using splice_nth [of "off + 1" ws buf p] b(1) that ws by (simp add: buf'_def splice_def off_def)
  have pos: "off + 1 \<le> (m + 1) * k + 1 + t \<and> (m + 1) * k + 1 + t < off + 1 + m \<longleftrightarrow> k = i" if "t < m" for t
    using block_position [OF that, of i k] that by (auto simp: off_def)
  show "buf' ! ((m + 1) * k) = buf ! ((m + 1) * k)"
    using nth [of "(m + 1) * k"] b(2) block_start [of m i k] by (auto simp: off_def)
  show "take m (drop ((m + 1) * k + 1) buf') = (if k = i then ws else take m (drop ((m + 1) * k + 1) buf))"
  proof (rule nth_equalityI)
    show "length (take m (drop ((m + 1) * k + 1) buf')) = length (if k = i then ws else take m (drop ((m + 1) * k + 1) buf))"
      using b lb ws by simp
    fix t assume "t < length (take m (drop ((m + 1) * k + 1) buf'))"
    then have t: "t < m" by simp
    have "take m (drop ((m + 1) * k + 1) buf') ! t = buf' ! ((m + 1) * k + 1 + t)" using t b lb by simp
    also have "\<dots> = (if k = i then ws ! t else buf ! ((m + 1) * k + 1 + t))"
      using nth [of "(m + 1) * k + 1 + t"] pos [OF t] b(2) t by (auto simp: off_def)
    finally show "take m (drop ((m + 1) * k + 1) buf') ! t = (if k = i then ws else take m (drop ((m + 1) * k + 1) buf)) ! t"
      using t b(2) by simp
  qed
qed

lemma dbl_write_at:
  assumes len: "length (l_buf l) = (num_masks_for (l_bit_length l) + 1) * l_n l" and i: "i < l_n l" and k: "k < l_n l"
    and ws: "length (d_words d) = num_masks_for (l_bit_length l)"
    and d0: "dbl_at l i = Some d0" "d_header d = d_header d0" "d_len d = l_bit_length l"
  shows "dbl_at (dbl_write l i d) k = (if k = i then Some d else dbl_at l k)"
    and "length (l_buf (dbl_write l i d)) = length (l_buf l)"
proof -
  define m where "m = num_masks_for (l_bit_length l)"
  note blocks = splice_blocks [OF len i k ws, folded m_def]
  have w: "l_buf (dbl_write l i d) = splice ((m + 1) * i + 1) (d_words d) (l_buf l)"
      "l_n (dbl_write l i d) = l_n l" "l_bit_length (dbl_write l i d) = l_bit_length l"
    using ws by (simp_all add: dbl_write_def splice_def Let_def m_def)
  show "length (l_buf (dbl_write l i d)) = length (l_buf l)" by (simp only: w(1) blocks(1))
  have at: "dbl_at l' k = Some \<lparr>d_len = l_bit_length l, d_header = unat (l_buf l' ! ((m + 1) * k)),
      d_words = take m (drop ((m + 1) * k + 1) (l_buf l'))\<rparr>" if "l_n l' = l_n l" "l_bit_length l' = l_bit_length l" for l'
    using that k by (simp add: dbl_at_def Let_def m_def)
  have d: "d = \<lparr>d_len = l_bit_length l, d_header = unat (l_buf l ! ((m + 1) * k)), d_words = d_words d\<rparr>" if "k = i"
    using d0 that at [OF refl refl] by (cases d) auto
  have "dbl_at (dbl_write l i d) k = Some \<lparr>d_len = l_bit_length l, d_header = unat (l_buf l ! ((m + 1) * k)),
      d_words = (if k = i then d_words d else take m (drop ((m + 1) * k + 1) (l_buf l)))\<rparr>"
    using at [OF w(2,3)] by (simp only: w(1) blocks(2,3))
  then show "dbl_at (dbl_write l i d) k = (if k = i then Some d else dbl_at l k)"
    using at [OF refl refl] d by (cases "k = i") (metis, simp)
qed

lemma dbl_update_ok:
  assumes ok: "dbl_ok l" and i: "i < l_n l" and d: "dbl_at l i = Some d"
    and f: "\<exists>d'. f d = Some d' \<and> dyn_ok d' \<and> d_len d' = d_len d \<and> d_header d' = d_header d
              \<and> length (d_words d') = length (d_words d) \<and> dyn_members d' = S"
  shows "\<exists>l'. map_option (dbl_write l i) (f d) = Some l' \<and> dbl_ok l' \<and> l_n l' = l_n l \<and> l_bit_length l' = l_bit_length l
           \<and> (\<forall>k < l_n l. dbl_members l' k = (if k = i then S else dbl_members l k))"
proof -
  obtain d' where d': "f d = Some d'" "dyn_ok d'" "d_len d' = d_len d" "d_header d' = d_header d"
      "length (d_words d') = length (d_words d)" "dyn_members d' = S" using f by blast
  have len: "length (l_buf l) = (num_masks_for (l_bit_length l) + 1) * l_n l" using ok by (simp add: dbl_ok_def)
  have dl: "d_len d = l_bit_length l" "length (d_words d) = num_masks_for (l_bit_length l)"
    using d i len block_end [OF i, of "num_masks_for (l_bit_length l)"] by (auto simp: dbl_at_def Let_def)
  note at = dbl_write_at [OF len i _ _ d d'(4)]
  let ?l = "dbl_write l i d'"
  have at': "dbl_at ?l k = (if k = i then Some d' else dbl_at l k)" if "k < l_n l" for k
    using at(1) [OF that] d'(3,5) dl by simp
  have n: "l_n ?l = l_n l" "l_bit_length ?l = l_bit_length l" by (simp_all add: dbl_write_def Let_def)
  have "d_header d' \<noteq> 0" using ok i d d'(4) by (auto simp: dbl_ok_def)
  then have "dbl_ok ?l" using ok at' at(2) [OF i] d'(2,3,5) dl n by (auto simp: dbl_ok_def split: if_splits)
  moreover have "dbl_members ?l k = (if k = i then S else dbl_members l k)" if "k < l_n l" for k
    using at' [OF that] d'(6) by (simp add: dbl_members_def)
  ultimately show ?thesis using d'(1) n by auto
qed

text \<open>The operations of a view keep its header, so its length too.\<close>

lemma view_frame:
  assumes "with_masks d f = Some d'" and "dyn_ok d" and "dyn_ok d'" and "d_header d \<noteq> 0"
  shows "d_header d' = d_header d" and "length (d_words d') = length (d_words d)"
proof -
  show h: "d_header d' = d_header d" using assms(1) by (auto simp: with_masks_def)
  show "length (d_words d') = length (d_words d)" using assms(2-4) h by (simp add: dyn_ok_def)
qed

lemma dbl_at_view:
  assumes "dbl_ok l" and "i < l_n l"
  obtains d where "dbl_at l i = Some d" "dyn_ok d" "d_header d \<noteq> 0" "d_len d = l_bit_length l" "dyn_members d = dbl_members l i"
  using assms by (auto simp: dbl_ok_def dbl_members_def) (auto simp: dbl_at_def Let_def)

lemma fold_headers:
  "length (fold (\<lambda>i buf. buf[i * sz := v]) [0..<q] (replicate (sz * n) (0 :: u64))) = sz * n
    \<and> (\<forall>p < sz * n. fold (\<lambda>i buf. buf[i * sz := v]) [0..<q] (replicate (sz * n) 0) ! p = (if \<exists>i < q. p = i * sz then v else 0))"
proof (induction q)
  case (Suc q)
  define buf where "buf = fold (\<lambda>i buf. buf[i * sz := v]) [0..<q] (replicate (sz * n) 0)"
  have "buf[q * sz := v] ! p = (if \<exists>i < Suc q. p = i * sz then v else 0)" if "p < sz * n" for p
    using Suc that by (cases "p = q * sz") (auto simp: less_Suc_eq simp flip: buf_def)
  then show ?case using Suc by (simp flip: buf_def)
qed simp

lemma dbl_init_at:
  assumes "dbl_init_empty ok n bl = Inr l" and "bl < 2 ^ 64" and k: "k < n"
  shows "dbl_at l k = Some \<lparr>d_len = bl, d_header = num_masks_for bl + 1, d_words = replicate (num_masks_for bl) 0\<rparr>"
proof -
  define m where "m = num_masks_for bl"
  define buf where "buf = fold (\<lambda>i buf. buf[i * (m + 1) := of_nat (m + 1)]) [0..<n] (replicate ((m + 1) * n) (0 :: u64))"
  have l: "l = \<lparr>l_buf = buf, l_n = n, l_bit_length = bl\<rparr>"
    using assms(1) k by (auto simp: dbl_init_empty_def Let_def buf_def m_def split: if_splits)
  have nth: "length buf = (m + 1) * n" "p < (m + 1) * n \<Longrightarrow> buf ! p = (if \<exists>i < n. p = i * (m + 1) then of_nat (m + 1) else 0)" for p
    using fold_headers [of "m + 1" "of_nat (m + 1)" n n] by (auto simp: buf_def simp del: mult_Suc)
  have b: "(m + 1) * k + 1 + m \<le> (m + 1) * n" using block_end [OF k] .
  have "m \<le> bl" by (cases bl) (simp_all add: m_def num_masks_for_def)
  then have m: "m + 1 < 2 ^ 64" using assms(2) unfolding m_def num_masks_for_def by simp
  have "buf ! ((m + 1) * k) = of_nat (m + 1)" using nth(2) [of "(m + 1) * k"] b k by (auto simp: mult.commute)
  moreover have "unat (of_nat q :: u64) = q" if "q < 2 ^ 64" for q using that by (simp add: unat_of_nat)
  ultimately have head: "unat (buf ! ((m + 1) * k)) = m + 1" using m by metis
  have "take m (drop ((m + 1) * k + 1) buf) = replicate m 0"
  proof (rule nth_equalityI)
    fix t assume "t < length (take m (drop ((m + 1) * k + 1) buf))"
    then have t: "t < m" by simp
    have "(m + 1) * k + 1 + t \<noteq> i * (m + 1)" for i
      using block_start [of m k i] t by (auto simp: mult.commute)
    then show "take m (drop ((m + 1) * k + 1) buf) ! t = replicate m 0 ! t"
      using t b nth(1) nth(2) [of "(m + 1) * k + 1 + t"] by auto
  qed (use b nth(1) in simp)
  then show ?thesis using head k by (simp add: l dbl_at_def Let_def flip: m_def)
qed

lemma dbl_init_ok:
  assumes "dbl_init_empty ok n bl = Inr l" and "bl < 2 ^ 64"
  shows "dbl_ok l" and "l_n l = n" and "l_bit_length l = bl" and "k < n \<Longrightarrow> dbl_members l k = {}"
proof -
  note at = dbl_init_at [OF assms]
  show n: "l_n l = n" "l_bit_length l = bl"
    using assms(1) by (auto simp: dbl_init_empty_def Let_def split: if_splits)
  have e: "arr_members (replicate q 0) = {}" for q by (auto simp: arr_members_def)
  have "length (l_buf l) = (num_masks_for bl + 1) * n"
    using assms(1) fold_headers [of "num_masks_for bl + 1" _ n n] by (auto simp: dbl_init_empty_def Let_def split: if_splits)
  then show "dbl_ok l" using at n by (auto simp: dbl_ok_def dyn_ok_def masks_slice_def masks_ok_def e)
  show "dbl_members l k = {}" if "k < n" using at [OF that] e by (simp add: dbl_members_def dyn_members_def masks_slice_def)
qed

text \<open>
  The sets of a \<open>DynamicBitSetList\<close> share one buffer but not their members: a fresh list has
  empty sets, and setting a bit of one set, or joining a set of the same length into it, changes that
  set exactly as the operation says, changes no other set and keeps the headers intact.
\<close>

lemma bit_set_list_isolated:
  assumes "dbl_ok l" and "i < l_n l"
  shows "(j < l_bit_length l \<longrightarrow> (\<exists>l'. dbl_set l i j = Some l' \<and> dbl_ok l' \<and> l_n l' = l_n l
            \<and> (\<forall>k < l_n l. dbl_members l' k = (if k = i then insert j (dbl_members l i) else dbl_members l k))))
    \<and> (dyn_ok other \<and> d_len other = l_bit_length l \<longrightarrow> (\<exists>l'. dbl_set_union l i other = Some l' \<and> dbl_ok l' \<and> l_n l' = l_n l
            \<and> (\<forall>k < l_n l. dbl_members l' k = (if k = i then dbl_members l i \<union> dyn_members other else dbl_members l k))))"
proof -
  obtain d where d: "dbl_at l i = Some d" "dyn_ok d" "d_header d \<noteq> 0" "d_len d = l_bit_length l" "dyn_members d = dbl_members l i"
    using dbl_at_view [OF assms] .
  have set_ok: "\<exists>d'. dyn_set d j = Some d' \<and> dyn_ok d' \<and> d_len d' = d_len d \<and> d_header d' = d_header d
      \<and> length (d_words d') = length (d_words d) \<and> dyn_members d' = insert j (dbl_members l i)" if "j < l_bit_length l"
    using dyn_step_ok [of d "d_len d" "Ix_Set j"] view_frame [of d "\<lambda>ms. masks_set ms j"] d that by (auto simp: dyn_set_def)
  have union: "\<exists>d'. dyn_set_union d other = Some d' \<and> dyn_ok d' \<and> d_len d' = d_len d \<and> d_header d' = d_header d
      \<and> length (d_words d') = length (d_words d) \<and> dyn_members d' = dbl_members l i \<union> dyn_members other"
    if "dyn_ok other \<and> d_len other = l_bit_length l"
    using dyn_union_ok [of d other] view_frame [of d "\<lambda>ms. zip_masks_raw (OR) ms (d_words other)"] d that
    by (auto simp: dyn_yields_def dyn_set_union_def dyn_zip_def)
  show ?thesis
    using dbl_update_ok [OF assms d(1), where f = "\<lambda>d. dyn_set d j", OF set_ok]
      dbl_update_ok [OF assms d(1), where f = "\<lambda>d. dyn_set_union d other", OF union]
    unfolding dbl_set_def dbl_set_union_def d(1) by auto
qed

end
