(* ===== verification/Npm_Manifest.thy ===== *)
theory Npm_Manifest
  imports Complex_Main Query_Semantics Version_Order "HOL-Library.Monad_Syntax"
begin

text \<open>
  The choice of a version from the manifest of a package (\<^verbatim>\<open>src/src/install/npm.rs\<close>): by exact
  version, by dist tag, by range, each with an optional minimum release age.  A manifest keeps its
  versions, packages and strings in flat buffers; \<open>releases\<close>, \<open>prereleases\<close> and \<open>dist_tags\<close> are pairs of
  slices into them.  The outer \<open>None\<close> of a result is a panic, the inner one the answer of the code.
  Times are milliseconds; \<open>now\<close> stands for the start time of the process.
\<close>

section \<open>Data\<close>

text \<open>\<open>ExternalSlice::get\<close> clamps the end of the slice and panics on a start behind it.\<close>

record ext_slice =
  x_off :: nat
  x_len :: nat

definition ext_get :: "ext_slice \<Rightarrow> 'a list \<Rightarrow> 'a list option" where
  "ext_get s xs =
     (let end_ix = min (length xs) (x_off s + x_len s)
      in if x_off s \<le> end_ix then Some (take (end_ix - x_off s) (drop (x_off s) xs)) else None)"

definition nth_opt :: "'a list \<Rightarrow> nat \<Rightarrow> 'a option" where
  "nth_opt xs i = (if i < length xs then Some (xs ! i) else None)"

lemma nth_opt_Suc [simp]: "nth_opt (x # xs) (Suc i) = nth_opt xs i"
  by (simp add: nth_opt_def)

text \<open>The fields of \<open>PackageVersion\<close> that the selection does not read are the type variable.\<close>

record 'x package_version =
  publish_timestamp_ms :: real
  pv_rest :: 'x

record extern_version_map =
  em_keys :: ext_slice
  em_values :: ext_slice

record dist_tag_map =
  dt_tags :: ext_slice
  dt_versions :: ext_slice

record 'x package_manifest =
  m_name :: external_string
  m_releases :: extern_version_map
  m_prereleases :: extern_version_map
  m_dist_tags :: dist_tag_map
  m_string_buf :: bytes
  m_versions :: "version list"
  m_external_strings :: "external_string list"
  m_package_versions :: "'x package_version list"

record 'x find_result =
  fr_version :: version
  fr_package :: "'x package_version"

datatype find_version_error = Not_Found | Too_Recent | All_Versions_Too_Recent

datatype 'x find_version_result =
    Found "'x find_result"
  | Found_With_Filter "'x find_result" "version option"
  | Find_Err find_version_error

fun fvr_unwrap :: "'x find_version_result \<Rightarrow> 'x find_result option" where
  "fvr_unwrap (Found r) = Some r"
| "fvr_unwrap (Found_With_Filter r _) = Some r"
| "fvr_unwrap (Find_Err _) = None"

fun latest_is_filtered :: "'x find_version_result \<Rightarrow> bool" where
  "latest_is_filtered (Found_With_Filter _ newest_filtered) \<longleftrightarrow> newest_filtered \<noteq> None"
| "latest_is_filtered (Find_Err err) \<longleftrightarrow> err = All_Versions_Too_Recent"
| "latest_is_filtered (Found _) \<longleftrightarrow> False"

section \<open>Exact versions and dist tags\<close>

fun find_key_index :: "version list \<Rightarrow> version \<Rightarrow> nat option" where
  "find_key_index [] v = None"
| "find_key_index (key # keys) v = (if version_eql key v then Some 0 else map_option Suc (find_key_index keys v))"

definition find_by_version :: "'x package_manifest \<Rightarrow> version \<Rightarrow> 'x find_result option option" where
  "find_by_version m version = do {
     let list = (if \<not> has_pre (vtag version) then m_releases m else m_prereleases m);
     values \<leftarrow> ext_get (em_values list) (m_package_versions m);
     keys \<leftarrow> ext_get (em_keys list) (m_versions m);
     case find_key_index keys version of
       None \<Rightarrow> Some None
     | Some index \<Rightarrow> do {
         key \<leftarrow> nth_opt keys index;
         package \<leftarrow> nth_opt values index;
         Some (Some \<lparr>fr_version = key, fr_package = package\<rparr>) } }"

fun tag_index :: "bytes \<Rightarrow> external_string list \<Rightarrow> bytes \<Rightarrow> nat option" where
  "tag_index buf [] tag = None"
| "tag_index buf (t # ts) tag = (if es_slice t buf = tag then Some 0 else map_option Suc (tag_index buf ts tag))"

definition find_by_dist_tag :: "'x package_manifest \<Rightarrow> bytes \<Rightarrow> 'x find_result option option" where
  "find_by_dist_tag m tag = do {
     versions \<leftarrow> ext_get (dt_versions (m_dist_tags m)) (m_versions m);
     tags \<leftarrow> ext_get (dt_tags (m_dist_tags m)) (m_external_strings m);
     case tag_index (m_string_buf m) tags tag of
       None \<Rightarrow> Some None
     | Some i \<Rightarrow> do { v \<leftarrow> nth_opt versions i; find_by_version m v } }"

section \<open>Ranges\<close>

definition group_left :: "group \<Rightarrow> comparator" where
  "group_left g = left (q_range (ol_head (g_head g)))"

definition flag_pre :: "group \<Rightarrow> bool" where
  "flag_pre g = bs_is_set 3 (g_flags g) Flags_PRE"

text \<open>
  The loop from the end of a list: the last version that satisfies the range.  The slice of the
  packages is taken when one is found.
\<close>

primrec last_satisfying :: "bytes \<Rightarrow> group \<Rightarrow> bytes \<Rightarrow> version list \<Rightarrow> 'x package_version list option \<Rightarrow> nat
    \<Rightarrow> 'x find_result option option" where
  "last_satisfying buf g group_buf versions packages 0 = Some None"
| "last_satisfying buf g group_buf versions packages (Suc i) = do {
     version \<leftarrow> nth_opt versions i;
     if group_satisfies g version group_buf buf then do {
       ps \<leftarrow> packages;
       package \<leftarrow> nth_opt ps i;
       Some (Some \<lparr>fr_version = version, fr_package = package\<rparr>) }
     else last_satisfying buf g group_buf versions packages i }"

definition search_list :: "'x package_manifest \<Rightarrow> group \<Rightarrow> bytes \<Rightarrow> extern_version_map \<Rightarrow> 'x find_result option option" where
  "search_list m g group_buf list = do {
     versions \<leftarrow> ext_get (em_keys list) (m_versions m);
     last_satisfying (m_string_buf m) g group_buf versions (ext_get (em_values list) (m_package_versions m)) (length versions) }"

definition search_lists :: "'x package_manifest \<Rightarrow> group \<Rightarrow> bytes \<Rightarrow> 'x find_result option option" where
  "search_lists m g group_buf = do {
     release \<leftarrow> search_list m g group_buf (m_releases m);
     case release of
       Some r \<Rightarrow> Some (Some r)
     | None \<Rightarrow> if flag_pre g then search_list m g group_buf (m_prereleases m) else Some None }"

text \<open>\<open>latest\<close> is taken when it satisfies the range; a range with a pre-release wants it to be the left bound.\<close>

definition latest_accepted :: "'x package_manifest \<Rightarrow> group \<Rightarrow> bytes \<Rightarrow> 'x find_result \<Rightarrow> bool" where
  "latest_accepted m g group_buf r \<longleftrightarrow>
     (if flag_pre g then version_order (cversion (group_left g)) (fr_version r) group_buf (m_string_buf m) = Equal
      else True)"

definition find_best_version :: "'x package_manifest \<Rightarrow> group \<Rightarrow> bytes \<Rightarrow> 'x find_result option option" where
  "find_best_version m g group_buf =
     (if cop (group_left g) = Op_Eql then find_by_version m (cversion (group_left g))
      else do {
        latest \<leftarrow> find_by_dist_tag m ''latest'';
        case latest of
          Some r \<Rightarrow>
            if group_satisfies g (fr_version r) group_buf (m_string_buf m) \<and> latest_accepted m g group_buf r
            then Some (Some r) else search_lists m g group_buf
        | None \<Rightarrow> search_lists m g group_buf })"

section \<open>The minimum release age\<close>

definition seven_days_ms :: real where
  "seven_days_ms = 7 * 86400000"

definition should_exclude_from_age_filter :: "'x package_manifest \<Rightarrow> bytes list option \<Rightarrow> bool" where
  "should_exclude_from_age_filter m exclusions =
     (case exclusions of
        Some excl \<Rightarrow> list_ex (\<lambda>excluded. es_slice (m_name m) (m_string_buf m) = excluded) excl
      | None \<Rightarrow> False)"

definition is_package_version_too_recent :: "real \<Rightarrow> 'x package_version \<Rightarrow> real \<Rightarrow> bool" where
  "is_package_version_too_recent now p minimum_release_age_ms \<longleftrightarrow>
     publish_timestamp_ms p > now - minimum_release_age_ms"

definition search_end :: "'x find_result option \<Rightarrow> version option \<Rightarrow> 'x find_version_result option" where
  "search_end best newest_filtered =
     (case best of
        Some r \<Rightarrow> (case newest_filtered of Some nf \<Rightarrow> Some (Found_With_Filter r (Some nf)) | None \<Rightarrow> Some (Found r))
      | None \<Rightarrow> None)"

primrec search_loop :: "real \<Rightarrow> real \<Rightarrow> bytes \<Rightarrow> group \<Rightarrow> bytes \<Rightarrow> version list \<Rightarrow> 'x package_version list \<Rightarrow> nat
    \<Rightarrow> 'x package_version option \<Rightarrow> 'x find_result option \<Rightarrow> version option
    \<Rightarrow> ('x find_version_result option \<times> version option) option" where
  "search_loop now min_age buf g group_buf versions packages 0 prev best newest = Some (search_end best newest, newest)"
| "search_loop now min_age buf g group_buf versions packages (Suc i) prev best newest = do {
     version \<leftarrow> nth_opt versions i;
     if group_satisfies g version group_buf buf then do {
       package \<leftarrow> nth_opt packages i;
       let r = \<lparr>fr_version = version, fr_package = package\<rparr>;
       if is_package_version_too_recent now package min_age then
         search_loop now min_age buf g group_buf versions packages i (Some package) best
           (if newest = None then Some version else newest)
       else
         case prev of
           Some prev_package \<Rightarrow>
             if publish_timestamp_ms package < now - (min_age + seven_days_ms) then
               Some (search_end (if best = None then Some r else best) newest, newest)
             else if publish_timestamp_ms prev_package - publish_timestamp_ms package \<ge> min min_age seven_days_ms then
               Some (search_end (Some r) newest, newest)
             else
               search_loop now min_age buf g group_buf versions packages i (Some package)
                 (if best = None then Some r else best) newest
         | None \<Rightarrow> Some (Some (Found r), newest) }
     else search_loop now min_age buf g group_buf versions packages i prev best newest }"

definition search_version_list :: "real \<Rightarrow> 'x package_manifest \<Rightarrow> version list \<Rightarrow> 'x package_version list \<Rightarrow> group \<Rightarrow> bytes
    \<Rightarrow> real \<Rightarrow> version option \<Rightarrow> ('x find_version_result option \<times> version option) option" where
  "search_version_list now m versions packages g group_buf min_age newest =
     search_loop now min_age (m_string_buf m) g group_buf versions packages (length versions) None None newest"

definition search_map :: "real \<Rightarrow> 'x package_manifest \<Rightarrow> extern_version_map \<Rightarrow> group \<Rightarrow> bytes \<Rightarrow> real \<Rightarrow> version option
    \<Rightarrow> ('x find_version_result option \<times> version option) option" where
  "search_map now m list g group_buf min_age newest = do {
     versions \<leftarrow> ext_get (em_keys list) (m_versions m);
     packages \<leftarrow> ext_get (em_values list) (m_package_versions m);
     search_version_list now m versions packages g group_buf min_age newest }"

definition age_gate :: "'x package_manifest \<Rightarrow> real option \<Rightarrow> bytes list option \<Rightarrow> real option" where
  "age_gate m minimum_release_age_ms exclusions =
     (case minimum_release_age_ms of
        Some min_age \<Rightarrow> if \<not> should_exclude_from_age_filter m exclusions then Some min_age else None
      | None \<Rightarrow> None)"

text \<open>The part behind the check of \<open>latest\<close>.\<close>

definition search_filtered :: "real \<Rightarrow> 'x package_manifest \<Rightarrow> group \<Rightarrow> bytes \<Rightarrow> real \<Rightarrow> version option
    \<Rightarrow> 'x find_version_result option" where
  "search_filtered now m g group_buf min_age newest = do {
     (found, newest) \<leftarrow> search_map now m (m_releases m) g group_buf min_age newest;
     case found of
       Some result \<Rightarrow> Some result
     | None \<Rightarrow> do {
         (found, newest) \<leftarrow> (if flag_pre g then search_map now m (m_prereleases m) g group_buf min_age newest
                            else Some (None, newest));
         case found of
           Some result \<Rightarrow> Some result
         | None \<Rightarrow> Some (Find_Err (if newest \<noteq> None then All_Versions_Too_Recent else Not_Found)) } }"

definition find_best_version_with_filter :: "real \<Rightarrow> 'x package_manifest \<Rightarrow> group \<Rightarrow> bytes \<Rightarrow> real option
    \<Rightarrow> bytes list option \<Rightarrow> 'x find_version_result option" where
  "find_best_version_with_filter now m g group_buf minimum_release_age_ms exclusions =
     (case age_gate m minimum_release_age_ms exclusions of
        None \<Rightarrow> do {
          result \<leftarrow> find_best_version m g group_buf;
          Some (case result of Some r \<Rightarrow> Found r | None \<Rightarrow> Find_Err Not_Found) }
      | Some min_age \<Rightarrow>
          if cop (group_left g) = Op_Eql then do {
            result \<leftarrow> find_by_version m (cversion (group_left g));
            Some (case result of
                    Some r \<Rightarrow> if is_package_version_too_recent now (fr_package r) min_age then Find_Err Too_Recent else Found r
                  | None \<Rightarrow> Find_Err Not_Found) }
          else do {
            latest \<leftarrow> find_by_dist_tag m ''latest'';
            case latest of
              Some r \<Rightarrow>
                if group_satisfies g (fr_version r) group_buf (m_string_buf m) then
                  (if is_package_version_too_recent now (fr_package r) min_age
                   then search_filtered now m g group_buf min_age (Some (fr_version r))
                   else if latest_accepted m g group_buf r then Some (Found r)
                   else search_filtered now m g group_buf min_age None)
                else search_filtered now m g group_buf min_age None
            | None \<Rightarrow> search_filtered now m g group_buf min_age None })"

text \<open>The same for a dist tag: step back from the tagged version, within the same pre-release tag.\<close>

definition tag_before_dot :: "bytes \<Rightarrow> bytes" where
  "tag_before_dot v = (case index_of_char v (CHR ''.'') of Some i \<Rightarrow> take i v | None \<Rightarrow> v)"

primrec dist_loop :: "real \<Rightarrow> real \<Rightarrow> bytes \<Rightarrow> version \<Rightarrow> bytes option \<Rightarrow> version list \<Rightarrow> 'x package_version list \<Rightarrow> nat
    \<Rightarrow> 'x package_version option \<Rightarrow> 'x find_result option \<Rightarrow> 'x find_version_result option" where
  "dist_loop now min_age buf latest expected versions packages 0 prev best =
     Some (case best of
             Some r \<Rightarrow> Found_With_Filter r (Some latest)
           | None \<Rightarrow> Find_Err All_Versions_Too_Recent)"
| "dist_loop now min_age buf latest expected versions packages (Suc i) prev best = do {
     version \<leftarrow> nth_opt versions i;
     package \<leftarrow> nth_opt packages i;
     let r = \<lparr>fr_version = version, fr_package = package\<rparr>;
     if version_order version latest buf buf = Greater then
       dist_loop now min_age buf latest expected versions packages i prev best
     else if expected \<noteq> None \<and> tag_before_dot (es_slice (pre (vtag version)) buf) \<noteq> the expected then
       dist_loop now min_age buf latest expected versions packages i prev best
     else if is_package_version_too_recent now package min_age then
       dist_loop now min_age buf latest expected versions packages i (Some package) best
     else
       case prev of
         Some prev_package \<Rightarrow>
           if publish_timestamp_ms package < now - (min_age + seven_days_ms) then
             Some (Found_With_Filter (case best of Some b \<Rightarrow> b | None \<Rightarrow> r) (Some latest))
           else if publish_timestamp_ms prev_package - publish_timestamp_ms package \<ge> min min_age seven_days_ms then
             Some (Found_With_Filter r (Some latest))
           else
             dist_loop now min_age buf latest expected versions packages i (Some package)
               (if best = None then Some r else best)
       | None \<Rightarrow> Some (Found_With_Filter r (Some latest)) }"

definition find_by_dist_tag_with_filter :: "real \<Rightarrow> 'x package_manifest \<Rightarrow> bytes \<Rightarrow> real option \<Rightarrow> bytes list option
    \<Rightarrow> 'x find_version_result option" where
  "find_by_dist_tag_with_filter now m tag minimum_release_age_ms exclusions = do {
     dist \<leftarrow> find_by_dist_tag m tag;
     case dist of
       None \<Rightarrow> Some (Find_Err Not_Found)
     | Some dist_result \<Rightarrow>
         (case age_gate m minimum_release_age_ms exclusions of
            None \<Rightarrow> Some (Found dist_result)
          | Some min_age \<Rightarrow>
              if \<not> is_package_version_too_recent now (fr_package dist_result) min_age then Some (Found dist_result)
              else do {
                let latest = fr_version dist_result;
                let is_prerelease = has_pre (vtag latest);
                let expected = (if is_prerelease then Some (tag_before_dot (es_slice (pre (vtag latest)) (m_string_buf m))) else None);
                let list = (if is_prerelease then m_prereleases m else m_releases m);
                versions \<leftarrow> ext_get (em_keys list) (m_versions m);
                packages \<leftarrow> ext_get (em_values list) (m_package_versions m);
                dist_loop now min_age (m_string_buf m) latest expected versions packages (length versions)
                  (Some (fr_package dist_result)) None }) }"

section \<open>Well-formed manifests\<close>

text \<open>The slices lie in their buffers and the two slices of a map have the same length.\<close>

definition slice_ok :: "ext_slice \<Rightarrow> 'a list \<Rightarrow> bool" where
  "slice_ok s xs \<longleftrightarrow> x_off s + x_len s \<le> length xs"

definition map_ok :: "'x package_manifest \<Rightarrow> extern_version_map \<Rightarrow> bool" where
  "map_ok m em \<longleftrightarrow> slice_ok (em_keys em) (m_versions m) \<and> slice_ok (em_values em) (m_package_versions m)
     \<and> x_len (em_keys em) = x_len (em_values em)"

definition manifest_ok :: "'x package_manifest \<Rightarrow> bool" where
  "manifest_ok m \<longleftrightarrow> map_ok m (m_releases m) \<and> map_ok m (m_prereleases m)
     \<and> slice_ok (dt_tags (m_dist_tags m)) (m_external_strings m) \<and> slice_ok (dt_versions (m_dist_tags m)) (m_versions m)
     \<and> x_len (dt_tags (m_dist_tags m)) = x_len (dt_versions (m_dist_tags m))"

definition slice_of :: "ext_slice \<Rightarrow> 'a list \<Rightarrow> 'a list" where
  "slice_of s xs = take (x_len s) (drop (x_off s) xs)"

lemma ext_get_ok: "slice_ok s xs \<Longrightarrow> ext_get s xs = Some (slice_of s xs)"
  by (simp add: ext_get_def slice_ok_def slice_of_def)

lemma slice_of_length: "slice_ok s xs \<Longrightarrow> length (slice_of s xs) = x_len s"
  by (simp add: slice_ok_def slice_of_def)

text \<open>What a map offers: its versions with their packages, in order.\<close>

definition entries :: "'x package_manifest \<Rightarrow> extern_version_map \<Rightarrow> 'x find_result list" where
  "entries m em = map2 (\<lambda>v p. \<lparr>fr_version = v, fr_package = p\<rparr>)
     (slice_of (em_keys em) (m_versions m)) (slice_of (em_values em) (m_package_versions m))"

lemma entries_parts:
  assumes "map_ok m em"
  shows "ext_get (em_keys em) (m_versions m) = Some (map fr_version (entries m em))"
    and "ext_get (em_values em) (m_package_versions m) = Some (map fr_package (entries m em))"
proof -
  have ok: "slice_ok (em_keys em) (m_versions m)" "slice_ok (em_values em) (m_package_versions m)"
    "x_len (em_keys em) = x_len (em_values em)" using assms by (auto simp: map_ok_def)
  have "length (slice_of (em_keys em) (m_versions m)) = length (slice_of (em_values em) (m_package_versions m))"
    using ok by (simp add: slice_of_length)
  then show "ext_get (em_keys em) (m_versions m) = Some (map fr_version (entries m em))"
    and "ext_get (em_values em) (m_package_versions m) = Some (map fr_package (entries m em))"
    using ok by (simp_all add: ext_get_ok entries_def comp_def case_prod_unfold)
qed

section \<open>The loops as searches\<close>

lemma find_key_index_find:
  "(case find_key_index (map fr_version es) v of
      None \<Rightarrow> Some None
    | Some i \<Rightarrow> do { k \<leftarrow> nth_opt (map fr_version es) i; p \<leftarrow> nth_opt (map fr_package es) i;
                    Some (Some \<lparr>fr_version = k, fr_package = p\<rparr>) })
   = Some (List.find (\<lambda>r. version_eql (fr_version r) v) es)"
proof (induction es)
  case (Cons r es)
  show ?case
  proof (cases "version_eql (fr_version r) v")
    case True
    then show ?thesis by (simp add: nth_opt_def)
  next
    case False
    then show ?thesis using Cons by (cases "find_key_index (map fr_version es) v") simp_all
  qed
qed simp

definition version_map :: "'x package_manifest \<Rightarrow> version \<Rightarrow> extern_version_map" where
  "version_map m v = (if \<not> has_pre (vtag v) then m_releases m else m_prereleases m)"

lemma find_by_version_find:
  assumes "manifest_ok m"
  shows "find_by_version m v = Some (List.find (\<lambda>r. version_eql (fr_version r) v) (entries m (version_map m v)))"
proof -
  have "map_ok m (version_map m v)" using assms by (simp add: manifest_ok_def version_map_def)
  note parts = entries_parts [OF this]
  show ?thesis
    using find_key_index_find [of "entries m (version_map m v)" v] parts
    by (simp add: find_by_version_def Let_def flip: version_map_def)
qed

lemma last_satisfying_find:
  assumes "i \<le> length es"
  shows "last_satisfying buf g group_buf (map fr_version es) (Some (map fr_package es)) i
           = Some (List.find (\<lambda>r. group_satisfies g (fr_version r) group_buf buf) (rev (take i es)))"
  using assms
proof (induction i)
  case (Suc i)
  then have "take (Suc i) es = take i es @ [es ! i]" by (simp add: take_Suc_conv_app_nth)
  then show ?case using Suc by (simp add: nth_opt_def)
qed simp

lemma search_list_find:
  assumes "map_ok m em"
  shows "search_list m g group_buf em
           = Some (List.find (\<lambda>r. group_satisfies g (fr_version r) group_buf (m_string_buf m)) (rev (entries m em)))"
  using entries_parts [OF assms] last_satisfying_find [of "length (entries m em)" "entries m em"]
  by (simp add: search_list_def)

end
