(* ===== verification/Npm_Select.thy ===== *)
theory Npm_Select
  imports Npm_Manifest
begin

text \<open>
  What the selection of a version promises for a well-formed manifest: it never panics, its answer
  is offered by the manifest and satisfies the range, it is the highest such release unless
  \<open>latest\<close> is preferred, and the minimum release age only ever hides versions that are too recent.
\<close>

section \<open>Dist tags\<close>

definition tagged :: "'x package_manifest \<Rightarrow> bytes \<Rightarrow> version option" where
  "tagged m tag = map_option snd (List.find (\<lambda>(t, v). es_slice t (m_string_buf m) = tag)
     (zip (slice_of (dt_tags (m_dist_tags m)) (m_external_strings m)) (slice_of (dt_versions (m_dist_tags m)) (m_versions m))))"

lemma tag_index_find:
  assumes "length ts = length vs"
  shows "(case tag_index buf ts tag of None \<Rightarrow> Some None | Some i \<Rightarrow> do { v \<leftarrow> nth_opt vs i; f v })
           = (case List.find (\<lambda>(t, v). es_slice t buf = tag) (zip ts vs) of None \<Rightarrow> Some None | Some (t, v) \<Rightarrow> f v)"
  using assms
proof (induction ts vs rule: list_induct2)
  case (Cons t ts v vs)
  show ?case
  proof (cases "es_slice t buf = tag")
    case False
    then show ?thesis using Cons by (cases "tag_index buf ts tag") simp_all
  qed (simp add: nth_opt_def)
qed simp

definition by_dist_tag :: "'x package_manifest \<Rightarrow> bytes \<Rightarrow> 'x find_result option" where
  "by_dist_tag m tag = (case tagged m tag of None \<Rightarrow> None
     | Some v \<Rightarrow> List.find (\<lambda>r. version_eql (fr_version r) v) (entries m (version_map m v)))"

lemma find_by_dist_tag_find:
  assumes "manifest_ok m"
  shows "find_by_dist_tag m tag = Some (by_dist_tag m tag)"
proof -
  let ?ts = "slice_of (dt_tags (m_dist_tags m)) (m_external_strings m)"
  let ?vs = "slice_of (dt_versions (m_dist_tags m)) (m_versions m)"
  have ok: "slice_ok (dt_tags (m_dist_tags m)) (m_external_strings m)" "slice_ok (dt_versions (m_dist_tags m)) (m_versions m)"
    "length ?ts = length ?vs"
    using assms by (auto simp: manifest_ok_def slice_of_length)
  show ?thesis
    using tag_index_find [OF ok(3), where buf = "m_string_buf m" and tag = tag and f = "find_by_version m"] find_by_version_find [OF assms]
    by (auto simp: find_by_dist_tag_def ext_get_ok [OF ok(1)] ext_get_ok [OF ok(2)] by_dist_tag_def tagged_def split: option.splits)
qed

section \<open>The best version\<close>

definition offered :: "'x package_manifest \<Rightarrow> 'x find_result \<Rightarrow> bool" where
  "offered m r \<longleftrightarrow> r \<in> set (entries m (m_releases m)) \<or> r \<in> set (entries m (m_prereleases m))"

definition accepts :: "'x package_manifest \<Rightarrow> group \<Rightarrow> bytes \<Rightarrow> 'x find_result \<Rightarrow> bool" where
  "accepts m g group_buf r \<longleftrightarrow> group_satisfies g (fr_version r) group_buf (m_string_buf m)"

text \<open>The candidates of a range, in the order in which they are looked at.\<close>

definition candidates :: "'x package_manifest \<Rightarrow> group \<Rightarrow> 'x find_result list" where
  "candidates m g = rev (entries m (m_releases m)) @ (if flag_pre g then rev (entries m (m_prereleases m)) else [])"

lemma find_append: "List.find P (xs @ ys) = (case List.find P xs of Some x \<Rightarrow> Some x | None \<Rightarrow> List.find P ys)"
  by (induction xs) auto

lemma search_lists_find:
  assumes "manifest_ok m"
  shows "search_lists m g group_buf = Some (List.find (accepts m g group_buf) (candidates m g))"
proof -
  have "map_ok m (m_releases m)" "map_ok m (m_prereleases m)" using assms by (auto simp: manifest_ok_def)
  note lists = search_list_find [OF this(1), of g group_buf] search_list_find [OF this(2), of g group_buf]
  show ?thesis
    by (simp add: search_lists_def lists candidates_def find_append flip: accepts_def split: option.split)
qed

lemma find_best_version_eq:
  assumes "manifest_ok m"
  shows "find_best_version m g group_buf = Some
    (if cop (group_left g) = Op_Eql
     then List.find (\<lambda>r. version_eql (fr_version r) (cversion (group_left g))) (entries m (version_map m (cversion (group_left g))))
     else (case by_dist_tag m ''latest'' of
             Some r \<Rightarrow> if accepts m g group_buf r \<and> latest_accepted m g group_buf r then Some r
                      else List.find (accepts m g group_buf) (candidates m g)
           | None \<Rightarrow> List.find (accepts m g group_buf) (candidates m g)))"
  by (simp add: find_best_version_def find_by_version_find [OF assms] find_by_dist_tag_find [OF assms]
      search_lists_find [OF assms] flip: accepts_def split: option.split)

text \<open>The versions a version is looked up among: the pre-releases or the releases of the manifest.\<close>

definition channel :: "'x package_manifest \<Rightarrow> version \<Rightarrow> 'x find_result list" where
  "channel m v = entries m (if has_pre (vtag v) then m_prereleases m else m_releases m)"

lemma channel_version_map: "entries m (version_map m v) = channel m v"
  by (simp add: channel_def version_map_def)

lemma channel_offered: "r \<in> set (channel m v) \<Longrightarrow> offered m r"
  by (auto simp: channel_def offered_def split: if_splits)

lemma find_SomeD: "List.find P xs = Some x \<Longrightarrow> x \<in> set xs \<and> P x"
  by (auto simp: find_Some_iff)

lemma entries_offered: "r \<in> set (entries m (version_map m v)) \<Longrightarrow> offered m r"
  by (auto simp: offered_def version_map_def split: if_splits)

lemma candidates_offered: "r \<in> set (candidates m g) \<Longrightarrow> offered m r"
  by (auto simp: candidates_def offered_def split: if_splits)

lemma by_dist_tag_offered: "by_dist_tag m tag = Some r \<Longrightarrow> offered m r"
  by (auto simp: by_dist_tag_def split: option.splits dest!: find_SomeD intro: entries_offered)

text \<open>
  C21. Choosing a version never panics on a well-formed manifest.  A range whose first comparator is
  an exact version is treated as that version alone: the choice is an entry equal to it, from the
  pre-releases if it has a pre-release and from the releases otherwise, and no choice means that
  this list holds no equal version.  For every other range the choice is an entry of the manifest
  that satisfies the range, and no choice means that no release satisfies it, nor, if the range
  names a pre-release, any pre-release.
\<close>

theorem find_best_version_sound:
  assumes "manifest_ok m"
  shows "\<exists>res. find_best_version m g group_buf = Some res \<and>
    (if cop (group_left g) = Op_Eql
     then (case res of
             Some r \<Rightarrow> r \<in> set (channel m (cversion (group_left g))) \<and> version_eql (fr_version r) (cversion (group_left g))
           | None \<Rightarrow> \<forall>r \<in> set (channel m (cversion (group_left g))). \<not> version_eql (fr_version r) (cversion (group_left g)))
     else (case res of
             Some r \<Rightarrow> offered m r \<and> accepts m g group_buf r
           | None \<Rightarrow> \<forall>r \<in> set (candidates m g). \<not> accepts m g group_buf r))"
  unfolding find_best_version_eq [OF assms] channel_version_map
  by (auto split: option.splits dest!: find_SomeD dest: by_dist_tag_offered candidates_offered
      simp: find_None_iff)

text \<open>A concrete manifest: releases 1.0.0, 1.2.0 and 2.0.0, of which 1.2.0 is tagged \<open>latest\<close>.\<close>

definition sample_version :: "nat \<Rightarrow> nat \<Rightarrow> nat \<Rightarrow> version" where
  "sample_version a b c = version_default\<lparr>major := word_of_nat a, minor := word_of_nat b, patch := word_of_nat c\<rparr>"

definition sample_manifest :: "unit package_manifest" where
  "sample_manifest =
     \<lparr>m_name = es_default,
      m_releases = \<lparr>em_keys = \<lparr>x_off = 0, x_len = 3\<rparr>, em_values = \<lparr>x_off = 0, x_len = 3\<rparr>\<rparr>,
      m_prereleases = \<lparr>em_keys = \<lparr>x_off = 3, x_len = 0\<rparr>, em_values = \<lparr>x_off = 3, x_len = 0\<rparr>\<rparr>,
      m_dist_tags = \<lparr>dt_tags = \<lparr>x_off = 0, x_len = 1\<rparr>, dt_versions = \<lparr>x_off = 3, x_len = 1\<rparr>\<rparr>,
      m_string_buf = [],
      m_versions = [sample_version 1 0 0, sample_version 1 2 0, sample_version 2 0 0, sample_version 1 2 0],
      m_external_strings = [\<lparr>es_value = pad8 ''latest'', es_hash = 1\<rparr>],
      m_package_versions = [\<lparr>publish_timestamp_ms = 100, pv_rest = ()\<rparr>, \<lparr>publish_timestamp_ms = 200, pv_rest = ()\<rparr>,
        \<lparr>publish_timestamp_ms = 900, pv_rest = ()\<rparr>]\<rparr>"

lemma sample_manifest_ok: "manifest_ok sample_manifest"
  by (simp add: manifest_ok_def map_ok_def slice_ok_def sample_manifest_def)

lemma sample_entries:
  "entries sample_manifest (m_releases sample_manifest) =
     [\<lparr>fr_version = sample_version 1 0 0, fr_package = \<lparr>publish_timestamp_ms = 100, pv_rest = ()\<rparr>\<rparr>,
      \<lparr>fr_version = sample_version 1 2 0, fr_package = \<lparr>publish_timestamp_ms = 200, pv_rest = ()\<rparr>\<rparr>,
      \<lparr>fr_version = sample_version 2 0 0, fr_package = \<lparr>publish_timestamp_ms = 900, pv_rest = ()\<rparr>\<rparr>]"
  "entries sample_manifest (m_prereleases sample_manifest) = []"
  by (simp_all add: entries_def slice_of_def sample_manifest_def)

theorem find_best_version_sound_witness:
  "\<exists>g res. group_or_version (group_default 0) (sample_version 1 2 0) = Some g
     \<and> find_best_version sample_manifest g [] = Some (Some res) \<and> version_eql (fr_version res) (sample_version 1 2 0)"
proof -
  obtain g where g: "group_or_version (group_default 0) (sample_version 1 2 0) = Some g"
      "group_left g = \<lparr>cop = Op_Eql, cversion = sample_version 1 2 0\<rparr>"
    by (auto simp: group_or_version_def group_default_def or_list_default_def query_default_def group_left_def
        range_default_def comparator_default_def has_left_def exact_range_def)
  have "\<not> has_pre (vtag (sample_version 1 2 0))"
    by (simp add: sample_version_def version_default_def tag_default_def has_pre_def es_is_empty_def es_default_def
        string_is_empty_def EMPTY_def numeral_eq_Suc)
  then have "channel sample_manifest (sample_version 1 2 0) = entries sample_manifest (m_releases sample_manifest)"
    by (simp add: channel_def)
  moreover have "version_eql (sample_version 1 2 0) (sample_version 1 2 0)"
    by (simp add: version_eql_def tag_eql_def)
  ultimately show ?thesis
    using find_best_version_sound [OF sample_manifest_ok, of g "[]"] g by (auto simp: sample_entries split: option.splits)
qed

text \<open>Versions are kept in ascending order.\<close>

definition sorted_map :: "'x package_manifest \<Rightarrow> extern_version_map \<Rightarrow> bool" where
  "sorted_map m em \<longleftrightarrow> sorted_wrt (\<lambda>a b. version_order (fr_version a) (fr_version b) (m_string_buf m) (m_string_buf m) \<noteq> Greater) (entries m em)"

lemma find_rev_sorted:
  assumes "sorted_wrt R xs" and "List.find P (rev xs) = Some x" and "y \<in> set xs" and "P y"
  shows "y = x \<or> R y x"
  using assms
proof (induction xs rule: rev_induct)
  case (snoc z xs)
  then show ?case by (cases "P z") (auto simp: sorted_wrt_append split: if_splits)
qed simp

lemma version_order_refl: "version_order v v buf buf = Equal"
proof -
  have "es_order e e buf buf = Equal" for e by (simp add: es_order_def string_order_def)
  moreover have "order_pre t t buf buf = Equal" for t using opre.refl [of "(t, buf)"] by simp
  ultimately have "tag_order t t buf buf = Equal" for t by (simp add: tag_order_def)
  then show ?thesis by (simp add: version_order_def order_without_tag_def)
qed

lemma find_rev_highest:
  assumes "sorted_map m em" and "List.find (accepts m g group_buf) (rev (entries m em)) = Some r"
    and "r' \<in> set (entries m em)" and "accepts m g group_buf r'"
  shows "version_order (fr_version r') (fr_version r) (m_string_buf m) (m_string_buf m) \<noteq> Greater"
  using find_rev_sorted [OF assms(1) [unfolded sorted_map_def] assms(2-4)] version_order_refl [of "fr_version r" "m_string_buf m"]
  by auto

text \<open>
  C22. The chosen version is the highest.  In a manifest whose releases and pre-releases are sorted,
  for a range that does not start with an exact version: if the version tagged \<open>latest\<close> is accepted
  by the range, and for a range that names a pre-release also compares equal to its left bound, the choice
  is \<open>latest\<close>.  Otherwise a chosen release is not below any accepted release, and a pre-release is
  only chosen where the range names one and accepts no release, and then no accepted pre-release is
  higher.
\<close>

theorem find_best_version_highest:
  assumes "manifest_ok m" and "sorted_map m (m_releases m)" and "sorted_map m (m_prereleases m)"
    and "cop (group_left g) \<noteq> Op_Eql" and "find_best_version m g group_buf = Some (Some r)"
  shows "if \<exists>l. by_dist_tag m ''latest'' = Some l \<and> accepts m g group_buf l
              \<and> (flag_pre g \<longrightarrow> version_order (cversion (group_left g)) (fr_version l) group_buf (m_string_buf m) = Equal)
    then by_dist_tag m ''latest'' = Some r
    else accepts m g group_buf r \<and>
      (r \<in> set (entries m (m_releases m))
      \<and> (\<forall>r' \<in> set (entries m (m_releases m)). accepts m g group_buf r' \<longrightarrow>
           version_order (fr_version r') (fr_version r) (m_string_buf m) (m_string_buf m) \<noteq> Greater)
    \<or> flag_pre g \<and> r \<in> set (entries m (m_prereleases m))
      \<and> (\<forall>r' \<in> set (entries m (m_releases m)). \<not> accepts m g group_buf r')
      \<and> (\<forall>r' \<in> set (entries m (m_prereleases m)). accepts m g group_buf r' \<longrightarrow>
           version_order (fr_version r') (fr_version r) (m_string_buf m) (m_string_buf m) \<noteq> Greater))"
proof (cases "\<exists>l. by_dist_tag m ''latest'' = Some l \<and> accepts m g group_buf l \<and> latest_accepted m g group_buf l")
  case True
  then show ?thesis
    using assms(4,5) find_best_version_eq [OF assms(1), of g group_buf] by (auto simp: latest_accepted_def split: if_splits)
next
  case False
  then have f: "List.find (accepts m g group_buf) (candidates m g) = Some r"
    using assms(4,5) find_best_version_eq [OF assms(1), of g group_buf] by (auto split: option.splits if_splits)
  have "\<not> (\<exists>l. by_dist_tag m ''latest'' = Some l \<and> accepts m g group_buf l
      \<and> (flag_pre g \<longrightarrow> version_order (cversion (group_left g)) (fr_version l) group_buf (m_string_buf m) = Equal))"
    using False by (auto simp: latest_accepted_def split: if_splits)
  note no_latest = if_not_P [OF this]
  show ?thesis
  proof (cases "List.find (accepts m g group_buf) (rev (entries m (m_releases m)))")
    case (Some r1)
    then have "r1 = r" using f by (simp add: candidates_def find_append)
    then show ?thesis
      unfolding no_latest using find_rev_highest [OF assms(2), of g group_buf r] Some find_SomeD [OF Some] by auto
  next
    case None
    then have f': "flag_pre g" "List.find (accepts m g group_buf) (rev (entries m (m_prereleases m))) = Some r"
      using f by (auto simp: candidates_def find_append split: if_splits)
    then show ?thesis
      unfolding no_latest using find_rev_highest [OF assms(3) f'(2)] None find_SomeD [OF f'(2)] by (auto simp: find_None_iff)
  qed
qed

definition sample_latest :: "unit find_result" where
  "sample_latest = \<lparr>fr_version = sample_version 1 2 0, fr_package = \<lparr>publish_timestamp_ms = 200, pv_rest = ()\<rparr>\<rparr>"

lemma sample_version_release: "\<not> has_pre (vtag (sample_version a b c))" "version_wf (sample_version a b c)"
  by (simp_all add: sample_version_def version_default_def tag_default_def has_pre_def es_is_empty_def es_default_def
      string_is_empty_def EMPTY_def version_wf_def es_wf_def numeral_eq_Suc)

lemma sample_by_dist_tag: "by_dist_tag sample_manifest ''latest'' = Some sample_latest"
proof -
  have "es_slice \<lparr>es_value = pad8 ''latest'', es_hash = 1\<rparr> buf = ''latest''" for buf
    by (simp add: es_slice_def string_slice_pad8 can_inline_def)
  then have t: "tagged sample_manifest ''latest'' = Some (sample_version 1 2 0)"
    by (simp add: tagged_def slice_of_def sample_manifest_def)
  have m: "version_map sample_manifest (sample_version 1 2 0) = m_releases sample_manifest"
    using sample_version_release by (simp add: version_map_def)
  show ?thesis
    unfolding by_dist_tag_def t option.case m sample_entries(1) by (simp add: version_eql_def sample_version_def sample_latest_def tag_eql_def)
qed

lemma sample_best: "find_best_version sample_manifest (group_default 0) [] = Some (Some sample_latest)"
proof -
  have f: "\<not> flag_pre (group_default 0)"
    by (simp add: flag_pre_def group_default_def bs_is_set_def bs_init_empty_def)
  have a: "accepts sample_manifest (group_default 0) [] sample_latest"
    using sample_version_release
    by (simp add: accepts_def group_satisfies_def sample_latest_def group_default_def or_list_default_def query_default_def
        range_satisfies_def has_left_def range_default_def comparator_default_def)
  show ?thesis
    using f a by (simp add: find_best_version_eq [OF sample_manifest_ok] sample_by_dist_tag latest_accepted_def)
      (simp add: group_left_def group_default_def or_list_default_def query_default_def range_default_def comparator_default_def)
qed

theorem find_best_version_highest_witness:
  "by_dist_tag sample_manifest ''latest'' = Some sample_latest
   \<or> accepts sample_manifest (group_default 0) [] sample_latest
     \<and> sample_latest \<in> set (entries sample_manifest (m_releases sample_manifest))"
proof -
  have "sorted_map sample_manifest (m_releases sample_manifest)" "sorted_map sample_manifest (m_prereleases sample_manifest)"
    by (simp_all add: sorted_map_def sample_entries version_order_def order_without_tag_def sample_version_def)
  moreover have "cop (group_left (group_default 0)) \<noteq> Op_Eql"
    by (simp add: group_left_def group_default_def or_list_default_def query_default_def range_default_def comparator_default_def)
  ultimately show ?thesis
    using find_best_version_highest [OF sample_manifest_ok _ _ _ sample_best] by (auto simp: sample_entries split: if_splits)
qed

lemma two_exact_versions:
  assumes "group_or_version (group_default ea) v = Some g1" and "group_or_version g1 w = Some g"
  shows "group_left g = \<lparr>cop = Op_Eql, cversion = v\<rparr>"
    and "\<not> has_pre (vtag w) \<Longrightarrow> version_wf w \<Longrightarrow> group_satisfies g w gb vb"
proof -
  have g1: "g1 = (group_default ea)\<lparr>g_head := Or_List (Query (exact_range v range_default) None) None None\<rparr>"
    using assms(1) by (simp add: group_or_version_def group_default_def or_list_default_def query_default_def
        range_default_def comparator_default_def has_left_def)
  have g: "g = g1\<lparr>g_head := Or_List (Query (exact_range v range_default) None) None
        (Some (Or_List (Query (exact_range w range_default) None) None None)), g_tail := Some (Suc 0)\<rparr>"
    using assms(2) unfolding g1
    by (auto simp: group_or_version_def group_default_def group_push_def exact_range_def has_left_def)
  show "group_left g = \<lparr>cop = Op_Eql, cversion = v\<rparr>" by (simp add: g group_left_def exact_range_def)
  assume w: "\<not> has_pre (vtag w)" "version_wf w"
  have "parsed_precedence w vb = parsed_precedence w gb" using w(1) by (simp add: parsed_precedence_def)
  then have "version_order_without_build w w vb gb = Equal"
    using version_order_without_build_precedence [OF w(2) w(2), of vb gb] prec.refl by simp
  then have "range_satisfies (exact_range w range_default) w gb vb"
    by (simp add: range_satisfies_def exact_range_def comparator_satisfies_def has_left_def has_right_def
        range_default_def comparator_default_def)
  then show "group_satisfies g w gb vb" using w(1) by (simp add: g group_satisfies_def)
qed

text \<open>
  C32. A range that starts with an exact version is treated as that version alone.  For the range
  "v || w" built by the range parser's joins, where the manifest does not offer \<open>v\<close> but offers the
  release \<open>w\<close>: the range accepts \<open>w\<close>, yet nothing is chosen.
\<close>

theorem exact_first_alternative_only:
  assumes "manifest_ok m"
    and "group_or_version (group_default ea) v = Some g1" and "group_or_version g1 w = Some g"
    and "r \<in> set (entries m (m_releases m))" and "fr_version r = w" and "\<not> has_pre (vtag w)" and "version_wf w"
    and "\<forall>r. offered m r \<longrightarrow> \<not> version_eql (fr_version r) v"
  shows "accepts m g group_buf r \<and> find_best_version m g group_buf = Some None"
proof -
  note two = two_exact_versions [OF assms(2,3)]
  have "List.find (\<lambda>r. version_eql (fr_version r) v) (entries m (version_map m v)) = None"
    using assms(8) entries_offered [of _ m v] by (auto simp: find_None_iff)
  then show ?thesis
    using two assms(5-7) find_best_version_eq [OF assms(1), of g group_buf] by (simp add: accepts_def)
qed

theorem exact_first_alternative_only_witness:
  "\<exists>g1 g. group_or_version (group_default 0) (sample_version 3 0 0) = Some g1
     \<and> group_or_version g1 (sample_version 2 0 0) = Some g
     \<and> find_best_version sample_manifest g [] = Some None"
proof -
  obtain g1 where g1: "group_or_version (group_default 0) (sample_version 3 0 0) = Some g1"
    by (auto simp: group_or_version_def group_default_def or_list_default_def query_default_def
        range_default_def comparator_default_def has_left_def)
  obtain g where g: "group_or_version g1 (sample_version 2 0 0) = Some g"
    using g1 by (auto simp: group_or_version_def group_default_def or_list_default_def query_default_def
        range_default_def comparator_default_def has_left_def group_push_def exact_range_def)
  have "\<forall>r. offered sample_manifest r \<longrightarrow> \<not> version_eql (fr_version r) (sample_version 3 0 0)"
    by (auto simp: offered_def sample_entries version_eql_def sample_version_def)
  then show ?thesis
    using exact_first_alternative_only [OF sample_manifest_ok g1 g, where r = "\<lparr>fr_version = sample_version 2 0 0,
        fr_package = \<lparr>publish_timestamp_ms = 900, pv_rest = ()\<rparr>\<rparr>" and group_buf = "[]"] sample_version_release g1 g by (simp add: sample_entries)
qed

end
