(* ===== verification/Npm_Age.thy ===== *)
theory Npm_Age
  imports Npm_Select
begin

text \<open>
  The minimum release age: a filtered selection only ever returns versions that are old enough,
  reports that everything is too recent only if it is, and agrees with the unfiltered selection when
  nothing is too recent.
\<close>

section \<open>The search with a minimum age\<close>

definition recent :: "real \<Rightarrow> real \<Rightarrow> 'x find_result \<Rightarrow> bool" where
  "recent now min_age r \<longleftrightarrow> is_package_version_too_recent now (fr_package r) min_age"

lemma search_end_cases:
  "search_end (Some r) nf = Some x \<Longrightarrow> fvr_unwrap x = Some r" "search_end None nf = None"
  "\<exists>x. search_end (Some r) nf = Some x"
  by (auto simp: search_end_def split: option.splits)

text \<open>
  The outcome of the loop over the first \<open>i\<close> entries: a result is fit; no result means that there was
  no best version yet and every version that satisfies is too recent; the newest filtered version
  is one of them.
\<close>

definition search_post :: "('x find_result \<Rightarrow> bool) \<Rightarrow> ('x find_result \<Rightarrow> bool) \<Rightarrow> 'x find_result list \<Rightarrow> nat \<Rightarrow> 'x find_result option
    \<Rightarrow> version option \<Rightarrow> ('x find_version_result option \<times> version option) option \<Rightarrow> bool" where
  "search_post sat rcnt es i best newest out \<longleftrightarrow> (\<exists>res nf. out = Some (res, nf)
     \<and> (\<forall>x. res = Some x \<longrightarrow> (\<exists>r. fvr_unwrap x = Some r \<and> r \<in> set es \<and> sat r \<and> \<not> rcnt r))
     \<and> (res = None \<longrightarrow> best = None \<and> (\<forall>r \<in> set (take i es). sat r \<longrightarrow> rcnt r)
          \<and> (nf = None \<longrightarrow> newest = None \<and> (\<forall>r \<in> set (take i es). \<not> sat r)))
     \<and> (nf \<noteq> newest \<longrightarrow> (\<exists>r \<in> set (take i es). sat r \<and> rcnt r \<and> nf = Some (fr_version r))))"

lemma search_post_skip:
  assumes "i < length es" and "\<not> sat (es ! i)" and "search_post sat rcnt es i best newest out"
  shows "search_post sat rcnt es (Suc i) best newest out"
  using assms unfolding search_post_def by (auto simp: take_Suc_conv_app_nth)

lemma search_post_recent:
  assumes "i < length es" and "sat (es ! i)" and "rcnt (es ! i)"
    and "search_post sat rcnt es i best (if newest = None then Some (fr_version (es ! i)) else newest) out"
  shows "search_post sat rcnt es (Suc i) best newest out"
  using assms unfolding search_post_def by (cases newest; auto simp: take_Suc_conv_app_nth; blast)

lemma search_post_found:
  assumes "b \<in> set es" and "sat b" and "\<not> rcnt b"
  shows "search_post sat rcnt es i best newest (Some (search_end (Some b) newest, newest))"
    and "search_post sat rcnt es i best newest (Some (Some (Found b), newest))"
  using assms by (auto simp: search_post_def search_end_def split: option.splits)

lemma search_post_continue:
  assumes "i < length es" and "search_post sat rcnt es i (Some b) newest out"
  shows "search_post sat rcnt es (Suc i) best newest out"
  using assms unfolding search_post_def by (auto simp: take_Suc_conv_app_nth)

lemma search_loop_post:
  assumes "i \<le> length es"
    and "\<forall>b. best = Some b \<longrightarrow> b \<in> set es \<and> sat b \<and> \<not> recent now min_age b"
    and sat: "\<And>r. sat r \<longleftrightarrow> group_satisfies g (fr_version r) group_buf buf"
  shows "search_post sat (recent now min_age) es i best newest
    (search_loop now min_age buf g group_buf (map fr_version es) (map fr_package es) i prev best newest)"
  using assms(1,2)
proof (induction i arbitrary: prev best newest)
  case 0
  then show ?case by (cases best) (auto simp: search_post_def search_end_def split: option.splits)
next
  case (Suc i)
  define r where "r = es ! i"
  have i: "i < length es" using Suc.prems(1) by simp
  let ?loop = "search_loop now min_age buf g group_buf (map fr_version es) (map fr_package es)"
  let ?best = "if best = None then Some r else best"
  have eta: "\<lparr>fr_version = fr_version x, fr_package = fr_package x\<rparr> = x" for x :: "'a find_result" by simp
  have step: "?loop (Suc i) prev best newest =
     (if \<not> sat r then ?loop i prev best newest
      else if recent now min_age r then ?loop i (Some (fr_package r)) best (if newest = None then Some (fr_version r) else newest)
      else case prev of
             Some p \<Rightarrow>
               if publish_timestamp_ms (fr_package r) < now - (min_age + seven_days_ms) then Some (search_end ?best newest, newest)
               else if publish_timestamp_ms p - publish_timestamp_ms (fr_package r) \<ge> min min_age seven_days_ms
               then Some (search_end (Some r) newest, newest)
               else ?loop i (Some (fr_package r)) ?best newest
           | None \<Rightarrow> Some (Some (Found r), newest))"
    using i sat [of r] by (cases prev) (auto simp: nth_opt_def r_def recent_def Let_def eta)
  have le: "i \<le> length es" using i by simp
  have r: "r \<in> set es" using i by (simp add: r_def)
  show ?case
  proof (cases "sat r \<and> \<not> recent now min_age r")
    case False
    then show ?thesis
      using step Suc.IH [OF le Suc.prems(2)] search_post_skip [OF i] search_post_recent [OF i] by (auto simp: r_def)
  next
    case True
    obtain b where b: "?best = Some b" "b \<in> set es" "sat b" "\<not> recent now min_age b"
      using Suc.prems(2) r True by (cases best) auto
    have c: "search_post sat (recent now min_age) es (Suc i) best newest (?loop i (Some (fr_package r)) ?best newest)"
      using search_post_continue [OF i, of sat _ b newest _ best] Suc.IH [OF le, of "Some b"] b by simp
    show ?thesis
      unfolding step using True c search_post_found [of b es sat "recent now min_age"] search_post_found [of r es sat "recent now min_age"] b r
      by (cases prev) auto
  qed
qed

lemma search_map_post:
  assumes "map_ok m em"
  shows "search_post (accepts m g group_buf) (recent now min_age) (entries m em) (length (entries m em)) None newest
    (search_map now m em g group_buf min_age newest)"
  using search_loop_post [of "length (entries m em)" "entries m em" None "accepts m g group_buf"] entries_parts [OF assms]
  by (simp add: search_map_def search_version_list_def accepts_def)

lemma search_post_all:
  assumes "search_post sat rcnt es (length es) None newest out"
  obtains x r nf where "out = Some (Some x, nf)" "fvr_unwrap x = Some r" "r \<in> set es" "sat r" "\<not> rcnt r"
  | nf where "out = Some (None, nf)" "\<forall>r \<in> set es. sat r \<longrightarrow> rcnt r" "nf = None \<longrightarrow> newest = None \<and> (\<forall>r \<in> set es. \<not> sat r)"
      "nf = newest \<or> (\<exists>r \<in> set es. sat r \<and> rcnt r)"
proof -
  obtain res nf where o: "out = Some (res, nf)"
     "\<forall>x. res = Some x \<longrightarrow> (\<exists>r. fvr_unwrap x = Some r \<and> r \<in> set es \<and> sat r \<and> \<not> rcnt r)"
     "res = None \<longrightarrow> (\<forall>r \<in> set es. sat r \<longrightarrow> rcnt r) \<and> (nf = None \<longrightarrow> newest = None \<and> (\<forall>r \<in> set es. \<not> sat r))"
     "nf \<noteq> newest \<longrightarrow> (\<exists>r \<in> set es. sat r \<and> rcnt r)"
    using assms unfolding search_post_def by auto
  show thesis
  proof (cases res)
    case None
    show ?thesis by (rule that(2) [of nf]) (use o None in auto)
  next
    case (Some x)
    then obtain r where "fvr_unwrap x = Some r" "r \<in> set es" "sat r" "\<not> rcnt r" using o(2) by blast
    then show ?thesis using that(1) [of x nf r] o(1) Some by simp
  qed
qed

lemma search_filtered_ok:
  assumes "manifest_ok m" and "\<forall>v. newest = Some v \<longrightarrow> (\<exists>r. offered m r \<and> accepts m g group_buf r \<and> recent now min_age r)"
  shows "\<exists>x. search_filtered now m g group_buf min_age newest = Some x \<and>
    (case x of
       Find_Err err \<Rightarrow> err \<noteq> Too_Recent \<and> (\<forall>r \<in> set (candidates m g). accepts m g group_buf r \<longrightarrow> recent now min_age r)
         \<and> (err = All_Versions_Too_Recent \<longleftrightarrow> newest \<noteq> None \<or> (\<exists>r \<in> set (candidates m g). accepts m g group_buf r))
     | _ \<Rightarrow> \<exists>r. fvr_unwrap x = Some r \<and> offered m r \<and> accepts m g group_buf r \<and> \<not> recent now min_age r)"
proof -
  have ok: "map_ok m (m_releases m)" "map_ok m (m_prereleases m)" using assms(1) by (auto simp: manifest_ok_def)
  have off: "r \<in> set (entries m (m_releases m)) \<Longrightarrow> offered m r" "r \<in> set (entries m (m_prereleases m)) \<Longrightarrow> offered m r" for r
    by (simp_all add: offered_def)
  have fit: "case x of Find_Err err \<Rightarrow> Q err | _ \<Rightarrow> \<exists>r. fvr_unwrap x = Some r \<and> offered m r \<and> accepts m g group_buf r \<and> \<not> recent now min_age r"
    if "fvr_unwrap x = Some r" "offered m r" "accepts m g group_buf r" "\<not> recent now min_age r" for x r Q
    using that by (cases x) auto
  show ?thesis
  proof (rule search_post_all [OF search_map_post [OF ok(1), of g group_buf now min_age newest]])
    fix x r nf
    assume "search_map now m (m_releases m) g group_buf min_age newest = Some (Some x, nf)" "fvr_unwrap x = Some r"
      "r \<in> set (entries m (m_releases m))" "accepts m g group_buf r" "\<not> recent now min_age r"
    then show ?thesis using fit [of x r] off(1) by (simp add: search_filtered_def)
  next
    fix nf
    assume rel: "search_map now m (m_releases m) g group_buf min_age newest = Some (None, nf)"
      "\<forall>r \<in> set (entries m (m_releases m)). accepts m g group_buf r \<longrightarrow> recent now min_age r"
      "nf = None \<longrightarrow> newest = None \<and> (\<forall>r \<in> set (entries m (m_releases m)). \<not> accepts m g group_buf r)"
      "nf = newest \<or> (\<exists>r \<in> set (entries m (m_releases m)). accepts m g group_buf r \<and> recent now min_age r)"
    show ?thesis
    proof (cases "flag_pre g")
      case False
      then show ?thesis using rel by (auto simp: search_filtered_def candidates_def)
    next
      case True
      show ?thesis
      proof (rule search_post_all [OF search_map_post [OF ok(2), of g group_buf now min_age nf]])
        fix x r nf'
        assume "search_map now m (m_prereleases m) g group_buf min_age nf = Some (Some x, nf')" "fvr_unwrap x = Some r"
          "r \<in> set (entries m (m_prereleases m))" "accepts m g group_buf r" "\<not> recent now min_age r"
        then show ?thesis using fit [of x r] off(2) rel(1) True by (simp add: search_filtered_def)
      next
        fix nf'
        assume "search_map now m (m_prereleases m) g group_buf min_age nf = Some (None, nf')"
          "\<forall>r \<in> set (entries m (m_prereleases m)). accepts m g group_buf r \<longrightarrow> recent now min_age r"
          "nf' = None \<longrightarrow> nf = None \<and> (\<forall>r \<in> set (entries m (m_prereleases m)). \<not> accepts m g group_buf r)"
          "nf' = nf \<or> (\<exists>r \<in> set (entries m (m_prereleases m)). accepts m g group_buf r \<and> recent now min_age r)"
        then show ?thesis using rel True by (auto simp: search_filtered_def candidates_def)
      qed
    qed
  qed
qed

text \<open>
  What a filtered selection promises, for a result and for each error.  A range that starts with the
  exact version \<open>v\<close> is only looked up in the channel of \<open>v\<close>.
\<close>

definition exact_filtered_ok :: "real \<Rightarrow> real \<Rightarrow> 'x package_manifest \<Rightarrow> version \<Rightarrow> 'x find_version_result \<Rightarrow> bool" where
  "exact_filtered_ok now min_age m v x \<longleftrightarrow>
    (case x of
       Found r \<Rightarrow> r \<in> set (channel m v) \<and> version_eql (fr_version r) v \<and> \<not> recent now min_age r
     | Found_With_Filter r nf \<Rightarrow> False
     | Find_Err Too_Recent \<Rightarrow> \<exists>r \<in> set (channel m v). version_eql (fr_version r) v \<and> recent now min_age r
     | Find_Err Not_Found \<Rightarrow> \<forall>r \<in> set (channel m v). \<not> version_eql (fr_version r) v
     | Find_Err All_Versions_Too_Recent \<Rightarrow> False)"

definition filtered_ok :: "real \<Rightarrow> real \<Rightarrow> 'x package_manifest \<Rightarrow> group \<Rightarrow> bytes \<Rightarrow> 'x find_version_result \<Rightarrow> bool" where
  "filtered_ok now min_age m g group_buf x \<longleftrightarrow>
    (case x of
       Find_Err Too_Recent \<Rightarrow> False
     | Find_Err All_Versions_Too_Recent \<Rightarrow> (\<exists>r. offered m r \<and> accepts m g group_buf r \<and> recent now min_age r)
         \<and> (\<forall>r \<in> set (candidates m g). accepts m g group_buf r \<longrightarrow> recent now min_age r)
     | Find_Err Not_Found \<Rightarrow> \<forall>r \<in> set (candidates m g). \<not> accepts m g group_buf r
     | _ \<Rightarrow> \<exists>r. fvr_unwrap x = Some r \<and> offered m r \<and> \<not> recent now min_age r \<and> accepts m g group_buf r)"

text \<open>
  C23. With a minimum release age that applies to the package, the selection never panics.  For a
  range that starts with an exact version: a found version is equal to it, of its channel and old
  enough; "too recent" means that the channel holds it and it is too recent; "not found" that the
  channel does not hold it.  For every other range: a found version is offered, in the range and old
  enough; "all too recent" means that an accepted version exists and every accepted candidate is
  too recent; "not found" that no candidate is accepted.
\<close>

theorem filtered_version_old_enough:
  assumes "manifest_ok m" and "age_gate m minimum_release_age_ms exclusions = Some min_age"
  shows "\<exists>x. find_best_version_with_filter now m g group_buf minimum_release_age_ms exclusions = Some x
    \<and> (if cop (group_left g) = Op_Eql then exact_filtered_ok now min_age m (cversion (group_left g)) x
       else filtered_ok now min_age m g group_buf x)"
proof (cases "cop (group_left g) = Op_Eql")
  case True
  then show ?thesis
    by (auto simp: find_best_version_with_filter_def assms(2) find_by_version_find [OF assms(1)] channel_version_map recent_def
        exact_filtered_ok_def find_None_iff split: option.splits dest!: find_SomeD)
next
  case False
  note search = search_filtered_ok [OF assms(1), of _ g group_buf now min_age]
  have out: "\<exists>x. search_filtered now m g group_buf min_age newest = Some x \<and> filtered_ok now min_age m g group_buf x"
    if n: "newest \<noteq> None \<Longrightarrow> \<exists>r. offered m r \<and> accepts m g group_buf r \<and> recent now min_age r" for newest
  proof -
    obtain x where x: "search_filtered now m g group_buf min_age newest = Some x"
      "case x of
         Find_Err err \<Rightarrow> err \<noteq> Too_Recent \<and> (\<forall>r \<in> set (candidates m g). accepts m g group_buf r \<longrightarrow> recent now min_age r)
           \<and> (err = All_Versions_Too_Recent \<longleftrightarrow> newest \<noteq> None \<or> (\<exists>r \<in> set (candidates m g). accepts m g group_buf r))
       | _ \<Rightarrow> \<exists>r. fvr_unwrap x = Some r \<and> offered m r \<and> accepts m g group_buf r \<and> \<not> recent now min_age r"
      using search [of newest] n by auto
    show ?thesis
    proof (cases x)
      case (Find_Err err)
      then show ?thesis using x n candidates_offered [of _ m g] by (cases err) (auto simp: filtered_ok_def)
    qed (use x False in \<open>auto simp: filtered_ok_def\<close>)
  qed
  obtain res where l: "find_by_dist_tag m ''latest'' = Some res" "\<And>r. res = Some r \<Longrightarrow> offered m r"
    using find_by_dist_tag_find [OF assms(1)] by_dist_tag_offered by blast
  have "\<exists>x. find_best_version_with_filter now m g group_buf minimum_release_age_ms exclusions = Some x
    \<and> filtered_ok now min_age m g group_buf x"
  proof (cases res)
    case None
    then show ?thesis using False out [of None] l by (simp add: find_best_version_with_filter_def assms(2))
  next
    case (Some a)
    then have a: "offered m a" using l(2) by blast
    consider "accepts m g group_buf a" "recent now min_age a"
      | "accepts m g group_buf a" "\<not> recent now min_age a" "latest_accepted m g group_buf a"
      | "\<not> accepts m g group_buf a \<or> \<not> recent now min_age a \<and> \<not> latest_accepted m g group_buf a" by blast
    then show ?thesis
    proof cases
      case 1
      then have "find_best_version_with_filter now m g group_buf minimum_release_age_ms exclusions
          = search_filtered now m g group_buf min_age (Some (fr_version a))"
        using False Some l by (simp add: find_best_version_with_filter_def assms(2) accepts_def recent_def)
      then show ?thesis using out [of "Some (fr_version a)"] 1 a by metis
    next
      case 2
      then have "find_best_version_with_filter now m g group_buf minimum_release_age_ms exclusions = Some (Found a)"
        using False Some l by (simp add: find_best_version_with_filter_def assms(2) accepts_def recent_def)
      then show ?thesis using 2 a False by (simp add: filtered_ok_def)
    next
      case 3
      then have "find_best_version_with_filter now m g group_buf minimum_release_age_ms exclusions
          = search_filtered now m g group_buf min_age None"
        using False Some l by (auto simp: find_best_version_with_filter_def assms(2) accepts_def recent_def)
      then show ?thesis using out [of None] by simp
    qed
  qed
  then show ?thesis using False by simp
qed

theorem filtered_version_old_enough_witness:
  "\<exists>x. find_best_version_with_filter 1000 sample_manifest (group_default 0) [] (Some 500) None = Some x
     \<and> filtered_ok 1000 500 sample_manifest (group_default 0) [] x"
proof -
  have "cop (group_left (group_default 0)) \<noteq> Op_Eql"
    by (simp add: group_left_def group_default_def or_list_default_def query_default_def range_default_def comparator_default_def)
  then show ?thesis
    using filtered_version_old_enough [OF sample_manifest_ok, of "Some 500" None 500 1000 "group_default 0" "[]"]
    by (auto simp: age_gate_def should_exclude_from_age_filter_def)
qed

lemma search_loop_old:
  assumes "i \<le> length es" and "\<forall>r \<in> set es. \<not> recent now min_age r"
  shows "search_loop now min_age buf g group_buf (map fr_version es) (map fr_package es) i None None newest
    = Some (map_option Found (List.find (\<lambda>r. group_satisfies g (fr_version r) group_buf buf) (rev (take i es))), newest)"
  using assms(1)
proof (induction i)
  case (Suc i)
  then have t: "take (Suc i) es = take i es @ [es ! i]" "i < length es" by (simp_all add: take_Suc_conv_app_nth)
  then have "\<not> recent now min_age (es ! i)" using assms(2) by simp
  then show ?case using Suc t by (simp add: nth_opt_def recent_def)
qed (simp add: search_end_def)

lemma search_filtered_old:
  assumes "manifest_ok m" and "\<forall>r. offered m r \<longrightarrow> \<not> recent now min_age r"
  shows "search_filtered now m g group_buf min_age None
    = Some (case List.find (accepts m g group_buf) (candidates m g) of Some r \<Rightarrow> Found r | None \<Rightarrow> Find_Err Not_Found)"
proof -
  have ok: "map_ok m (m_releases m)" "map_ok m (m_prereleases m)" using assms(1) by (auto simp: manifest_ok_def)
  have sm: "search_map now m em g group_buf min_age None = Some (map_option Found (List.find (accepts m g group_buf) (rev (entries m em))), None)"
    if "map_ok m em" "\<forall>r \<in> set (entries m em). \<not> recent now min_age r" for em
    using search_loop_old [of "length (entries m em)" "entries m em" now min_age "m_string_buf m" g group_buf None] that entries_parts [OF that(1)]
    by (simp add: search_map_def search_version_list_def flip: accepts_def)
  have "search_map now m (m_releases m) g group_buf min_age None
      = Some (map_option Found (List.find (accepts m g group_buf) (rev (entries m (m_releases m)))), None)"
    "search_map now m (m_prereleases m) g group_buf min_age None
      = Some (map_option Found (List.find (accepts m g group_buf) (rev (entries m (m_prereleases m)))), None)"
    using sm ok assms(2) by (auto simp: offered_def)
  then show ?thesis by (auto simp: search_filtered_def candidates_def find_append split: option.splits)
qed

text \<open>
  C26. A minimum release age that hides nothing changes nothing: if no offered version is too recent,
  the filtered selection is the unfiltered one, for exact versions, for \<open>latest\<close> and for both lists.
\<close>

theorem filter_hides_nothing:
  assumes "manifest_ok m" and "\<forall>min_age. age_gate m minimum_release_age_ms exclusions = Some min_age \<longrightarrow>
      (\<forall>r. offered m r \<longrightarrow> \<not> recent now min_age r)"
  shows "find_best_version_with_filter now m g group_buf minimum_release_age_ms exclusions
    = map_option (\<lambda>res. case res of Some r \<Rightarrow> Found r | None \<Rightarrow> Find_Err Not_Found) (find_best_version m g group_buf)"
proof (cases "age_gate m minimum_release_age_ms exclusions")
  case None
  then show ?thesis by (cases "find_best_version m g group_buf") (simp_all add: find_best_version_with_filter_def)
next
  case (Some min_age)
  then have old: "\<not> recent now min_age r" if "offered m r" for r using assms(2) that by blast
  note eqs = find_by_version_find [OF assms(1)] find_by_dist_tag_find [OF assms(1)] search_filtered_old [OF assms(1), of now min_age g group_buf]
    search_lists_find [OF assms(1)]
  show ?thesis
  proof (cases "cop (group_left g) = Op_Eql")
    case True
    then show ?thesis
      using old entries_offered [of _ m "cversion (group_left g)"]
      by (auto simp: find_best_version_with_filter_def find_best_version_def Some eqs recent_def split: option.splits dest!: find_SomeD)
  next
    case False
    then show ?thesis
      using old by_dist_tag_offered [of m "''latest''"] eqs
      by (auto simp: find_best_version_with_filter_def find_best_version_def Some simp flip: accepts_def recent_def split: option.splits)
  qed
qed

theorem filter_hides_nothing_witness:
  "find_best_version_with_filter 1000 sample_manifest (group_default 0) [] (Some 50) None
    = map_option (\<lambda>res. case res of Some r \<Rightarrow> Found r | None \<Rightarrow> Find_Err Not_Found) (find_best_version sample_manifest (group_default 0) [])"
  by (rule filter_hides_nothing [OF sample_manifest_ok])
    (auto simp: age_gate_def should_exclude_from_age_filter_def offered_def sample_entries recent_def is_package_version_too_recent_def)

section \<open>Dist tags with a minimum age\<close>

text \<open>The loop steps back from the tagged version and only keeps versions that are fit.\<close>

lemma dist_loop_ok:
  assumes "i \<le> length es" and "\<forall>b. best = Some b \<longrightarrow> fit b"
    and "\<And>r. fit r \<longleftrightarrow> r \<in> set es \<and> version_order (fr_version r) latest buf buf \<noteq> Greater
           \<and> (\<forall>e. expected = Some e \<longrightarrow> tag_before_dot (es_slice (pre (vtag (fr_version r))) buf) = e) \<and> \<not> recent now min_age r"
  shows "\<exists>x. dist_loop now min_age buf latest expected (map fr_version es) (map fr_package es) i prev best = Some x
    \<and> (case x of Found_With_Filter r nf \<Rightarrow> fit r \<and> nf = Some latest
       | Find_Err err \<Rightarrow> err = All_Versions_Too_Recent \<and> best = None \<and> (\<forall>r \<in> set (take i es). \<not> fit r)
       | Found r \<Rightarrow> False)"
  using assms(1,2)
proof (induction i arbitrary: prev best)
  case 0
  then show ?case by (cases best) auto
next
  case (Suc i)
  define r where "r = es ! i"
  have i: "i < length es" "r \<in> set es" using Suc.prems(1) by (auto simp: r_def)
  have t: "take (Suc i) es = take i es @ [r]" using i by (simp add: take_Suc_conv_app_nth r_def)
  have eta: "\<lparr>fr_version = fr_version x, fr_package = fr_package x\<rparr> = x" for x :: "'a find_result" by simp
  let ?loop = "dist_loop now min_age buf latest expected (map fr_version es) (map fr_package es)"
  let ?best = "if best = None then Some r else best"
  have step: "?loop (Suc i) prev best =
     (if version_order (fr_version r) latest buf buf = Greater
         \<or> (expected \<noteq> None \<and> tag_before_dot (es_slice (pre (vtag (fr_version r))) buf) \<noteq> the expected)
      then ?loop i prev best
      else if recent now min_age r then ?loop i (Some (fr_package r)) best
      else case prev of
             Some p \<Rightarrow>
               if publish_timestamp_ms (fr_package r) < now - (min_age + seven_days_ms)
               then Some (Found_With_Filter (case best of Some b \<Rightarrow> b | None \<Rightarrow> r) (Some latest))
               else if publish_timestamp_ms p - publish_timestamp_ms (fr_package r) \<ge> min min_age seven_days_ms
               then Some (Found_With_Filter r (Some latest))
               else ?loop i (Some (fr_package r)) ?best
           | None \<Rightarrow> Some (Found_With_Filter r (Some latest)))"
    using i by (cases prev) (auto simp: nth_opt_def r_def recent_def Let_def eta)
  show ?case
  proof (cases "fit r")
    case False
    have sk: "?loop (Suc i) prev best = ?loop i prev best \<or> ?loop (Suc i) prev best = ?loop i (Some (fr_package r)) best"
      using step False i assms(3) [of r] by auto
    show ?thesis
    proof -
      obtain p where p: "?loop (Suc i) prev best = ?loop i p best" using sk by blast
      obtain x where x: "?loop i p best = Some x"
        "case x of Found_With_Filter r nf \<Rightarrow> fit r \<and> nf = Some latest
         | Find_Err err \<Rightarrow> err = All_Versions_Too_Recent \<and> best = None \<and> (\<forall>r \<in> set (take i es). \<not> fit r) | Found r \<Rightarrow> False"
        using Suc.IH [of best p] Suc.prems by auto
      then show ?thesis unfolding p t using False by (cases x) auto
    qed
  next
    case True
    have best: "\<forall>b. ?best = Some b \<longrightarrow> fit b" using Suc.prems(2) True by auto
    have u: "\<not> (version_order (fr_version r) latest buf buf = Greater
         \<or> (expected \<noteq> None \<and> tag_before_dot (es_slice (pre (vtag (fr_version r))) buf) \<noteq> the expected))" "\<not> recent now min_age r"
      using True assms(3) [of r] by (cases expected; auto)+
    obtain x where x: "?loop i (Some (fr_package r)) ?best = Some x"
      "case x of Found_With_Filter r nf \<Rightarrow> fit r \<and> nf = Some latest
         | Find_Err err \<Rightarrow> err = All_Versions_Too_Recent \<and> ?best = None \<and> (\<forall>r \<in> set (take i es). \<not> fit r) | Found r \<Rightarrow> False"
      using Suc.IH [OF _ best, of "Some (fr_package r)"] i by auto
    have "case x of Found_With_Filter r nf \<Rightarrow> fit r \<and> nf = Some latest
         | Find_Err err \<Rightarrow> err = All_Versions_Too_Recent \<and> best = None \<and> (\<forall>r \<in> set (take (Suc i) es). \<not> fit r) | Found r \<Rightarrow> False"
      using x(2) by (cases x) (auto split: if_splits)
    then show ?thesis
      using step u x(1) True Suc.prems(2) by (cases prev; cases best) auto
  qed
qed

text \<open>The versions a dist tag may fall back to: not above the tagged one and, for a pre-release, with its prefix.\<close>

definition fallback :: "'x package_manifest \<Rightarrow> version \<Rightarrow> 'x find_result \<Rightarrow> bool" where
  "fallback m t r \<longleftrightarrow> version_order (fr_version r) t (m_string_buf m) (m_string_buf m) \<noteq> Greater
     \<and> (has_pre (vtag t) \<longrightarrow> tag_before_dot (es_slice (pre (vtag (fr_version r))) (m_string_buf m))
          = tag_before_dot (es_slice (pre (vtag t)) (m_string_buf m)))"

text \<open>
  C25. A dist tag with a minimum age.  A tag that names no offered version is not found.  Without an
  applicable age the tagged version itself is the answer, as it is when it is old enough.  If it is
  too recent, an answer is an old enough version of the list the tagged version belongs to (the
  pre-releases for a pre-release, the releases otherwise), not above it and, for a pre-release, with
  the same part before the first dot, and it names the tagged version as the one that was filtered;
  the error that all versions are too recent is given only if every such version is.
\<close>

theorem dist_tag_filter_sound:
  assumes "manifest_ok m"
  shows "\<exists>x. find_by_dist_tag_with_filter now m tag minimum_release_age_ms exclusions = Some x \<and>
    (case by_dist_tag m tag of
       None \<Rightarrow> x = Find_Err Not_Found
     | Some t \<Rightarrow>
         (case age_gate m minimum_release_age_ms exclusions of
            None \<Rightarrow> x = Found t
          | Some min_age \<Rightarrow>
              if \<not> recent now min_age t then x = Found t
              else (case x of
                 Found r \<Rightarrow> False
               | Found_With_Filter r nf \<Rightarrow> nf = Some (fr_version t) \<and> r \<in> set (channel m (fr_version t))
                   \<and> fallback m (fr_version t) r \<and> \<not> recent now min_age r
               | Find_Err err \<Rightarrow> err = All_Versions_Too_Recent
                   \<and> (\<forall>r \<in> set (channel m (fr_version t)). fallback m (fr_version t) r \<longrightarrow> recent now min_age r))))"
proof (cases "by_dist_tag m tag")
  case None
  then show ?thesis by (simp add: find_by_dist_tag_with_filter_def find_by_dist_tag_find [OF assms])
next
  case t: (Some t)
  note dist = find_by_dist_tag_with_filter_def [of now m tag minimum_release_age_ms exclusions] find_by_dist_tag_find [OF assms]
  show ?thesis
  proof (cases "age_gate m minimum_release_age_ms exclusions")
    case None
    then show ?thesis using t by (simp add: dist)
  next
    case (Some min_age)
    show ?thesis
    proof (cases "recent now min_age t")
      case False
      then show ?thesis using t Some by (simp add: dist recent_def)
    next
      case True
      define em where "em = (if has_pre (vtag (fr_version t)) then m_prereleases m else m_releases m)"
      define expected where "expected = (if has_pre (vtag (fr_version t))
        then Some (tag_before_dot (es_slice (pre (vtag (fr_version t))) (m_string_buf m))) else None)"
      have em: "map_ok m em" using assms by (auto simp: manifest_ok_def em_def)
      have ch: "channel m (fr_version t) = entries m em" by (simp add: channel_def em_def)
      let ?fit = "\<lambda>r. r \<in> set (entries m em) \<and> fallback m (fr_version t) r \<and> \<not> recent now min_age r"
      have "find_by_dist_tag_with_filter now m tag minimum_release_age_ms exclusions =
          dist_loop now min_age (m_string_buf m) (fr_version t) expected (map fr_version (entries m em)) (map fr_package (entries m em))
            (length (entries m em)) (Some (fr_package t)) None"
        using t Some True entries_parts [OF em] by (simp add: dist recent_def Let_def expected_def em_def)
      moreover have "?fit r \<longleftrightarrow> r \<in> set (entries m em) \<and> version_order (fr_version r) (fr_version t) (m_string_buf m) (m_string_buf m) \<noteq> Greater
          \<and> (\<forall>e. expected = Some e \<longrightarrow> tag_before_dot (es_slice (pre (vtag (fr_version r))) (m_string_buf m)) = e) \<and> \<not> recent now min_age r" for r
        by (auto simp: fallback_def expected_def)
      note dist_loop_ok [of "length (entries m em)" "entries m em" None ?fit "fr_version t" "m_string_buf m" expected now min_age, OF _ _ this,
          of "Some (fr_package t)"]
      ultimately show ?thesis
        using t Some True ch by (auto split: find_version_result.splits)
    qed
  qed
qed

theorem dist_tag_filter_sound_witness:
  "\<exists>x. find_by_dist_tag_with_filter 1000 sample_manifest ''latest'' (Some 850) None = Some x \<and> x \<noteq> Found sample_latest \<and> x \<noteq> Find_Err Not_Found"
proof -
  have "recent 1000 850 sample_latest"
    by (simp add: recent_def is_package_version_too_recent_def sample_latest_def)
  moreover have "age_gate sample_manifest (Some 850) None = Some 850"
    by (simp add: age_gate_def should_exclude_from_age_filter_def)
  ultimately obtain x where "find_by_dist_tag_with_filter 1000 sample_manifest ''latest'' (Some 850) None = Some x"
      "case x of Found r \<Rightarrow> False | Found_With_Filter r nf \<Rightarrow> True | Find_Err err \<Rightarrow> err = All_Versions_Too_Recent"
    using dist_tag_filter_sound [OF sample_manifest_ok, of 1000 "''latest''" "Some 850" None]
    by (fastforce simp: sample_by_dist_tag split: find_version_result.splits)
  then show ?thesis by (intro exI [of _ x]) (cases x; simp)
qed

end
