(* ===== verification/Npm_Sort.thy ===== *)
theory Npm_Sort
  imports Npm_Select "HOL-Library.Multiset"
begin

text \<open>
  Sorting the versions of a manifest when it is parsed (\<open>sort_with_int!\<close> of \<open>PackageManifest::parse\<close>):
  an array of indices is sorted by the order of the versions and both arrays, versions and packages,
  are rewritten through it.  This establishes the sortedness on which the selection relies.
\<close>

section \<open>Definitions\<close>

text \<open>The number of bytes an index takes: \<open>usize::BITS - (n - 1).leading_zeros()\<close> is the bit length of \<open>n - 1\<close>.\<close>

fun bit_length :: "nat \<Rightarrow> nat" where
  "bit_length n = (if n = 0 then 0 else Suc (bit_length (n div 2)))"

declare bit_length.simps [simp del]

definition how_many_bytes_to_store_indices :: "nat \<Rightarrow> nat" where
  "how_many_bytes_to_store_indices n =
     (if n = 0 then 0 else if n = 1 then 1 else (bit_length (n - 1) + 7) div 8)"

text \<open>
  \<open>slice::sort_by\<close> of the standard library is stable: equal elements keep their order.  For a
  comparison that is a total preorder this determines the result, so it is defined here by insertion.
\<close>

fun insort_by :: "('a \<Rightarrow> 'a \<Rightarrow> ordering) \<Rightarrow> 'a \<Rightarrow> 'a list \<Rightarrow> 'a list" where
  "insort_by c x [] = [x]"
| "insort_by c x (y # ys) = (if c y x = Greater then x # y # ys else y # insort_by c x ys)"

definition sort_by :: "('a \<Rightarrow> 'a \<Rightarrow> ordering) \<Rightarrow> 'a list \<Rightarrow> 'a list" where
  "sort_by c xs = foldl (\<lambda>acc x. insort_by c x acc) [] xs"

text \<open>The integer type of the indices, by its width in bits; no type for 0 or for more than 8 bytes.\<close>

definition index_bits :: "nat \<Rightarrow> nat option" where
  "index_bits bytes =
     (if bytes = 1 then Some 8 else if bytes = 2 then Some 16 else if bytes = 3 \<or> bytes = 4 then Some 32
      else if 5 \<le> bytes \<and> bytes \<le> 8 then Some 64 else None)"

text \<open>
  One round of the loop over \<open>releases_list\<close>, for indices of the given width: the cast \<open>i as Int\<close>
  keeps the low bits.  \<open>debug\<close> stands for \<open>cfg!(debug_assertions)\<close>, under which the second of the
  sorted versions must be greater than the first.
\<close>

definition sort_map :: "bool \<Rightarrow> nat \<Rightarrow> nat \<Rightarrow> 'x package_manifest \<Rightarrow> extern_version_map \<Rightarrow> 'x package_manifest option" where
  "sort_map debug bits max_versions_count m release = do {
     let len = x_len (em_keys release);
     if len \<le> max_versions_count \<and> x_off (em_values release) + len \<le> length (m_package_versions m)
        \<and> x_off (em_keys release) + len \<le> length (m_versions m)
     then (let cloned_packages = take len (drop (x_off (em_values release)) (m_package_versions m));
               cloned_versions = take len (drop (x_off (em_keys release)) (m_versions m));
               order = (\<lambda>left right. version_order left right (m_string_buf m) (m_string_buf m));
               indices = sort_by (\<lambda>l r. order (cloned_versions ! l) (cloned_versions ! r)) (map (\<lambda>i. i mod 2 ^ bits) [0..<len]);
               sorted_versions = map ((!) cloned_versions) indices
           in if debug \<and> len > 1 \<and> order (sorted_versions ! 1) (sorted_versions ! 0) \<noteq> Greater then None
              else Some (m\<lparr>m_package_versions := blit (m_package_versions m) (x_off (em_values release)) (map ((!) cloned_packages) indices),
                      m_versions := blit (m_versions m) (x_off (em_keys release)) sorted_versions\<rparr>))
     else None }"

definition sort_manifest :: "bool \<Rightarrow> 'x package_manifest \<Rightarrow> 'x package_manifest option" where
  "sort_manifest debug m =
     (let max_versions_count = max (x_len (em_keys (m_releases m))) (x_len (em_keys (m_prereleases m)))
      in case index_bits (how_many_bytes_to_store_indices max_versions_count) of
           Some bits \<Rightarrow> Option.bind (sort_map debug bits max_versions_count m (m_releases m))
                          (\<lambda>m. sort_map debug bits max_versions_count m (m_prereleases m))
         | None \<Rightarrow> if debug \<and> max_versions_count \<noteq> 0 then None else Some m)"

section \<open>The indices fit\<close>

text \<open>The indices of \<open>n\<close> versions fit into the chosen width.\<close>

lemma bit_length_bound: "n < 2 ^ bit_length n"
proof (induction n rule: bit_length.induct)
  case (1 n)
  then show ?case by (cases "n = 0") (simp_all add: bit_length.simps [of n])
qed

lemma indices_fit:
  assumes "i < n"
  shows "i < 256 ^ how_many_bytes_to_store_indices n"
proof (cases "n = 1")
  case True
  then show ?thesis using assms by (simp add: how_many_bytes_to_store_indices_def)
next
  case False
  define b where "b = bit_length (n - 1)"
  have "b \<le> 8 * ((b + 7) div 8)" by linarith
  then have "(2 :: nat) ^ b \<le> 2 ^ (8 * ((b + 7) div 8))" by (rule power_increasing) simp
  moreover have "(2 :: nat) ^ (8 * ((b + 7) div 8)) = 256 ^ ((b + 7) div 8)" by (simp add: power_mult)
  moreover have "i < 2 ^ b" using bit_length_bound [of "n - 1"] assms by (simp add: b_def)
  ultimately have "i < 256 ^ ((b + 7) div 8)" by linarith
  then show ?thesis using False assms by (simp add: how_many_bytes_to_store_indices_def b_def)
qed

lemma bit_length_le: "n < 2 ^ k \<Longrightarrow> bit_length n \<le> k"
proof (induction k arbitrary: n)
  case (Suc k)
  then show ?case using bit_length.simps [of 0] by (cases "n = 0") (auto simp: bit_length.simps [of n] intro: less_mult_imp_div_less)
qed (simp add: bit_length.simps)

lemma index_bits_fit:
  assumes "0 < n" and "n < 2 ^ 32"
  obtains bits where "index_bits (how_many_bytes_to_store_indices n) = Some bits" and "n \<le> 2 ^ bits"
proof -
  define k where "k = how_many_bytes_to_store_indices n"
  have "n - 1 < 256 ^ k" using indices_fit [of "n - 1" n] assms by (simp add: k_def)
  then have n: "n \<le> 2 ^ (8 * k)" using assms by (simp add: power_mult)
  have "bit_length (n - 1) \<le> 32" using bit_length_le [of "n - 1" 32] assms by simp
  moreover have "0 < bit_length (n - 1)" if "n \<noteq> 1" using that assms bit_length.simps [of "n - 1"] by simp
  ultimately have "0 < k" "k \<le> 4" using assms by (auto simp: k_def how_many_bytes_to_store_indices_def)
  then have "k \<in> {1, 2, 3, 4}" by auto
  then obtain bits where b: "index_bits k = Some bits" "8 * k \<le> bits" by (auto simp: index_bits_def)
  have "(2 :: nat) ^ (8 * k) \<le> 2 ^ bits" using b(2) by (rule power_increasing) simp
  then have "n \<le> 2 ^ bits" using n by (rule order_trans [rotated])
  then show thesis using that b(1) by (simp add: k_def)
qed

section \<open>Stable sorting by a three-way comparison\<close>

lemma insort_by_mset [simp]: "mset (insort_by c x ys) = add_mset x (mset ys)"
  by (induction ys) auto

lemma insort_by_set: "set (insort_by c x ys) = insert x (set ys)"
  using insort_by_mset [of c x ys] by (metis set_mset_add_mset_insert set_mset_mset)

lemma foldl_insort_mset: "mset (foldl (\<lambda>acc x. insort_by c x acc) acc xs) = mset acc + mset xs"
  by (induction xs arbitrary: acc) auto

lemma sort_by_mset [simp]: "mset (sort_by c xs) = mset xs"
  by (simp add: sort_by_def foldl_insort_mset)

lemma insort_by_cong:
  assumes "\<And>y. y \<in> set ys \<Longrightarrow> c y x = d y x"
  shows "insort_by c x ys = insort_by d x ys"
  using assms by (induction ys) auto

lemma foldl_insort_cong:
  assumes "\<And>x y. x \<in> set acc \<union> set xs \<Longrightarrow> y \<in> set acc \<union> set xs \<Longrightarrow> c x y = d x y"
  shows "foldl (\<lambda>acc x. insort_by c x acc) acc xs = foldl (\<lambda>acc x. insort_by d x acc) acc xs"
  using assms
proof (induction xs arbitrary: acc)
  case (Cons x xs)
  have "insort_by c x acc = insort_by d x acc" by (rule insort_by_cong) (use Cons.prems in auto)
  moreover have "foldl (\<lambda>acc x. insort_by c x acc) (insort_by d x acc) xs = foldl (\<lambda>acc x. insort_by d x acc) (insort_by d x acc) xs"
    by (rule Cons.IH) (use Cons.prems insort_by_set [of d x acc] in auto)
  ultimately show ?case by simp
qed simp

lemma sort_by_cong:
  assumes "\<And>x y. x \<in> set xs \<Longrightarrow> y \<in> set xs \<Longrightarrow> c x y = d x y"
  shows "sort_by c xs = sort_by d xs"
  unfolding sort_by_def by (rule foldl_insort_cong) (use assms in auto)

context three_way
begin

lemma insort_by_sorted:
  assumes "sorted_wrt (\<lambda>a b. cmp a b \<noteq> Greater) ys"
  shows "sorted_wrt (\<lambda>a b. cmp a b \<noteq> Greater) (insort_by cmp x ys)"
  using assms
proof (induction ys)
  case (Cons y ys)
  show ?case
  proof (cases "cmp y x = Greater")
    case True
    then have "cmp x y \<noteq> Greater" using total by blast
    then show ?thesis using Cons.prems True le_trans [of x y] by auto
  next
    case False
    then show ?thesis using Cons insort_by_set [of cmp x ys] by auto
  qed
qed simp

lemma sort_by_sorted: "sorted_wrt (\<lambda>a b. cmp a b \<noteq> Greater) (sort_by cmp xs)"
proof -
  have "sorted_wrt (\<lambda>a b. cmp a b \<noteq> Greater) acc \<Longrightarrow>
      sorted_wrt (\<lambda>a b. cmp a b \<noteq> Greater) (foldl (\<lambda>acc x. insort_by cmp x acc) acc xs)" for acc
    by (induction xs arbitrary: acc) (auto intro: insort_by_sorted)
  then show ?thesis by (simp add: sort_by_def)
qed

end

section \<open>The order of versions through a key\<close>

text \<open>
  Versions compare by precedence and then, for releases, by their build metadata.  The comparison
  of build metadata trusts equal hashes, so it is an order on strings whose hashes do not collide.
\<close>

definition version_key :: "bytes \<Rightarrow> version \<Rightarrow> precedence \<times> bytes" where
  "version_key buf v = (parsed_precedence v buf, if has_pre (vtag v) then [] else es_slice (build (vtag v)) buf)"

definition key_cmp :: "precedence \<times> bytes \<Rightarrow> precedence \<times> bytes \<Rightarrow> ordering" where
  "key_cmp a b = then_ord (precedence_cmp (fst a) (fst b)) (strings_order (snd a) (snd b))"

interpretation vkey: three_way "\<lambda>a b. key_cmp (version_key buf a) (version_key buf b)" for buf
  unfolding key_cmp_def
  by (rule three_way_then; rule three_way_project)+ (auto intro: three_way_project prec.three_way_axioms sord.three_way_axioms)

definition hashes_agree :: "bytes \<Rightarrow> version set \<Rightarrow> bool" where
  "hashes_agree buf V \<longleftrightarrow> (\<forall>a \<in> V. \<forall>b \<in> V. es_hash (build (vtag a)) = es_hash (build (vtag b)) \<and> es_hash (build (vtag a)) > 0
     \<longrightarrow> es_slice (build (vtag a)) buf = es_slice (build (vtag b)) buf)"

lemma precedence_pre: "precedence_cmp (parsed_precedence a x) (parsed_precedence b y) = Equal \<Longrightarrow> has_pre (vtag a) = has_pre (vtag b)"
  by (auto simp: precedence_cmp_def parsed_precedence_def then_ord_def split: if_splits ordering.splits)

lemma version_order_key:
  assumes "version_wf a" and "version_wf b" and "hashes_agree buf V" and "a \<in> V" and "b \<in> V"
  shows "version_order a b buf buf = key_cmp (version_key buf a) (version_key buf b)"
proof -
  have vo: "version_order a b buf buf = then_ord (version_order_without_build a b buf buf)
      (if has_pre (vtag a) \<and> has_pre (vtag b) then Equal else es_order (build (vtag a)) (build (vtag b)) buf buf)"
  proof (cases "order_without_tag a b = Equal")
    case True
    then have "has_pre (vtag a) = has_pre (vtag b)" by (auto simp: order_without_tag_def split: if_splits)
    then show ?thesis
      using True by (cases "has_pre (vtag a)"; cases "es_order (pre (vtag a)) (pre (vtag b)) buf buf"; cases "order_pre (vtag a) (vtag b) buf buf")
        (simp_all add: version_order_def version_order_without_build_def tag_order_def tag_order_without_build_def then_ord_def has_pre_def)
  next
    case False
    then show ?thesis
      by (cases "order_without_tag a b") (simp_all add: version_order_def version_order_without_build_def then_ord_def)
  qed
  have bo: "es_order (build (vtag a)) (build (vtag b)) buf buf = strings_order (es_slice (build (vtag a)) buf) (es_slice (build (vtag b)) buf)"
  proof (cases "es_hash (build (vtag a)) = es_hash (build (vtag b)) \<and> es_hash (build (vtag a)) > 0")
    case True
    then have "es_slice (build (vtag a)) buf = es_slice (build (vtag b)) buf"
      using assms(3-5) unfolding hashes_agree_def by blast
    moreover have "es_order (build (vtag a)) (build (vtag b)) buf buf = Equal"
      unfolding es_order_def using True by (rule if_P)
    ultimately show ?thesis by (simp add: sord.refl)
  next
    case False
    then show ?thesis unfolding es_order_def string_order_def es_slice_def by (simp only: if_False)
  qed
  show ?thesis
    using precedence_pre [of a buf b buf] bo
    unfolding vo version_order_without_build_precedence [OF assms(1,2)] key_cmp_def version_key_def fst_conv snd_conv
    by (cases "precedence_cmp (parsed_precedence a buf) (parsed_precedence b buf)") (simp_all add: then_ord_def sord.refl)
qed

section \<open>Sorting a manifest\<close>

lemma slice_blit:
  assumes "off + length xs \<le> length buf" and "x_off s = off" and "x_len s = length xs"
  shows "slice_of s (blit buf off xs) = xs"
  using assms by (simp add: slice_of_def blit_def)

lemma slice_blit_other:
  assumes "off + length xs \<le> length buf" and "x_off s + x_len s \<le> off \<or> off + length xs \<le> x_off s" and "slice_ok s buf"
  shows "slice_of s (blit buf off xs) = slice_of s buf"
  using assms(2)
proof
  assume "x_off s + x_len s \<le> off"
  then show ?thesis using assms(1,3) by (simp add: slice_of_def blit_def slice_ok_def take_drop min_def)
next
  assume "off + length xs \<le> x_off s"
  then show ?thesis using assms(1,3) by (simp add: slice_of_def blit_def slice_ok_def)
qed

text \<open>The slices of two maps do not overlap.\<close>

definition apart :: "ext_slice \<Rightarrow> ext_slice \<Rightarrow> bool" where
  "apart s t \<longleftrightarrow> x_off s + x_len s \<le> x_off t \<or> x_off t + x_len t \<le> x_off s"

definition maps_apart :: "extern_version_map \<Rightarrow> extern_version_map \<Rightarrow> bool" where
  "maps_apart a b \<longleftrightarrow> apart (em_keys a) (em_keys b) \<and> apart (em_values a) (em_values b)"

definition versions_ok :: "'x package_manifest \<Rightarrow> extern_version_map \<Rightarrow> bool" where
  "versions_ok m em \<longleftrightarrow> (\<forall>r \<in> set (entries m em). version_wf (fr_version r))
     \<and> hashes_agree (m_string_buf m) (fr_version ` set (entries m em))"

lemma entries_nth:
  assumes "map_ok m em" and "i < x_len (em_keys em)"
  shows "entries m em ! i = \<lparr>fr_version = slice_of (em_keys em) (m_versions m) ! i,
    fr_package = slice_of (em_values em) (m_package_versions m) ! i\<rparr>"
    and "length (entries m em) = x_len (em_keys em)"
  using assms by (simp_all add: entries_def map_ok_def slice_of_length)

text \<open>No two versions of a map compare equal.\<close>

definition distinct_versions :: "'x package_manifest \<Rightarrow> extern_version_map \<Rightarrow> bool" where
  "distinct_versions m em \<longleftrightarrow> (\<forall>i < length (entries m em). \<forall>j < length (entries m em). i \<noteq> j \<longrightarrow>
     version_order (fr_version (entries m em ! i)) (fr_version (entries m em ! j)) (m_string_buf m) (m_string_buf m) \<noteq> Equal)"

lemma cast_indices: "len \<le> 2 ^ bits \<Longrightarrow> map (\<lambda>i. i mod 2 ^ bits) [0..<len] = [0..<len]"
  by (rule map_idI) simp

lemma map_nth_mset: "mset is = mset [0..<length xs] \<Longrightarrow> mset (map ((!) xs) is) = mset xs"
  by (metis map_nth mset_map)

lemma sort_map_ok:
  assumes ok: "map_ok m em" and vs: "versions_ok m em"
    and len: "x_len (em_keys em) \<le> max_versions_count" "max_versions_count \<le> 2 ^ bits"
    and dbg: "debug \<Longrightarrow> distinct_versions m em"
  shows "\<exists>m'. sort_map debug bits max_versions_count m em = Some m' \<and> m_string_buf m' = m_string_buf m
    \<and> m_releases m' = m_releases m \<and> m_prereleases m' = m_prereleases m
    \<and> map_ok m' em \<and> mset (entries m' em) = mset (entries m em) \<and> sorted_map m' em
    \<and> (\<forall>e. map_ok m e \<and> maps_apart em e \<longrightarrow> map_ok m' e \<and> entries m' e = entries m e)"
proof -
  define len vs ps buf es where "len = x_len (em_keys em)" and "vs = slice_of (em_keys em) (m_versions m)"
    and "ps = slice_of (em_values em) (m_package_versions m)" and "buf = m_string_buf m" and "es = entries m em"
  define ix where "ix = sort_by (\<lambda>l r. version_order (vs ! l) (vs ! r) buf buf) [0..<len]"
  define m' where "m' = m\<lparr>m_package_versions := blit (m_package_versions m) (x_off (em_values em)) (map ((!) ps) ix),
      m_versions := blit (m_versions m) (x_off (em_keys em)) (map ((!) vs) ix)\<rparr>"
  have k: "x_off (em_keys em) + len \<le> length (m_versions m)" "x_off (em_values em) + len \<le> length (m_package_versions m)"
    "x_len (em_values em) = len"
    using ok by (auto simp: map_ok_def slice_ok_def len_def)
  have l: "length vs = len" "length ps = len" "length es = len"
    using ok entries_parts [OF ok] by (auto simp: vs_def ps_def len_def es_def map_ok_def slice_of_length entries_def)
  have nth: "es ! i = \<lparr>fr_version = vs ! i, fr_package = ps ! i\<rparr>" if "i < len" for i
    using entries_nth [OF ok, of i] that by (simp add: es_def vs_def ps_def len_def)
  have mix: "mset ix = mset [0..<len]" by (simp add: ix_def)
  then have lix: "length ix = len" "set ix = {..<len}" by (metis size_mset length_upt minus_nat.diff_0, metis set_mset_mset atLeast_upt)
  have key: "version_order (vs ! i) (vs ! j) buf buf = key_cmp (version_key buf (vs ! i)) (version_key buf (vs ! j))"
    if "i < len" "j < len" for i j
  proof (rule version_order_key)
    have e: "es ! i \<in> set es" "es ! j \<in> set es" "vs ! i = fr_version (es ! i)" "vs ! j = fr_version (es ! j)"
      using that l(3) nth [of i] nth [of j] nth_mem [of i es] nth_mem [of j es] by simp_all
    show "version_wf (vs ! i)" "version_wf (vs ! j)" using assms(2) e unfolding versions_ok_def es_def by metis+
    show "vs ! i \<in> fr_version ` set es" "vs ! j \<in> fr_version ` set es" using e by auto
    show "hashes_agree buf (fr_version ` set es)" using assms(2) by (simp add: versions_ok_def es_def buf_def)
  qed
  have "ix = sort_by (\<lambda>i j. key_cmp (version_key buf (vs ! i)) (version_key buf (vs ! j))) [0..<len]"
    unfolding ix_def by (rule sort_by_cong) (simp add: key)
  moreover have "three_way (\<lambda>i j. key_cmp (version_key buf (vs ! i)) (version_key buf (vs ! j)))"
    by (rule three_way_project) (rule vkey.three_way_axioms)
  ultimately have "sorted_wrt (\<lambda>i j. key_cmp (version_key buf (vs ! i)) (version_key buf (vs ! j)) \<noteq> Greater) ix"
    using three_way.sort_by_sorted by auto
  then have srt: "sorted_wrt (\<lambda>i j. version_order (vs ! i) (vs ! j) buf buf \<noteq> Greater) ix"
    by (rule sorted_wrt_mono_rel [rotated]) (use key lix in auto)
  have strict: "version_order (vs ! (ix ! 1)) (vs ! (ix ! 0)) buf buf = Greater" if "debug" "len > 1"
  proof -
    have "distinct ix" using mix by (metis distinct_upt mset_eq_imp_distinct_iff)
    then have ne: "ix ! 0 \<noteq> ix ! 1" using nth_eq_iff_index_eq [of ix 0 1] that(2) lix(1) by simp
    have "ix ! 0 < len" "ix ! 1 < len" using lix that nth_mem [of 0 ix] nth_mem [of 1 ix] by auto
    then have "version_order (fr_version (es ! (ix ! 0))) (fr_version (es ! (ix ! 1))) buf buf \<noteq> Equal"
      using dbg [OF that(1)] ne unfolding distinct_versions_def es_def [symmetric] buf_def [symmetric] l(3) by blast
    then have "version_order (vs ! (ix ! 0)) (vs ! (ix ! 1)) buf buf \<noteq> Equal"
      unfolding nth [OF \<open>ix ! 0 < len\<close>] nth [OF \<open>ix ! 1 < len\<close>] by simp
    moreover have "version_order (vs ! (ix ! 0)) (vs ! (ix ! 1)) buf buf \<noteq> Greater"
      using sorted_wrt_nth_less [OF srt, of 0 1] that lix by simp
    ultimately show ?thesis
      using key [OF \<open>ix ! 0 < len\<close> \<open>ix ! 1 < len\<close>] key [OF \<open>ix ! 1 < len\<close> \<open>ix ! 0 < len\<close>]
        vkey.less_iff_greater [of buf "vs ! (ix ! 0)" "vs ! (ix ! 1)"]
      by (cases "key_cmp (version_key buf (vs ! (ix ! 0))) (version_key buf (vs ! (ix ! 1)))") auto
  qed
  have run: "sort_map debug bits max_versions_count m em = Some m'"
  proof -
    have c: "map (\<lambda>i. i mod 2 ^ bits) [0..<len] = [0..<len]" by (rule cast_indices) (use len in \<open>simp add: len_def\<close>)
    have v: "take len (drop (x_off (em_keys em)) (m_versions m)) = vs" "take len (drop (x_off (em_values em)) (m_package_versions m)) = ps"
      using k(3) by (simp_all add: vs_def ps_def slice_of_def len_def)
    have "map ((!) vs) ix ! 0 = vs ! (ix ! 0)" "map ((!) vs) ix ! 1 = vs ! (ix ! 1)" if "len > 1" using that lix(1) by simp_all
    then have d: "\<not> (debug \<and> len > 1 \<and> version_order (map ((!) vs) ix ! 1) (map ((!) vs) ix ! 0) buf buf \<noteq> Greater)"
      using strict by auto
    show ?thesis
      unfolding sort_map_def Let_def len_def [symmetric] v c buf_def [symmetric] ix_def [symmetric] if_not_P [OF d]
      using k(1,2) len(1) by (simp add: m'_def len_def)
  qed
  have slices: "slice_of (em_keys em) (m_versions m') = map ((!) vs) ix" "slice_of (em_values em) (m_package_versions m') = map ((!) ps) ix"
  proof -
    have "slice_of (em_keys em) (blit (m_versions m) (x_off (em_keys em)) (map ((!) vs) ix)) = map ((!) vs) ix"
      by (rule slice_blit) (use k(1) lix(1) in \<open>simp_all add: len_def\<close>)
    moreover have "slice_of (em_values em) (blit (m_package_versions m) (x_off (em_values em)) (map ((!) ps) ix)) = map ((!) ps) ix"
      by (rule slice_blit) (use k(2,3) lix(1) in simp_all)
    ultimately show "slice_of (em_keys em) (m_versions m') = map ((!) vs) ix"
      and "slice_of (em_values em) (m_package_versions m') = map ((!) ps) ix" by (simp_all add: m'_def)
  qed
  have es': "entries m' em = map ((!) es) ix"
  proof -
    have "map ((!) es) ix = map (\<lambda>i. \<lparr>fr_version = vs ! i, fr_package = ps ! i\<rparr>) ix"
      by (rule map_cong) (use nth lix in auto)
    then show ?thesis unfolding entries_def slices by (simp add: map2_map_map)
  qed
  have lens: "length (m_versions m') = length (m_versions m)" "length (m_package_versions m') = length (m_package_versions m)"
    using k lix by (simp_all add: m'_def)
  have same: "map_ok m' e" if "map_ok m e" for e using that lens by (simp add: map_ok_def slice_ok_def)
  have "mset (entries m' em) = mset (entries m em)" unfolding es' using map_nth_mset [of ix es] mix l(3) by (simp add: es_def)
  moreover have "sorted_map m' em"
    unfolding sorted_map_def es' sorted_wrt_map by (rule sorted_wrt_mono_rel [OF _ srt]) (use nth lix in \<open>auto simp: m'_def buf_def\<close>)
  moreover have "entries m' e = entries m e" if "map_ok m e" "maps_apart em e" for e
  proof -
    have "slice_of (em_keys e) (blit (m_versions m) (x_off (em_keys em)) (map ((!) vs) ix)) = slice_of (em_keys e) (m_versions m)"
      by (rule slice_blit_other) (use that k(1) lix(1) in \<open>auto simp: map_ok_def maps_apart_def apart_def len_def\<close>)
    moreover have "slice_of (em_values e) (blit (m_package_versions m) (x_off (em_values em)) (map ((!) ps) ix))
        = slice_of (em_values e) (m_package_versions m)"
      by (rule slice_blit_other) (use that k(2,3) lix(1) in \<open>auto simp: map_ok_def maps_apart_def apart_def\<close>)
    ultimately show ?thesis by (simp add: entries_def m'_def)
  qed
  ultimately show ?thesis using run same ok by (auto simp: m'_def)
qed

text \<open>
  C24. Sorting the manifest.  If there are fewer than \<open>2 ^ 32\<close> versions, the slices of releases and
  pre-releases do not overlap, the handles are well-formed, the hashes of the build metadata do not
  collide and, with debug assertions on, no two versions of a list compare equal, then sorting does not
  panic, keeps every version with its own package in its own list, and leaves both lists sorted.
\<close>

theorem sort_manifest_sorted:
  assumes "manifest_ok m" and "maps_apart (m_releases m) (m_prereleases m)"
    and "versions_ok m (m_releases m)" and "versions_ok m (m_prereleases m)"
    and "x_len (em_keys (m_releases m)) < 2 ^ 32" and "x_len (em_keys (m_prereleases m)) < 2 ^ 32"
    and "debug \<longrightarrow> distinct_versions m (m_releases m) \<and> distinct_versions m (m_prereleases m)"
  shows "\<exists>m'. sort_manifest debug m = Some m'
    \<and> mset (entries m' (m_releases m')) = mset (entries m (m_releases m))
    \<and> mset (entries m' (m_prereleases m')) = mset (entries m (m_prereleases m))
    \<and> sorted_map m' (m_releases m') \<and> sorted_map m' (m_prereleases m')"
proof (cases "max (x_len (em_keys (m_releases m))) (x_len (em_keys (m_prereleases m))) = 0")
  case True
  then have "entries m (m_releases m) = []" "entries m (m_prereleases m) = []"
    by (auto simp: entries_def slice_of_def)
  then show ?thesis
    using True by (simp add: sort_manifest_def sorted_map_def index_bits_def how_many_bytes_to_store_indices_def)
next
  case False
  define n where "n = max (x_len (em_keys (m_releases m))) (x_len (em_keys (m_prereleases m)))"
  have n: "0 < n" "n < 2 ^ 32" "x_len (em_keys (m_releases m)) \<le> n" "x_len (em_keys (m_prereleases m)) \<le> n"
    using False assms(5,6) by (auto simp: n_def)
  obtain bits where bits: "index_bits (how_many_bytes_to_store_indices n) = Some bits" "n \<le> 2 ^ bits"
    using index_bits_fit [OF n(1,2)] by blast
  have ok: "map_ok m (m_releases m)" "map_ok m (m_prereleases m)" using assms(1) by (auto simp: manifest_ok_def)
  obtain m1 where m1: "sort_map debug bits n m (m_releases m) = Some m1" "m_string_buf m1 = m_string_buf m"
      "m_releases m1 = m_releases m" "m_prereleases m1 = m_prereleases m" "map_ok m1 (m_releases m)"
      "mset (entries m1 (m_releases m)) = mset (entries m (m_releases m))" "sorted_map m1 (m_releases m)"
      "map_ok m1 (m_prereleases m)" "entries m1 (m_prereleases m) = entries m (m_prereleases m)"
    using sort_map_ok [OF ok(1) assms(3) n(3) bits(2), of debug] ok(2) assms(2,7) by metis
  have "versions_ok m1 (m_prereleases m)" using assms(4) m1 by (simp add: versions_ok_def)
  moreover have "debug \<Longrightarrow> distinct_versions m1 (m_prereleases m)" using assms(7) m1 by (simp add: distinct_versions_def)
  moreover have "maps_apart (m_prereleases m) (m_releases m)" using assms(2) by (auto simp: maps_apart_def apart_def)
  ultimately obtain m2 where m2: "sort_map debug bits n m1 (m_prereleases m) = Some m2" "m_string_buf m2 = m_string_buf m1"
      "m_releases m2 = m_releases m1" "m_prereleases m2 = m_prereleases m1"
      "mset (entries m2 (m_prereleases m)) = mset (entries m1 (m_prereleases m))" "sorted_map m2 (m_prereleases m)"
      "entries m2 (m_releases m) = entries m1 (m_releases m)"
    using sort_map_ok [OF m1(8) _ n(4) bits(2), of debug] m1(5) by metis
  have "sorted_map m2 (m_releases m)" using m1(7) m2(2,7) by (simp add: sorted_map_def)
  then show ?thesis using bits(1) m1 m2 by (simp add: sort_manifest_def flip: n_def)
qed

theorem sort_manifest_sorted_witness:
  "\<exists>m'. sort_manifest True sample_manifest = Some m' \<and> sorted_map m' (m_releases m')"
proof -
  have b: "build (vtag (sample_version x y z)) = es_default" for x y z
    by (simp add: sample_version_def version_default_def tag_default_def)
  have "versions_ok sample_manifest (m_releases sample_manifest)"
    unfolding versions_ok_def hashes_agree_def sample_entries(1) using sample_version_release(2) b by simp
  moreover have "versions_ok sample_manifest (m_prereleases sample_manifest)"
    unfolding versions_ok_def hashes_agree_def sample_entries(2) by simp
  moreover have "maps_apart (m_releases sample_manifest) (m_prereleases sample_manifest)"
    by (simp add: maps_apart_def apart_def sample_manifest_def)
  moreover have "x_len (em_keys (m_releases sample_manifest)) < 2 ^ 32" "x_len (em_keys (m_prereleases sample_manifest)) < 2 ^ 32"
    by (simp_all add: sample_manifest_def)
  moreover have "distinct_versions sample_manifest (m_releases sample_manifest)"
    unfolding distinct_versions_def sample_entries(1)
    by (auto simp: less_Suc_eq version_order_def order_without_tag_def sample_version_def)
  moreover have "distinct_versions sample_manifest (m_prereleases sample_manifest)"
    unfolding distinct_versions_def sample_entries(2) by simp
  ultimately show ?thesis using sort_manifest_sorted [OF sample_manifest_ok, of True] by blast
qed

end
