(* ===== verification/Wtf8.thy ===== *)
theory Wtf8
  imports Prelude
begin

text \<open>
  Code points in WTF-8, UTF-8 that also admits surrogates (\<^verbatim>\<open>src/src/bun_core/lib.rs\<close>,
  \<^verbatim>\<open>src/src/bun_core/string/immutable/unicode.rs\<close>): the length of a sequence from its first byte,
  encoding and decoding.  A byte is a \<open>char\<close>, a code point a 32-bit word.
\<close>

section \<open>Definitions\<close>

abbreviation byte_val :: "char \<Rightarrow> u32" where
  "byte_val c \<equiv> of_char c"

text \<open>\<open>as u8\<close> keeps the low eight bits, as \<open>char_of\<close> does.\<close>

definition byte_of :: "u32 \<Rightarrow> char" where
  "byte_of w = char_of (unat w)"

definition utf8_byte_sequence_length :: "char \<Rightarrow> nat" where
  "utf8_byte_sequence_length c =
     (let b = (of_char c :: nat)
      in if b \<le> 0x7F then 1
         else if 0xC0 \<le> b \<and> b \<le> 0xDF then 2
         else if 0xE0 \<le> b \<and> b \<le> 0xEF then 3
         else if 0xF0 \<le> b \<and> b \<le> 0xF7 then 4
         else 0)"

definition wtf8_byte_sequence_length :: "char \<Rightarrow> nat" where
  "wtf8_byte_sequence_length c =
     (let b = (of_char c :: nat)
      in if b \<le> 0x7F then 1
         else if 0xC0 \<le> b \<and> b \<le> 0xDF then 2
         else if 0xE0 \<le> b \<and> b \<le> 0xEF then 3
         else if 0xF0 \<le> b \<and> b \<le> 0xF7 then 4
         else 1)"

definition codepoint_size :: "u32 \<Rightarrow> nat" where
  "codepoint_size r =
     (if r \<le> 0x7F then 1
      else if r \<le> 0x7FF then 2
      else if r \<le> 0xFFFF then 3
      else if r \<le> 0x10FFFF then 4
      else 0)"

definition wtf8_sequence :: "u32 \<Rightarrow> char list" where
  "wtf8_sequence cp =
     (if cp \<le> 0x7F then [byte_of cp, CHR 0x00, CHR 0x00, CHR 0x00]
      else if cp \<le> 0x7FF then
        [byte_of (0xC0 OR drop_bit 6 cp), byte_of (0x80 OR (cp AND 0x3F)), CHR 0x00, CHR 0x00]
      else if cp \<le> 0xFFFF then
        [byte_of (0xE0 OR drop_bit 12 cp), byte_of (0x80 OR (drop_bit 6 cp AND 0x3F)),
         byte_of (0x80 OR (cp AND 0x3F)), CHR 0x00]
      else
        [byte_of (0xF0 OR drop_bit 18 cp), byte_of (0x80 OR (drop_bit 12 cp AND 0x3F)),
         byte_of (0x80 OR (drop_bit 6 cp AND 0x3F)), byte_of (0x80 OR (cp AND 0x3F))])"

text \<open>The buffer of four bytes is given by its bytes.\<close>

definition decode_wtf8_rune_t_multibyte :: "char \<Rightarrow> char \<Rightarrow> char \<Rightarrow> char \<Rightarrow> nat \<Rightarrow> u32 \<Rightarrow> u32" where
  "decode_wtf8_rune_t_multibyte p0 p1 p2 p3 len zero =
     (let s1 = byte_val p1 in
      if s1 AND 0xC0 \<noteq> 0x80 then zero
      else if len = 2 then
        (let cp = push_bit 6 (byte_val p0 AND 0x1F) OR (s1 AND 0x3F)
         in if cp < 0x80 then zero else cp)
      else
        (let s2 = byte_val p2 in
         if s2 AND 0xC0 \<noteq> 0x80 then zero
         else if len = 3 then
           (let cp = push_bit 12 (byte_val p0 AND 0x0F) OR push_bit 6 (s1 AND 0x3F) OR (s2 AND 0x3F)
            in if cp < 0x800 then zero else cp)
         else
           (let s3 = byte_val p3 in
            if s3 AND 0xC0 \<noteq> 0x80 then zero
            else
              (let cp = push_bit 18 (byte_val p0 AND 0x07) OR push_bit 12 (s1 AND 0x3F)
                        OR push_bit 6 (s2 AND 0x3F) OR (s3 AND 0x3F)
               in if cp < 0x10000 \<or> cp > 0x10FFFF then zero else cp))))"

definition decode_wtf8_rune_t :: "char \<Rightarrow> char \<Rightarrow> char \<Rightarrow> char \<Rightarrow> nat \<Rightarrow> u32 \<Rightarrow> u32" where
  "decode_wtf8_rune_t p0 p1 p2 p3 len zero =
     (if len = 0 then zero
      else if len = 1 then byte_val p0
      else decode_wtf8_rune_t_multibyte p0 p1 p2 p3 len zero)"

section \<open>Lengths\<close>

lemma wtf8_length_bounds: "1 \<le> wtf8_byte_sequence_length c" "wtf8_byte_sequence_length c \<le> 4"
  by (simp_all add: wtf8_byte_sequence_length_def Let_def)

lemma wtf8_length_ascii: "(of_char c :: nat) < 0x80 \<Longrightarrow> wtf8_byte_sequence_length c = 1"
  by (simp add: wtf8_byte_sequence_length_def)

lemma wtf8_length_valid:
  "utf8_byte_sequence_length c \<noteq> 0 \<Longrightarrow> wtf8_byte_sequence_length c = utf8_byte_sequence_length c"
  by (auto simp: wtf8_byte_sequence_length_def utf8_byte_sequence_length_def Let_def split: if_splits)

section \<open>Encoding and decoding\<close>

lemma byte_nat_byte_of: "(of_char (byte_of w) :: nat) = unat w mod 256"
  by (simp add: byte_of_def)

lemma byte_val_byte_of: "byte_val (byte_of w) = take_bit 8 w"
proof -
  have "byte_val (byte_of w) = of_nat (of_char (byte_of w))" by (simp add: of_nat_of_char)
  also have "\<dots> = of_nat (take_bit 8 (unat w))" unfolding byte_nat_byte_of by (simp add: take_bit_eq_mod)
  also have "\<dots> = take_bit 8 w" by (simp flip: unsigned_take_bit_eq)
  finally show ?thesis .
qed

lemma high_bits_clear: "w < 2 ^ k \<Longrightarrow> k \<le> n \<Longrightarrow> \<not> bit (w :: u32) n"
  by (metis bit_take_bit_iff leD less_mask_eq take_bit_eq_mask)

lemma byte_bits:
  "bit (0x3F :: u32) n \<longleftrightarrow> n < 6" "bit (0x1F :: u32) n \<longleftrightarrow> n < 5" "bit (0x0F :: u32) n \<longleftrightarrow> n < 4"
  "bit (0x07 :: u32) n \<longleftrightarrow> n < 3" "bit (0x80 :: u32) n \<longleftrightarrow> n = 7" "bit (0xC0 :: u32) n \<longleftrightarrow> 6 \<le> n \<and> n < 8"
  "bit (0xE0 :: u32) n \<longleftrightarrow> 5 \<le> n \<and> n < 8" "bit (0xF0 :: u32) n \<longleftrightarrow> 4 \<le> n \<and> n < 8"
proof -
  have m: "(0x3F :: u32) = mask 6" "(0x1F :: u32) = mask 5" "(0x0F :: u32) = mask 4" "(0x07 :: u32) = mask 3"
    "(0x80 :: u32) = push_bit 7 (mask 1)" "(0xC0 :: u32) = push_bit 6 (mask 2)"
    "(0xE0 :: u32) = push_bit 5 (mask 3)" "(0xF0 :: u32) = push_bit 4 (mask 4)"
    by (simp_all add: mask_eq_exp_minus_1 push_bit_eq_mult)
  show "bit (0x3F :: u32) n \<longleftrightarrow> n < 6" "bit (0x1F :: u32) n \<longleftrightarrow> n < 5" "bit (0x0F :: u32) n \<longleftrightarrow> n < 4"
    "bit (0x07 :: u32) n \<longleftrightarrow> n < 3" 
    unfolding m by (auto simp only: bit_mask_iff possible_bit_word) simp_all
  show "bit (0x80 :: u32) n \<longleftrightarrow> n = 7" "bit (0xC0 :: u32) n \<longleftrightarrow> 6 \<le> n \<and> n < 8"
    "bit (0xE0 :: u32) n \<longleftrightarrow> 5 \<le> n \<and> n < 8" "bit (0xF0 :: u32) n \<longleftrightarrow> 4 \<le> n \<and> n < 8"
    unfolding m by (auto simp only: bit_mask_iff bit_push_bit_iff possible_bit_word) simp_all
qed

lemma continuation_byte:
  "byte_val (byte_of (0x80 OR (w AND 0x3F))) AND 0xC0 = 0x80"
  "byte_val (byte_of (0x80 OR (w AND 0x3F))) AND 0x3F = w AND 0x3F"
  unfolding byte_val_byte_of
  by (rule bit_eqI; auto simp: bit_simps byte_bits simp del: bit_numeral_word_iff)+

text \<open>The first byte carries the high bits behind a marker that gives the length.\<close>

lemma lead_nat:
  assumes "w < 2 ^ k" and "\<forall>n. bit marker n \<longrightarrow> k \<le> n" and "unat marker + unat w < 256"
  shows "(of_char (byte_of (marker OR w)) :: nat) = unat marker + unat w"
proof -
  have "marker AND w = 0"
    by (rule bit_word_eqI) (use assms(2) high_bits_clear [OF assms(1)] in \<open>auto simp: bit_and_iff\<close>)
  then have "marker OR w = marker + w" using word_plus_and_or [of marker w] by simp
  then show ?thesis using assms(3) by (simp add: byte_nat_byte_of unat_word_ariths)
qed

lemma drop_bit_less: "cp \<le> b \<Longrightarrow> unat (drop_bit k (cp :: u32)) \<le> unat b div 2 ^ k"
proof -
  assume "cp \<le> b"
  moreover have "unat cp < 2 ^ 32" using unsigned_less [of cp, where ?'a = nat] by simp
  then have "take_bit 32 (unat cp) = unat cp" by (rule take_bit_nat_eq_self)
  then have "unat (drop_bit k cp) = unat cp div 2 ^ k" by (simp only: unsigned_drop_bit_eq) (simp add: drop_bit_eq_div)
  ultimately show ?thesis by (simp only: word_le_nat_alt div_le_mono)
qed

lemma lead2: "cp \<le> 0x7FF \<Longrightarrow> 0x7F < cp \<Longrightarrow> utf8_byte_sequence_length (byte_of (0xC0 OR drop_bit 6 cp)) = 2"
  using drop_bit_less [of cp "0x7FF" 6] lead_nat [of "drop_bit 6 cp" 5 "0xC0"]
  by (auto simp: utf8_byte_sequence_length_def byte_bits word_less_nat_alt simp del: bit_numeral_word_iff)

lemma lead3: "cp \<le> 0xFFFF \<Longrightarrow> utf8_byte_sequence_length (byte_of (0xE0 OR drop_bit 12 cp)) = 3"
  using drop_bit_less [of cp "0xFFFF" 12] lead_nat [of "drop_bit 12 cp" 4 "0xE0"]
  by (auto simp: utf8_byte_sequence_length_def byte_bits word_less_nat_alt simp del: bit_numeral_word_iff)

lemma lead4: "cp \<le> 0x10FFFF \<Longrightarrow> utf8_byte_sequence_length (byte_of (0xF0 OR drop_bit 18 cp)) = 4"
  using drop_bit_less [of cp "0x10FFFF" 18] lead_nat [of "drop_bit 18 cp" 3 "0xF0"]
  by (auto simp: utf8_byte_sequence_length_def byte_bits word_less_nat_alt simp del: bit_numeral_word_iff)

lemmas split_bits = bit_or_iff bit_and_iff bit_push_bit_iff bit_drop_bit_eq bit_take_bit_iff byte_bits comp_def

lemma split2:
  assumes "cp < 2 ^ 11"
  shows "push_bit 6 (take_bit 8 (0xC0 OR drop_bit 6 cp) AND 0x1F) OR (cp AND 0x3F) = (cp :: u32)"
proof (rule bit_word_eqI)
  fix n assume "n < LENGTH(32)"
  then show "bit (push_bit 6 (take_bit 8 (0xC0 OR drop_bit 6 cp) AND 0x1F) OR (cp AND 0x3F)) n = bit cp n"
    using high_bits_clear [OF assms, of n] unfolding split_bits
    by (cases "n < 6"; cases "n < 11"; auto)
qed

lemma split3:
  assumes "cp < 2 ^ 16"
  shows "push_bit 12 (take_bit 8 (0xE0 OR drop_bit 12 cp) AND 0x0F)
    OR push_bit 6 (drop_bit 6 cp AND 0x3F) OR (cp AND 0x3F) = (cp :: u32)"
proof (rule bit_word_eqI)
  fix n assume "n < LENGTH(32)"
  then show "bit (push_bit 12 (take_bit 8 (0xE0 OR drop_bit 12 cp) AND 0x0F)
    OR push_bit 6 (drop_bit 6 cp AND 0x3F) OR (cp AND 0x3F)) n = bit cp n"
    using high_bits_clear [OF assms, of n] unfolding split_bits
    by (cases "n < 6"; cases "n < 12"; cases "n < 16"; auto)
qed

lemma split4:
  assumes "cp < 2 ^ 21"
  shows "push_bit 18 (take_bit 8 (0xF0 OR drop_bit 18 cp) AND 0x07)
    OR push_bit 12 (drop_bit 12 cp AND 0x3F) OR push_bit 6 (drop_bit 6 cp AND 0x3F) OR (cp AND 0x3F) = (cp :: u32)"
proof (rule bit_word_eqI)
  fix n assume "n < LENGTH(32)"
  then show "bit (push_bit 18 (take_bit 8 (0xF0 OR drop_bit 18 cp) AND 0x07)
    OR push_bit 12 (drop_bit 12 cp AND 0x3F) OR push_bit 6 (drop_bit 6 cp AND 0x3F) OR (cp AND 0x3F)) n = bit cp n"
    using high_bits_clear [OF assms, of n] unfolding split_bits
    by (cases "n < 6"; cases "n < 12"; cases "n < 18"; cases "n < 21"; auto)
qed

lemma lead1: "cp \<le> 0x7F \<Longrightarrow> utf8_byte_sequence_length (byte_of cp) = 1 \<and> byte_val (byte_of cp) = cp"
proof -
  assume "cp \<le> 0x7F"
  then have *: "unat cp \<le> 127" by (simp add: word_le_nat_alt)
  then have "cp < 2 ^ 8" by (simp add: word_less_nat_alt)
  then show ?thesis
    using * by (simp add: utf8_byte_sequence_length_def byte_nat_byte_of byte_val_byte_of less_mask_eq take_bit_eq_mask)
qed

text \<open>What the decoder does with continuation bytes.\<close>

lemma decode2:
  assumes "byte_val p1 AND 0xC0 = 0x80" and "push_bit 6 (byte_val p0 AND 0x1F) OR (byte_val p1 AND 0x3F) = cp" and "0x7F < cp"
  shows "decode_wtf8_rune_t p0 p1 p2 p3 2 zero = cp"
  using assms(1,3) unfolding decode_wtf8_rune_t_def decode_wtf8_rune_t_multibyte_def Let_def assms(2)
  by (simp add: word_less_nat_alt)

lemma decode3:
  assumes "byte_val p1 AND 0xC0 = 0x80" and "byte_val p2 AND 0xC0 = 0x80"
    and "push_bit 12 (byte_val p0 AND 0x0F) OR push_bit 6 (byte_val p1 AND 0x3F) OR (byte_val p2 AND 0x3F) = cp" and "0x7FF < cp"
  shows "decode_wtf8_rune_t p0 p1 p2 p3 3 zero = cp"
  using assms(1,2,4) unfolding decode_wtf8_rune_t_def decode_wtf8_rune_t_multibyte_def Let_def assms(3)
  by (simp add: word_less_nat_alt)

lemma decode4:
  assumes "byte_val p1 AND 0xC0 = 0x80" and "byte_val p2 AND 0xC0 = 0x80" and "byte_val p3 AND 0xC0 = 0x80"
    and "push_bit 18 (byte_val p0 AND 0x07) OR push_bit 12 (byte_val p1 AND 0x3F) OR push_bit 6 (byte_val p2 AND 0x3F)
      OR (byte_val p3 AND 0x3F) = cp" and "0xFFFF < cp" and "cp \<le> 0x10FFFF"
  shows "decode_wtf8_rune_t p0 p1 p2 p3 4 zero = cp"
  using assms(1-3,5,6) unfolding decode_wtf8_rune_t_def decode_wtf8_rune_t_multibyte_def Let_def assms(4)
  by (simp add: word_less_nat_alt word_le_nat_alt)

text \<open>
  C35. Encoding and decoding.  For every code point, surrogates included, the first byte of its WTF-8
  sequence gives the number of bytes, and decoding that many bytes gives the code point back.
\<close>

theorem wtf8_sequence_roundtrip:
  assumes "cp \<le> 0x10FFFF"
  shows "\<exists>p0 p1 p2 p3. wtf8_sequence cp = [p0, p1, p2, p3]
    \<and> wtf8_byte_sequence_length p0 = codepoint_size cp
    \<and> decode_wtf8_rune_t p0 p1 p2 p3 (wtf8_byte_sequence_length p0) zero = cp"
proof -
  consider (1) "cp \<le> 0x7F" | (2) "0x7F < cp" "cp \<le> 0x7FF" | (3) "0x7FF < cp" "cp \<le> 0xFFFF" | (4) "0xFFFF < cp"
    by fastforce
  then show ?thesis
  proof cases
    case 1
    then show ?thesis
      using lead1 [OF 1] by (simp add: wtf8_sequence_def codepoint_size_def decode_wtf8_rune_t_def wtf8_length_valid)
  next
    case 2
    then have "cp < 2 ^ 11" by (simp add: word_le_nat_alt word_less_nat_alt)
    note eq = split2 [OF this, folded byte_val_byte_of]
    have len: "wtf8_byte_sequence_length (byte_of (0xC0 OR drop_bit 6 cp)) = 2" using lead2 2 by (simp add: wtf8_length_valid)
    show ?thesis
    proof (intro exI conjI)
      show "wtf8_sequence cp = [byte_of (0xC0 OR drop_bit 6 cp), byte_of (0x80 OR (cp AND 0x3F)), CHR 0x00, CHR 0x00]"
        using 2 by (simp only: wtf8_sequence_def not_le [symmetric] if_True if_False)
      show "wtf8_byte_sequence_length (byte_of (0xC0 OR drop_bit 6 cp)) = codepoint_size cp"
        using 2 by (simp only: len) (simp add: codepoint_size_def)
    qed (unfold len, intro decode2 2, simp_all only: continuation_byte eq)
  next
    case 3
    then have "cp < 2 ^ 16" by (simp add: word_le_nat_alt word_less_nat_alt)
    note eq = split3 [OF this, folded byte_val_byte_of]
    have len: "wtf8_byte_sequence_length (byte_of (0xE0 OR drop_bit 12 cp)) = 3" using lead3 3 by (simp add: wtf8_length_valid)
    have low: "\<not> cp \<le> 0x7F" using 3(1) by (simp add: word_le_nat_alt word_less_nat_alt)
    show ?thesis
    proof (intro exI conjI)
      show "wtf8_sequence cp = [byte_of (0xE0 OR drop_bit 12 cp), byte_of (0x80 OR (drop_bit 6 cp AND 0x3F)),
          byte_of (0x80 OR (cp AND 0x3F)), CHR 0x00]"
        using 3 low by (simp only: wtf8_sequence_def not_le [symmetric] if_True if_False)
      show "wtf8_byte_sequence_length (byte_of (0xE0 OR drop_bit 12 cp)) = codepoint_size cp"
        using 3 low by (simp only: len) (simp add: codepoint_size_def)
    qed (unfold len, intro decode3 3, simp_all only: continuation_byte eq)
  next
    case 4
    have "cp < 2 ^ 21" using assms by (simp add: word_le_nat_alt word_less_nat_alt)
    note eq = split4 [OF this, folded byte_val_byte_of]
    have len: "wtf8_byte_sequence_length (byte_of (0xF0 OR drop_bit 18 cp)) = 4" using lead4 assms by (simp add: wtf8_length_valid)
    have low: "\<not> cp \<le> 0x7F" "\<not> cp \<le> 0x7FF" using 4 by (simp_all add: word_le_nat_alt word_less_nat_alt)
    show ?thesis
    proof (intro exI conjI)
      show "wtf8_sequence cp = [byte_of (0xF0 OR drop_bit 18 cp), byte_of (0x80 OR (drop_bit 12 cp AND 0x3F)),
          byte_of (0x80 OR (drop_bit 6 cp AND 0x3F)), byte_of (0x80 OR (cp AND 0x3F))]"
        using 4 low by (simp only: wtf8_sequence_def not_le [symmetric] if_True if_False)
      show "wtf8_byte_sequence_length (byte_of (0xF0 OR drop_bit 18 cp)) = codepoint_size cp"
        using 4 low assms by (simp only: len) (simp add: codepoint_size_def)
    qed (unfold len, intro decode4 4 assms, simp_all only: continuation_byte eq)
  qed
qed

theorem wtf8_sequence_roundtrip_witness:
  "\<exists>p0 p1 p2 p3. wtf8_sequence 0x20AC = [p0, p1, p2, p3]
    \<and> wtf8_byte_sequence_length p0 = 3
    \<and> decode_wtf8_rune_t p0 p1 p2 p3 (wtf8_byte_sequence_length p0) 0xFFFD = 0x20AC"
  using wtf8_sequence_roundtrip [of "0x20AC" "0xFFFD"] by (simp add: codepoint_size_def)

end
