(* ===== verification/Glob_Match.thy ===== *)
theory Glob_Match
  imports Wtf8 "HOL-Library.Monad_Syntax"
begin

text \<open>
  Glob matching (\<^verbatim>\<open>src/src/glob/matcher.rs\<close>) and the test for glob syntax
  (\<^verbatim>\<open>src/src/glob/lib.rs\<close>).  The matcher walks over pattern and path with two indices.  It remembers
  the last wildcard and the last globstar as the places to go back to, and explores the alternatives
  of braces by recursion, with a stack of the chosen branches of at most ten entries and a budget.

  The \<open>u32\<close> indices are natural numbers (pattern and path are shorter than 4 GiB), the \<open>u8\<close> and \<open>i16\<close>
  brace depths are words.  Paths are separated by slashes (not Windows).  \<open>None\<close> is a panic, or a loop
  that does not end.
\<close>

section \<open>Data\<close>

record brace =
  open_brace_idx :: nat
  branch_idx :: nat

definition brace_stack_capacity :: nat where
  "brace_stack_capacity = 10"

definition BRACE_BRANCH_BUDGET :: nat where
  "BRACE_BRANCH_BUDGET = 10000"

datatype match_result = No_Match | Match | Negate_No_Match | Negate_Match

definition mr_matches :: "match_result \<Rightarrow> bool" where
  "mr_matches r \<longleftrightarrow> r = Match \<or> r = Negate_Match"

record wildcard_state =
  w_glob :: nat
  w_path :: nat
  w_depth :: u8

definition wildcard_default :: wildcard_state where
  "wildcard_default = \<lparr>w_glob = 0, w_path = 0, w_depth = 0\<rparr>"

record glob_state =
  path_index :: nat
  glob_index :: nat
  wild :: wildcard_state
  globstar :: wildcard_state
  brace_depth :: u8

definition glob_state_default :: glob_state where
  "glob_state_default = \<lparr>path_index = 0, glob_index = 0, wild = wildcard_default, globstar = wildcard_default, brace_depth = 0\<rparr>"

definition is_separator :: "char \<Rightarrow> bool" where
  "is_separator c \<longleftrightarrow> c = CHR ''/''"

definition byte_at :: "bytes \<Rightarrow> nat \<Rightarrow> char option" where
  "byte_at xs i = (if i < length xs then Some (xs ! i) else None)"

section \<open>Helpers\<close>

definition backtrack :: "glob_state \<Rightarrow> glob_state" where
  "backtrack st = st\<lparr>path_index := w_path (wild st), glob_index := w_glob (wild st), brace_depth := w_depth (wild st)\<rparr>"

function sep_loop :: "bytes \<Rightarrow> nat \<Rightarrow> nat" where
  "sep_loop path i = (if i < length path \<and> \<not> is_separator (path ! i) then sep_loop path (i + 1) else i)"
  by pat_completeness auto
termination by (relation "measure (\<lambda>(path, i). length path - i)") auto

declare sep_loop.simps [simp del]

definition skip_to_separator :: "bytes \<Rightarrow> bool \<Rightarrow> glob_state \<Rightarrow> glob_state" where
  "skip_to_separator path is_end_invalid st =
     (if path_index st = length path then st\<lparr>wild := (wild st)\<lparr>w_path := w_path (wild st) + 1\<rparr>\<rparr>
      else
        (let i = sep_loop path (path_index st);
             i = (if is_end_invalid \<or> i \<noteq> length path then i + 1 else i);
             w = (wild st)\<lparr>w_path := i\<rparr>
         in st\<lparr>wild := w, globstar := w\<rparr>))"

function globstars_loop :: "bytes \<Rightarrow> nat \<Rightarrow> nat" where
  "globstars_loop glob i =
     (if i + 4 \<le> length glob \<and> take 4 (drop i glob) = ''/**/'' then globstars_loop glob (i + 3) else i)"
  by pat_completeness auto
termination by (relation "measure (\<lambda>(glob, i). length glob - i)") auto

declare globstars_loop.simps [simp del]

definition skip_globstars :: "bytes \<Rightarrow> nat \<Rightarrow> nat" where
  "skip_globstars glob gi =
     (let i = globstars_loop glob (gi + 2);
          i = (if i + 3 = length glob \<and> take 3 (drop i glob) = ''/**'' then i + 3 else i)
      in i - 2)"

text \<open>
  Escapes.  The inner \<open>None\<close> is an invalid pattern: a backslash at the end.
\<close>

definition escaped :: "char \<Rightarrow> char" where
  "escaped c =
     (if c = CHR ''a'' then CHR 0x61
      else if c = CHR ''b'' then CHR 0x08
      else if c = CHR ''n'' then CHR 0x0A
      else if c = CHR ''r'' then CHR 0x0D
      else if c = CHR ''t'' then CHR 0x09
      else c)"

definition unescape :: "char \<Rightarrow> bytes \<Rightarrow> nat \<Rightarrow> (char \<times> nat) option" where
  "unescape c glob gi =
     (if c = CHR 0x5C then
        (if gi + 1 \<ge> length glob then None
         else Some (escaped (glob ! (gi + 1)), gi + 1))
      else Some (c, gi))"

text \<open>The copy of at most four bytes into a zeroed buffer.\<close>

definition decode_wtf8_rune_at :: "bytes \<Rightarrow> nat \<Rightarrow> (u32 \<times> nat) option" where
  "decode_wtf8_rune_at bs idx = do {
     first \<leftarrow> byte_at bs idx;
     let len = wtf8_byte_sequence_length first;
     let buf = (\<lambda>k. if idx + k < length bs then bs ! (idx + k) else CHR 0x00);
     Some (decode_wtf8_rune_t (buf 0) (buf 1) (buf 2) (buf 3) len 0xFFFD, len) }"

definition get_unicode :: "u32 \<Rightarrow> bytes \<Rightarrow> nat \<Rightarrow> (u32 \<times> nat \<times> nat) option option" where
  "get_unicode c glob gi =
     (if c \<le> 0x7F \<and> c \<noteq> 0x5C then Some (Some (c, 1, gi))
      else if c = 0x5C then
        (let i = gi + 1 in
         if i \<ge> length glob then Some None
         else if glob ! i \<in> {CHR ''a'', CHR ''b'', CHR ''n'', CHR ''r'', CHR ''t''}
         then Some (Some (byte_val (escaped (glob ! i)), 1, i))
         else do { (cp, len) \<leftarrow> decode_wtf8_rune_at glob i; Some (Some (cp, len, i)) })
      else do { (cp, len) \<leftarrow> decode_wtf8_rune_at glob gi; Some (Some (cp, len, gi)) })"

text \<open>The upper bound of a class member that starts at \<open>low\<close>, and the index behind it.\<close>

definition class_high :: "bytes \<Rightarrow> u32 \<Rightarrow> nat \<Rightarrow> (u32 \<times> nat) option option" where
  "class_high glob low gi =
     (if gi + 1 < length glob \<and> glob ! gi = CHR ''-'' \<and> glob ! (gi + 1) \<noteq> CHR '']'' then do {
        r \<leftarrow> get_unicode (byte_val (glob ! (gi + 1))) glob (gi + 1);
        Some (case r of None \<Rightarrow> None | Some (high, high_len, gi) \<Rightarrow> Some (high, gi + high_len)) }
      else Some (Some (low, gi)))"

definition class_member :: "bytes \<Rightarrow> nat \<Rightarrow> (u32 \<times> u32 \<times> nat) option option" where
  "class_member glob gi = do {
     b \<leftarrow> byte_at glob gi;
     r \<leftarrow> get_unicode (byte_val b) glob gi;
     case r of
       None \<Rightarrow> Some None
     | Some (low, low_len, gi) \<Rightarrow> do {
         r \<leftarrow> class_high glob low (gi + low_len);
         Some (case r of None \<Rightarrow> None | Some (high, gi) \<Rightarrow> Some (low, high, gi)) } }"

text \<open>The first member may be a closing bracket.\<close>

lemma get_unicode_index:
  "get_unicode c glob gi = Some (Some (cp, len, gi')) \<Longrightarrow> gi \<le> gi' \<and> 1 \<le> len"
  by (auto simp: get_unicode_def decode_wtf8_rune_at_def Let_def bind_eq_Some_conv wtf8_length_bounds [simplified]
      split: if_splits)

lemma class_high_index: "class_high glob low gi = Some (Some (high, gi')) \<Longrightarrow> gi \<le> gi'"
  by (auto simp: class_high_def bind_eq_Some_conv dest!: get_unicode_index split: if_split_asm option.split_asm prod.split_asm)

lemma class_member_index: "class_member glob gi = Some (Some (low, high, gi')) \<Longrightarrow> gi < gi'"
  by (fastforce simp: class_member_def bind_eq_Some_conv dest: get_unicode_index class_high_index
      split: option.split_asm prod.split_asm)

function class_loop :: "bytes \<Rightarrow> u32 \<Rightarrow> nat \<Rightarrow> bool \<Rightarrow> bool \<Rightarrow> (nat \<times> bool) option option" where
  "class_loop glob c gi first is_match =
     (if gi < length glob \<and> (first \<or> glob ! gi \<noteq> CHR '']'') then
        (case class_member glob gi of
           None \<Rightarrow> None
         | Some None \<Rightarrow> Some None
         | Some (Some (low, high, gi')) \<Rightarrow> class_loop glob c gi' False (is_match \<or> low \<le> c \<and> c \<le> high))
      else Some (Some (gi, is_match)))"
  by pat_completeness auto
termination
  by (relation "measure (\<lambda>(glob, c, gi, first, is_match). length glob - gi)") (auto dest: class_member_index)

declare class_loop.simps [simp del]

text \<open>To the end of the enclosing braces.\<close>

function skip_branch_loop :: "bytes \<Rightarrow> u8 \<Rightarrow> nat \<Rightarrow> u8 \<Rightarrow> bool \<Rightarrow> nat \<times> u8" where
  "skip_branch_loop glob end_depth gi depth in_brackets =
     (if gi < length glob then
        (let ch = glob ! gi in
         if ch = CHR ''{'' then skip_branch_loop glob end_depth (gi + 1) (if in_brackets then depth else depth + 1) in_brackets
         else if ch = CHR ''}'' then
           (if in_brackets then skip_branch_loop glob end_depth (gi + 1) depth in_brackets
            else if depth - 1 = end_depth then (gi + 1, depth - 1)
            else skip_branch_loop glob end_depth (gi + 1) (depth - 1) in_brackets)
         else if ch = CHR ''['' then skip_branch_loop glob end_depth (gi + 1) depth True
         else if ch = CHR '']'' then skip_branch_loop glob end_depth (gi + 1) depth False
         else if ch = CHR 0x5C then skip_branch_loop glob end_depth (gi + 2) depth in_brackets
         else skip_branch_loop glob end_depth (gi + 1) depth in_brackets)
      else (gi, depth))"
  by pat_completeness auto
termination
  by (relation "measure (\<lambda>(glob, end_depth, gi, depth, in_brackets). length glob - gi)") auto

declare skip_branch_loop.simps [simp del]

definition skip_branch :: "bytes \<Rightarrow> glob_state \<Rightarrow> glob_state" where
  "skip_branch glob st =
     (let (gi, depth) = skip_branch_loop glob (brace_depth st - 1) (glob_index st) (brace_depth st) False
      in st\<lparr>glob_index := gi, brace_depth := depth\<rparr>)"

section \<open>One round of the main loop\<close>

text \<open>
  How an arm of the \<open>match\<close> is left: \<open>continue\<close>, \<open>return\<close>, \<open>break 'to_else\<close>, \<open>break 'fallthrough\<close>, or
  the call of \<open>match_brace\<close>.
\<close>

datatype glob_arm =
    Continue glob_state
  | Return bool
  | To_Else
  | Fallthrough glob_state
  | Braces glob_state

text \<open>The arm \<open>*\<close>.\<close>

definition star_wild :: "bytes \<Rightarrow> glob_state \<Rightarrow> wildcard_state" where
  "star_wild path st =
     \<lparr>w_glob = glob_index st,
      w_path = path_index st + (if path_index st < length path then wtf8_byte_sequence_length (path ! path_index st) else 1),
      w_depth = brace_depth st\<rparr>"

text \<open>Whether \<open>**\<close> in front of \<open>gi\<close> is a whole path segment of the pattern; \<open>glob_start\<close> is where the branch starts.\<close>

definition is_whole_segment :: "bytes \<Rightarrow> nat \<Rightarrow> nat \<Rightarrow> bool option" where
  "is_whole_segment glob glob_start gi = do {
     starts \<leftarrow> (if gi - glob_start < 3 then Some True
               else do { b \<leftarrow> byte_at glob (gi - 3); Some (b = CHR ''/'') });
     if starts then
       (if gi < length glob then Some (glob ! gi = CHR ''/'') else Some True)
     else Some False }"

definition leave_segment :: "bytes \<Rightarrow> glob_state \<Rightarrow> glob_state" where
  "leave_segment path st =
     (if path_index st < length path \<and> is_separator (path ! path_index st) then st\<lparr>wild := globstar st\<rparr> else st)"

definition star_arm :: "bytes \<Rightarrow> nat \<Rightarrow> bytes \<Rightarrow> glob_state \<Rightarrow> glob_state option" where
  "star_arm glob glob_start path st =
     (if glob_index st + 1 < length glob \<and> glob ! (glob_index st + 1) = CHR ''*'' then
        (let st = st\<lparr>glob_index := skip_globstars glob (glob_index st)\<rparr>;
             st = st\<lparr>wild := star_wild path st, glob_index := glob_index st + 2\<rparr>;
             gi = glob_index st;
             is_end_invalid = gi < length glob
         in if is_end_invalid \<and> path_index st = length path \<and> length glob - gi = 2
              \<and> is_separator (glob ! gi) \<and> glob ! (gi + 1) = CHR ''*''
            then Some st
            else do {
              whole \<leftarrow> is_whole_segment glob glob_start gi;
              if whole then Some (skip_to_separator path is_end_invalid (if is_end_invalid then st\<lparr>glob_index := gi + 1\<rparr> else st))
              else Some (leave_segment path st) })
      else Some (leave_segment path (st\<lparr>wild := star_wild path st, glob_index := glob_index st + 1\<rparr>)))"

definition question_arm :: "bytes \<Rightarrow> glob_state \<Rightarrow> glob_arm" where
  "question_arm path st =
     (if path_index st < length path then
        (if \<not> is_separator (path ! path_index st)
         then Continue (st\<lparr>glob_index := glob_index st + 1,
                           path_index := path_index st + wtf8_byte_sequence_length (path ! path_index st)\<rparr>)
         else Fallthrough st)
      else To_Else)"

definition class_arm :: "bytes \<Rightarrow> bytes \<Rightarrow> glob_state \<Rightarrow> glob_arm option" where
  "class_arm glob path st =
     (if path_index st < length path then do {
        let gi = glob_index st + 1;
        let negated = (gi < length glob \<and> (glob ! gi = CHR ''^'' \<or> glob ! gi = CHR ''!''));
        let gi = (if negated then gi + 1 else gi);
        (c, len) \<leftarrow> decode_wtf8_rune_at path (path_index st);
        r \<leftarrow> class_loop glob c gi True False;
        case r of
          None \<Rightarrow> Some (Return False)
        | Some (gi, is_match) \<Rightarrow>
            if gi \<ge> length glob then Some (Return False)
            else if is_match \<noteq> negated
            then Some (Continue (st\<lparr>glob_index := gi + 1, path_index := path_index st + len\<rparr>))
            else Some (Fallthrough (st\<lparr>glob_index := gi + 1\<rparr>)) }
      else Some To_Else)"

fun find_brace :: "brace list \<Rightarrow> nat \<Rightarrow> brace option" where
  "find_brace [] gi = None"
| "find_brace (b # bs) gi = (if open_brace_idx b = gi then Some b else find_brace bs gi)"

definition brace_arm :: "brace list \<Rightarrow> glob_state \<Rightarrow> glob_arm" where
  "brace_arm brace_stack st =
     (case find_brace brace_stack (glob_index st) of
        Some b \<Rightarrow> Continue (st\<lparr>glob_index := branch_idx b, brace_depth := brace_depth st + 1\<rparr>)
      | None \<Rightarrow> Braces st)"

definition end_branch_arm :: "bytes \<Rightarrow> glob_state \<Rightarrow> glob_arm" where
  "end_branch_arm glob st = (if brace_depth st > 0 then Continue (skip_branch glob st) else To_Else)"

text \<open>The code behind \<open>'to_else\<close>: a literal.\<close>

definition literal_matches :: "char \<Rightarrow> bytes \<Rightarrow> nat \<Rightarrow> bytes \<Rightarrow> nat \<Rightarrow> bool" where
  "literal_matches cc glob gi path i \<longleftrightarrow>
     (let n = wtf8_byte_sequence_length cc in
      if cc = CHR ''/'' then is_separator (path ! i)
      else if n > 1 then
        i + n \<le> length path \<and> gi + n \<le> length glob \<and> take n (drop i path) = take n (drop gi glob)
      else path ! i = cc)"

definition literal_arm :: "bytes \<Rightarrow> bytes \<Rightarrow> char \<Rightarrow> glob_state \<Rightarrow> glob_arm" where
  "literal_arm glob path ch st =
     (if path_index st < length path then
        (case unescape ch glob (glob_index st) of
           None \<Rightarrow> Return False
         | Some (cc, gi) \<Rightarrow>
             let n = wtf8_byte_sequence_length cc in
             if literal_matches cc glob gi path (path_index st)
             then Continue (st\<lparr>glob_index := gi + n, path_index := path_index st + n,
                               wild := (if cc = CHR ''/'' then globstar st else wild st)\<rparr>)
             else Fallthrough (st\<lparr>glob_index := gi\<rparr>))
      else Fallthrough st)"

definition glob_arm_of :: "bytes \<Rightarrow> nat \<Rightarrow> bytes \<Rightarrow> brace list \<Rightarrow> glob_state \<Rightarrow> glob_arm option" where
  "glob_arm_of glob glob_start path brace_stack st =
     (let ch = glob ! glob_index st in
      if ch = CHR ''*'' then map_option Continue (star_arm glob glob_start path st)
      else if ch = CHR ''?'' then Some (question_arm path st)
      else if ch = CHR ''['' then class_arm glob path st
      else if ch = CHR ''{'' then Some (brace_arm brace_stack st)
      else if ch = CHR '','' \<or> ch = CHR ''}'' then Some (end_branch_arm glob st)
      else Some To_Else)"

definition retry :: "bytes \<Rightarrow> glob_state \<Rightarrow> glob_arm" where
  "retry path st =
     (if w_path (wild st) > 0 \<and> w_path (wild st) \<le> length path then Continue (backtrack st) else Return False)"

definition glob_round :: "bytes \<Rightarrow> nat \<Rightarrow> bytes \<Rightarrow> brace list \<Rightarrow> glob_state \<Rightarrow> glob_arm option" where
  "glob_round glob glob_start path brace_stack st =
     (if glob_index st < length glob then do {
        arm \<leftarrow> glob_arm_of glob glob_start path brace_stack st;
        let arm = (case arm of To_Else \<Rightarrow> literal_arm glob path (glob ! glob_index st) st | _ \<Rightarrow> arm);
        Some (case arm of Fallthrough st' \<Rightarrow> retry path st' | _ \<Rightarrow> arm) }
      else Some (retry path st))"

section \<open>The matcher\<close>

text \<open>The main loop, up to its result or the call of \<open>match_brace\<close>.\<close>

partial_function (option) glob_loop :: "bytes \<Rightarrow> nat \<Rightarrow> bytes \<Rightarrow> brace list \<Rightarrow> glob_state \<Rightarrow> glob_arm option" where
  "glob_loop glob glob_start path brace_stack st =
     (if glob_index st < length glob \<or> path_index st < length path then
        (case glob_round glob glob_start path brace_stack st of
           Some (Continue st') \<Rightarrow> glob_loop glob glob_start path brace_stack st'
         | r \<Rightarrow> r)
      else Some (Return True))"

text \<open>
  \<open>match_brace\<close> is its loop over the pattern, with its local variables as arguments.  The budget is
  threaded through all calls; the stack is pushed for a branch and popped behind it.
\<close>

function glob_match_impl :: "bytes \<Rightarrow> nat \<Rightarrow> bytes \<Rightarrow> brace list \<Rightarrow> nat \<Rightarrow> glob_state \<Rightarrow> (bool \<times> nat) option"
and match_brace :: "bytes \<Rightarrow> bytes \<Rightarrow> brace list \<Rightarrow> nat \<Rightarrow> nat \<Rightarrow> nat \<Rightarrow> u16 \<Rightarrow> bool \<Rightarrow> glob_state \<Rightarrow> (bool \<times> nat) option"
and match_brace_branch :: "bytes \<Rightarrow> bytes \<Rightarrow> nat \<Rightarrow> nat \<Rightarrow> brace list \<Rightarrow> nat \<Rightarrow> glob_state \<Rightarrow> (bool \<times> nat) option" where
  "glob_match_impl glob glob_start path brace_stack brace_budget st =
     (case glob_loop glob glob_start path brace_stack st of
        Some (Return b) \<Rightarrow> Some (b, brace_budget)
      | Some (Braces st') \<Rightarrow> match_brace glob path brace_stack brace_budget (glob_index st') 0 0 False st'
      | _ \<Rightarrow> None)"
| "match_brace glob path brace_stack brace_budget open_brace_index branch_index depth in_brackets st =
     (if glob_index st < length glob then
        (let ch = glob ! glob_index st;
             st1 = st\<lparr>glob_index := glob_index st + 1\<rparr>
         in
         if ch = CHR ''{'' then
           (if in_brackets then match_brace glob path brace_stack brace_budget open_brace_index branch_index depth in_brackets st1
            else match_brace glob path brace_stack brace_budget open_brace_index
                   (if depth + 1 = 1 then glob_index st + 1 else branch_index) (depth + 1) in_brackets st1)
         else if ch = CHR ''}'' then
           (if in_brackets then match_brace glob path brace_stack brace_budget open_brace_index branch_index depth in_brackets st1
            else if depth - 1 = 0 then
              (case match_brace_branch glob path open_brace_index branch_index brace_stack brace_budget st of
                 None \<Rightarrow> None
               | Some (matched, budget) \<Rightarrow> Some (matched, budget))
            else match_brace glob path brace_stack brace_budget open_brace_index branch_index (depth - 1) in_brackets st1)
         else if ch = CHR '','' then
           (if depth = 1 \<and> \<not> in_brackets then
              (case match_brace_branch glob path open_brace_index branch_index brace_stack brace_budget st of
                 None \<Rightarrow> None
               | Some (matched, budget) \<Rightarrow>
                   if matched then Some (True, budget)
                   else match_brace glob path brace_stack budget open_brace_index (glob_index st + 1) depth in_brackets st1)
            else match_brace glob path brace_stack brace_budget open_brace_index branch_index depth in_brackets st1)
         else if ch = CHR ''['' then match_brace glob path brace_stack brace_budget open_brace_index branch_index depth True st1
         else if ch = CHR '']'' then match_brace glob path brace_stack brace_budget open_brace_index branch_index depth False st1
         else if ch = CHR 0x5C then
           match_brace glob path brace_stack brace_budget open_brace_index branch_index depth in_brackets
             (st\<lparr>glob_index := glob_index st + 2\<rparr>)
         else match_brace glob path brace_stack brace_budget open_brace_index branch_index depth in_brackets st1)
      else Some (False, brace_budget))"
| "match_brace_branch glob path open_brace_index branch_index brace_stack brace_budget st =
     (if brace_budget = 0 then Some (False, brace_budget)
      else if length brace_stack \<ge> brace_stack_capacity then Some (False, brace_budget - 1)
      else
        (let stack = brace_stack @ [\<lparr>open_brace_idx = open_brace_index, branch_idx = branch_index\<rparr>]
         in if length stack < 256
            then glob_match_impl glob branch_index path stack (brace_budget - 1)
                   (st\<lparr>glob_index := branch_index, brace_depth := word_of_nat (length stack)\<rparr>)
            else None))"
  by pat_completeness auto
termination
  by (relation "inv_image (less_than <*lex*> less_than <*lex*> less_than) (\<lambda>x. case x of
        Inl (glob, glob_start, path, stack, budget, st) \<Rightarrow> (brace_stack_capacity - length stack, 2::nat, 0)
      | Inr (Inl (glob, path, stack, budget, op, br, depth, inb, st)) \<Rightarrow>
          (brace_stack_capacity - length stack, 1, length glob - glob_index st)
      | Inr (Inr (glob, path, op, br, stack, budget, st)) \<Rightarrow> (brace_stack_capacity - length stack, 0, 0))")
    (auto simp: brace_stack_capacity_def)

declare glob_match_impl.simps [simp del] match_brace.simps [simp del] match_brace_branch.simps [simp del]

fun count_bangs :: "bytes \<Rightarrow> bool \<Rightarrow> bool \<times> nat" where
  "count_bangs (c # cs) negated =
     (if c = CHR ''!'' then (case count_bangs cs (\<not> negated) of (n, k) \<Rightarrow> (n, Suc k)) else (negated, 0))"
| "count_bangs [] negated = (negated, 0)"

definition glob_match :: "bytes \<Rightarrow> bytes \<Rightarrow> match_result option" where
  "glob_match glob path = do {
     let (negated, k) = count_bangs glob False;
     (matched, _) \<leftarrow> glob_match_impl glob 0 path [] BRACE_BRANCH_BUDGET (glob_state_default\<lparr>glob_index := k\<rparr>);
     Some (if negated then (if matched then Negate_No_Match else Negate_Match)
           else (if matched then Match else No_Match)) }"

section \<open>Detection of glob syntax\<close>

text \<open>The backslashes in front of position \<open>i\<close>, a 16-bit count.\<close>

fun backslash_count :: "bytes \<Rightarrow> nat \<Rightarrow> u16" where
  "backslash_count pat 0 = 0"
| "backslash_count pat (Suc i) = (if pat ! i = CHR 0x5C then backslash_count pat i + 1 else 0)"

fun position :: "char \<Rightarrow> bytes \<Rightarrow> nat option" where
  "position c [] = None"
| "position c (x # xs) = (if x = c then Some 0 else map_option Suc (position c xs))"

lemma position_less: "position c xs = Some i \<Longrightarrow> i < length xs"
  by (induction xs arbitrary: i) (auto split: if_splits)

function unescaped_token :: "bytes \<Rightarrow> char \<Rightarrow> bytes \<Rightarrow> bool" where
  "unescaped_token pat token remaining =
     (if remaining \<noteq> [] then
        (case position token remaining of
           Some idx \<Rightarrow>
             if even (unat (backslash_count pat idx)) then True
             else unescaped_token pat token (drop (idx + 1) remaining)
         | None \<Rightarrow> False)
      else False)"
  by pat_completeness auto
termination
  by (relation "measure (\<lambda>(pat, token, remaining). length remaining)") (auto dest: position_less)

declare unescaped_token.simps [simp del]

definition detect_glob_syntax :: "bytes \<Rightarrow> bool" where
  "detect_glob_syntax pat \<longleftrightarrow>
     (if pat \<noteq> [] \<and> pat ! 0 = CHR ''!'' then True
      else list_ex (\<lambda>token. unescaped_token pat token pat) ''*{[?'')"

end
