(* ===== verification/Loops.thy ===== *)
theory Loops
  imports Prelude
begin

text \<open>
  The total-correctness rule for a loop that is given by an unfolding equation, as a locale: one
  round, an invariant and a well-founded order.  It is interpreted for the main loop of the glob
  matcher and for the loops of the ring buffer.
\<close>

locale guarded_loop =
  fixes run :: "'s \<Rightarrow> 'r option"
    and nxt :: "'s \<Rightarrow> ('s + 'r) option"
    and inv :: "'s \<Rightarrow> bool"
    and order :: "('s \<times> 's) set"
  assumes unfold: "run s = (case nxt s of Some (Inl s') \<Rightarrow> run s' | Some (Inr r) \<Rightarrow> Some r | None \<Rightarrow> None)"
    and wf_order: "wf order"
    and progress: "inv s \<Longrightarrow> nxt s \<noteq> None"
    and preserves: "inv s \<Longrightarrow> nxt s = Some (Inl s') \<Longrightarrow> inv s' \<and> (s', s) \<in> order"
begin

lemma returns_with:
  assumes "inv s" and "J s" and "\<And>s s'. inv s \<Longrightarrow> J s \<Longrightarrow> nxt s = Some (Inl s') \<Longrightarrow> J s'"
  shows "\<exists>r s'. inv s' \<and> J s' \<and> nxt s' = Some (Inr r) \<and> run s = Some r"
  using wf_order assms(1,2)
proof (induction s rule: wf_induct_rule)
  case (less s)
  obtain x where x: "nxt s = Some x" using progress [OF less.prems(1)] by auto
  show ?case
  proof (cases x)
    case (Inl s')
    with less.IH [of s'] preserves [OF less.prems(1)] assms(3) [OF less.prems] x
    have "\<exists>r s''. inv s'' \<and> J s'' \<and> nxt s'' = Some (Inr r) \<and> run s' = Some r" by blast
    then show ?thesis using unfold [of s] x Inl by simp
  next
    case (Inr r)
    then show ?thesis using unfold [of s] x less.prems by auto
  qed
qed

lemma returns: "inv s \<Longrightarrow> \<exists>r s'. inv s' \<and> nxt s' = Some (Inr r) \<and> run s = Some r"
  using returns_with [where J = "\<lambda>_. True"] by blast

end

end
