(* ===== verification/Glob_Term.thy ===== *)
theory Glob_Term
  imports Glob_Match Loops
begin

text \<open>
  The glob matcher returns on every pattern and path and never panics.  The locale \<open>guarded_loop\<close> is
  the total-correctness rule for a loop given by an unfolding equation; it is interpreted for the
  main loop with an invariant of the two places the matcher can go back to and an order on states:
  the globstar moves forward; for a fixed globstar either it is being retried for the last time, or
  the wildcard moves forward; for a fixed wildcard the pattern index does.
\<close>

section \<open>Skipping\<close>

lemma sep_loop_ge: "i \<le> sep_loop path i"
  by (induction path i rule: sep_loop.induct) (subst sep_loop.simps, auto)

lemma sep_loop_le: "i \<le> length path \<Longrightarrow> sep_loop path i \<le> length path"
  by (induction path i rule: sep_loop.induct) (subst sep_loop.simps, auto)

lemma sep_loop_beyond: "length path \<le> i \<Longrightarrow> sep_loop path i = i"
  by (subst sep_loop.simps) simp

lemma slice_nth: "take k (drop i xs) = ys \<Longrightarrow> i + k \<le> length xs \<Longrightarrow> j < k \<Longrightarrow> xs ! (i + j) = ys ! j"
  by (metis add_lessD1 drop_eq_Nil le_add1 nat_le_linear nth_drop nth_take order_trans)

definition stars_before :: "bytes \<Rightarrow> nat \<Rightarrow> bool" where
  "stars_before glob i \<longleftrightarrow> 2 \<le> i \<and> i \<le> length glob \<and> glob ! (i - 2) = CHR ''*'' \<and> glob ! (i - 1) = CHR ''*''"

lemma stars_before_slice:
  assumes "take 3 (drop i glob) = ''/**''" and "i + 3 \<le> length glob"
  shows "stars_before glob (i + 3)"
  using slice_nth [OF assms, of 1] slice_nth [OF assms, of 2] assms(2)
  by (simp add: stars_before_def numeral_3_eq_3)

lemma take4_take3: "take 4 xs = ''/**/'' \<Longrightarrow> take 3 xs = ''/**''"
proof -
  assume "take 4 xs = ''/**/''"
  moreover have "take 3 xs = take 3 (take 4 xs)" by simp
  ultimately show ?thesis by simp
qed

lemma globstars_loop_stars:
  "stars_before glob i \<Longrightarrow> i \<le> globstars_loop glob i \<and> stars_before glob (globstars_loop glob i)
     \<and> globstars_loop glob (globstars_loop glob i) = globstars_loop glob i"
proof (induction glob i rule: globstars_loop.induct)
  case (1 glob i)
  show ?case
  proof (cases "i + 4 \<le> length glob \<and> take 4 (drop i glob) = ''/**/''")
    case True
    then have eq: "globstars_loop glob i = globstars_loop glob (i + 3)" by (subst globstars_loop.simps) simp
    have "stars_before glob (i + 3)" using True by (intro stars_before_slice take4_take3) auto
    with 1(1) [OF True] show ?thesis by (simp add: eq)
  next
    case False
    then have "globstars_loop glob i = i" by (subst globstars_loop.simps) (simp only: if_False)
    with 1(2) show ?thesis by simp
  qed
qed

lemma skip_globstars_stars:
  assumes "stars_before glob (gi + 2)"
  shows "gi \<le> skip_globstars glob gi" "stars_before glob (skip_globstars glob gi + 2)"
    "skip_globstars glob (skip_globstars glob gi) = skip_globstars glob gi"
proof -
  define i where "i = globstars_loop glob (gi + 2)"
  define k where "k = (if i + 3 = length glob \<and> take 3 (drop i glob) = ''/**'' then i + 3 else i)"
  have i: "gi + 2 \<le> i" "stars_before glob i" "globstars_loop glob i = i"
    using globstars_loop_stars [OF assms] by (simp_all add: i_def)
  have skip: "skip_globstars glob gi = k - 2" by (simp only: skip_globstars_def i_def k_def Let_def)
  have k: "stars_before glob k" "gi + 2 \<le> k" using i stars_before_slice [of i glob] by (auto simp: k_def)
  then have k2: "k - 2 + 2 = k" by simp
  have "globstars_loop glob k = k" using i(3) by (cases "k = i") (auto simp: k_def globstars_loop.simps [of glob "length glob"] split: if_splits)
  moreover have "\<not> (k + 3 = length glob \<and> take 3 (drop k glob) = ''/**'')" by (auto simp: k_def split: if_splits)
  ultimately have "skip_globstars glob (k - 2) = k - 2"
    by (simp only: skip_globstars_def Let_def k2 if_False)
  with k k2 show "gi \<le> skip_globstars glob gi" "stars_before glob (skip_globstars glob gi + 2)"
    "skip_globstars glob (skip_globstars glob gi) = skip_globstars glob gi"
    by (simp_all add: skip)
qed

section \<open>The invariant\<close>

text \<open>A position at which the code enters a globstar, whatever the path.\<close>

definition globstar_at :: "bytes \<Rightarrow> nat \<Rightarrow> nat \<Rightarrow> bool" where
  "globstar_at glob glob_start g \<longleftrightarrow> stars_before glob (g + 2) \<and> skip_globstars glob g = g
     \<and> is_whole_segment glob glob_start (g + 2) = Some True"

definition glob_inv :: "bytes \<Rightarrow> nat \<Rightarrow> bytes \<Rightarrow> brace list \<Rightarrow> glob_state \<Rightarrow> bool" where
  "glob_inv glob glob_start path stack st \<longleftrightarrow>
     (\<forall>b \<in> set stack. open_brace_idx b < branch_idx b)
     \<and> w_glob (globstar st) \<le> w_glob (wild st) \<and> w_glob (wild st) \<le> glob_index st
     \<and> (w_path (wild st) > 0 \<longrightarrow> w_glob (wild st) < length glob \<and> glob ! w_glob (wild st) = CHR ''*'')
     \<and> (w_path (wild st) > 0 \<and> glob_index st = w_glob (wild st) \<longrightarrow> path_index st = w_path (wild st) \<and> path_index st \<le> length path)
     \<and> (w_path (globstar st) > 0 \<longrightarrow> globstar_at glob glob_start (w_glob (globstar st)))
     \<and> (w_glob (wild st) = w_glob (globstar st) \<and> w_path (globstar st) > 0 \<longrightarrow> w_path (globstar st) \<le> w_path (wild st))
     \<and> (wild st \<noteq> globstar st \<longrightarrow> w_path (wild st) > 0)
     \<and> path_index st \<le> length path + 3 \<and> w_path (globstar st) \<le> length path + 4
     \<and> w_path (wild st) \<le> length path + 5"

lemma glob_invD:
  assumes "glob_inv glob glob_start path stack st"
  shows "\<And>b. b \<in> set stack \<Longrightarrow> open_brace_idx b < branch_idx b"
    and "w_glob (globstar st) \<le> w_glob (wild st)" and "w_glob (wild st) \<le> glob_index st"
    and "w_path (wild st) > 0 \<Longrightarrow> w_glob (wild st) < length glob"
    and "w_path (wild st) > 0 \<Longrightarrow> glob ! w_glob (wild st) = CHR ''*''"
    and "w_path (wild st) > 0 \<Longrightarrow> glob_index st = w_glob (wild st) \<Longrightarrow> path_index st = w_path (wild st)"
    and "w_path (wild st) > 0 \<Longrightarrow> glob_index st = w_glob (wild st) \<Longrightarrow> path_index st \<le> length path"
    and "w_path (globstar st) > 0 \<Longrightarrow> globstar_at glob glob_start (w_glob (globstar st))"
    and "w_path (globstar st) > 0 \<Longrightarrow> w_glob (wild st) = w_glob (globstar st) \<Longrightarrow> w_path (globstar st) \<le> w_path (wild st)"
    and "wild st \<noteq> globstar st \<Longrightarrow> w_path (wild st) > 0"
    and "path_index st \<le> length path + 3" and "w_path (globstar st) \<le> length path + 4"
    and "w_path (wild st) \<le> length path + 5"
  using assms unfolding glob_inv_def by blast+

definition glob_phase :: "bytes \<Rightarrow> glob_state \<Rightarrow> nat" where
  "glob_phase path st =
     (if glob_index st = w_glob (globstar st) \<and> wild st = globstar st \<and> w_path (globstar st) > 0 then 1
      else if w_path (wild st) > length path \<and> path_index st \<ge> length path then 2 else 0)"

definition wild_rank :: "glob_state \<Rightarrow> nat" where
  "wild_rank st = (if wild st = globstar st then glob_index st else w_glob (wild st))"

definition retry_rank :: "glob_state \<Rightarrow> nat" where
  "retry_rank st = (if wild st = globstar st then 0
     else 2 * w_path (wild st) + (if glob_index st = w_glob (wild st) then 1 else 0))"

definition glob_order :: "bytes \<Rightarrow> bytes \<Rightarrow> (glob_state \<times> glob_state) set" where
  "glob_order glob path = measures
     [\<lambda>st. length glob - w_glob (globstar st), \<lambda>st. length path + 5 - w_path (globstar st),
      \<lambda>st. 2 - glob_phase path st, \<lambda>st. length glob - wild_rank st,
      \<lambda>st. 2 * length path + 20 - retry_rank st, \<lambda>st. length glob - glob_index st]"

lemma glob_order_same_globstar:
  assumes "globstar st' = globstar st" and "glob_phase path st \<le> glob_phase path st'" and "wild_rank st < length glob"
    and "wild_rank st < wild_rank st' \<or> wild_rank st = wild_rank st' \<and> retry_rank st < retry_rank st'"
    and "retry_rank st' < 2 * length path + 20"
  shows "(st', st) \<in> glob_order glob path"
proof -
  have "2 - glob_phase path st' \<le> 2 - glob_phase path st" using assms(2) by simp
  moreover have "length glob - wild_rank st' < length glob - wild_rank st
      \<or> wild_rank st' = wild_rank st \<and> 2 * length path + 20 - retry_rank st' < 2 * length path + 20 - retry_rank st"
    using assms(3-5) by auto
  ultimately show ?thesis using assms(1) by (simp add: glob_order_def) (metis le_neq_implies_less)
qed

text \<open>Steps that only move forward: everything but stars and going back.\<close>

definition forward :: "bytes \<Rightarrow> glob_state \<Rightarrow> glob_state \<Rightarrow> bool" where
  "forward path st st' \<longleftrightarrow> globstar st' = globstar st \<and> glob_index st < glob_index st'
     \<and> (path_index st' = path_index st \<and> wild st' = wild st
        \<or> path_index st < length path \<and> path_index st < path_index st' \<and> path_index st' \<le> path_index st + 4
          \<and> (wild st' = wild st \<or> wild st' = globstar st))"

lemma globstar_at_star: "globstar_at glob glob_start g \<Longrightarrow> g < length glob \<and> glob ! g = CHR ''*''"
  by (auto simp: globstar_at_def stars_before_def)

lemma forward_inv:
  assumes inv: "glob_inv glob glob_start path stack st" and fwd: "forward path st st'"
  shows "glob_inv glob glob_start path stack st'"
proof -
  have G: "globstar st' = globstar st" "glob_index st < glob_index st'" using fwd by (auto simp: forward_def)
  have pi: "path_index st' \<le> length path + 3" using glob_invD(11) [OF inv] fwd by (auto simp: forward_def)
  from fwd consider "wild st' = wild st" | "wild st' = globstar st" by (auto simp: forward_def)
  then show ?thesis
  proof cases
    case 1
    then show ?thesis using inv G pi by (simp add: glob_inv_def)
  next
    case 2
    then show ?thesis using inv G pi globstar_at_star by (simp add: glob_inv_def) blast
  qed
qed

lemma forward_order:
  assumes inv: "glob_inv glob glob_start path stack st" and fwd: "forward path st st'"
    and gi: "glob_index st < length glob" "glob ! glob_index st \<noteq> CHR ''*''"
  shows "(st', st) \<in> glob_order glob path"
proof -
  have not_wild: "w_path (wild st) > 0 \<Longrightarrow> glob_index st \<noteq> w_glob (wild st)" using glob_invD(5) [OF inv] gi by auto
  have G: "globstar st' = globstar st" "glob_index st < glob_index st'" using fwd by (auto simp: forward_def)
  have le: "w_glob (globstar st) \<le> w_glob (wild st)" "w_glob (wild st) \<le> glob_index st" using glob_invD(2,3) [OF inv] by auto
  have phase: "glob_phase path st \<le> glob_phase path st'"
    using fwd not_wild le by (auto simp: glob_phase_def forward_def)
  have rank: "wild_rank st < wild_rank st' \<or> wild_rank st = wild_rank st' \<and> retry_rank st = retry_rank st'"
    using fwd not_wild le glob_invD(10) [OF inv] by (auto simp: wild_rank_def retry_rank_def forward_def)
  have "wild_rank st < length glob" using le gi by (simp add: wild_rank_def)
  moreover have "glob_phase path st' \<le> 2" by (simp add: glob_phase_def)
  ultimately show ?thesis using phase rank G gi by (auto simp: glob_order_def)
qed

text \<open>Going back to the wildcard.\<close>

lemma backtrack_simps [simp]:
  "path_index (backtrack st) = w_path (wild st)" "glob_index (backtrack st) = w_glob (wild st)"
  "wild (backtrack st) = wild st" "globstar (backtrack st) = globstar st"
  "backtrack (st\<lparr>glob_index := gi\<rparr>) = backtrack st"
  by (simp_all add: backtrack_def)

lemma backtrack_inv:
  assumes inv: "glob_inv glob glob_start path stack st" and "w_path (wild st) \<le> length path"
  shows "glob_inv glob glob_start path stack (backtrack st)"
  unfolding glob_inv_def backtrack_simps using glob_invD [OF inv] assms(2) by simp

lemma backtrack_order:
  assumes inv: "glob_inv glob glob_start path stack st"
    and alive: "0 < w_path (wild st)" "w_path (wild st) \<le> length path"
    and no_star: "glob_index st < length glob \<Longrightarrow> glob ! glob_index st \<noteq> CHR ''*''"
  shows "(backtrack st, st) \<in> glob_order glob path"
proof -
  have gi: "glob_index st \<noteq> w_glob (wild st)" using glob_invD(4,5) [OF inv] alive(1) no_star by force
  show ?thesis
  proof (cases "wild st = globstar st")
    case True
    then have "glob_phase path st = 0" "glob_phase path (backtrack st) = 1"
      using alive gi by (auto simp: glob_phase_def)
    then show ?thesis by (simp add: glob_order_def)
  next
    case False
    then have "glob_phase path st = 0" using alive by (auto simp: glob_phase_def)
    moreover have "wild_rank (backtrack st) = wild_rank st" "retry_rank (backtrack st) = retry_rank st + 1"
      "retry_rank st \<le> 2 * length path"
      using False gi alive by (auto simp: wild_rank_def retry_rank_def)
    ultimately show ?thesis by (auto simp: glob_order_def)
  qed
qed

text \<open>
  What the arm \<open>*\<close> does: a new wildcard at \<open>g\<close>, or the globstar as wildcard in front of a separator,
  or a new globstar at \<open>g\<close>.  Where the code enters a globstar, it moves it unless the path is at its end.
\<close>

definition star_out :: "bytes \<Rightarrow> nat \<Rightarrow> bytes \<Rightarrow> glob_state \<Rightarrow> glob_state \<Rightarrow> nat \<Rightarrow> bool" where
  "star_out glob glob_start path st st' g \<longleftrightarrow>
     glob_index st \<le> g \<and> g < length glob \<and> glob ! g = CHR ''*'' \<and> g < glob_index st' \<and> path_index st' = path_index st
     \<and> (globstar st' = globstar st \<and> w_glob (wild st') = g \<and> path_index st < w_path (wild st')
          \<and> w_path (wild st') \<le> length path + 5 \<and> (length path \<le> path_index st \<longrightarrow> length path < w_path (wild st'))
          \<and> (globstar_at glob glob_start (glob_index st) \<longrightarrow> path_index st = length path)
        \<or> globstar st' = globstar st \<and> wild st' = globstar st \<and> path_index st < length path
          \<and> \<not> globstar_at glob glob_start (glob_index st)
        \<or> globstar st' = wild st' \<and> w_glob (wild st') = g \<and> path_index st < w_path (wild st')
          \<and> w_path (wild st') \<le> length path + 4 \<and> globstar_at glob glob_start g)"

lemma globstar_behind:
  assumes inv: "glob_inv glob glob_start path stack st" and "0 < w_path (globstar st)" and "glob_index st = w_glob (globstar st)"
  shows "w_path (globstar st) \<le> path_index st"
proof -
  have same: "w_glob (wild st) = w_glob (globstar st)" using glob_invD(2,3) [OF inv] assms(3) by simp
  have pos: "0 < w_path (wild st)" using glob_invD(10) [OF inv] assms(2) by (cases "wild st = globstar st") auto
  then show ?thesis using glob_invD(6,9) [OF inv] assms(2,3) same by simp
qed

lemma star_inv:
  assumes inv: "glob_inv glob glob_start path stack st" and out: "star_out glob glob_start path st st' g"
  shows "glob_inv glob glob_start path stack st'"
proof -
  have o: "glob_index st \<le> g" "g < length glob" "glob ! g = CHR ''*''" "g < glob_index st'" "path_index st' = path_index st"
    using out by (auto simp: star_out_def)
  note D = glob_invD [OF inv]
  have le: "w_glob (globstar st) \<le> g" "w_glob (globstar st) \<le> glob_index st" using D(2,3) o(1) by auto
  have G: "w_path (globstar st) > 0 \<Longrightarrow> g = w_glob (globstar st) \<Longrightarrow> w_path (globstar st) \<le> path_index st"
    using globstar_behind [OF inv] le(2) o(1) by simp
  from out consider
      (fresh) "globstar st' = globstar st" "w_glob (wild st') = g" "path_index st < w_path (wild st')" "w_path (wild st') \<le> length path + 5"
    | (reset) "globstar st' = globstar st" "wild st' = globstar st" 
    | (globstar) "globstar st' = wild st'" "w_glob (wild st') = g" "w_path (wild st') \<le> length path + 4" "globstar_at glob glob_start g"
    unfolding star_out_def by blast
  then show ?thesis
  proof cases
    case fresh
    then have "w_path (globstar st) > 0 \<Longrightarrow> g = w_glob (globstar st) \<Longrightarrow> w_path (globstar st) \<le> w_path (wild st')"
      using G by simp
    then show ?thesis using fresh D o le by (simp add: glob_inv_def)
  next
    case reset
    then show ?thesis using D o le globstar_at_star by (simp add: glob_inv_def) fastforce
  next
    case globstar
    then show ?thesis using D o by (simp add: glob_inv_def)
  qed
qed

lemma star_order:
  assumes inv: "glob_inv glob glob_start path stack st" and out: "star_out glob glob_start path st st' g"
  shows "(st', st) \<in> glob_order glob path"
proof -
  have o: "glob_index st \<le> g" "g < length glob" "g < glob_index st'" "path_index st' = path_index st"
    using out by (auto simp: star_out_def)
  note D = glob_invD [OF inv]
  have rank: "wild_rank st \<le> glob_index st" using D(3) by (simp add: wild_rank_def)
  have phase1: "glob_phase path st = 1 \<Longrightarrow> globstar_at glob glob_start (glob_index st)"
    using D(8) by (simp add: glob_phase_def split: if_splits)
  have phase2: "glob_phase path st = 2 \<Longrightarrow> length path \<le> path_index st" by (simp add: glob_phase_def split: if_splits)
  have phase: "glob_phase path st = 0 \<or> glob_phase path st = 1 \<or> glob_phase path st = 2" "glob_phase path st' \<le> 2"
    by (auto simp: glob_phase_def)
  from out consider
      (fresh) "globstar st' = globstar st" "w_glob (wild st') = g" "path_index st < w_path (wild st')" "w_path (wild st') \<le> length path + 5"
        "length path \<le> path_index st \<longrightarrow> length path < w_path (wild st')"
        "globstar_at glob glob_start (glob_index st) \<longrightarrow> path_index st = length path"
    | (reset) "globstar st' = globstar st" "wild st' = globstar st" "path_index st < length path"
        "\<not> globstar_at glob glob_start (glob_index st)"
    | (globstar) "globstar st' = wild st'" "w_glob (wild st') = g" "path_index st < w_path (wild st')"
        "w_path (wild st') \<le> length path + 4"
    unfolding star_out_def by blast
  then show ?thesis
  proof cases
    case fresh
    have "w_glob (globstar st) < glob_index st'" using D(2,3) o by simp
    then have "length path \<le> path_index st \<Longrightarrow> glob_phase path st' = 2" using fresh o by (simp add: glob_phase_def)
    then have "glob_phase path st \<le> glob_phase path st'" using fresh(6) phase1 phase2 phase by fastforce
    moreover have "wild_rank st < wild_rank st' \<or> wild_rank st = wild_rank st' \<and> retry_rank st < retry_rank st'"
    proof (cases "wild st' = globstar st \<or> glob_index st < g \<or> wild_rank st < glob_index st")
      case True
      have "wild_rank st' = (if wild st' = globstar st then glob_index st' else g)" using fresh by (simp add: wild_rank_def)
      then show ?thesis using True o rank by (auto split: if_splits)
    next
      case False
      then have "g = glob_index st" "wild_rank st = glob_index st" "wild st' \<noteq> globstar st" using o rank by auto
      moreover have "retry_rank st' = 2 * w_path (wild st')" using calculation fresh o by (simp add: retry_rank_def)
      moreover have "retry_rank st < 2 * w_path (wild st')"
      proof (cases "wild st = globstar st")
        case True
        then show ?thesis using fresh by (simp add: retry_rank_def)
      next
        case False
        then have "w_glob (wild st) = glob_index st" using calculation by (simp add: wild_rank_def)
        then show ?thesis using False D(6,10) fresh by (simp add: retry_rank_def)
      qed
      ultimately show ?thesis using fresh by (simp add: wild_rank_def)
    qed
    moreover have "wild_rank st < length glob" "retry_rank st' < 2 * length path + 20"
      using rank o fresh by (auto simp: retry_rank_def)
    ultimately show ?thesis using fresh(1) phase by (intro glob_order_same_globstar) auto
  next
    case reset
    then have "glob_phase path st = 0" using phase1 phase2 phase by auto
    moreover have "wild_rank st < wild_rank st'" "wild_rank st < length glob" using reset o rank by (auto simp: wild_rank_def)
    ultimately show ?thesis using reset by (auto simp: glob_order_def)
  next
    case globstar
    then have G: "globstar st' = wild st'" by simp
    show ?thesis
    proof (cases "g = w_glob (globstar st)")
      case True
      then have "glob_index st = w_glob (globstar st)" using D(2,3) o by simp
      then have "w_path (globstar st) < w_path (wild st')"
        using globstar_behind [OF inv] globstar by (cases "w_path (globstar st)") auto
      then have "length path + 5 - w_path (wild st') < length path + 5 - w_path (globstar st)" using globstar(4) by linarith
      then show ?thesis using G True globstar by (simp add: glob_order_def)
    next
      case False
      then have "w_glob (globstar st) < g" using D(2,3) o by simp
      then have "length glob - g < length glob - w_glob (globstar st)" using o(2) by linarith
      then show ?thesis using G globstar by (simp add: glob_order_def)
    qed
  qed
qed

section \<open>The arms\<close>

lemma star_wild_bounds:
  assumes "path_index st \<le> length path + 3"
  shows "path_index st < w_path (star_wild path st)" "w_path (star_wild path st) \<le> length path + 4"
    "length path \<le> path_index st \<Longrightarrow> length path < w_path (star_wild path st)"
  using wtf8_length_bounds [of "path ! path_index st"] assms by (auto simp: star_wild_def)

lemma star_wild_glob [simp]: "w_glob (star_wild path st) = glob_index st"
  by (simp add: star_wild_def)

lemma skip_to_separator_out:
  assumes "path_index st \<le> length path + 3" and "w_glob (wild st) = g"
    and "path_index st < w_path (wild st)" and "w_path (wild st) \<le> length path + 4"
    and "st' = skip_to_separator path e st"
  shows "glob_index st' = glob_index st" "path_index st' = path_index st" "w_glob (wild st') = g" "path_index st < w_path (wild st')"
    "path_index st = length path \<Longrightarrow> globstar st' = globstar st \<and> w_path (wild st') \<le> length path + 5"
    "path_index st \<noteq> length path \<Longrightarrow> globstar st' = wild st' \<and> w_path (wild st') \<le> length path + 4"
proof -
  have "sep_loop path (path_index st) \<le> length path + 3"
    using sep_loop_le [of "path_index st" path] sep_loop_beyond [of path "path_index st"] assms(1) by (cases "path_index st \<le> length path") auto
  then show "glob_index st' = glob_index st" "path_index st' = path_index st" "w_glob (wild st') = g" "path_index st < w_path (wild st')"
    "path_index st = length path \<Longrightarrow> globstar st' = globstar st \<and> w_path (wild st') \<le> length path + 5"
    "path_index st \<noteq> length path \<Longrightarrow> globstar st' = wild st' \<and> w_path (wild st') \<le> length path + 4"
    using assms(1-4) sep_loop_ge [of "path_index st" path] unfolding assms(5)
    by (auto simp: skip_to_separator_def Let_def)
qed

lemma is_whole_segment_some: "gi \<le> length glob \<Longrightarrow> is_whole_segment glob glob_start gi \<noteq> None"
  by (auto simp: is_whole_segment_def byte_at_def)

lemma leave_segment_out:
  assumes "wild st1 = star_wild path st0" "globstar st1 = globstar st" "path_index st1 = path_index st"
    "path_index st0 = path_index st" "path_index st \<le> length path + 3" "glob_index st \<le> glob_index st0" "glob_index st0 < length glob"
    "glob ! glob_index st0 = CHR ''*''" "glob_index st0 < glob_index st1" "\<not> globstar_at glob glob_start (glob_index st)"
  shows "star_out glob glob_start path st (leave_segment path st1) (glob_index st0)"
  using assms star_wild_bounds [of st0 path] by (auto simp: leave_segment_def star_out_def)

lemma star_arm_double:
  assumes "glob_index st + 1 < length glob \<and> glob ! (glob_index st + 1) = CHR ''*''"
    and "g = skip_globstars glob (glob_index st)" and "st0 = st\<lparr>glob_index := g\<rparr>"
    and "st1 = st0\<lparr>wild := star_wild path st0, glob_index := g + 2\<rparr>" and "e \<longleftrightarrow> g + 2 < length glob"
    and "is_whole_segment glob glob_start (g + 2) = Some whole"
  shows "star_arm glob glob_start path st =
      (if e \<and> path_index st = length path \<and> length glob - (g + 2) = 2 \<and> is_separator (glob ! (g + 2)) \<and> glob ! (g + 2 + 1) = CHR ''*''
       then Some st1
       else if whole then Some (skip_to_separator path e (if e then st1\<lparr>glob_index := g + 2 + 1\<rparr> else st1))
       else Some (leave_segment path st1))"
  using assms(1,6) by (simp only: star_arm_def Let_def assms(2-5)) simp

lemma star_arm_out:
  assumes gi: "glob_index st < length glob" "glob ! glob_index st = CHR ''*''" and pi: "path_index st \<le> length path + 3"
  shows "\<exists>st' g. star_arm glob glob_start path st = Some st' \<and> star_out glob glob_start path st st' g"
proof (cases "glob_index st + 1 < length glob \<and> glob ! (glob_index st + 1) = CHR ''*''")
  case False
  then have "\<not> globstar_at glob glob_start (glob_index st)" by (auto simp: globstar_at_def stars_before_def)
  then have "star_out glob glob_start path st
      (leave_segment path (st\<lparr>wild := star_wild path st, glob_index := glob_index st + 1\<rparr>)) (glob_index st)"
    using gi pi by (intro leave_segment_out) simp_all
  with False show ?thesis unfolding star_arm_def by (simp only: if_False) blast
next
  case True
  then have stars: "stars_before glob (glob_index st + 2)" using gi by (simp add: stars_before_def)
  define g where "g = skip_globstars glob (glob_index st)"
  define st0 where "st0 = st\<lparr>glob_index := g\<rparr>"
  define st1 where "st1 = st0\<lparr>wild := star_wild path st0, glob_index := g + 2\<rparr>"
  have g: "glob_index st \<le> g" "stars_before glob (g + 2)" "skip_globstars glob g = g"
    using skip_globstars_stars [OF stars] by (simp_all add: g_def)
  have g': "g < length glob" "glob ! g = CHR ''*''" "g + 2 \<le> length glob" using g(2) by (auto simp: stars_before_def)
  have st1: "wild st1 = star_wild path st0" "globstar st1 = globstar st" "path_index st1 = path_index st" "glob_index st1 = g + 2"
    "path_index st0 = path_index st" "glob_index st0 = g"
    by (simp_all add: st1_def st0_def)
  note bounds = star_wild_bounds [of st0 path, unfolded st1, OF pi]
  obtain whole where whole: "is_whole_segment glob glob_start (g + 2) = Some whole"
    using is_whole_segment_some [OF g'(3)] by blast
  have at: "globstar_at glob glob_start (glob_index st) \<Longrightarrow> whole"
    using whole by (auto simp: globstar_at_def g_def)
  define e where "e = (g + 2 < length glob)"
  note arm = star_arm_double [OF True g_def st0_def st1_def e_def whole]
  consider (quirk) "path_index st = length path" "star_arm glob glob_start path st = Some st1"
    | (globstar) "whole" "star_arm glob glob_start path st = Some (skip_to_separator path e (if e then st1\<lparr>glob_index := g + 2 + 1\<rparr> else st1))"
    | (star) "\<not> whole" "star_arm glob glob_start path st = Some (leave_segment path st1)"
    using arm by (auto split: if_splits)
  then show ?thesis
  proof cases
    case quirk
    then have "star_out glob glob_start path st st1 g" using st1 bounds g g' by (auto simp: star_out_def)
    with quirk show ?thesis by blast
  next
    case globstar
    define st2 where "st2 = (if e then st1\<lparr>glob_index := g + 2 + 1\<rparr> else st1)"
    have st2: "wild st2 = star_wild path st0" "globstar st2 = globstar st" "path_index st2 = path_index st" "g < glob_index st2"
      using st1 by (simp_all add: st2_def)
    note sep = skip_to_separator_out [OF _ _ _ _ refl, of st2 path g e, unfolded st2, OF pi _ bounds(1,2)]
    have "globstar_at glob glob_start g" using g whole globstar(1) by (simp add: globstar_at_def)
    then have "star_out glob glob_start path st (skip_to_separator path e st2) g"
      using sep st1 st2 g g' by (cases "path_index st = length path") (auto simp: star_out_def)
    with globstar show ?thesis unfolding st2_def by blast
  next
    case star
    then have "star_out glob glob_start path st (leave_segment path st1) (glob_index st0)"
      using st1 pi g g' at by (intro leave_segment_out) auto
    with star show ?thesis by blast
  qed
qed

lemma class_loop_index: "class_loop glob c gi first m = Some (Some (gi', m')) \<Longrightarrow> gi \<le> gi'"
  by (induction glob c gi first m rule: class_loop.induct)
    (subst (asm) (2) class_loop.simps, fastforce dest: class_member_index split: if_split_asm option.split_asm prod.split_asm)

lemma decode_wtf8_rune_at_some:
  "i < length bs \<Longrightarrow> \<exists>cp. decode_wtf8_rune_at bs i = Some (cp, wtf8_byte_sequence_length (bs ! i))"
  by (simp add: decode_wtf8_rune_at_def byte_at_def Let_def)

lemma get_unicode_some: "gi < length glob \<Longrightarrow> get_unicode c glob gi \<noteq> None"
  using decode_wtf8_rune_at_some [of gi glob] decode_wtf8_rune_at_some [of "gi + 1" glob]
  by (auto simp: get_unicode_def Let_def)

lemma bind_some: "\<exists>x. m = Some x \<Longrightarrow> (\<And>x. \<exists>y. f x = Some y) \<Longrightarrow> \<exists>y. m \<bind> f = Some y"
  by auto

lemma class_high_some: "\<exists>y. class_high glob low gi = Some y"
  unfolding class_high_def using get_unicode_some [of "gi + 1" glob] by (auto intro!: bind_some)

lemma class_member_some: "gi < length glob \<Longrightarrow> \<exists>y. class_member glob gi = Some y"
  unfolding class_member_def byte_at_def using get_unicode_some [of gi glob]
  by simp (intro bind_some, auto split: option.split intro!: bind_some class_high_some)

lemma class_loop_some: "\<exists>y. class_loop glob c gi first m = Some y"
  by (induction glob c gi first m rule: class_loop.induct)
    (subst class_loop.simps, auto dest!: class_member_some split: option.split)

lemma question_forward:
  "question_arm path st = Continue st' \<Longrightarrow> forward path st st'"
  using wtf8_length_bounds [of "path ! path_index st"]
  by (auto simp: question_arm_def forward_def split: if_splits)

lemma class_arm_result:
  assumes pi: "path_index st < length path"
  shows "\<exists>gi. glob_index st < gi \<and> (class_arm glob path st = Some (Return False)
    \<or> class_arm glob path st = Some (Continue (st\<lparr>glob_index := gi,
          path_index := path_index st + wtf8_byte_sequence_length (path ! path_index st)\<rparr>))
    \<or> class_arm glob path st = Some (Fallthrough (st\<lparr>glob_index := gi\<rparr>)))"
proof -
  obtain cp where d: "decode_wtf8_rune_at path (path_index st) = Some (cp, wtf8_byte_sequence_length (path ! path_index st))"
    using decode_wtf8_rune_at_some [OF pi] by blast
  define gi where "gi = glob_index st + 1"
  define neg where "neg = (gi < length glob \<and> (glob ! gi = CHR ''^'' \<or> glob ! gi = CHR ''!''))"
  define gi1 where "gi1 = (if neg then gi + 1 else gi)"
  note arm = class_arm_def [of glob path st, unfolded Let_def, folded gi_def, folded neg_def, folded gi1_def]
  obtain r where r: "class_loop glob cp gi1 True False = Some r" using class_loop_some by blast
  show ?thesis
  proof (cases r)
    case None
    then show ?thesis using pi d r by (auto simp: arm)
  next
    case (Some p)
    then obtain gi2 m where p: "r = Some (gi2, m)" by (cases p) simp
    then have "glob_index st < gi2 + 1" using class_loop_index r by (fastforce simp: gi1_def gi_def split: if_splits)
    then show ?thesis using pi d r p by (intro exI [of _ "gi2 + 1"]) (simp add: arm)
  qed
qed

lemma class_forward: "class_arm glob path st = Some (Continue st') \<Longrightarrow> forward path st st'"
  using class_arm_result [of st path glob] wtf8_length_bounds [of "path ! path_index st"]
  by (cases "path_index st < length path") (auto simp: forward_def class_arm_def)

lemma class_arm_some: "\<exists>y. class_arm glob path st = Some y"
  using class_arm_result [of st path glob] by (cases "path_index st < length path") (auto simp: class_arm_def)

lemma skip_branch_loop_ge: "gi \<le> fst (skip_branch_loop glob end_depth gi depth in_brackets)"
proof (induction "length glob - gi" arbitrary: gi depth in_brackets rule: less_induct)
  case less
  show ?case
  proof (cases "gi < length glob")
    case True
    then have "gi \<le> fst (skip_branch_loop glob end_depth (gi + 1) d b)" "gi \<le> fst (skip_branch_loop glob end_depth (gi + 2) d b)"
      for d b using less [of "gi + 1" d b] less [of "gi + 2" d b] by linarith+
    with True show ?thesis by (subst skip_branch_loop.simps) (simp only: Let_def if_True fst_conv split: if_split, simp)
  qed (subst skip_branch_loop.simps, simp)
qed

lemma skip_branch_loop_gr:
  assumes "gi < length glob"
  shows "gi < fst (skip_branch_loop glob end_depth gi depth in_brackets)"
proof -
  have "gi < fst (skip_branch_loop glob end_depth (gi + 1) d b)" "gi < fst (skip_branch_loop glob end_depth (gi + 2) d b)" for d b
    using skip_branch_loop_ge [of "gi + 1" glob end_depth d b] skip_branch_loop_ge [of "gi + 2" glob end_depth d b] by linarith+
  with assms show ?thesis by (subst skip_branch_loop.simps) (simp only: Let_def if_True fst_conv split: if_split, simp)
qed

lemma end_branch_forward:
  "end_branch_arm glob st = Continue st' \<Longrightarrow> glob_index st < length glob \<Longrightarrow> forward path st st'"
  using skip_branch_loop_gr [of "glob_index st" glob "brace_depth st - 1" "brace_depth st" False]
  by (auto simp: end_branch_arm_def skip_branch_def forward_def split: if_splits prod.splits)

lemma find_brace_in: "find_brace bs gi = Some b \<Longrightarrow> b \<in> set bs \<and> open_brace_idx b = gi"
  by (induction bs) (auto split: if_splits)

lemma brace_forward:
  assumes "brace_arm stack st = Continue st'" and "\<And>b. b \<in> set stack \<Longrightarrow> open_brace_idx b < branch_idx b"
  shows "forward path st st'"
proof -
  obtain b where "find_brace stack (glob_index st) = Some b" "st' = st\<lparr>glob_index := branch_idx b, brace_depth := brace_depth st + 1\<rparr>"
    using assms(1) by (auto simp: brace_arm_def split: option.splits)
  then show ?thesis using find_brace_in [of stack "glob_index st" b] assms(2) [of b] by (simp add: forward_def)
qed

lemma unescape_index: "unescape ch glob gi = Some (cc, gi') \<Longrightarrow> gi \<le> gi'"
  by (auto simp: unescape_def split: if_splits)

lemma literal_forward:
  assumes "literal_arm glob path ch st = Continue st'"
  shows "forward path st st'"
proof -
  obtain cc gi where "path_index st < length path" "unescape ch glob (glob_index st) = Some (cc, gi)"
      and st': "st' = st\<lparr>glob_index := gi + wtf8_byte_sequence_length cc, path_index := path_index st + wtf8_byte_sequence_length cc,
        wild := (if cc = CHR ''/'' then globstar st else wild st)\<rparr>"
    using assms by (auto simp: literal_arm_def Let_def split: if_splits option.splits)
  then show ?thesis using unescape_index wtf8_length_bounds [of cc] by (fastforce simp: forward_def)
qed

text \<open>An arm that falls through leaves the places to go back to as they are.\<close>

definition same_places :: "glob_state \<Rightarrow> glob_state \<Rightarrow> bool" where
  "same_places st st' \<longleftrightarrow> wild st' = wild st \<and> backtrack st' = backtrack st"

lemma same_places_upd [simp]: "same_places st st" "same_places st (st\<lparr>glob_index := gi\<rparr>)"
  by (simp_all add: same_places_def)

lemma literal_fallthrough: "literal_arm glob path ch st = Fallthrough st' \<Longrightarrow> same_places st st'"
  by (auto simp: literal_arm_def Let_def split: if_splits option.splits)

lemma class_fallthrough: "class_arm glob path st = Some (Fallthrough st') \<Longrightarrow> same_places st st'"
  using class_arm_result [of st path glob] by (cases "path_index st < length path") (auto simp: class_arm_def)

lemma arm_fallthrough: "glob_arm_of glob glob_start path stack st = Some (Fallthrough st') \<Longrightarrow> same_places st st'"
  by (auto simp: glob_arm_of_def question_arm_def brace_arm_def end_branch_arm_def Let_def dest: class_fallthrough
      split: if_split_asm option.split_asm)

section \<open>The main loop\<close>

lemma arm_some:
  assumes inv: "glob_inv glob glob_start path stack st" and gi: "glob_index st < length glob"
  shows "\<exists>arm. glob_arm_of glob glob_start path stack st = Some arm"
  using star_arm_out [OF gi _ glob_invD(11) [OF inv], of glob_start] class_arm_some [of glob path st]
  by (auto simp: glob_arm_of_def Let_def)

lemma arm_continue:
  assumes inv: "glob_inv glob glob_start path stack st" and gi: "glob_index st < length glob"
    and arm: "glob_arm_of glob glob_start path stack st = Some (Continue st')"
  shows "glob_inv glob glob_start path stack st' \<and> (st', st) \<in> glob_order glob path"
proof (cases "glob ! glob_index st = CHR ''*''")
  case True
  then show ?thesis
    using star_arm_out [OF gi True glob_invD(11) [OF inv], of glob_start] arm star_inv [OF inv] star_order [OF inv]
    by (auto simp: glob_arm_of_def)
next
  case False
  then have "forward path st st'"
    using arm question_forward class_forward brace_forward [OF _ glob_invD(1) [OF inv]] end_branch_forward [OF _ gi]
    by (auto simp: glob_arm_of_def Let_def split: if_split_asm)
  then show ?thesis using forward_inv [OF inv] forward_order [OF inv _ gi False] by blast
qed

lemma retry_ok:
  assumes inv: "glob_inv glob glob_start path stack st" and same: "same_places st st'"
    and no_star: "glob_index st < length glob \<Longrightarrow> glob ! glob_index st \<noteq> CHR ''*''"
  shows "retry path st' = Return False
    \<or> retry path st' = Continue (backtrack st) \<and> glob_inv glob glob_start path stack (backtrack st)
      \<and> (backtrack st, st) \<in> glob_order glob path"
  using same backtrack_inv [OF inv] backtrack_order [OF inv _ _ no_star] by (auto simp: retry_def same_places_def)

lemma arm_star_continue:
  "glob_arm_of glob glob_start path stack st = Some arm \<Longrightarrow> glob ! glob_index st = CHR ''*'' \<Longrightarrow> \<exists>st'. arm = Continue st'"
  by (auto simp: glob_arm_of_def)

lemma class_arm_kinds: "class_arm glob path st \<noteq> Some (Braces st')" "class_arm glob path st \<noteq> Some (Return True)"
  using class_arm_result [of st path glob] by (cases "path_index st < length path"; auto simp: class_arm_def)+

lemma arm_braces:
  "glob_arm_of glob glob_start path stack st = Some (Braces st')
    \<Longrightarrow> st' = st \<and> glob ! glob_index st = CHR ''{'' \<and> find_brace stack (glob_index st) = None"
  by (auto simp: glob_arm_of_def question_arm_def brace_arm_def end_branch_arm_def Let_def class_arm_kinds
      split: if_split_asm option.split_asm)

lemma arm_return: "glob_arm_of glob glob_start path stack st = Some (Return b) \<Longrightarrow> \<not> b"
  using class_arm_kinds(2) [of glob path st]
  by (cases b) (auto simp: glob_arm_of_def question_arm_def brace_arm_def end_branch_arm_def Let_def
      split: if_split_asm option.split_asm)

lemma literal_kinds: "literal_arm glob path ch st \<noteq> Braces st'" "literal_arm glob path ch st \<noteq> Return True"
    "literal_arm glob path ch st \<noteq> To_Else"
  by (auto simp: literal_arm_def Let_def split: if_splits option.splits)

text \<open>One round, as the loop sees it: a next state that is smaller, a result, or braces to explore.\<close>

definition round_ok :: "bytes \<Rightarrow> nat \<Rightarrow> bytes \<Rightarrow> brace list \<Rightarrow> glob_state \<Rightarrow> glob_arm \<Rightarrow> bool" where
  "round_ok glob glob_start path stack st arm \<longleftrightarrow>
     (case arm of
        Continue st' \<Rightarrow> glob_inv glob glob_start path stack st' \<and> (st', st) \<in> glob_order glob path
      | Return b \<Rightarrow> \<not> b
      | Braces st' \<Rightarrow> st' = st \<and> glob_index st < length glob \<and> glob ! glob_index st = CHR ''{''
      | _ \<Rightarrow> False)"

lemma round_ok:
  assumes inv: "glob_inv glob glob_start path stack st"
  shows "\<exists>arm. glob_round glob glob_start path stack st = Some arm \<and> round_ok glob glob_start path stack st arm"
proof (cases "glob_index st < length glob")
  case False
  then show ?thesis using retry_ok [OF inv same_places_upd(1)] by (auto simp: glob_round_def round_ok_def)
next
  case True
  obtain arm where arm: "glob_arm_of glob glob_start path stack st = Some arm" using arm_some [OF inv True] by blast
  have retry: "round_ok glob glob_start path stack st (retry path st')"
    if "same_places st st'" "glob ! glob_index st \<noteq> CHR ''*''" for st'
    using retry_ok [OF inv that(1)] that(2) by (auto simp: round_ok_def)
  note eq = glob_round_def [of glob glob_start path stack st]
  show ?thesis
  proof (cases arm)
    case (Continue st')
    then show ?thesis using True arm arm_continue [OF inv True] by (simp add: eq round_ok_def)
  next
    case (Return b)
    then show ?thesis using True arm arm_return [OF arm [unfolded Return]] by (simp add: eq round_ok_def)
  next
    case To_Else
    then have no_star: "glob ! glob_index st \<noteq> CHR ''*''" using arm_star_continue arm by blast
    define lit where "lit = literal_arm glob path (glob ! glob_index st) st"
    have round: "glob_round glob glob_start path stack st = Some (case lit of Fallthrough st' \<Rightarrow> retry path st' | _ \<Rightarrow> lit)"
      using True arm To_Else by (simp add: eq lit_def Let_def split: glob_arm.split)
    show ?thesis
    proof (cases lit)
      case (Continue st')
      then have "forward path st st'" using literal_forward lit_def by metis
      then show ?thesis
        using round Continue forward_inv [OF inv] forward_order [OF inv _ True no_star] by (simp add: round_ok_def)
    next
      case (Fallthrough st')
      then show ?thesis using round retry [OF literal_fallthrough no_star] lit_def by auto
    qed (use round literal_kinds lit_def in \<open>auto simp: round_ok_def\<close>)
  next
    case (Fallthrough st')
    then have "glob ! glob_index st \<noteq> CHR ''*''" using arm_star_continue arm by blast
    then show ?thesis using True arm Fallthrough retry [OF arm_fallthrough] by (simp add: eq)
  next
    case (Braces st')
    then show ?thesis using True arm arm_braces by (auto simp: eq round_ok_def)
  qed
qed

definition glob_next :: "bytes \<Rightarrow> nat \<Rightarrow> bytes \<Rightarrow> brace list \<Rightarrow> glob_state \<Rightarrow> (glob_state + glob_arm) option" where
  "glob_next glob glob_start path stack st =
     (if glob_index st < length glob \<or> path_index st < length path then
        (case glob_round glob glob_start path stack st of
           None \<Rightarrow> None
         | Some (Continue st') \<Rightarrow> Some (Inl st')
         | Some r \<Rightarrow> Some (Inr r))
      else Some (Inr (Return True)))"

interpretation gl: guarded_loop "glob_loop glob glob_start path stack" "glob_next glob glob_start path stack"
    "glob_inv glob glob_start path stack" "glob_order glob path"
  for glob glob_start path stack
proof
  show "glob_loop glob glob_start path stack s =
      (case glob_next glob glob_start path stack s of None \<Rightarrow> None
       | Some (Inl s') \<Rightarrow> glob_loop glob glob_start path stack s' | Some (Inr r) \<Rightarrow> Some r)" for s
    by (subst glob_loop.simps) (auto simp: glob_next_def split: option.split glob_arm.split)
  show "wf (glob_order glob path)" by (simp add: glob_order_def)
  show "glob_next glob glob_start path stack s \<noteq> None" if "glob_inv glob glob_start path stack s" for s
    using round_ok [OF that] by (auto simp: glob_next_def split: option.split glob_arm.split)
  show "glob_inv glob glob_start path stack s' \<and> (s', s) \<in> glob_order glob path"
    if "glob_inv glob glob_start path stack s" "glob_next glob glob_start path stack s = Some (Inl s')" for s s'
    using round_ok [OF that(1)] that(2) by (auto simp: glob_next_def round_ok_def split: option.splits glob_arm.splits if_splits)
qed

text \<open>The main loop ends with a result, or in front of braces in a state that satisfies the invariant.\<close>

lemma glob_loop_returns:
  assumes "glob_inv glob glob_start path stack st"
  shows "(\<exists>b. glob_loop glob glob_start path stack st = Some (Return b))
    \<or> (\<exists>st'. glob_loop glob glob_start path stack st = Some (Braces st') \<and> glob_inv glob glob_start path stack st'
        \<and> glob_index st' < length glob \<and> glob ! glob_index st' = CHR ''{'')"
proof -
  obtain r st' where st': "glob_inv glob glob_start path stack st'" "glob_next glob glob_start path stack st' = Some (Inr r)"
      "glob_loop glob glob_start path stack st = Some r"
    using gl.returns [OF assms] by blast
  then show ?thesis
    using round_ok [OF st'(1)] by (auto simp: glob_next_def round_ok_def split: option.splits glob_arm.splits if_splits)
qed

section \<open>Braces\<close>

text \<open>A branch starts behind its brace, so every position to go back to is in front of it.\<close>

lemma globstar_at_branch: "globstar_at glob glob_start g \<Longrightarrow> g < br \<Longrightarrow> globstar_at glob br g"
proof -
  assume at: "globstar_at glob glob_start g" and "g < br"
  then have "g + 2 - br < 3" by linarith
  then have whole: "is_whole_segment glob br (g + 2) = (if g + 2 < length glob then Some (glob ! (g + 2) = CHR ''/'') else Some True)"
    by (simp add: is_whole_segment_def)
  have "g + 2 < length glob \<Longrightarrow> glob ! (g + 2) = CHR ''/''"
    using at unfolding globstar_at_def is_whole_segment_def
    by (cases "if g + 2 - glob_start < 3 then Some True else byte_at glob (g + 2 - 3) \<bind> (\<lambda>b. Some (b = CHR ''/''))")
      (auto split: if_splits)
  then show ?thesis using at whole by (simp add: globstar_at_def)
qed

lemma branch_inv:
  assumes inv: "glob_inv glob glob_start path stack (st\<lparr>glob_index := op\<rparr>)" and "op < br"
  shows "glob_inv glob br path (stack @ [\<lparr>open_brace_idx = op, branch_idx = br\<rparr>]) (st\<lparr>glob_index := br, brace_depth := d\<rparr>)"
  using glob_invD [OF inv] globstar_at_branch [of glob glob_start "w_glob (globstar st)" br] assms(2)
  by (simp add: glob_inv_def)

definition in_braces :: "bytes \<Rightarrow> nat \<Rightarrow> nat \<Rightarrow> u16 \<Rightarrow> bool \<Rightarrow> nat \<Rightarrow> bool" where
  "in_braces glob op br depth in_brackets gi \<longleftrightarrow>
     op \<le> gi \<and> (op < br \<or> gi = op \<and> glob ! op = CHR ''{'' \<and> depth = 0 \<and> \<not> in_brackets)"

lemma match_brace_returns:
  assumes branch: "\<And>br budget gi. op < br \<Longrightarrow> \<exists>r. match_brace_branch glob path op br stack budget (st\<lparr>glob_index := gi\<rparr>) = Some r"
  shows "in_braces glob op br depth in_brackets gi
    \<Longrightarrow> \<exists>r. match_brace glob path stack budget op br depth in_brackets (st\<lparr>glob_index := gi\<rparr>) = Some r"
proof (induction "length glob - gi" arbitrary: gi br depth in_brackets budget rule: less_induct)
  case less
  show ?case
  proof (cases "gi < length glob")
    case True
    have nxt: "\<exists>r. match_brace glob path stack budget' op br' depth' in_brackets' (st\<lparr>glob_index := gi'\<rparr>) = Some r"
      if "gi < gi'" "op < br'" for gi' br' depth' in_brackets' budget'
      using less.prems True that by (intro less.hyps) (auto simp: in_braces_def)
    have first: "op < br \<or> glob ! gi = CHR ''{'' \<and> depth = 0 \<and> \<not> in_brackets" and op: "op < gi + 1"
      using less.prems by (auto simp: in_braces_def)
    note eq = match_brace.simps [of glob path stack budget op br depth in_brackets "st\<lparr>glob_index := gi\<rparr>"]
    show ?thesis
    proof (cases "glob ! gi = CHR ''{'' \<and> \<not> in_brackets")
      case True
      then have "match_brace glob path stack budget op br depth in_brackets (st\<lparr>glob_index := gi\<rparr>)
          = match_brace glob path stack budget op (if depth = 0 then Suc gi else br) (depth + 1) in_brackets (st\<lparr>glob_index := Suc gi\<rparr>)"
        using \<open>gi < length glob\<close> by (subst eq) (simp add: Let_def)
      moreover have "op < (if depth = 0 then Suc gi else br)" using first op by auto
      ultimately show ?thesis using nxt [of "Suc gi"] by simp
    next
      case False
      then have br: "op < br" using first by blast
      obtain m b where b: "match_brace_branch glob path op br stack budget (st\<lparr>glob_index := gi\<rparr>) = Some (m, b)"
        using branch [OF br] by force
      show ?thesis using \<open>gi < length glob\<close> br op nxt [of "Suc gi"] nxt [of "Suc (Suc gi)"] b False
        by (subst eq) (simp add: Let_def, blast)
    qed
  qed (auto simp: match_brace.simps)
qed

lemma glob_match_impl_returns:
  "glob_inv glob glob_start path stack st \<Longrightarrow> \<exists>r. glob_match_impl glob glob_start path stack budget st = Some r"
proof (induction "brace_stack_capacity - length stack" arbitrary: glob_start stack st budget rule: less_induct)
  case less
  from glob_loop_returns [OF less.prems] show ?case
  proof (elim disjE exE conjE)
    fix st' assume loop: "glob_loop glob glob_start path stack st = Some (Braces st')"
      and inv: "glob_inv glob glob_start path stack st'" and gi: "glob ! glob_index st' = CHR ''{''"
    define op where "op = glob_index st'"
    have inv': "glob_inv glob glob_start path stack (st'\<lparr>glob_index := op\<rparr>)" using inv by (simp add: op_def)
    have "\<exists>r. match_brace_branch glob path op br stack b (st'\<lparr>glob_index := gi\<rparr>) = Some r" if "op < br" for br b gi
    proof (cases "b = 0 \<or> brace_stack_capacity \<le> length stack")
      case False
      then have "b \<noteq> 0" "length stack < 10" "9 - length stack < 10 - length stack" by (auto simp: brace_stack_capacity_def)
      then show ?thesis
        using less.hyps [OF _ branch_inv [OF inv' that]]
        by (subst match_brace_branch.simps) (simp add: Let_def brace_stack_capacity_def)
    qed (auto simp: match_brace_branch.simps)
    moreover have "in_braces glob op 0 0 False op" using gi by (simp add: in_braces_def op_def)
    ultimately have "\<exists>r. match_brace glob path stack budget op 0 0 False (st'\<lparr>glob_index := op\<rparr>) = Some r"
      by (rule match_brace_returns)
    then show ?case by (subst glob_match_impl.simps) (simp add: loop op_def)
  qed (simp add: glob_match_impl.simps)
qed

text \<open>
  C11. Glob matching always returns: for every pattern and path, well-formed or not, the matcher ends
  with a result; it does not run forever and no index is out of range.  The 32-bit indices of the
  code are natural numbers here, which is the same for inputs below 4 GiB.
\<close>

theorem glob_match_returns: "\<exists>r. glob_match glob path = Some r"
proof -
  have "glob_inv glob 0 path [] (glob_state_default\<lparr>glob_index := k\<rparr>)" for k
    by (simp add: glob_inv_def glob_state_default_def wildcard_default_def)
  moreover obtain negated k where k: "count_bangs glob False = (negated, k)" by fastforce
  ultimately obtain m b where "glob_match_impl glob 0 path [] BRACE_BRANCH_BUDGET (glob_state_default\<lparr>glob_index := k\<rparr>) = Some (m, b)"
    using glob_match_impl_returns by (metis surj_pair)
  with k show ?thesis by (simp add: glob_match_def)
qed

end
