(* ===== verification/Glob_Tokens.thy ===== *)
theory Glob_Tokens
  imports Glob_Term
begin

text \<open>
  What a glob pattern means.  A pattern without classes and braces is a list of tokens: literals,
  \<open>?\<close>, \<open>*\<close>, \<open>**/\<close> and a final \<open>**\<close>.  The matcher \<open>gmatch\<close> tries all possibilities on the rest of
  the path; it differs from the meaning of a pattern, \<open>glob_means\<close> in \<open>Glob_Spec\<close>, only in what the code
  asks of a pattern that ends in \<open>**/*\<close>.  The matcher of the code keeps only one wildcard and one globstar to go back to; the main
  theorem of \<open>Glob_Spec\<close> says that this is enough.  Here: the matcher, its facts about stars and
  globstars that are tried again, and what one round of the main loop does at each token.
\<close>

section \<open>Tokens and their matcher\<close>

datatype gtok = Lit char | Any | Star | Deep | Rest

definition special :: "char \<Rightarrow> bool" where
  "special c \<longleftrightarrow> c \<in> set ''*?[{,}!'' \<or> c = CHR 0x5C"

text \<open>The text of a token; special characters are escaped.\<close>

fun tok_text :: "gtok \<Rightarrow> bytes" where
  "tok_text (Lit c) = (if special c then [CHR 0x5C, c] else [c])"
| "tok_text Any = ''?''"
| "tok_text Star = ''*''"
| "tok_text Deep = ''**/''"
| "tok_text Rest = ''**''"

definition glob_text :: "gtok list \<Rightarrow> bytes" where
  "glob_text toks = concat (map tok_text toks)"

lemma glob_text_simps [simp]: "glob_text [] = []" "glob_text (t # ts) = tok_text t @ glob_text ts"
  by (simp_all add: glob_text_def)

lemma glob_text_empty [simp]: "glob_text p = [] \<longleftrightarrow> p = []"
proof (cases p)
  case (Cons t q)
  then show ?thesis by (cases t) auto
qed simp

text \<open>The path behind the first slash.\<close>

fun after_slash :: "bytes \<Rightarrow> bytes option" where
  "after_slash [] = None"
| "after_slash (c # s) = (if c = CHR ''/'' then Some s else after_slash s)"

lemma after_slash_length: "after_slash s = Some t \<Longrightarrow> length t < length s"
  by (induction s) (auto split: if_splits)

text \<open>As in the code, a pattern that ends in \<open>**/*\<close> wants something to be left.\<close>

function gmatch :: "gtok list \<Rightarrow> bytes \<Rightarrow> bool" where
  "gmatch [] s \<longleftrightarrow> s = []"
| "gmatch (Lit c # p) s \<longleftrightarrow> (case s of [] \<Rightarrow> False | x # s' \<Rightarrow> x = c \<and> gmatch p s')"
| "gmatch (Any # p) s \<longleftrightarrow> (case s of [] \<Rightarrow> False | x # s' \<Rightarrow> x \<noteq> CHR ''/'' \<and> gmatch p s')"
| "gmatch (Star # p) s \<longleftrightarrow> gmatch p s \<or> (case s of [] \<Rightarrow> False | x # s' \<Rightarrow> x \<noteq> CHR ''/'' \<and> gmatch (Star # p) s')"
| "gmatch (Deep # p) s \<longleftrightarrow> (p = [Star] \<longrightarrow> s \<noteq> []) \<and> gmatch p s
     \<or> (case after_slash s of None \<Rightarrow> False | Some s' \<Rightarrow> gmatch (Deep # p) s')"
| "gmatch (Rest # p) s \<longleftrightarrow> p = []"
  by pat_completeness auto
termination
  by (relation "measure (\<lambda>(p, s). length p + length s)") (auto dest: after_slash_length)

declare gmatch.simps(4,5) [simp del]

lemma gmatch_star [simp]:
  "gmatch (Star # p) [] \<longleftrightarrow> gmatch p []"
  "gmatch (Star # p) (c # s) \<longleftrightarrow> gmatch p (c # s) \<or> c \<noteq> CHR ''/'' \<and> gmatch (Star # p) s"
  by (simp_all add: gmatch.simps(4))

text \<open>
  Patterns whose text reads back as their tokens: stars do not touch, and \<open>**\<close> is a whole segment: it
  stands behind a slash or, if the flag allows, at the start.  All characters are ASCII.
\<close>

definition ascii :: "char \<Rightarrow> bool" where
  "ascii c \<longleftrightarrow> (of_char c :: nat) < 0x80"

fun toks_ok :: "bool \<Rightarrow> gtok list \<Rightarrow> bool" where
  "toks_ok start [] \<longleftrightarrow> True"
| "toks_ok start (Lit c # p) \<longleftrightarrow> ascii c \<and> toks_ok (c = CHR ''/'') p"
| "toks_ok start (Any # p) \<longleftrightarrow> toks_ok False p"
| "toks_ok start (Star # p) \<longleftrightarrow> (p \<noteq> [] \<longrightarrow> hd p \<noteq> Star) \<and> toks_ok False p"
| "toks_ok start (Deep # p) \<longleftrightarrow> start \<and> toks_ok False p"
| "toks_ok start (Rest # p) \<longleftrightarrow> start \<and> p = []"

section \<open>Facts about the matcher\<close>

fun inseg :: "gtok \<Rightarrow> bool" where
  "inseg (Lit c) \<longleftrightarrow> c \<noteq> CHR ''/''"
| "inseg Any \<longleftrightarrow> True"
| "inseg _ \<longleftrightarrow> False"

fun plain :: "gtok \<Rightarrow> bool" where
  "plain Deep \<longleftrightarrow> False"
| "plain Rest \<longleftrightarrow> False"
| "plain _ \<longleftrightarrow> True"

text \<open>Tokens inside a segment consume as many bytes, none of them a slash.\<close>

lemma gmatch_inseg:
  "\<forall>x \<in> set X. inseg x \<Longrightarrow> gmatch (X @ q) r \<Longrightarrow>
     \<exists>v r'. r = v @ r' \<and> length v = length X \<and> CHR ''/'' \<notin> set v \<and> gmatch q r'"
proof (induction X arbitrary: r)
  case (Cons x X)
  then obtain c r1 where r: "r = c # r1" "c \<noteq> CHR ''/''" "gmatch (X @ q) r1"
    by (cases x; cases r) auto
  obtain v r' where "r1 = v @ r'" "length v = length X" "CHR ''/'' \<notin> set v" "gmatch q r'"
    using Cons.IH [OF _ r(3)] Cons.prems(1) by auto
  then show ?case using r by (intro exI [of _ "c # v"] exI [of _ r']) auto
qed simp

lemma gmatch_star_split:
  "gmatch (Star # q) r \<Longrightarrow> \<exists>v r'. r = v @ r' \<and> CHR ''/'' \<notin> set v \<and> gmatch q r'"
proof (induction r)
  case Nil
  then show ?case by auto
next
  case (Cons c r)
  show ?case
  proof (cases "gmatch q (c # r)")
    case True
    then show ?thesis by (intro exI [of _ "[]"] exI [of _ "c # r"]) auto
  next
    case False
    with Cons obtain v r' where "r = v @ r'" "CHR ''/'' \<notin> set v" "gmatch q r'" "c \<noteq> CHR ''/''" by auto
    then show ?thesis by (intro exI [of _ "c # v"] exI [of _ r']) auto
  qed
qed

lemma gmatch_star_absorb: "CHR ''/'' \<notin> set w \<Longrightarrow> gmatch (Star # q) r \<Longrightarrow> gmatch (Star # q) (w @ r)"
  by (induction w) auto

text \<open>A star that has matched up to \<open>sw\<close>, and \<open>X\<close> from there to \<open>s\<close>: any later try ends behind \<open>s\<close> in the same segment.\<close>

lemma later_star:
  assumes "gmatch (Star # X @ q) (tl sw)" and "\<forall>x \<in> set X. inseg x" and "sw = v @ s" and "length v = length X"
    and "CHR ''/'' \<notin> set v" and "sw \<noteq> []" and "hd sw \<noteq> CHR ''/''"
  shows "\<exists>w r. s = w @ r \<and> CHR ''/'' \<notin> set w \<and> gmatch q r"
proof -
  obtain v1 r1 where 1: "tl sw = v1 @ r1" "CHR ''/'' \<notin> set v1" "gmatch (X @ q) r1" using gmatch_star_split [OF assms(1)] by blast
  obtain v2 r where 2: "r1 = v2 @ r" "length v2 = length X" "CHR ''/'' \<notin> set v2" "gmatch q r" using gmatch_inseg [OF assms(2) 1(3)] by blast
  have sw: "v @ s = (hd sw # v1 @ v2) @ r" using 1(1) 2(1) assms(3) list.collapse [OF assms(6)] by simp
  have len: "length v \<le> length (hd sw # v1 @ v2)" using 2 assms(4) by simp
  have "s = drop (length v) (hd sw # v1 @ v2) @ r" using arg_cong [OF sw, of "drop (length v)"] len by (simp only: drop_append) simp
  moreover have "CHR ''/'' \<notin> set (drop (length v) (hd sw # v1 @ v2))"
    using 1(2) 2(3) assms(7) by (auto dest: in_set_dropD)
  ultimately show ?thesis using 2(4) by blast
qed

lemma later_star_star: "s = w @ r \<Longrightarrow> CHR ''/'' \<notin> set w \<Longrightarrow> gmatch (Star # q) r \<Longrightarrow> gmatch (Star # q) s"
  by (simp add: gmatch_star_absorb del: gmatch.simps)

lemma later_star_slash:
  "CHR ''/'' # s' = w @ r \<Longrightarrow> CHR ''/'' \<notin> set w \<Longrightarrow> gmatch (Lit (CHR ''/'') # q) r \<Longrightarrow> gmatch q s'"
  by (cases w) auto

section \<open>Segments\<close>

fun after_slashes :: "nat \<Rightarrow> bytes \<Rightarrow> bytes option" where
  "after_slashes 0 s = Some s"
| "after_slashes (Suc k) s = (case after_slash s of None \<Rightarrow> None | Some t \<Rightarrow> after_slashes k t)"

fun slashes :: "gtok list \<Rightarrow> nat" where
  "slashes [] = 0"
| "slashes (t # p) = (if t = Lit (CHR ''/'') then Suc (slashes p) else slashes p)"

lemma slashes_append [simp]: "slashes (p @ q) = slashes p + slashes q"
  by (induction p) auto

lemma after_slash_skip [simp]: "CHR ''/'' \<notin> set u \<Longrightarrow> after_slash (u @ s) = after_slash s"
  by (induction u) auto

lemma after_slashes_skip: "CHR ''/'' \<notin> set u \<Longrightarrow> after_slashes (Suc k) (u @ s) = after_slashes (Suc k) s"
  by simp

lemma after_slashes_add:
  "after_slashes (k + j) s = (case after_slashes k s of None \<Rightarrow> None | Some t \<Rightarrow> after_slashes j t)"
  by (induction k arbitrary: s) (auto split: option.split)

text \<open>\<open>s\<close> lies in the segment number \<open>k\<close> of \<open>sa\<close>.\<close>

definition in_segment :: "bytes \<Rightarrow> nat \<Rightarrow> bytes \<Rightarrow> bool" where
  "in_segment sa k s \<longleftrightarrow> (\<exists>u. after_slashes k sa = Some (u @ s) \<and> CHR ''/'' \<notin> set u)"

lemma in_segment_step:
  "in_segment sa k (c # s) \<Longrightarrow> in_segment sa (if c = CHR ''/'' then Suc k else k) s"
proof -
  assume "in_segment sa k (c # s)"
  then obtain u where u: "after_slashes k sa = Some (u @ c # s)" "CHR ''/'' \<notin> set u" by (auto simp: in_segment_def)
  show ?thesis
  proof (cases "c = CHR ''/''")
    case True
    have "after_slashes (Suc k) sa = Some s" using after_slashes_add [of k 1 sa] u True by simp
    then show ?thesis using True by (auto simp: in_segment_def intro!: exI [of _ "[]"])
  next
    case False
    then show ?thesis using u by (auto simp: in_segment_def intro!: exI [of _ "u @ [c]"])
  qed
qed

lemma in_segment_skip: "in_segment sa k (w @ s) \<Longrightarrow> CHR ''/'' \<notin> set w \<Longrightarrow> in_segment sa k s"
  unfolding in_segment_def by (metis Un_iff append_assoc set_append)

text \<open>Plain tokens end in the segment given by their slashes.\<close>

lemma gmatch_plain:
  "\<forall>x \<in> set X. plain x \<Longrightarrow> gmatch (X @ q) r \<Longrightarrow> in_segment sa k r \<Longrightarrow>
     \<exists>r'. in_segment sa (k + slashes X) r' \<and> gmatch q r'"
proof (induction X arbitrary: r k)
  case (Cons x X)
  show ?case
  proof (cases x)
    case (Lit c)
    with Cons.prems obtain r1 where r: "r = c # r1" "gmatch (X @ q) r1" by (cases r) auto
    have "in_segment sa (if c = CHR ''/'' then Suc k else k) r1" using Cons.prems(3) r(1) in_segment_step by simp
    then show ?thesis
      using Cons.IH [OF _ r(2)] Cons.prems(1) Lit by (fastforce split: if_splits)
  next
    case Any
    with Cons.prems obtain c r1 where r: "r = c # r1" "c \<noteq> CHR ''/''" "gmatch (X @ q) r1" by (cases r) auto
    have "in_segment sa k r1" using Cons.prems(3) r in_segment_step [of sa k c r1] by simp
    then show ?thesis using Cons.IH [OF _ r(3)] Cons.prems(1) Any by auto
  next
    case Star
    with Cons.prems obtain v r1 where r: "r = v @ r1" "CHR ''/'' \<notin> set v" "gmatch (X @ q) r1"
      using gmatch_star_split [of "X @ q" r] by auto
    then show ?thesis
      using Cons.IH [OF _ r(3) in_segment_skip] Cons.prems Star by auto
  qed (use Cons.prems in auto)
qed auto

lemma gmatch_deep_split: "gmatch (Deep # q) r \<Longrightarrow> \<exists>j r'. after_slashes j r = Some r' \<and> gmatch q r'"
proof (induction "length r" arbitrary: r rule: less_induct)
  case less
  show ?case
  proof (cases "gmatch q r")
    case True
    then show ?thesis by (intro exI [of _ 0]) auto
  next
    case False
    then obtain r1 where r1: "after_slash r = Some r1" "gmatch (Deep # q) r1"
      using less.prems by (subst (asm) gmatch.simps) (auto split: option.splits)
    then obtain j r' where "after_slashes j r1 = Some r'" "gmatch q r'"
      using less.hyps [OF after_slash_length] by blast
    then show ?thesis using r1 by (intro exI [of _ "Suc j"]) auto
  qed
qed

lemma gmatch_deep_later: "after_slashes j s = Some r \<Longrightarrow> gmatch (Deep # q) r \<Longrightarrow> gmatch (Deep # q) s"
proof (induction j arbitrary: s)
  case (Suc j)
  then show ?case by (subst gmatch.simps) (auto split: option.splits)
qed simp

text \<open>A globstar tried at \<open>sa\<close>, and \<open>X\<close> from there to \<open>s\<close>: any later try ends in a later segment.\<close>

lemma later_globstar:
  assumes "gmatch (Deep # X @ q) r0" and "after_slash sa = Some r0" and "\<forall>x \<in> set X. plain x" and "in_segment sa (slashes X) s"
  shows "\<exists>j r. in_segment s (Suc j) r \<and> gmatch q r"
proof -
  obtain j r1 where 1: "after_slashes j r0 = Some r1" "gmatch (X @ q) r1" using gmatch_deep_split [OF assms(1)] by blast
  then have "in_segment sa (Suc j) r1" using assms(2) by (auto simp: in_segment_def intro!: exI [of _ "[]"])
  then obtain r where r: "in_segment sa (Suc j + slashes X) r" "gmatch q r" using gmatch_plain [OF assms(3) 1(2)] by blast
  obtain u where u: "after_slashes (slashes X) sa = Some (u @ s)" "CHR ''/'' \<notin> set u" using assms(4) by (auto simp: in_segment_def)
  have "after_slashes (Suc j + slashes X) sa = after_slashes (Suc j) (u @ s)"
    using after_slashes_add [of "slashes X" "Suc j" sa] u by (simp only: add.commute) simp
  then have "after_slashes (Suc j + slashes X) sa = after_slashes (Suc j) s" using u(2) by simp
  then show ?thesis using r by (auto simp: in_segment_def)
qed

section \<open>Tokens at a position of the pattern\<close>

text \<open>The pattern from \<open>gi\<close> on is the text of \<open>p\<close>.\<close>

definition at_pos :: "bytes \<Rightarrow> nat \<Rightarrow> gtok list \<Rightarrow> bool" where
  "at_pos glob gi p \<longleftrightarrow> gi \<le> length glob \<and> drop gi glob = glob_text p
     \<and> (toks_ok False p \<or> toks_ok True p \<and> (gi = 0 \<or> glob ! (gi - 1) = CHR ''/''))"

lemma toks_ok_True: "toks_ok False p \<Longrightarrow> toks_ok True p"
  by (cases "(False, p)" rule: toks_ok.cases) auto

lemma at_pos_length: "at_pos glob gi p \<Longrightarrow> length glob = gi + length (glob_text p)"
  unfolding at_pos_def by (metis le_add_diff_inverse length_drop)

lemma at_pos_nth: "at_pos glob gi p \<Longrightarrow> i < length (glob_text p) \<Longrightarrow> glob ! (gi + i) = glob_text p ! i"
  unfolding at_pos_def by (metis nth_drop)

lemma at_pos_less: "at_pos glob gi (t # p) \<Longrightarrow> gi < length glob"
  by (drule at_pos_length) (cases t; simp)

lemma at_pos_Nil: "at_pos glob gi [] \<longleftrightarrow> gi = length glob"
  by (auto simp: at_pos_def)

lemma at_pos_hd: "at_pos glob gi (t # p) \<Longrightarrow> glob ! gi = hd (tok_text t)"
  using at_pos_nth [of glob gi "t # p" 0] by (cases t) auto

lemma at_pos_ok: "at_pos glob gi p \<Longrightarrow> toks_ok True p"
  by (auto simp: at_pos_def toks_ok_True)

lemma at_pos_next:
  assumes "at_pos glob gi (t # p)"
  shows "at_pos glob (gi + length (tok_text t)) p"
proof -
  have d: "drop (gi + length (tok_text t)) glob = glob_text p"
    using assms unfolding at_pos_def by (metis append_eq_conv_conj drop_drop add.commute glob_text_simps(2))
  have l: "gi + length (tok_text t) \<le> length glob" using at_pos_length [OF assms] by simp
  have "toks_ok False p \<or> t = Lit (CHR ''/'') \<and> toks_ok True p" using at_pos_ok [OF assms]
    by (cases t) (auto, (metis (full_types))+)
  moreover have "t = Lit (CHR ''/'') \<Longrightarrow> glob ! gi = CHR ''/''" using at_pos_hd [OF assms] by (simp add: special_def)
  moreover have "t = Lit (CHR ''/'') \<Longrightarrow> length (tok_text t) = 1" by (simp add: special_def)
  ultimately show ?thesis using d l by (auto simp: at_pos_def)
qed

text \<open>No globstar inside a segment.\<close>

lemma star_no_globstar:
  "toks_ok b (Star # X @ p) \<Longrightarrow> \<forall>x \<in> set X. inseg x \<Longrightarrow> p = [] \<or> hd p \<noteq> Deep \<and> hd p \<noteq> Rest"
proof -
  assume ok: "toks_ok b (Star # X @ p)" and X: "\<forall>x \<in> set X. inseg x"
  have "toks_ok False (X @ p) \<Longrightarrow> \<forall>x \<in> set X. inseg x \<Longrightarrow> toks_ok False p"
  proof (induction X)
    case (Cons x X)
    then show ?case by (cases x) auto
  qed simp
  then have "toks_ok False p" using ok X by simp
  then show ?thesis by (cases "(False, p)" rule: toks_ok.cases) auto
qed

section \<open>Single rounds\<close>

lemma escaped_special: "special c \<Longrightarrow> escaped c = c"
  by (auto simp: special_def escaped_def)

lemma ascii_length: "ascii c \<Longrightarrow> wtf8_byte_sequence_length c = 1"
  by (simp add: ascii_def wtf8_length_ascii)

lemma retry_same: "same_places st st' \<Longrightarrow> retry path st' = retry path st"
  by (simp add: retry_def same_places_def)

lemma unescape_lit:
  assumes "at_pos glob gi (Lit c # p)"
  shows "unescape (glob ! gi) glob gi = Some (c, gi + length (tok_text (Lit c)) - 1)"
  using at_pos_hd [OF assms] at_pos_length [OF assms] at_pos_nth [OF assms, of 1]
  by (auto simp: unescape_def escaped_special) (auto simp: special_def)

lemma round_lit:
  assumes at: "at_pos glob (glob_index st) (Lit c # p)"
  shows "glob_round glob glob_start path stack st =
    (if path_index st < length path \<and> path ! path_index st = c
     then Some (Continue (st\<lparr>glob_index := glob_index st + length (tok_text (Lit c)), path_index := path_index st + 1,
            wild := (if c = CHR ''/'' then globstar st else wild st)\<rparr>))
     else Some (retry path st))"
proof -
  have c: "ascii c" using at_pos_ok [OF at] by simp
  have hd: "glob ! glob_index st = (if special c then CHR 0x5C else c)" using at_pos_hd [OF at] by simp
  have arm: "glob_arm_of glob glob_start path stack st = Some To_Else"
    unfolding glob_arm_of_def Let_def hd by (auto simp: special_def)
  have len: "glob_index st + length (tok_text (Lit c)) - 1 + 1 = glob_index st + length (tok_text (Lit c))" by simp
  have lit: "literal_arm glob path (glob ! glob_index st) st =
      (if path_index st < length path \<and> path ! path_index st = c
       then Continue (st\<lparr>glob_index := glob_index st + length (tok_text (Lit c)), path_index := path_index st + 1,
              wild := (if c = CHR ''/'' then globstar st else wild st)\<rparr>)
       else literal_arm glob path (glob ! glob_index st) st)"
    unfolding literal_arm_def unescape_lit [OF at]
    by (simp add: literal_matches_def ascii_length [OF c] is_separator_def Let_def)
  have fall: "\<exists>st'. literal_arm glob path (glob ! glob_index st) st = Fallthrough st' \<and> same_places st st'"
    if "\<not> (path_index st < length path \<and> path ! path_index st = c)"
    using that unfolding literal_arm_def unescape_lit [OF at]
    by (auto simp: literal_matches_def ascii_length [OF c] is_separator_def Let_def split: if_splits)
  show ?thesis
  proof (cases "path_index st < length path \<and> path ! path_index st = c")
    case True
    then show ?thesis using arm lit at_pos_less [OF at] by (simp add: glob_round_def Let_def)
  next
    case False
    then obtain st' where "literal_arm glob path (glob ! glob_index st) st = Fallthrough st'" "same_places st st'" using fall by blast
    then have "glob_round glob glob_start path stack st = Some (retry path st)"
      using arm at_pos_less [OF at] retry_same [of st st'] by (simp add: glob_round_def Let_def)
    then show ?thesis unfolding if_not_P [OF False] .
  qed
qed

lemma round_any:
  assumes at: "at_pos glob (glob_index st) (Any # p)" and "\<forall>c \<in> set path. ascii c"
  shows "glob_round glob glob_start path stack st =
    (if path_index st < length path \<and> path ! path_index st \<noteq> CHR ''/''
     then Some (Continue (st\<lparr>glob_index := glob_index st + 1, path_index := path_index st + 1\<rparr>))
     else Some (retry path st))"
  using at_pos_hd [OF at] at_pos_less [OF at] assms(2)
  by (auto simp: glob_round_def glob_arm_of_def question_arm_def literal_arm_def is_separator_def Let_def ascii_length)

lemma retry_end: "\<not> glob_index st < length glob \<Longrightarrow> glob_round glob glob_start path stack st = Some (retry path st)"
  by (simp add: glob_round_def)

lemma round_star:
  assumes at: "at_pos glob (glob_index st) (Star # p)" and path: "\<forall>c \<in> set path. ascii c" and pi: "path_index st \<le> length path"
  shows "glob_round glob glob_start path stack st =
    Some (Continue (st\<lparr>glob_index := glob_index st + 1,
      wild := (if path_index st < length path \<and> path ! path_index st = CHR ''/'' then globstar st
               else \<lparr>w_glob = glob_index st, w_path = path_index st + 1, w_depth = brace_depth st\<rparr>)\<rparr>))"
proof -
  have "p = [] \<or> hd p \<noteq> Star" "toks_ok False p" using at_pos_ok [OF at] by auto
  then have "p = [] \<or> hd (glob_text p) \<noteq> CHR ''*'' \<and> glob_text p \<noteq> []"
    by (cases "(False, p)" rule: toks_ok.cases) (auto simp: special_def)
  then have no: "\<not> (glob_index st + 1 < length glob \<and> glob ! (glob_index st + 1) = CHR ''*'')"
    using at_pos_length [OF at] at_pos_nth [OF at, of 1] by (auto simp: hd_conv_nth)
  have "star_wild path st = \<lparr>w_glob = glob_index st, w_path = path_index st + 1, w_depth = brace_depth st\<rparr>"
    using path by (simp add: star_wild_def ascii_length)
  then have "star_arm glob glob_start path st = Some (st\<lparr>glob_index := glob_index st + 1,
      wild := (if path_index st < length path \<and> path ! path_index st = CHR ''/'' then globstar st
               else \<lparr>w_glob = glob_index st, w_path = path_index st + 1, w_depth = brace_depth st\<rparr>)\<rparr>)"
    unfolding star_arm_def if_not_P [OF no] by (simp add: leave_segment_def is_separator_def)
  then show ?thesis using at_pos_hd [OF at] at_pos_less [OF at] by (simp add: glob_round_def glob_arm_of_def Let_def)
qed

lemma no_double_star: "toks_ok False p \<Longrightarrow> take 2 (glob_text p) \<noteq> ''**''"
proof (cases p)
  case (Cons t q)
  assume ok: "toks_ok False p"
  show ?thesis
  proof (cases "t = Star")
    case True
    then have "q = [] \<or> hd q \<noteq> Star" "toks_ok False q" using ok Cons by auto
    then have "q = [] \<or> hd (glob_text q) \<noteq> CHR ''*'' \<and> glob_text q \<noteq> []"
      by (cases "(False, q)" rule: toks_ok.cases) (auto simp: special_def)
    then show ?thesis using Cons True by (cases "glob_text q") auto
  next
    case False
    then show ?thesis using ok Cons by (cases t) (auto simp: special_def)
  qed
qed simp

lemma deep_position:
  assumes at: "at_pos glob gi (t # p)" and t: "t = Deep \<or> t = Rest"
  shows "stars_before glob (gi + 2)" "skip_globstars glob gi = gi" "is_whole_segment glob 0 (gi + 2) = Some True"
    "gi + 1 < length glob" "glob ! (gi + 1) = CHR ''*''" "glob ! gi = CHR ''*''"
proof -
  have len: "length glob = gi + length (tok_text t @ glob_text p)" using at_pos_length [OF at] by simp
  have nth: "glob ! (gi + i) = (tok_text t @ glob_text p) ! i" if "i < length (tok_text t)" for i
    using at_pos_nth [OF at, of i] that by simp
  show stars: "gi + 1 < length glob" "glob ! (gi + 1) = CHR ''*''" "glob ! gi = CHR ''*''"
    using len nth [of 0] nth [of 1] t by auto
  then show "stars_before glob (gi + 2)" using len t by (auto simp: stars_before_def)
  have start: "gi = 0 \<or> glob ! (gi - 1) = CHR ''/''" using at t by (auto simp: at_pos_def)
  have ok: "toks_ok False p" "t = Rest \<Longrightarrow> p = []" using at_pos_ok [OF at] t by auto
  have tail: "drop (gi + 2) glob = (if t = Deep then CHR ''/'' # glob_text p else [])"
  proof -
    have "drop (gi + 2) glob = drop 2 (drop gi glob)" by (simp add: add.commute)
    also have "drop gi glob = tok_text t @ glob_text p" using at by (simp add: at_pos_def)
    finally show ?thesis using t ok(2) by auto
  qed
  have no4: "take 4 (drop (gi + 2) glob) \<noteq> ''/**/''"
  proof
    assume "take 4 (drop (gi + 2) glob) = ''/**/''"
    then have "take 3 (glob_text p) = ''**/''" using tail by (auto split: if_splits simp: numeral_eq_Suc)
    moreover have "take 2 (glob_text p) = take 2 (take 3 (glob_text p))" by simp
    ultimately have "take 2 (glob_text p) = ''**''" by simp
    then show False using no_double_star [OF ok(1)] by simp
  qed
  have no3: "take 3 (drop (gi + 2) glob) \<noteq> ''/**''"
    using tail no_double_star [OF ok(1)] by (auto simp: numeral_eq_Suc)
  show "skip_globstars glob gi = gi"
    using no4 no3 by (simp add: skip_globstars_def Let_def globstars_loop.simps [of glob "Suc (Suc gi)"])
  show "is_whole_segment glob 0 (gi + 2) = Some True"
  proof (cases gi)
    case 0
    then show ?thesis using len t ok(2) nth [of 2] by (auto simp: is_whole_segment_def)
  next
    case (Suc g)
    then have "byte_at glob (gi + 2 - 3) = Some (CHR ''/'')" using start stars(1) by (simp add: byte_at_def)
    moreover have "gi + 2 < length glob \<Longrightarrow> glob ! (gi + 2) = CHR ''/''" using len t ok(2) nth [of 2] by auto
    ultimately show ?thesis using Suc by (simp add: is_whole_segment_def)
  qed
qed

lemma after_slash_sep_loop:
  "i \<le> length path \<Longrightarrow> after_slash (drop i path) =
     (if sep_loop path i < length path then Some (drop (sep_loop path i + 1) path) else None)"
proof (induction path i rule: sep_loop.induct)
  case (1 path i)
  show ?case
  proof (cases "i < length path")
    case True
    then have d: "drop i path = path ! i # drop (Suc i) path" by (simp add: Cons_nth_drop_Suc)
    show ?thesis
    proof (cases "path ! i = CHR ''/''")
      case True
      then have "sep_loop path i = i" by (subst sep_loop.simps) (simp add: is_separator_def)
      then show ?thesis using d True \<open>i < length path\<close> by simp
    next
      case False
      then have "sep_loop path i = sep_loop path (i + 1)"
        using \<open>i < length path\<close> by (subst sep_loop.simps) (simp add: is_separator_def)
      then show ?thesis using 1 d False \<open>i < length path\<close> by (simp add: is_separator_def)
    qed
  next
    case False
    then show ?thesis using 1(2) sep_loop_beyond [of path i] by simp
  qed
qed

lemma round_globstar:
  assumes at: "at_pos glob (glob_index st) (t # p)" and t: "t = Deep \<or> t = Rest"
    and path: "\<forall>c \<in> set path. ascii c" and pi: "path_index st \<le> length path"
  defines "st1 \<equiv> st\<lparr>wild := \<lparr>w_glob = glob_index st, w_path = path_index st + 1, w_depth = brace_depth st\<rparr>, glob_index := glob_index st + 2\<rparr>"
    and "e \<equiv> t = Deep"
  shows "glob_round glob 0 path stack st = Some (Continue
    (if e \<and> path_index st = length path \<and> p = [Star] then st1
     else skip_to_separator path e (if e then st1\<lparr>glob_index := glob_index st + 3\<rparr> else st1)))"
proof -
  define gi where "gi = glob_index st"
  note pos = deep_position [OF at t, folded gi_def]
  have ok: "toks_ok False p" "t = Rest \<Longrightarrow> p = []" using at_pos_ok [OF at] t by auto
  have len: "length glob = gi + length (tok_text t @ glob_text p)" using at_pos_length [OF at] by (simp add: gi_def)
  have e: "gi + 2 < length glob \<longleftrightarrow> e" using len t ok(2) by (auto simp: e_def)
  have "star_wild path (st\<lparr>glob_index := gi\<rparr>) = \<lparr>w_glob = gi, w_path = path_index st + 1, w_depth = brace_depth st\<rparr>"
    using path pi by (auto simp: star_wild_def ascii_length)
  then have st1: "st1 = (st\<lparr>glob_index := gi\<rparr>)\<lparr>wild := star_wild path (st\<lparr>glob_index := gi\<rparr>), glob_index := gi + 2\<rparr>"
    by (simp add: st1_def gi_def)
  have nth: "e \<Longrightarrow> glob ! (gi + 2) = CHR ''/''" "e \<Longrightarrow> glob_text p \<noteq> [] \<Longrightarrow> glob ! (gi + 3) = glob_text p ! 0"
    using at_pos_nth [OF at, of 2] at_pos_nth [OF at, of 3] by (auto simp: e_def gi_def)
  have quirk: "length glob - (gi + 2) = 2 \<and> glob ! (gi + 3) = CHR ''*'' \<longleftrightarrow> p = [Star]" if "e"
  proof
    assume *: "length glob - (gi + 2) = 2 \<and> glob ! (gi + 3) = CHR ''*''"
    then have "length (glob_text p) = 1" using len that by (simp add: e_def)
    then have "glob_text p = ''*''" using * nth(2) [OF that] by (cases "glob_text p") auto
    then show "p = [Star]" using ok(1) by (cases "(False, p)" rule: toks_ok.cases) (auto simp: special_def split: if_splits)
  next
    assume "p = [Star]"
    then show "length glob - (gi + 2) = 2 \<and> glob ! (gi + 3) = CHR ''*''" using len nth(2) that by (simp add: e_def)
  qed
  have "glob_index st + 1 < length glob \<and> glob ! (glob_index st + 1) = CHR ''*''" using pos by (simp add: gi_def)
  note arm = star_arm_double [OF this _ _ st1 _ pos(3), of e, folded gi_def, OF pos(2) [symmetric] refl e [symmetric]]
  have three: "gi + 2 + 1 = gi + 3" by simp
  have "star_arm glob 0 path st = Some (if e \<and> path_index st = length path \<and> p = [Star] then st1
     else skip_to_separator path e (if e then st1\<lparr>glob_index := gi + 3\<rparr> else st1))"
    unfolding arm three using quirk nth(1) by (cases e) (auto simp: is_separator_def)
  then show ?thesis using pos at_pos_less [OF at] by (simp add: glob_round_def glob_arm_of_def Let_def gi_def [symmetric])
qed

lemma round_deep:
  assumes at: "at_pos glob (glob_index st) (Deep # p)" and path: "\<forall>c \<in> set path. ascii c" and pi: "path_index st \<le> length path"
  shows "glob_round glob 0 path stack st = Some (Continue
    (if path_index st = length path then
       (if p = [Star]
        then st\<lparr>wild := \<lparr>w_glob = glob_index st, w_path = length path + 1, w_depth = brace_depth st\<rparr>, glob_index := glob_index st + 2\<rparr>
        else st\<lparr>wild := \<lparr>w_glob = glob_index st, w_path = length path + 2, w_depth = brace_depth st\<rparr>, glob_index := glob_index st + 3\<rparr>)
     else
       (let w = \<lparr>w_glob = glob_index st, w_path = sep_loop path (path_index st) + 1, w_depth = brace_depth st\<rparr>
        in st\<lparr>wild := w, globstar := w, glob_index := glob_index st + 3\<rparr>)))"
  unfolding round_globstar [OF at disjI1 [OF refl] path pi] by (simp add: skip_to_separator_def Let_def)

lemma round_rest:
  assumes at: "at_pos glob (glob_index st) [Rest]" and path: "\<forall>c \<in> set path. ascii c" and pi: "path_index st \<le> length path"
  shows "\<exists>i. (path_index st < length path \<longrightarrow> i \<le> length path \<and> 0 < i) \<and> glob_round glob 0 path stack st = Some (Continue
    (if path_index st = length path
     then st\<lparr>wild := \<lparr>w_glob = glob_index st, w_path = length path + 2, w_depth = brace_depth st\<rparr>, glob_index := glob_index st + 2\<rparr>
     else
       (let w = \<lparr>w_glob = glob_index st, w_path = i, w_depth = brace_depth st\<rparr>
        in st\<lparr>wild := w, globstar := w, glob_index := glob_index st + 2\<rparr>)))"
proof -
  define i where "i = (if sep_loop path (path_index st) \<noteq> length path then sep_loop path (path_index st) + 1 else sep_loop path (path_index st))"
  have "i \<le> length path \<and> 0 < i" if "path_index st < length path"
    using sep_loop_le [OF pi] sep_loop_ge [of "path_index st" path] that by (auto simp: i_def)
  moreover have "glob_round glob 0 path stack st = Some (Continue
    (if path_index st = length path
     then st\<lparr>wild := \<lparr>w_glob = glob_index st, w_path = length path + 2, w_depth = brace_depth st\<rparr>, glob_index := glob_index st + 2\<rparr>
     else
       (let w = \<lparr>w_glob = glob_index st, w_path = i, w_depth = brace_depth st\<rparr>
        in st\<lparr>wild := w, globstar := w, glob_index := glob_index st + 2\<rparr>)))"
    unfolding round_globstar [OF at disjI2 [OF refl] path pi] by (simp add: skip_to_separator_def Let_def i_def)
  ultimately show ?thesis by blast
qed

end
