(* ===== verification/Glob_Spec.thy ===== *)
theory Glob_Spec
  imports Glob_Tokens
begin

text \<open>
  The matcher of the code computes the matcher \<open>gmatch\<close>, and on all but the paths with an empty last
  segment the meaning \<open>glob_means\<close> of the pattern.  The simulation \<open>glob_sim\<close> says what a state of
  the main loop still promises: the answer is that of the rest of the pattern, or of the pattern from the
  wildcard, or from the globstar.  Every round keeps it.
\<close>

section \<open>The simulation\<close>

text \<open>
  What the globstar stands for: whether \<open>gmatch\<close> would accept from it.  \<open>X\<close> are the tokens
  between the globstar and the current position, \<open>sa\<close> is the path where it was tried last.
\<close>

inductive globstar_alt :: "bytes \<Rightarrow> bytes \<Rightarrow> wildcard_state \<Rightarrow> gtok list \<Rightarrow> bytes \<Rightarrow> bool \<Rightarrow> bool" for glob path G p s where
  unset: "w_path G = 0 \<Longrightarrow> \<not> alt \<Longrightarrow> globstar_alt glob path G p s alt"
| deep: "0 < w_path G \<Longrightarrow> at_pos glob (w_glob G) (Deep # X @ p) \<Longrightarrow> \<forall>x \<in> set X. plain x
    \<Longrightarrow> after_slash sa = (if w_path G \<le> length path then Some (drop (w_path G) path) else None)
    \<Longrightarrow> in_segment sa (slashes X) s \<Longrightarrow> (p \<noteq> [] \<and> hd p = Deep \<longrightarrow> after_slashes (slashes X) sa = Some s)
    \<Longrightarrow> alt = (w_path G \<le> length path \<and> gmatch (Deep # X @ p) (drop (w_path G) path))
    \<Longrightarrow> globstar_alt glob path G p s alt"
| rest: "0 < w_path G \<Longrightarrow> w_path G \<le> length path \<Longrightarrow> at_pos glob (w_glob G) [Rest] \<Longrightarrow> p = [] \<Longrightarrow> alt
    \<Longrightarrow> globstar_alt glob path G p s alt"

text \<open>The same for the wildcard; all tokens behind it lie in its segment.\<close>

definition wild_alt :: "bytes \<Rightarrow> bytes \<Rightarrow> wildcard_state \<Rightarrow> gtok list \<Rightarrow> gtok list \<Rightarrow> bytes \<Rightarrow> bytes \<Rightarrow> bool" where
  "wild_alt glob path W X p v s \<longleftrightarrow> at_pos glob (w_glob W) (Star # X @ p) \<and> (\<forall>x \<in> set X. inseg x)
     \<and> 0 < w_path W \<and> w_path W \<le> length path \<and> drop (w_path W - 1) path = v @ s \<and> length v = length X
     \<and> CHR ''/'' \<notin> set v \<and> path ! (w_path W - 1) \<noteq> CHR ''/''"

text \<open>
  The states in which the answer is still \<open>v0\<close>: no wildcard besides the globstar; a wildcard; nothing to
  go back to at the end of the path; back at the globstar; and the end of the path in a trailing \<open>**/*\<close>.
\<close>

inductive glob_sim :: "bytes \<Rightarrow> bytes \<Rightarrow> bool \<Rightarrow> glob_state \<Rightarrow> bool" for glob path v0 where
  free: "at_pos glob (glob_index st) p \<Longrightarrow> path_index st \<le> length path \<Longrightarrow> wild st = globstar st \<or> p \<noteq> [] \<and> hd p = Star
    \<Longrightarrow> globstar_alt glob path (globstar st) p (drop (path_index st) path) ga
    \<Longrightarrow> v0 = (gmatch p (drop (path_index st) path) \<or> ga) \<Longrightarrow> glob_sim glob path v0 st"
| wild: "at_pos glob (glob_index st) p \<Longrightarrow> path_index st \<le> length path
    \<Longrightarrow> wild_alt glob path (wild st) X p v (drop (path_index st) path)
    \<Longrightarrow> globstar_alt glob path (globstar st) (Star # X @ p) (v @ drop (path_index st) path) ga
    \<Longrightarrow> v0 = (gmatch p (drop (path_index st) path) \<or> gmatch (Star # X @ p) (drop (w_path (wild st)) path) \<or> ga)
    \<Longrightarrow> glob_sim glob path v0 st"
| dead: "at_pos glob (glob_index st) p \<Longrightarrow> path_index st = length path \<Longrightarrow> length path < w_path (wild st)
    \<Longrightarrow> v0 = gmatch p [] \<Longrightarrow> glob_sim glob path v0 st"
| again: "at_pos glob (glob_index st) p \<Longrightarrow> path_index st \<le> length path \<Longrightarrow> wild st = globstar st
    \<Longrightarrow> p \<noteq> [] \<Longrightarrow> hd p = Deep \<or> hd p = Rest \<Longrightarrow> v0 = gmatch p (drop (path_index st) path) \<Longrightarrow> glob_sim glob path v0 st"
| doomed: "glob_index st < length glob \<Longrightarrow> glob ! glob_index st = CHR ''/'' \<Longrightarrow> path_index st = length path
    \<Longrightarrow> length path < w_path (wild st) \<Longrightarrow> \<not> v0 \<Longrightarrow> glob_sim glob path v0 st"

text \<open>How the alternative of the globstar is carried along.\<close>

lemma globstar_alt_skip:
  assumes "globstar_alt glob path G p (w @ s) ga" and "CHR ''/'' \<notin> set w" and "p \<noteq> []" and "hd p \<noteq> Deep"
  shows "globstar_alt glob path G p s ga"
  using assms(1)
proof cases
  case unset
  then show ?thesis by (rule globstar_alt.unset)
next
  case (deep X sa)
  then show ?thesis using in_segment_skip [OF deep(5) assms(2)] assms(3,4) by (intro globstar_alt.deep [of G glob X p sa]) auto
qed (use assms(3) in simp)

lemma globstar_alt_advance:
  assumes "globstar_alt glob path G (t # p) (c # s) ga" and t: "t = Lit c \<or> t = Any \<and> c \<noteq> CHR ''/''"
  shows "globstar_alt glob path G p s ga"
  using assms(1)
proof cases
  case unset
  then show ?thesis by (rule globstar_alt.unset)
next
  case (deep X sa)
  have seg: "in_segment sa (slashes (X @ [t])) s" using in_segment_step [OF deep(5)] t by (auto split: if_splits)
  have exact: "after_slashes (slashes (X @ [t])) sa = Some s" if "c = CHR ''/''" "t = Lit c"
    using deep(5) that after_slashes_add [of "slashes X" 1 sa] by (auto simp: in_segment_def)
  have "toks_ok True (Deep # X @ t # p)" using at_pos_ok [OF deep(2)] by simp
  then have "toks_ok False (X @ t # p)" by simp
  moreover have "toks_ok b (X @ t # p) \<Longrightarrow> \<exists>b. toks_ok b (t # p)" for b
  proof (induction X arbitrary: b)
    case (Cons x X)
    then show ?case by (cases x) auto
  qed auto
  ultimately have "p \<noteq> [] \<and> hd p = Deep \<Longrightarrow> c = CHR ''/'' \<and> t = Lit c"
    using t by (cases p) (fastforce+)
  then show ?thesis using deep t seg exact by (intro globstar_alt.deep [of G glob "X @ [t]" p sa]) auto
qed simp

lemma globstar_alt_star:
  assumes "globstar_alt glob path G (Star # p) s ga" and "p = [] \<or> hd p \<noteq> Deep"
  shows "globstar_alt glob path G p s ga"
  using assms(1)
proof cases
  case unset
  then show ?thesis by (rule globstar_alt.unset)
next
  case (deep X sa)
  then show ?thesis using assms(2) by (intro globstar_alt.deep [of G glob "X @ [Star]" p sa]) auto
qed simp

lemma inseg_plain: "inseg x \<Longrightarrow> plain x" "inseg x \<Longrightarrow> x \<noteq> Lit (CHR ''/'')"
  by (cases x; simp)+

lemma slashes_inseg: "\<forall>x \<in> set X. inseg x \<Longrightarrow> slashes X = 0"
  by (induction X) (auto simp: inseg_plain)

lemma globstar_alt_wild:
  assumes "globstar_alt glob path G (Star # X @ p) (v @ s) ga" and "\<forall>x \<in> set X. inseg x" and "CHR ''/'' \<notin> set v"
    and "p = [] \<or> hd p \<noteq> Deep"
  shows "globstar_alt glob path G p s ga"
proof -
  have "globstar_alt glob path G (Star # X @ p) s ga" using globstar_alt_skip [OF assms(1,3)] by simp
  then show ?thesis
  proof cases
    case unset
    then show ?thesis by (rule globstar_alt.unset)
  next
    case (deep Y sa)
    then show ?thesis using assms(2,4) slashes_inseg [OF assms(2)]
      by (intro globstar_alt.deep [of G glob "Y @ Star # X" p sa]) (auto simp: inseg_plain)
  qed simp
qed

text \<open>At the end of the path the globstar has nothing more to offer.\<close>

lemma globstar_alt_end:
  assumes "globstar_alt glob path G (t # p) [] ga"
  shows "\<not> ga"
  using assms
proof cases
  case (deep X sa)
  show ?thesis
  proof
    assume ga
    with deep obtain j r where "in_segment [] (Suc j) r" using later_globstar [of X "t # p" "drop (w_path G) path" sa "[]"] by auto
    then show False by (simp add: in_segment_def)
  qed
qed simp_all

lemma toks_ok_slash_before_deep: "toks_ok False (X @ Deep # p) \<Longrightarrow> \<exists>Y. X = Y @ [Lit (CHR ''/'')]"
proof -
  have "toks_ok b (X @ Deep # p) \<Longrightarrow> X = [] \<and> b \<or> (\<exists>Y. X = Y @ [Lit (CHR ''/'')])" for b
  proof (induction X arbitrary: b)
    case (Cons x X)
    then show ?case by (cases x) (auto, force+)
  qed simp
  then show "toks_ok False (X @ Deep # p) \<Longrightarrow> \<exists>Y. X = Y @ [Lit (CHR ''/'')]" by blast
qed

text \<open>At the next globstar the old one is not needed any more.\<close>

lemma globstar_alt_deep:
  assumes "globstar_alt glob path G (Deep # p) s ga" and ga
  shows "gmatch (Deep # p) s"
  using assms(1)
proof cases
  case (deep X sa)
  have "toks_ok False (X @ Deep # p)" using at_pos_ok [OF deep(2)] by simp
  then obtain Y where X: "X = Y @ [Lit (CHR ''/'')]" using toks_ok_slash_before_deep by blast
  have "after_slashes (slashes Y + 1) sa = Some s" using deep(6) X by simp
  then obtain s1 where s1: "after_slashes (slashes Y) sa = Some s1" "after_slash s1 = Some s"
    using after_slashes_add [of "slashes Y" 1 sa] by (auto split: option.splits)
  then have seg: "in_segment sa (slashes Y) s1" by (auto simp: in_segment_def intro!: exI [of _ "[]"])
  have "gmatch (Deep # Y @ Lit (CHR ''/'') # Deep # p) (drop (w_path G) path)" "after_slash sa = Some (drop (w_path G) path)"
    using deep(4,7) assms(2) X by auto
  then obtain j r where "in_segment s1 (Suc j) r" "gmatch (Lit (CHR ''/'') # Deep # p) r"
    using later_globstar [OF _ _ _ seg] deep(3) X by (metis UnI1 set_append)
  then obtain u r' where r: "after_slashes (Suc j) s1 = Some (u @ CHR ''/'' # r')" "CHR ''/'' \<notin> set u" "gmatch (Deep # p) r'"
    by (auto simp: in_segment_def split: list.splits)
  have "after_slashes (Suc j + 1) s1 = Some r'" using after_slashes_add [of "Suc j" 1 s1] r by simp
  then have "after_slashes (Suc j) s = Some r'" using s1(2) by simp
  then show ?thesis using gmatch_deep_later r(3) by blast
qed (use assms(2) in simp_all)

section \<open>The simulation is preserved\<close>

definition sim_arm :: "bytes \<Rightarrow> bytes \<Rightarrow> bool \<Rightarrow> glob_arm \<Rightarrow> bool" where
  "sim_arm glob path v0 arm \<longleftrightarrow>
     (case arm of Continue st' \<Rightarrow> glob_sim glob path v0 st' | Return b \<Rightarrow> b = v0 | _ \<Rightarrow> False)"

lemma free_retry:
  assumes "wild st = globstar st" and "globstar_alt glob path (globstar st) p s v0"
  shows "sim_arm glob path v0 (retry path st)"
  using assms(2)
proof cases
  case unset
  then show ?thesis using assms(1) by (simp add: retry_def sim_arm_def)
next
  case (deep X sa)
  show ?thesis
  proof (cases "w_path (globstar st) \<le> length path")
    case True
    then show ?thesis
      using deep assms(1) by (auto simp: retry_def sim_arm_def intro!: glob_sim.again [where p = "Deep # X @ p"])
  qed (use deep assms(1) in \<open>simp add: retry_def sim_arm_def\<close>)
next
  case rest
  then show ?thesis using assms(1) by (auto simp: retry_def sim_arm_def intro!: glob_sim.again [where p = "[Rest]"])
qed

lemma wild_retry:
  assumes w: "wild_alt glob path (wild st) X p v s"
    and alt: "globstar_alt glob path (globstar st) (Star # X @ p) (v @ s) ga"
    and v0: "v0 = (gmatch (Star # X @ p) (drop (w_path (wild st)) path) \<or> ga)"
  shows "sim_arm glob path v0 (retry path st)"
proof -
  let ?w = "w_path (wild st)"
  have b: "0 < ?w" "?w \<le> length path" "v @ s = drop (?w - 1) path" "path ! (?w - 1) \<noteq> CHR ''/''"
    and at: "at_pos glob (w_glob (wild st)) (Star # X @ p)"
    using w by (auto simp: wild_alt_def)
  have "drop (?w - 1) path = [path ! (?w - 1)] @ drop ?w path" using b(1,2) Cons_nth_drop_Suc [of "?w - 1" path] by simp
  then have "globstar_alt glob path (globstar st) (Star # X @ p) (drop ?w path) ga"
    using globstar_alt_skip [of glob path "globstar st" "Star # X @ p" "[path ! (?w - 1)]"] alt b by simp
  then have "glob_sim glob path v0 (backtrack st)" using at b v0 by (intro glob_sim.free [where p = "Star # X @ p"]) auto
  then show ?thesis using b by (simp add: retry_def sim_arm_def)
qed

lemma dead_retry: "length path < w_path (wild st) \<Longrightarrow> \<not> v0 \<Longrightarrow> sim_arm glob path v0 (retry path st)"
  by (simp add: retry_def sim_arm_def)

text \<open>A wildcard moves along with a token of its segment.\<close>

lemma wild_alt_advance:
  assumes "wild_alt glob path W X (t # p) v (c # s)" and "inseg t" and "c \<noteq> CHR ''/''"
  shows "wild_alt glob path W (X @ [t]) p (v @ [c]) s"
  using assms by (auto simp: wild_alt_def)

lemma wild_alt_later:
  assumes w: "wild_alt glob path W X p v s" and "gmatch (Star # X @ p) (drop (w_path W) path)"
  shows "\<exists>w r. s = w @ r \<and> CHR ''/'' \<notin> set w \<and> gmatch p r"
proof -
  let ?sw = "drop (w_path W - 1) path"
  have sw: "?sw = path ! (w_path W - 1) # drop (w_path W) path" using w Cons_nth_drop_Suc [of "w_path W - 1" path] by (auto simp: wild_alt_def)
  then have "tl ?sw = drop (w_path W) path" "hd ?sw = path ! (w_path W - 1)" "?sw \<noteq> []" by simp_all
  then have 1: "gmatch (Star # X @ p) (tl ?sw)" "hd ?sw \<noteq> CHR ''/''" "?sw \<noteq> []" using assms(2) w by (auto simp: wild_alt_def)
  have 2: "\<forall>x \<in> set X. inseg x" "?sw = v @ s" "length v = length X" "CHR ''/'' \<notin> set v" using w by (auto simp: wild_alt_def)
  show ?thesis by (rule later_star [OF 1(1) 2 1(3,2)])
qed

lemma wild_alt_hd: "wild_alt glob path W X p v s \<Longrightarrow> p = [] \<or> hd p \<noteq> Deep \<and> hd p \<noteq> Rest"
  using star_no_globstar at_pos_ok unfolding wild_alt_def by blast

text \<open>The tokens that consume one byte.\<close>

lemma consume_free:
  assumes at: "at_pos glob (glob_index st) (t # p)" and s: "drop (path_index st) path = c # s" and t: "t = Lit c \<or> t = Any \<and> c \<noteq> CHR ''/''"
    and alt: "globstar_alt glob path (globstar st) (t # p) (c # s) ga" and v0: "v0 = (gmatch p s \<or> ga)"
    and st': "glob_index st' = glob_index st + length (tok_text t)" "path_index st' = path_index st + 1" "wild st' = globstar st" "globstar st' = globstar st"
  shows "glob_sim glob path v0 st'"
proof (rule glob_sim.free)
  have n: "path_index st < length path" using s by (metis drop_eq_Nil list.distinct(1) not_le)
  then have d: "drop (path_index st') path = s" using s st' by (metis Cons_nth_drop_Suc Suc_eq_plus1 list.inject)
  show "at_pos glob (glob_index st') p" using at_pos_next [OF at] st' by simp
  show "path_index st' \<le> length path" using n st' by simp
  show "wild st' = globstar st' \<or> p \<noteq> [] \<and> hd p = Star" using st' by simp
  show "globstar_alt glob path (globstar st') p (drop (path_index st') path) ga" using globstar_alt_advance [OF alt t] d st' by simp
  show "v0 = (gmatch p (drop (path_index st') path) \<or> ga)" using v0 d by simp
qed

lemma consume_wild:
  assumes at: "at_pos glob (glob_index st) (t # p)" and s: "drop (path_index st) path = c # s" and t: "inseg t" "c \<noteq> CHR ''/''"
    and w: "wild_alt glob path (wild st) X (t # p) v (c # s)"
    and alt: "globstar_alt glob path (globstar st) (Star # X @ t # p) (v @ c # s) ga"
    and v0: "v0 = (gmatch p s \<or> gmatch (Star # X @ t # p) (drop (w_path (wild st)) path) \<or> ga)"
    and st': "glob_index st' = glob_index st + length (tok_text t)" "path_index st' = path_index st + 1" "wild st' = wild st" "globstar st' = globstar st"
  shows "glob_sim glob path v0 st'"
proof (rule glob_sim.wild)
  have n: "path_index st < length path" using s by (metis drop_eq_Nil list.distinct(1) not_le)
  then have d: "drop (path_index st') path = s" using s st' by (metis Cons_nth_drop_Suc Suc_eq_plus1 list.inject)
  show "at_pos glob (glob_index st') p" using at_pos_next [OF at] st' by simp
  show "path_index st' \<le> length path" using n st' by simp
  show "wild_alt glob path (wild st') (X @ [t]) p (v @ [c]) (drop (path_index st') path)"
    using wild_alt_advance [OF w t] d st' by simp
  show "globstar_alt glob path (globstar st') (Star # (X @ [t]) @ p) ((v @ [c]) @ drop (path_index st') path) ga" using alt d st' by simp
  show "v0 = (gmatch p (drop (path_index st') path) \<or> gmatch (Star # (X @ [t]) @ p) (drop (w_path (wild st')) path) \<or> ga)"
    using v0 d st' by simp
qed

lemma drop_split: "i \<le> length xs \<Longrightarrow> (i = length xs \<and> drop i xs = []) \<or> (i < length xs \<and> drop i xs = xs ! i # drop (i + 1) xs)"
  using Cons_nth_drop_Suc [of i xs] by (cases "i < length xs") auto

lemma round_consume:
  assumes at: "at_pos glob (glob_index st) (t # p)" and t: "t = Lit d \<or> t = Any" and path: "\<forall>c \<in> set path. ascii c"
    and pi: "path_index st \<le> length path"
  obtains (consumed) c s st' where "drop (path_index st) path = c # s" "t = Lit c \<or> t = Any \<and> c \<noteq> CHR ''/''"
      "glob_round glob 0 path stack st = Some (Continue st')" "glob_index st' = glob_index st + length (tok_text t)"
      "path_index st' = path_index st + 1" "globstar st' = globstar st"
      "wild st' = (if t = Lit (CHR ''/'') then globstar st else wild st)"
      "gmatch (t # p) (drop (path_index st) path) = gmatch p s"
  | (refused) "glob_round glob 0 path stack st = Some (retry path st)" "\<not> gmatch (t # p) (drop (path_index st) path)"
proof (cases "path_index st < length path \<and> (t = Lit (path ! path_index st) \<or> t = Any \<and> path ! path_index st \<noteq> CHR ''/'')")
  case True
  let ?c = "path ! path_index st"
  have s: "drop (path_index st) path = ?c # drop (path_index st + 1) path" using drop_split [OF pi] True by auto
  show ?thesis
  proof (cases t)
    case (Lit c)
    then have eq: "glob_round glob 0 path stack st =
        Some (Continue (st\<lparr>glob_index := glob_index st + length (tok_text t), path_index := path_index st + 1,
            wild := (if t = Lit (CHR ''/'') then globstar st else wild st)\<rparr>))"
      using round_lit [of glob st c p 0 path stack] at True by auto
    show ?thesis by (rule consumed [OF s _ eq]) (use Lit True s in auto)
  next
    case Any
    then have eq: "glob_round glob 0 path stack st = Some (Continue (st\<lparr>glob_index := glob_index st + 1, path_index := path_index st + 1\<rparr>))"
      using round_any [of glob st p path 0 stack] at path True by auto
    show ?thesis by (rule consumed [OF s _ eq]) (use Any True s in auto)
  qed (use t in auto)
next
  case False
  have "glob_round glob 0 path stack st = Some (retry path st)"
  proof (cases "t = Any")
    case True
    then show ?thesis using False at path round_any [of glob st p path 0 stack] by auto
  next
    case False
    then have "t = Lit d" using t by blast
    then show ?thesis using \<open>\<not> (path_index st < length path \<and> _)\<close> at round_lit [of glob st d p 0 path stack] by auto
  qed
  moreover have "\<not> gmatch (t # p) (drop (path_index st) path)"
    using drop_split [OF pi] False t by auto
  ultimately show ?thesis by (rule refused)
qed

definition round_sim :: "bytes \<Rightarrow> bytes \<Rightarrow> brace list \<Rightarrow> bool \<Rightarrow> glob_state \<Rightarrow> bool" where
  "round_sim glob path stack v0 st \<longleftrightarrow> (\<exists>arm. glob_round glob 0 path stack st = Some arm \<and> sim_arm glob path v0 arm)"

lemma round_simI: "glob_round glob 0 path stack st = Some arm \<Longrightarrow> sim_arm glob path v0 arm \<Longrightarrow> round_sim glob path stack v0 st"
  by (auto simp: round_sim_def)

lemma sim_arm_Continue [simp]: "sim_arm glob path v0 (Continue st) = glob_sim glob path v0 st"
  by (simp add: sim_arm_def)

lemma free_consume:
  assumes at: "at_pos glob (glob_index st) (t # p)" and t: "t = Lit d \<or> t = Any" and path: "\<forall>c \<in> set path. ascii c"
    and pi: "path_index st \<le> length path" and W: "wild st = globstar st"
    and alt: "globstar_alt glob path (globstar st) (t # p) (drop (path_index st) path) ga"
    and v0: "v0 = (gmatch (t # p) (drop (path_index st) path) \<or> ga)"
  shows "round_sim glob path stack v0 st"
  using at t path pi
proof (cases rule: round_consume [where stack = stack])
  case (consumed c s st')
  have "glob_sim glob path v0 st'"
    using consumed alt v0 W by (intro consume_free [OF at consumed(1,2)]) auto
  then show ?thesis using consumed by (auto intro: round_simI)
next
  case refused
  then show ?thesis using free_retry [OF W] alt v0 by (auto intro: round_simI)
qed

lemma wild_consume:
  assumes at: "at_pos glob (glob_index st) (t # p)" and t: "t = Lit d \<or> t = Any" and path: "\<forall>c \<in> set path. ascii c"
    and pi: "path_index st \<le> length path" and w: "wild_alt glob path (wild st) X (t # p) v (drop (path_index st) path)"
    and alt: "globstar_alt glob path (globstar st) (Star # X @ t # p) (v @ drop (path_index st) path) ga"
    and v0: "v0 = (gmatch (t # p) (drop (path_index st) path) \<or> gmatch (Star # X @ t # p) (drop (w_path (wild st)) path) \<or> ga)"
  shows "round_sim glob path stack v0 st"
  using at t path pi
proof (cases rule: round_consume [where stack = stack])
  case (consumed c s st')
  have "glob_sim glob path v0 st'"
  proof (cases "c = CHR ''/''")
    case True
    then have t': "t = Lit (CHR ''/'')" using consumed(2) by simp
    have "gmatch (Star # X @ t # p) (drop (w_path (wild st)) path) \<Longrightarrow> gmatch p s"
      using wild_alt_later [OF w] later_star_slash [of s] consumed(1) True t' by auto
    then have v0': "v0 = (gmatch p s \<or> ga)" using v0 consumed(8) by blast
    have "globstar_alt glob path (globstar st) (t # p) (drop (path_index st) path) ga"
      using globstar_alt_wild [OF alt] w t' by (auto simp: wild_alt_def)
    then show ?thesis using consumed v0' t' by (intro consume_free [OF at consumed(1,2)]) auto
  next
    case False
    then have t': "inseg t" "t \<noteq> Lit (CHR ''/'')" using consumed(2) by auto
    then show ?thesis
      using consumed w alt v0 False by (intro consume_wild [OF at consumed(1) t'(1) False, of X v]) auto
  qed
  then show ?thesis using consumed by (auto intro: round_simI)
next
  case refused
  then show ?thesis using wild_retry [OF w] alt v0 by (auto intro: round_simI)
qed

text \<open>The arm \<open>*\<close>: a new wildcard replaces the old one.\<close>

lemma star_step:
  assumes at: "at_pos glob (glob_index st) (Star # p)" and path: "\<forall>c \<in> set path. ascii c" and pi: "path_index st \<le> length path"
    and alt: "globstar_alt glob path (globstar st) (Star # p) (drop (path_index st) path) ga"
    and v0: "v0 = (gmatch (Star # p) (drop (path_index st) path) \<or> ga)"
  shows "round_sim glob path stack v0 st"
proof (rule round_simI [OF round_star [OF at path pi]])
  let ?st = "st\<lparr>glob_index := glob_index st + 1,
      wild := (if path_index st < length path \<and> path ! path_index st = CHR ''/'' then globstar st
               else \<lparr>w_glob = glob_index st, w_path = path_index st + 1, w_depth = brace_depth st\<rparr>)\<rparr>"
  have at': "at_pos glob (glob_index st + 1) p" using at_pos_next [OF at] by simp
  have hd: "p = [] \<or> hd p \<noteq> Deep" using star_no_globstar [of True "[]" p] at_pos_ok [OF at] by auto
  note alt' = globstar_alt_star [OF alt hd]
  from drop_split [OF pi] show "sim_arm glob path v0 (Continue ?st)" unfolding sim_arm_Continue
  proof (elim disjE conjE)
    assume "path_index st = length path" "drop (path_index st) path = []"
    then show "glob_sim glob path v0 ?st"
      using at' v0 globstar_alt_end [of glob path "globstar st" Star p ga] alt by (intro glob_sim.dead [of glob ?st p]) auto
  next
    assume n: "path_index st < length path" and s: "drop (path_index st) path = path ! path_index st # drop (path_index st + 1) path"
    show "glob_sim glob path v0 ?st"
    proof (cases "path ! path_index st = CHR ''/''")
      case True
      then show ?thesis using at' n s v0 alt' by (intro glob_sim.free [of glob ?st p]) auto
    next
      case False
      have "wild_alt glob path \<lparr>w_glob = glob_index st, w_path = path_index st + 1, w_depth = brace_depth st\<rparr> [] p [] (drop (path_index st) path)"
        using at n False by (simp add: wild_alt_def)
      moreover have "v0 = (gmatch p (drop (path_index st) path) \<or> gmatch (Star # p) (drop (path_index st + 1) path) \<or> ga)"
        using v0 s False by auto
      ultimately show ?thesis using at' n False alt by (intro glob_sim.wild [of glob ?st p path "[]" "[]" ga]) auto
    qed
  qed
qed

lemma wild_star:
  assumes at: "at_pos glob (glob_index st) (Star # p)" and path: "\<forall>c \<in> set path. ascii c" and pi: "path_index st \<le> length path"
    and w: "wild_alt glob path (wild st) X (Star # p) v (drop (path_index st) path)"
    and alt: "globstar_alt glob path (globstar st) (Star # X @ Star # p) (v @ drop (path_index st) path) ga"
    and v0: "v0 = (gmatch (Star # p) (drop (path_index st) path) \<or> gmatch (Star # X @ Star # p) (drop (w_path (wild st)) path) \<or> ga)"
  shows "round_sim glob path stack v0 st"
proof (rule star_step [OF at path pi])
  show "globstar_alt glob path (globstar st) (Star # p) (drop (path_index st) path) ga"
    using globstar_alt_wild [OF alt] w by (auto simp: wild_alt_def)
  have "gmatch (Star # X @ Star # p) (drop (w_path (wild st)) path) \<Longrightarrow> gmatch (Star # p) (drop (path_index st) path)"
    using wild_alt_later [OF w] later_star_star by blast
  then show "v0 = (gmatch (Star # p) (drop (path_index st) path) \<or> ga)" using v0 by blast
qed

text \<open>A globstar: the place it is tried from, and the place it is tried from next.\<close>

lemma deep_step:
  assumes at: "at_pos glob (glob_index st) (Deep # p)" and path: "\<forall>c \<in> set path. ascii c" and pi: "path_index st \<le> length path"
    and v0: "v0 = gmatch (Deep # p) (drop (path_index st) path)"
  shows "round_sim glob path stack v0 st"
proof (rule round_simI [OF round_deep [OF at path pi]], unfold sim_arm_Continue)
  have at': "at_pos glob (glob_index st + 3) p" using at_pos_next [OF at] by (simp add: numeral_3_eq_3)
  have slash: "glob_index st + 2 < length glob" "glob ! (glob_index st + 2) = CHR ''/''"
    using at_pos_length [OF at] at_pos_nth [OF at, of 2] by simp_all
  from drop_split [OF pi] show "glob_sim glob path v0 (if path_index st = length path then
       (if p = [Star]
        then st\<lparr>wild := \<lparr>w_glob = glob_index st, w_path = length path + 1, w_depth = brace_depth st\<rparr>, glob_index := glob_index st + 2\<rparr>
        else st\<lparr>wild := \<lparr>w_glob = glob_index st, w_path = length path + 2, w_depth = brace_depth st\<rparr>, glob_index := glob_index st + 3\<rparr>)
     else
       (let w = \<lparr>w_glob = glob_index st, w_path = sep_loop path (path_index st) + 1, w_depth = brace_depth st\<rparr>
        in st\<lparr>wild := w, globstar := w, glob_index := glob_index st + 3\<rparr>))"
  proof (elim disjE conjE)
    assume n: "path_index st = length path" and s: "drop (path_index st) path = []"
    have v: "v0 = (p \<noteq> [Star] \<and> gmatch p [])" using v0 s by (auto simp: gmatch.simps(5))
    show ?thesis
    proof (cases "p = [Star]")
      case True
      then show ?thesis using n slash v by (auto intro!: glob_sim.doomed)
    next
      case False
      then show ?thesis using n at' v by (auto intro!: glob_sim.dead [of glob _ p])
    qed
  next
    assume n: "path_index st < length path" and s: "drop (path_index st) path = path ! path_index st # drop (path_index st + 1) path"
    let ?s = "drop (path_index st) path"
    let ?w = "\<lparr>w_glob = glob_index st, w_path = sep_loop path (path_index st) + 1, w_depth = brace_depth st\<rparr>"
    let ?ga = "w_path ?w \<le> length path \<and> gmatch (Deep # p) (drop (w_path ?w) path)"
    have after: "after_slash ?s = (if w_path ?w \<le> length path then Some (drop (w_path ?w) path) else None)"
      using after_slash_sep_loop [OF pi] by auto
    have hd: "p = [] \<or> hd p \<noteq> Deep" using at_pos_ok [OF at] by (cases "(False, p)" rule: toks_ok.cases) auto
    have "globstar_alt glob path ?w p ?s ?ga"
      using at hd after by (intro globstar_alt.deep [of ?w glob "[]" p ?s]) (auto simp: in_segment_def)
    moreover have "v0 = (gmatch p ?s \<or> ?ga)" using v0 after s by (subst (asm) gmatch.simps) auto
    ultimately show ?thesis using n at' by (auto simp: Let_def intro!: glob_sim.free [of glob _ p path ?ga])
  qed
qed

lemma rest_step:
  assumes at: "at_pos glob (glob_index st) [Rest]" and path: "\<forall>c \<in> set path. ascii c" and pi: "path_index st \<le> length path" and v0: v0
  shows "round_sim glob path stack v0 st"
proof -
  obtain i where i: "path_index st < length path \<longrightarrow> i \<le> length path \<and> 0 < i"
    and round: "glob_round glob 0 path stack st = Some (Continue
      (if path_index st = length path
       then st\<lparr>wild := \<lparr>w_glob = glob_index st, w_path = length path + 2, w_depth = brace_depth st\<rparr>, glob_index := glob_index st + 2\<rparr>
       else
         (let w = \<lparr>w_glob = glob_index st, w_path = i, w_depth = brace_depth st\<rparr>
          in st\<lparr>wild := w, globstar := w, glob_index := glob_index st + 2\<rparr>)))"
    using round_rest [OF at path pi] by blast
  have at': "at_pos glob (glob_index st + 2) []" using at_pos_next [OF at] by simp
  show ?thesis
  proof (cases "path_index st = length path")
    case True
    then show ?thesis using at' v0 by (intro round_simI [OF round]) (auto intro!: glob_sim.dead [of glob _ "[]"])
  next
    case False
    then have "globstar_alt glob path \<lparr>w_glob = glob_index st, w_path = i, w_depth = brace_depth st\<rparr> [] (drop (path_index st) path) True"
      using i at pi by (intro globstar_alt.rest) auto
    then show ?thesis using False pi at' v0 by (intro round_simI [OF round]) (auto simp: Let_def intro!: glob_sim.free [of glob _ "[]"])
  qed
qed

text \<open>The end of the path with nothing to go back to.\<close>

lemma dead_step:
  assumes at: "at_pos glob (glob_index st) (t # p)" and path: "\<forall>c \<in> set path. ascii c" and pi: "path_index st = length path"
    and W: "length path < w_path (wild st)" and v0: "v0 = gmatch (t # p) []"
  shows "round_sim glob path stack v0 st"
proof -
  have pi': "path_index st \<le> length path" and s: "drop (path_index st) path = []" using pi by auto
  consider (char) d where "t = Lit d \<or> t = Any" | "t = Star" | "t = Deep" | "t = Rest" by (cases t) auto
  then show ?thesis
  proof cases
    case char
    from at char path pi' show ?thesis
    proof (cases rule: round_consume [where stack = stack])
      case refused
      then show ?thesis using dead_retry [OF W] v0 s by (auto intro: round_simI)
    qed (simp add: s)
  next
    case 2
    then show ?thesis
      using at_pos_next [OF at] at path pi v0 by (intro round_simI [OF round_star [OF _ path pi']]) (auto intro!: glob_sim.dead [of glob _ p])
  next
    case 3
    then show ?thesis using at v0 s by (intro deep_step [OF _ path pi']) auto
  next
    case 4
    then show ?thesis using at v0 at_pos_ok [OF at] by (intro rest_step [OF _ path pi']) auto
  qed
qed

lemma free_step:
  assumes at: "at_pos glob (glob_index st) p" and path: "\<forall>c \<in> set path. ascii c" and pi: "path_index st \<le> length path"
    and more: "glob_index st < length glob \<or> path_index st < length path"
    and W: "wild st = globstar st \<or> p \<noteq> [] \<and> hd p = Star"
    and alt: "globstar_alt glob path (globstar st) p (drop (path_index st) path) ga"
    and v0: "v0 = (gmatch p (drop (path_index st) path) \<or> ga)"
  shows "round_sim glob path stack v0 st"
proof (cases p)
  case Nil
  then have "glob_round glob 0 path stack st = Some (retry path st)" using at by (intro retry_end) (simp add: at_pos_Nil)
  moreover have "drop (path_index st) path \<noteq> []" using Nil at more by (simp add: at_pos_Nil)
  then have "v0 = ga" using v0 Nil by simp
  ultimately show ?thesis using free_retry [of st glob path p] W Nil alt by (auto intro: round_simI)
next
  case (Cons t q)
  consider (char) d where "t = Lit d \<or> t = Any" | "t = Star" | "t = Deep" | "t = Rest" by (cases t) auto
  then show ?thesis
  proof cases
    case char
    then show ?thesis using at W alt v0 Cons by (intro free_consume [OF _ char path pi]) auto
  next
    case 2
    then show ?thesis using at alt v0 Cons by (intro star_step [OF _ path pi]) auto
  next
    case 3
    then show ?thesis using at alt v0 Cons globstar_alt_deep by (intro deep_step [OF _ path pi]) auto
  next
    case 4
    then show ?thesis using at v0 Cons at_pos_ok [OF at] by (intro rest_step [OF _ path pi]) auto
  qed
qed

lemma wild_step:
  assumes at: "at_pos glob (glob_index st) p" and path: "\<forall>c \<in> set path. ascii c" and pi: "path_index st \<le> length path"
    and more: "glob_index st < length glob \<or> path_index st < length path"
    and w: "wild_alt glob path (wild st) X p v (drop (path_index st) path)"
    and alt: "globstar_alt glob path (globstar st) (Star # X @ p) (v @ drop (path_index st) path) ga"
    and v0: "v0 = (gmatch p (drop (path_index st) path) \<or> gmatch (Star # X @ p) (drop (w_path (wild st)) path) \<or> ga)"
  shows "round_sim glob path stack v0 st"
proof (cases p)
  case Nil
  then have "glob_round glob 0 path stack st = Some (retry path st)" using at by (intro retry_end) (simp add: at_pos_Nil)
  moreover have "drop (path_index st) path \<noteq> []" using Nil at more by (simp add: at_pos_Nil)
  then have "v0 = (gmatch (Star # X @ p) (drop (w_path (wild st)) path) \<or> ga)" using v0 Nil by simp
  ultimately show ?thesis using wild_retry [OF w alt] by (auto intro: round_simI)
next
  case (Cons t q)
  consider (char) d where "t = Lit d \<or> t = Any" | "t = Star" using wild_alt_hd [OF w] Cons by (cases t) auto
  then show ?thesis
  proof cases
    case char
    then show ?thesis using at w alt v0 Cons by (intro wild_consume [OF _ char path pi]) auto
  next
    case 2
    then show ?thesis using at w alt v0 Cons by (intro wild_star [OF _ path pi]) auto
  qed
qed

lemma sim_round:
  assumes sim: "glob_sim glob path v0 st" and path: "\<forall>c \<in> set path. ascii c"
    and more: "glob_index st < length glob \<or> path_index st < length path"
  shows "round_sim glob path stack v0 st"
  using sim
proof cases
  case (free p ga)
  then show ?thesis using path more by (intro free_step [where ga = ga]) auto
next
  case (wild p X v ga)
  then show ?thesis using path more by (intro wild_step [where ga = ga]) auto
next
  case (dead p)
  then show ?thesis using path more by (cases p) (auto simp: at_pos_Nil intro!: dead_step)
next
  case (again p)
  then obtain q where "p = Deep # q \<or> p = [Rest]" using at_pos_ok [of glob _ p] by (cases p) auto
  then show ?thesis
  proof
    assume "p = Deep # q"
    then show ?thesis using again path by (intro deep_step) auto
  next
    assume "p = [Rest]"
    then show ?thesis using again path by (intro rest_step) auto
  qed
next
  case doomed
  then have "glob_round glob 0 path stack st = Some (retry path st)"
    by (simp add: glob_round_def glob_arm_of_def literal_arm_def Let_def)
  then show ?thesis using dead_retry doomed by (auto intro: round_simI)
qed

lemma sim_end:
  assumes "glob_sim glob path v0 st" and "\<not> (glob_index st < length glob \<or> path_index st < length path)"
  shows v0
proof -
  have done_p: "p = []" if "at_pos glob (glob_index st) p" for p
    using that assms(2) by (metis at_pos_less neq_Nil_conv)
  show ?thesis
    using assms by cases (auto dest!: done_p)
qed

section \<open>The matcher computes gmatch\<close>

lemma glob_loop_reference:
  assumes inv: "glob_inv glob 0 path [] st" and sim: "glob_sim glob path v0 st" and path: "\<forall>c \<in> set path. ascii c"
  shows "glob_loop glob 0 path [] st = Some (Return v0)"
proof -
  have step: "glob_sim glob path v0 s'" if "glob_sim glob path v0 s" "glob_next glob 0 path [] s = Some (Inl s')" for s s'
    using sim_round [OF that(1) path, where stack = "[]"] that(2)
    by (auto simp: glob_next_def round_sim_def split: if_splits option.splits glob_arm.splits)
  obtain r s' where s': "glob_sim glob path v0 s'" "glob_next glob 0 path [] s' = Some (Inr r)" "glob_loop glob 0 path [] st = Some r"
    using gl.returns_with [where J = "glob_sim glob path v0", OF inv sim] step by blast
  have "r = Return v0"
  proof (cases "glob_index s' < length glob \<or> path_index s' < length path")
    case True
    then show ?thesis using sim_round [OF s'(1) path True, of "[]"] s'(2)
      by (auto simp: glob_next_def round_sim_def sim_arm_def split: option.splits glob_arm.splits)
  next
    case False
    then show ?thesis using sim_end [OF s'(1) False] s'(2) by (simp add: glob_next_def)
  qed
  then show ?thesis using s'(3) by simp
qed

lemma count_bangs_text: "count_bangs (replicate k CHR ''!'' @ glob_text toks) negated = (negated \<noteq> odd k, k)"
proof (induction k arbitrary: negated)
  case 0
  show ?case
  proof (cases toks)
    case (Cons t ts)
    then show ?thesis by (cases t) (auto simp: special_def)
  qed simp
qed auto

lemma glob_match_toks:
  assumes "toks_ok (k = 0) toks" and "\<forall>c \<in> set path. ascii c"
  shows "glob_match (replicate k CHR ''!'' @ glob_text toks) path =
    Some (if odd k then (if gmatch toks path then Negate_No_Match else Negate_Match)
          else (if gmatch toks path then Match else No_Match))"
proof -
  let ?glob = "replicate k CHR ''!'' @ glob_text toks"
  let ?st = "glob_state_default\<lparr>glob_index := k\<rparr>"
  have "at_pos ?glob k toks" using assms(1) by (cases "k = 0") (auto simp: at_pos_def)
  then have "glob_sim ?glob path (gmatch toks path) ?st"
    by (intro glob_sim.free [where p = toks and ga = False])
      (auto simp: glob_state_default_def wildcard_default_def intro: globstar_alt.unset)
  moreover have "glob_inv ?glob 0 path [] ?st" by (simp add: glob_inv_def glob_state_default_def wildcard_default_def)
  ultimately have "glob_loop ?glob 0 path [] ?st = Some (Return (gmatch toks path))"
    using glob_loop_reference assms(2) by blast
  then show ?thesis by (simp add: glob_match_def count_bangs_text glob_match_impl.simps)
qed

section \<open>The meaning of a pattern\<close>

text \<open>
  What a pattern means, token by token: a literal is itself, \<open>?\<close> any character but a slash, \<open>*\<close> any number
  of them, \<open>**/\<close> any number of whole segments, a final \<open>**\<close> everything that is left.
\<close>

function glob_means :: "gtok list \<Rightarrow> bytes \<Rightarrow> bool" where
  "glob_means [] s \<longleftrightarrow> s = []"
| "glob_means (Lit c # p) s \<longleftrightarrow> (case s of [] \<Rightarrow> False | x # s' \<Rightarrow> x = c \<and> glob_means p s')"
| "glob_means (Any # p) s \<longleftrightarrow> (case s of [] \<Rightarrow> False | x # s' \<Rightarrow> x \<noteq> CHR ''/'' \<and> glob_means p s')"
| "glob_means (Star # p) s \<longleftrightarrow> glob_means p s \<or> (case s of [] \<Rightarrow> False | x # s' \<Rightarrow> x \<noteq> CHR ''/'' \<and> glob_means (Star # p) s')"
| "glob_means (Deep # p) s \<longleftrightarrow> glob_means p s
     \<or> (case after_slash s of None \<Rightarrow> False | Some s' \<Rightarrow> glob_means (Deep # p) s')"
| "glob_means (Rest # p) s \<longleftrightarrow> p = []"
  by pat_completeness auto
termination
  by (relation "measure (\<lambda>(p, s). length p + length s)") (auto dest: after_slash_length)

declare glob_means.simps(4,5) [simp del]

text \<open>A pattern that ends in \<open>**/*\<close>, for which the code wants the last segment of the path not to be empty.\<close>

definition ends_deep_star :: "gtok list \<Rightarrow> bool" where
  "ends_deep_star p \<longleftrightarrow> (\<exists>q. p = q @ [Deep, Star])"

definition last_segment_empty :: "bytes \<Rightarrow> bool" where
  "last_segment_empty s \<longleftrightarrow> s = [] \<or> last s = CHR ''/''"

lemma ends_deep_star_tl: "ends_deep_star p \<Longrightarrow> ends_deep_star (t # p)"
  by (auto simp: ends_deep_star_def)

lemma after_slash_last:
  "after_slash s = Some s' \<Longrightarrow> \<not> last_segment_empty s \<Longrightarrow> \<not> last_segment_empty s'"
proof (induction s)
  case (Cons c s)
  then show ?case by (cases s) (auto simp: last_segment_empty_def split: if_splits)
qed simp

lemma gmatch_means:
  assumes "toks_ok start p"
    and "ends_deep_star p \<longrightarrow> (s \<noteq> [] \<longrightarrow> last s \<noteq> CHR ''/'') \<and> (start \<longrightarrow> s \<noteq> [])"
  shows "gmatch p s \<longleftrightarrow> glob_means p s"
  using assms
proof (induction p s arbitrary: start rule: gmatch.induct)
  case (2 c p s)
  show ?case
  proof (cases s)
    case (Cons x s')
    then show ?thesis using 2(1) [OF Cons, of "c = CHR ''/''"] 2(2,3) ends_deep_star_tl [of p "Lit c"] by (auto split: if_splits)
  qed simp
next
  case (3 p s)
  show ?case
  proof (cases s)
    case (Cons x s')
    then show ?thesis using 3(1) [OF Cons, of False] 3(2,3) ends_deep_star_tl [of p Any] by (auto split: if_splits)
  qed simp
next
  case (4 p s)
  have a: "gmatch p s \<longleftrightarrow> glob_means p s"
    using 4(1) [of False] 4(3,4) ends_deep_star_tl [of p Star] by auto
  have "gmatch (Star # p) s' \<longleftrightarrow> glob_means (Star # p) s'" if "s = x # s'" for x s'
    using 4(2) [OF that, of False] 4(3,4) that by (auto split: if_splits)
  then show ?case using a by (cases s) (simp_all add: gmatch.simps(4) glob_means.simps(4))
next
  case (5 p s)
  have st: start "toks_ok False p" using 5(3) by auto
  have a: "gmatch p s \<longleftrightarrow> glob_means p s"
    using 5(1) [of False] 5(4) st ends_deep_star_tl [of p Deep] by auto
  have b: "gmatch (Deep # p) s' \<longleftrightarrow> glob_means (Deep # p) s'" if "after_slash s = Some s'" for s'
    using 5(2) [OF that, of True] 5(3,4) st after_slash_last [OF that] by (auto simp: last_segment_empty_def)
  have "p = [Star] \<longrightarrow> s \<noteq> []" using 5(4) st by (auto simp: ends_deep_star_def)
  then show ?case using a b by (auto simp: gmatch.simps(5) glob_means.simps(5) split: option.split)
qed simp_all

text \<open>
  C2. Glob matching.  For every pattern of ASCII literals, \<open>?\<close>, \<open>*\<close>, \<open>**/\<close> and a final \<open>**\<close>, in which stars
  do not touch and \<open>**\<close> is a whole segment that does not follow another \<open>**/\<close>, behind any number of
  exclamation marks, and every ASCII path, the matcher with its single wildcard and single globstar gives
  the answer of the meaning of the pattern, which tries all possibilities, and negates it for an odd
  number of exclamation marks.  A pattern behind exclamation marks must not start with \<open>**\<close>, and for a
  pattern that ends in \<open>**/*\<close> the path must not be empty or end in a slash.
\<close>

theorem glob_match_reference:
  assumes "toks_ok (k = 0) toks" and "\<forall>c \<in> set path. ascii c"
    and "ends_deep_star toks \<longrightarrow> \<not> last_segment_empty path"
  shows "glob_match (replicate k CHR ''!'' @ glob_text toks) path =
    Some (if odd k then (if glob_means toks path then Negate_No_Match else Negate_Match)
          else (if glob_means toks path then Match else No_Match))"
proof -
  have "gmatch toks path \<longleftrightarrow> glob_means toks path"
    using gmatch_means [OF assms(1), of path] assms(3) by (auto simp: last_segment_empty_def)
  then show ?thesis using glob_match_toks [OF assms(1,2)] by simp
qed

theorem glob_match_reference_witness:
  "glob_match ''!s*/**/?.c'' ''src/a/b.c'' = Some Negate_No_Match"
proof -
  let ?p = "[Lit (CHR ''s''), Star, Lit (CHR ''/''), Deep, Any, Lit (CHR ''.''), Lit (CHR ''c'')]"
  have "toks_ok False ?p" by (simp add: ascii_def)
  moreover have "\<forall>c \<in> set ''src/a/b.c''. ascii c" by (simp add: ascii_def)
  moreover have "\<not> last_segment_empty ''src/a/b.c''" by (simp add: last_segment_empty_def)
  moreover have "glob_means ?p ''src/a/b.c''" by (simp add: glob_means.simps(4,5))
  ultimately show ?thesis
    using glob_match_reference [of 1 ?p "''src/a/b.c''"] by (simp add: special_def)
qed

end
