(* ===== verification/Glob_Detect.thy ===== *)
theory Glob_Detect
  imports Glob_Spec
begin

text \<open>
  The test whether a string is a glob pattern (\<^verbatim>\<open>src/src/glob/lib.rs\<close>), and what negation does to a
  pattern that starts with \<open>**\<close>.
\<close>

section \<open>Detection\<close>

lemma position_None: "position c xs = None \<longleftrightarrow> c \<notin> set xs"
  by (induction xs) auto

lemma backslash_count_none: "CHR 0x5C \<notin> set pat \<Longrightarrow> i \<le> length pat \<Longrightarrow> backslash_count pat i = 0"
  by (cases i) (auto, metis Suc_le_lessD nth_mem)

text \<open>Without backslashes every special character counts.\<close>

lemma detect_glob_syntax_plain:
  assumes "CHR 0x5C \<notin> set pat"
  shows "detect_glob_syntax pat \<longleftrightarrow> (pat \<noteq> [] \<and> hd pat = CHR ''!'') \<or> (\<exists>c \<in> set ''*{[?''. c \<in> set pat)"
proof -
  have tok: "unescaped_token pat c pat \<longleftrightarrow> c \<in> set pat" for c
  proof (cases "position c pat")
    case None
    then show ?thesis using position_None [of c pat] by (subst unescaped_token.simps) simp
  next
    case (Some i)
    then have "pat \<noteq> []" "backslash_count pat i = 0" "c \<in> set pat"
      using position_less [OF Some] backslash_count_none [OF assms, of i] position_None [of c pat] by auto
    then show ?thesis using Some by (subst unescaped_token.simps) simp
  qed
  show ?thesis by (auto simp: detect_glob_syntax_def tok hd_conv_nth)
qed

lemma position_skip: "c \<notin> set xs \<Longrightarrow> position c (xs @ c # ys) = Some (length xs)"
  by (induction xs) auto

text \<open>
  A wildcard behind an escaped one is overlooked.  The position of a later candidate is counted from
  the rest of the string, but its backslashes are looked up in the whole string.  So in \<open>\*\<close> followed by one
  ordinary character and \<open>*\<close> the second star is taken for escaped, and the string for no pattern, although
  the matcher lets it match every path that continues the literal part within a segment.
\<close>

lemma detect_overlooks_second_star:
  assumes "\<not> special c" and "ascii c" and "CHR ''/'' \<notin> set path" and "\<forall>x \<in> set path. ascii x"
  shows "\<not> detect_glob_syntax [CHR 0x5C, CHR ''*'', c, CHR ''*'']
    \<and> glob_match [CHR 0x5C, CHR ''*'', c, CHR ''*''] (CHR ''*'' # c # path) = Some Match"
proof
  have c: "c \<noteq> CHR 0x5C" "c \<notin> set ''*{[?''" using assms(1) by (auto simp: special_def)
  then show "\<not> detect_glob_syntax [CHR 0x5C, CHR ''*'', c, CHR ''*'']"
    by (auto simp: detect_glob_syntax_def unescaped_token.simps)
  have "CHR ''/'' \<notin> set path \<Longrightarrow> gmatch [Star] path" for path by (induction path) auto
  then have "gmatch [Lit (CHR ''*''), Lit c, Star] (CHR ''*'' # c # path)" using assms(3) by simp
  moreover have "toks_ok True [Lit (CHR ''*''), Lit c, Star]" "ascii (CHR ''*'')" using assms(2) by (auto simp: ascii_def)
  moreover have "glob_text [Lit (CHR ''*''), Lit c, Star] = [CHR 0x5C, CHR ''*'', c, CHR ''*'']"
    using assms(1) by (simp add: special_def)
  ultimately show "glob_match [CHR 0x5C, CHR ''*'', c, CHR ''*''] (CHR ''*'' # c # path) = Some Match"
    using glob_match_toks [of 0 "[Lit (CHR ''*''), Lit c, Star]" "CHR ''*'' # c # path"] assms(1,2,4)
    by (simp add: special_def)
qed

section \<open>Negation\<close>

text \<open>
  A globstar at the start of a negated pattern is not one.  The exclamation marks are part of the text
  in front of it, so \<open>**\<close> does not count as a whole segment and does not cross a slash: \<open>**/a\<close> matches \<open>x/y/a\<close>, but
  \<open>!**/a\<close> accepts it as well.
\<close>

lemma negated_globstar_lost:
  "glob_match ''**/a'' ''x/y/a'' = Some Match \<and> glob_match ''!**/a'' ''x/y/a'' = Some Negate_Match"
proof
  have "gmatch [Deep, Lit (CHR ''a'')] ''x/y/a''" by (simp add: gmatch.simps(5))
  then show "glob_match ''**/a'' ''x/y/a'' = Some Match"
    using glob_match_toks [of 0 "[Deep, Lit (CHR ''a'')]" "''x/y/a''"] by (simp add: ascii_def special_def)
  show "glob_match ''!**/a'' ''x/y/a'' = Some Negate_Match"
    by (simp add: glob_match_def glob_state_default_def wildcard_default_def glob_match_impl.simps glob_loop.simps glob_round_def
        glob_arm_of_def star_arm_def skip_globstars_def globstars_loop.simps star_wild_def is_whole_segment_def byte_at_def
        leave_segment_def is_separator_def literal_arm_def unescape_def literal_matches_def wtf8_byte_sequence_length_def
        retry_def backtrack_def Let_def)
qed

end
