(* ===== verification/Linear_Fifo.thy ===== *)
theory Linear_Fifo
  imports Loops "HOL-Library.Monad_Syntax"
begin

unbundle bit_operations_syntax

text \<open>
  The ring buffer \<open>LinearFifo\<close> (\<^verbatim>\<open>src/src/collections/linear_fifo.rs\<close>) with its three kinds of
  storage, operation by operation.  A slice of the buffer is the range it covers.  The panics of the
  debug build are the value \<open>None\<close>: failed \<open>debug_assert!\<close>, arithmetic below zero, index out of range,
  division by zero.  The poisoning of discarded slots, which no operation reads, is left out.  What
  new storage holds is a parameter, \<open>junk\<close>, and so is the size of an item, \<open>t_size\<close>.
\<close>

section \<open>Storage\<close>

datatype linear_fifo_buffer_type = Static_buffer nat | Slice_buffer | Dynamic_buffer

datatype fifo_alloc_error = Alloc_Error

definition is_power_of_two :: "nat \<Rightarrow> bool" where
  "is_power_of_two n \<longleftrightarrow> list_ex (\<lambda>k. n = 2 ^ k) [0..<64]"

definition checked_next_power_of_two :: "nat \<Rightarrow> nat option" where
  "checked_next_power_of_two n = find (\<lambda>p. n \<le> p) (map (\<lambda>k. 2 ^ k) [0..<64])"

fun powers_of_two :: "linear_fifo_buffer_type \<Rightarrow> bool" where
  "powers_of_two (Static_buffer n) = is_power_of_two n"
| "powers_of_two Slice_buffer = False"
| "powers_of_two Dynamic_buffer = True"

fun is_dynamic :: "linear_fifo_buffer_type \<Rightarrow> bool" where
  "is_dynamic Dynamic_buffer = True"
| "is_dynamic _ = False"

record 'a linear_fifo =
  fifo_kind :: linear_fifo_buffer_type
  fifo_buf :: "'a list"
  fifo_head :: nat
  fifo_count :: nat

definition uninit_slice :: "(nat \<Rightarrow> 'a) \<Rightarrow> nat \<Rightarrow> 'a list" where
  "uninit_slice junk n = map junk [0..<n]"

text \<open>\<open>ptr::copy\<close> within one buffer.\<close>

definition memmove :: "'a list \<Rightarrow> nat \<Rightarrow> nat \<Rightarrow> nat \<Rightarrow> 'a list" where
  "memmove buf src dst n = blit buf dst (take n (drop src buf))"

definition dynamic_realloc :: "(nat \<Rightarrow> 'a) \<Rightarrow> 'a list \<Rightarrow> nat \<Rightarrow> 'a list" where
  "dynamic_realloc junk buf new_size =
     (let n = min (length buf) new_size in blit (uninit_slice junk new_size) 0 (take n buf))"

text \<open>\<open>shift_down_one(&mut buf[a..b])\<close>: panics unless the range is inside the buffer.\<close>

definition shift_down_one :: "'a list \<Rightarrow> nat \<Rightarrow> nat \<Rightarrow> 'a list option" where
  "shift_down_one buf a b =
     (if a \<le> b \<and> b \<le> length buf
      then Some (if b - a \<le> 1 then buf else memmove buf (a + 1) a (b - a - 1))
      else None)"

text \<open>\<open>&buf[a..b]\<close> as a range.\<close>

definition checked_range :: "'a list \<Rightarrow> nat \<Rightarrow> nat \<Rightarrow> (nat \<times> nat) option" where
  "checked_range buf a b = (if a \<le> b \<and> b \<le> length buf then Some (a, b) else None)"

text \<open>Subtraction of \<open>usize\<close>.\<close>

definition usize_sub :: "nat \<Rightarrow> nat \<Rightarrow> nat option" where
  "usize_sub a b = (if b \<le> a then Some (a - b) else None)"

section \<open>Construction and sizes\<close>

definition fifo_init_static :: "(nat \<Rightarrow> 'a) \<Rightarrow> nat \<Rightarrow> 'a linear_fifo" where
  "fifo_init_static junk n =
     \<lparr>fifo_kind = Static_buffer n, fifo_buf = uninit_slice junk n, fifo_head = 0, fifo_count = 0\<rparr>"

definition fifo_init_slice :: "'a list \<Rightarrow> 'a linear_fifo" where
  "fifo_init_slice buf = \<lparr>fifo_kind = Slice_buffer, fifo_buf = buf, fifo_head = 0, fifo_count = 0\<rparr>"

definition fifo_init_dynamic :: "'a linear_fifo" where
  "fifo_init_dynamic = \<lparr>fifo_kind = Dynamic_buffer, fifo_buf = [], fifo_head = 0, fifo_count = 0\<rparr>"

definition fifo_capacity :: "'a linear_fifo \<Rightarrow> nat" where
  "fifo_capacity f = length (fifo_buf f)"

definition reset_head_if_empty :: "'a linear_fifo \<Rightarrow> 'a linear_fifo" where
  "reset_head_if_empty f = (if fifo_count f = 0 then f\<lparr>fifo_head := 0\<rparr> else f)"

definition readable_length :: "'a linear_fifo \<Rightarrow> nat" where
  "readable_length f = fifo_count f"

definition writable_length :: "'a linear_fifo \<Rightarrow> nat option" where
  "writable_length f = usize_sub (fifo_capacity f) (fifo_count f)"

text \<open>An index reduced to the buffer; with an empty buffer both ways of reducing it panic.\<close>

definition fifo_mask :: "'a linear_fifo \<Rightarrow> nat \<Rightarrow> nat option" where
  "fifo_mask f i =
     (if fifo_capacity f = 0 then None
      else if powers_of_two (fifo_kind f) then Some (i AND (fifo_capacity f - 1))
      else Some (i mod fifo_capacity f))"

section \<open>Realigning and growing\<close>

text \<open>One round of the rotation through a scratch area of \<open>tmp_len\<close> items.\<close>

definition realign_step :: "nat \<Rightarrow> 'a linear_fifo \<Rightarrow> 'a linear_fifo" where
  "realign_step tmp_len f =
     (let n = min (fifo_head f) tmp_len;
          m = fifo_capacity f - n;
          tmp = take n (fifo_buf f);
          buf = memmove (fifo_buf f) n 0 m
      in f\<lparr>fifo_buf := blit buf m tmp, fifo_head := fifo_head f - n\<rparr>)"

partial_function (option) realign_loop :: "nat \<Rightarrow> 'a linear_fifo \<Rightarrow> 'a linear_fifo option" where
  "realign_loop tmp_len f =
     (if fifo_head f = 0 then Some f else realign_loop tmp_len (realign_step tmp_len f))"

definition PAGE_SIZE_MIN :: nat where
  "PAGE_SIZE_MIN = 4096"

definition realign :: "nat \<Rightarrow> 'a linear_fifo \<Rightarrow> 'a linear_fifo option" where
  "realign t_size f = do {
     room \<leftarrow> usize_sub (fifo_capacity f) (fifo_head f);
     if fifo_count f \<le> room
     then Some (f\<lparr>fifo_buf := memmove (fifo_buf f) (fifo_head f) 0 (fifo_count f), fifo_head := 0\<rparr>)
     else if t_size = 0 then None
     else realign_loop (PAGE_SIZE_MIN div 2 div t_size) f }"

definition shrink :: "nat \<Rightarrow> (nat \<Rightarrow> 'a) \<Rightarrow> nat \<Rightarrow> 'a linear_fifo \<Rightarrow> 'a linear_fifo option" where
  "shrink t_size junk n f =
     (if n < fifo_count f then None
      else if is_dynamic (fifo_kind f)
      then do { f' \<leftarrow> realign t_size f;
                Some (f'\<lparr>fifo_buf := dynamic_realloc junk (fifo_buf f') n\<rparr>) }
      else Some f)"

definition ensure_total_capacity ::
    "nat \<Rightarrow> (nat \<Rightarrow> 'a) \<Rightarrow> nat \<Rightarrow> 'a linear_fifo \<Rightarrow> ((fifo_alloc_error + unit) \<times> 'a linear_fifo) option" where
  "ensure_total_capacity t_size junk n f =
     (if n \<le> fifo_capacity f then Some (Inr (), f)
      else if is_dynamic (fifo_kind f)
      then do { f' \<leftarrow> realign t_size f;
                case (if powers_of_two (fifo_kind f) then checked_next_power_of_two n else Some n) of
                  None \<Rightarrow> Some (Inl Alloc_Error, f')
                | Some new_size \<Rightarrow>
                    Some (Inr (), f'\<lparr>fifo_buf :=
                            (if 0 < fifo_count f'
                             then blit (uninit_slice junk new_size) 0 (take (fifo_count f') (fifo_buf f'))
                             else uninit_slice junk new_size),
                          fifo_head := 0\<rparr>) }
      else Some (Inl Alloc_Error, f))"

definition ensure_unused_capacity ::
    "nat \<Rightarrow> (nat \<Rightarrow> 'a) \<Rightarrow> nat \<Rightarrow> 'a linear_fifo \<Rightarrow> ((fifo_alloc_error + unit) \<times> 'a linear_fifo) option" where
  "ensure_unused_capacity t_size junk n f = do {
     w \<leftarrow> writable_length f;
     if n \<le> w then Some (Inr (), f)
     else if 2 ^ 64 \<le> fifo_count f + n then Some (Inl Alloc_Error, f)
     else ensure_total_capacity t_size junk (fifo_count f + n) f }"

section \<open>Reading\<close>

text \<open>The range \<open>(0, 0)\<close> stands for the empty slice.\<close>

definition readable_slice_mut :: "'a linear_fifo \<Rightarrow> nat \<Rightarrow> (nat \<times> nat) option" where
  "readable_slice_mut f off =
     (if fifo_count f < off then Some (0, 0)
      else let start = fifo_head f + off in
        if fifo_capacity f \<le> start
        then let start' = start - fifo_capacity f
             in checked_range (fifo_buf f) start' (start' + (fifo_count f - off))
        else checked_range (fifo_buf f) start (min (fifo_head f + fifo_count f) (fifo_capacity f)))"

definition read_range :: "'a list \<Rightarrow> nat \<times> nat \<Rightarrow> 'a list" where
  "read_range buf r = take (snd r - fst r) (drop (fst r) buf)"

definition readable_slice :: "'a linear_fifo \<Rightarrow> nat \<Rightarrow> 'a list option" where
  "readable_slice f off = map_option (read_range (fifo_buf f)) (readable_slice_mut f off)"

definition discard_head :: "'a linear_fifo \<Rightarrow> nat \<Rightarrow> nat option" where
  "discard_head f head =
     (if powers_of_two (fifo_kind f)
      then Some (head AND (if fifo_capacity f = 0 then 2 ^ 64 - 1 else fifo_capacity f - 1))
      else if fifo_capacity f = 0 then None
      else Some (head mod fifo_capacity f))"

definition discard :: "nat \<Rightarrow> 'a linear_fifo \<Rightarrow> 'a linear_fifo option" where
  "discard n f =
     (if fifo_count f < n then None
      else do { head \<leftarrow> discard_head f (fifo_head f + n);
                Some (f\<lparr>fifo_head := head, fifo_count := fifo_count f - n\<rparr>) })"

definition read_item :: "'a linear_fifo \<Rightarrow> ('a option \<times> 'a linear_fifo) option" where
  "read_item f =
     (if fifo_count f = 0 then Some (None, f)
      else if fifo_head f < fifo_capacity f
      then do { f' \<leftarrow> discard 1 f; Some (Some (fifo_buf f ! fifo_head f), f') }
      else None)"

text \<open>The filled part of the destination, the part left over and the buffer.\<close>

function fifo_read_loop :: "'a linear_fifo \<Rightarrow> 'a list \<Rightarrow> ('a list \<times> 'a list \<times> 'a linear_fifo) option" where
  "fifo_read_loop f dst_left =
     (if dst_left = [] then Some ([], dst_left, f)
      else case readable_slice f 0 of
        None \<Rightarrow> None
      | Some s \<Rightarrow>
          if s = [] then Some ([], dst_left, f)
          else let n = min (length s) (length dst_left) in
            case discard n f of
              None \<Rightarrow> None
            | Some f' \<Rightarrow>
                (case fifo_read_loop f' (drop n dst_left) of
                   None \<Rightarrow> None
                 | Some (filled, left, f'') \<Rightarrow> Some (take n s @ filled, left, f'')))"
  by pat_completeness auto
termination
  by (relation "measure (\<lambda>(f, dst). length dst)") auto

definition fifo_read :: "'a linear_fifo \<Rightarrow> 'a list \<Rightarrow> (nat \<times> 'a list \<times> 'a linear_fifo) option" where
  "fifo_read f dst = do {
     (filled, left, f') \<leftarrow> fifo_read_loop f dst;
     total \<leftarrow> usize_sub (length dst) (length left);
     Some (total, filled @ left, f') }"

definition peek_item :: "'a linear_fifo \<Rightarrow> nat \<Rightarrow> 'a option" where
  "peek_item f off =
     (if fifo_count f \<le> off then None
      else do { i \<leftarrow> fifo_mask f (fifo_head f + off);
                if i < fifo_capacity f then Some (fifo_buf f ! i) else None })"

text \<open>A write through the reference that \<open>peek_item_mut\<close> returns.\<close>

definition peek_item_mut :: "'a linear_fifo \<Rightarrow> nat \<Rightarrow> 'a \<Rightarrow> 'a linear_fifo option" where
  "peek_item_mut f off v =
     (if fifo_count f \<le> off then None
      else do { i \<leftarrow> fifo_mask f (fifo_head f + off);
                if i < fifo_capacity f then Some (f\<lparr>fifo_buf := (fifo_buf f)[i := v]\<rparr>) else None })"

section \<open>Writing\<close>

definition writable_slice :: "'a linear_fifo \<Rightarrow> nat \<Rightarrow> (nat \<times> nat) option" where
  "writable_slice f off =
     (if fifo_capacity f < off then Some (0, 0)
      else do {
        writable \<leftarrow> usize_sub (fifo_capacity f) (fifo_count f);
        let tail = fifo_head f + off + fifo_count f;
        if tail < fifo_capacity f then checked_range (fifo_buf f) tail (fifo_capacity f)
        else do {
          rest \<leftarrow> usize_sub writable off;
          let start = tail - fifo_capacity f;
          checked_range (fifo_buf f) start (start + rest) } })"

definition fifo_update :: "nat \<Rightarrow> 'a linear_fifo \<Rightarrow> 'a linear_fifo option" where
  "fifo_update n f =
     (if fifo_count f + n \<le> fifo_capacity f then Some (f\<lparr>fifo_count := fifo_count f + n\<rparr>) else None)"

definition writable_with_size ::
    "nat \<Rightarrow> (nat \<Rightarrow> 'a) \<Rightarrow> nat \<Rightarrow> 'a linear_fifo \<Rightarrow> ((fifo_alloc_error + nat \<times> nat) \<times> 'a linear_fifo) option" where
  "writable_with_size t_size junk n f = do {
     (res, f1) \<leftarrow> ensure_unused_capacity t_size junk n f;
     case res of
       Inl e \<Rightarrow> Some (Inl e, f1)
     | Inr _ \<Rightarrow> do {
         (a, b) \<leftarrow> writable_slice f1 0;
         f2 \<leftarrow> (if b - a < n then realign t_size f1 else Some f1);
         (a', b') \<leftarrow> writable_slice f2 0;
         if n \<le> b' - a' then Some (Inr (a', a' + n), f2) else None } }"

function write_loop :: "'a linear_fifo \<Rightarrow> 'a list \<Rightarrow> 'a linear_fifo option" where
  "write_loop f src_left =
     (if src_left = [] then Some f
      else case writable_slice f 0 of
        None \<Rightarrow> None
      | Some (a, b) \<Rightarrow>
          if b \<le> a then None
          else let n = min (b - a) (length src_left) in
            case fifo_update n (f\<lparr>fifo_buf := blit (fifo_buf f) a (take n src_left)\<rparr>) of
              None \<Rightarrow> None
            | Some f' \<Rightarrow> write_loop f' (drop n src_left))"
  by pat_completeness auto
termination
  by (relation "measure (\<lambda>(f, src). length src)") auto

definition write_assume_capacity :: "'a linear_fifo \<Rightarrow> 'a list \<Rightarrow> 'a linear_fifo option" where
  "write_assume_capacity f src = do {
     w \<leftarrow> writable_length f;
     if length src \<le> w then write_loop f src else None }"

definition write_item_assume_capacity :: "'a \<Rightarrow> 'a linear_fifo \<Rightarrow> 'a linear_fifo option" where
  "write_item_assume_capacity x f = do {
     tail \<leftarrow> fifo_mask f (fifo_head f + fifo_count f);
     fifo_update 1 (f\<lparr>fifo_buf := (fifo_buf f)[tail := x]\<rparr>) }"

definition write_item ::
    "nat \<Rightarrow> (nat \<Rightarrow> 'a) \<Rightarrow> 'a \<Rightarrow> 'a linear_fifo \<Rightarrow> ((fifo_alloc_error + unit) \<times> 'a linear_fifo) option" where
  "write_item t_size junk x f = do {
     (res, f1) \<leftarrow> ensure_unused_capacity t_size junk 1 f;
     case res of
       Inl e \<Rightarrow> Some (Inl e, f1)
     | Inr _ \<Rightarrow> do { f2 \<leftarrow> write_item_assume_capacity x f1; Some (Inr (), f2) } }"

definition fifo_write ::
    "nat \<Rightarrow> (nat \<Rightarrow> 'a) \<Rightarrow> 'a list \<Rightarrow> 'a linear_fifo \<Rightarrow> ((fifo_alloc_error + unit) \<times> 'a linear_fifo) option" where
  "fifo_write t_size junk src f = do {
     (res, f1) \<leftarrow> ensure_unused_capacity t_size junk (length src) f;
     case res of
       Inl e \<Rightarrow> Some (Inl e, f1)
     | Inr _ \<Rightarrow> do { f2 \<leftarrow> write_assume_capacity f1 src; Some (Inr (), f2) } }"

section \<open>Putting back and removing\<close>

definition rewind :: "nat \<Rightarrow> 'a linear_fifo \<Rightarrow> 'a linear_fifo option" where
  "rewind n f = do {
     w \<leftarrow> writable_length f;
     if w < n then None
     else do {
       head \<leftarrow> fifo_mask f (fifo_head f + (fifo_capacity f - n));
       Some (f\<lparr>fifo_head := head, fifo_count := fifo_count f + n\<rparr>) } }"

text \<open>The copy of the items to the front, in up to two pieces.\<close>

definition unget_copy :: "'a list \<Rightarrow> 'a linear_fifo \<Rightarrow> 'a linear_fifo option" where
  "unget_copy src f = do {
     (a, b) \<leftarrow> readable_slice_mut f 0;
     let slice_len = b - a;
     let f1 = f\<lparr>fifo_buf := blit (fifo_buf f) a (take (min slice_len (length src)) src)\<rparr>;
     if slice_len < length src
     then do {
       (a', b') \<leftarrow> readable_slice_mut f1 slice_len;
       if length src - slice_len \<le> b' - a'
       then Some (f1\<lparr>fifo_buf := blit (fifo_buf f1) a' (drop slice_len src)\<rparr>)
       else None }
     else Some f1 }"

definition unget ::
    "nat \<Rightarrow> (nat \<Rightarrow> 'a) \<Rightarrow> 'a list \<Rightarrow> 'a linear_fifo \<Rightarrow> ((fifo_alloc_error + unit) \<times> 'a linear_fifo) option" where
  "unget t_size junk src f = do {
     (res, f1) \<leftarrow> ensure_unused_capacity t_size junk (length src) f;
     case res of
       Inl e \<Rightarrow> Some (Inl e, f1)
     | Inr _ \<Rightarrow> do {
         f2 \<leftarrow> rewind (length src) f1;
         f3 \<leftarrow> unget_copy src f2;
         Some (Inr (), f3) } }"

definition ordered_remove_item :: "nat \<Rightarrow> 'a linear_fifo \<Rightarrow> 'a linear_fifo option" where
  "ordered_remove_item off f =
     (if off = 0 then discard 1 f
      else if fifo_count f \<le> off then None
      else do {
        room \<leftarrow> usize_sub (fifo_capacity f) (fifo_head f);
        buf \<leftarrow>
          (if fifo_count f \<le> room
           then shift_down_one (fifo_buf f) (fifo_head f + off) (fifo_capacity f)
           else do {
             i \<leftarrow> fifo_mask f (fifo_head f + off);
             let wrap_len = fifo_head f + fifo_count f - fifo_capacity f;
             if i < fifo_head f then shift_down_one (fifo_buf f) i wrap_len
             else do {
               let wrap = fifo_buf f ! 0;
               buf1 \<leftarrow> shift_down_one (fifo_buf f) i (fifo_capacity f);
               shift_down_one (buf1[fifo_capacity f - 1 := wrap]) 0 wrap_len } });
        Some (f\<lparr>fifo_buf := buf, fifo_count := fifo_count f - 1\<rparr>) })"

section \<open>Readers and writers\<close>

datatype io_error = Out_Of_Memory

definition io_read :: "'a linear_fifo \<Rightarrow> 'a list \<Rightarrow> (nat \<times> 'a list \<times> 'a linear_fifo) option" where
  "io_read f dst = fifo_read f dst"

definition io_write ::
    "nat \<Rightarrow> (nat \<Rightarrow> 'a) \<Rightarrow> 'a list \<Rightarrow> 'a linear_fifo \<Rightarrow> ((io_error + nat) \<times> 'a linear_fifo) option" where
  "io_write t_size junk src f = do {
     src' \<leftarrow> (if is_dynamic (fifo_kind f) then Some src
              else do { w \<leftarrow> writable_length f; Some (take (min (length src) w) src) });
     (res, f') \<leftarrow> fifo_write t_size junk src' f;
     case res of
       Inl _ \<Rightarrow> Some (Inl Out_Of_Memory, f')
     | Inr _ \<Rightarrow> Some (Inr (length src'), f') }"

text \<open>\<open>core::fmt::Write::write_str\<close> and the byte sink \<open>bun_core::write::Write::write_all\<close>.\<close>

datatype fmt_error = Fmt_Error

definition fifo_write_str ::
    "nat \<Rightarrow> (nat \<Rightarrow> 'a) \<Rightarrow> 'a list \<Rightarrow> 'a linear_fifo \<Rightarrow> ((fmt_error + unit) \<times> 'a linear_fifo) option" where
  "fifo_write_str t_size junk s f =
     map_option (apfst (map_sum (\<lambda>_. Fmt_Error) id)) (fifo_write t_size junk s f)"

definition fifo_write_all ::
    "nat \<Rightarrow> (nat \<Rightarrow> 'a) \<Rightarrow> 'a list \<Rightarrow> 'a linear_fifo \<Rightarrow> ((io_error + unit) \<times> 'a linear_fifo) option" where
  "fifo_write_all t_size junk s f =
     map_option (apfst (map_sum (\<lambda>_. Out_Of_Memory) id)) (fifo_write t_size junk s f)"

end
