(* ===== verification/Fifo_Spec.thy ===== *)
theory Fifo_Spec
  imports Linear_Fifo
begin

unbundle bit_operations_syntax

text \<open>
  The ring buffer read as a queue: the invariant of its layout, the list of items it stands for and,
  for each operation, that it does not panic, keeps the invariant and does to that list what its name
  says.
\<close>

section \<open>Powers of two\<close>

lemma is_power_of_two_iff: "is_power_of_two n \<longleftrightarrow> (\<exists>k<64. n = 2 ^ k)"
  by (auto simp: is_power_of_two_def list_ex_iff)

lemma and_power_of_two: "is_power_of_two c \<Longrightarrow> i AND (c - Suc 0) = i mod c"
proof -
  assume "is_power_of_two c"
  then obtain k where c: "c = 2 ^ k" by (auto simp: is_power_of_two_iff)
  have "i AND mask k = i mod 2 ^ k" by (simp add: take_bit_eq_mod flip: take_bit_eq_mask)
  then show ?thesis unfolding c by (simp add: mask_eq_exp_minus_1)
qed

lemma checked_next_power_of_two_Some:
  assumes "checked_next_power_of_two n = Some p"
  shows "is_power_of_two p" "n \<le> p"
  using assms by (auto simp: checked_next_power_of_two_def find_Some_iff is_power_of_two_iff)

lemma checked_next_power_of_two_None:
  "checked_next_power_of_two n = None \<longleftrightarrow> 2 ^ 63 < n"
proof -
  have "(\<forall>k<64. (2::nat) ^ k < n) \<longleftrightarrow> 2 ^ 63 < n"
  proof (intro iffI allI impI)
    fix k :: nat
    assume "2 ^ 63 < n" and "k < 64"
    moreover have "(2::nat) ^ k \<le> 2 ^ 63" using \<open>k < 64\<close> by (intro power_increasing) auto
    ultimately show "2 ^ k < n" by linarith
  next
    assume "\<forall>k<64. (2::nat) ^ k < n"
    from spec [OF this, of 63] show "2 ^ 63 < n" by simp
  qed
  then show ?thesis
    unfolding checked_next_power_of_two_def find_None_iff by (auto simp: not_le)
qed

lemma power_of_two_le: "is_power_of_two c \<Longrightarrow> c \<le> 2 ^ 63"
proof -
  assume "is_power_of_two c"
  then obtain k where "c = 2 ^ k" "k < 64" unfolding is_power_of_two_iff by blast
  then show ?thesis using power_increasing [of k 63 "2::nat"] by linarith
qed

lemma power_of_two_pos: "is_power_of_two c \<Longrightarrow> 0 < c"
  unfolding is_power_of_two_iff by auto

section \<open>Buffers\<close>

lemma nth_blit:
  "pos + length src \<le> length buf \<Longrightarrow> i < length buf \<Longrightarrow>
   blit buf pos src ! i = (if pos \<le> i \<and> i < pos + length src then src ! (i - pos) else buf ! i)"
  by (auto simp: blit_def nth_append min_def)

lemma length_memmove [simp]:
  "dst + n \<le> length buf \<Longrightarrow> length (memmove buf src dst n) = length buf"
  by (simp add: memmove_def blit_def)

lemma nth_memmove:
  "src + n \<le> length buf \<Longrightarrow> dst + n \<le> length buf \<Longrightarrow> i < length buf \<Longrightarrow>
   memmove buf src dst n ! i = (if dst \<le> i \<and> i < dst + n then buf ! (src + (i - dst)) else buf ! i)"
  by (auto simp: memmove_def nth_blit)

lemma length_uninit_slice [simp]: "length (uninit_slice junk n) = n"
  by (simp add: uninit_slice_def)

lemma wrap_mod:
  "(h::nat) < c \<Longrightarrow> i \<le> c \<Longrightarrow> (h + i) mod c = (if h + i < c then h + i else h + i - c)"
  by (auto simp: mod_if)

section \<open>Invariant and abstraction\<close>

text \<open>
  The layout of a buffer: the items fit, the head is inside, and where indices are reduced by masking
  the capacity is a power of two (or nothing is allocated yet).
\<close>

definition fifo_ok :: "'a linear_fifo \<Rightarrow> bool" where
  "fifo_ok f \<longleftrightarrow>
     fifo_count f \<le> fifo_capacity f
     \<and> (fifo_head f < fifo_capacity f \<or> fifo_head f = 0)
     \<and> fifo_capacity f \<le> 2 ^ 63
     \<and> (powers_of_two (fifo_kind f) \<longrightarrow> fifo_capacity f = 0 \<or> is_power_of_two (fifo_capacity f))"

definition fifo_items :: "'a linear_fifo \<Rightarrow> 'a list" where
  "fifo_items f = take (fifo_count f) (rotate (fifo_head f) (fifo_buf f))"

text \<open>The slot of the item at an offset.\<close>

definition fifo_wrap :: "'a linear_fifo \<Rightarrow> nat \<Rightarrow> nat" where
  "fifo_wrap f i = (if fifo_head f + i < fifo_capacity f then fifo_head f + i
                    else fifo_head f + i - fifo_capacity f)"

lemma length_fifo_items [simp]: "fifo_ok f \<Longrightarrow> length (fifo_items f) = fifo_count f"
  by (simp add: fifo_items_def fifo_ok_def fifo_capacity_def)

lemma nth_fifo_items:
  assumes "fifo_ok f" and "i < fifo_count f"
  shows "fifo_items f ! i = fifo_buf f ! fifo_wrap f i"
proof -
  have "i < fifo_capacity f" and "fifo_head f < fifo_capacity f"
    using assms by (auto simp: fifo_ok_def)
  then show ?thesis
    using assms(2) wrap_mod [of "fifo_head f" "fifo_capacity f" i]
    by (simp add: fifo_items_def nth_rotate fifo_capacity_def fifo_wrap_def)
qed

lemma fifo_items_eqI:
  assumes "fifo_ok f" and "length xs = fifo_count f"
    and "\<And>i. i < fifo_count f \<Longrightarrow> fifo_buf f ! fifo_wrap f i = xs ! i"
  shows "fifo_items f = xs"
  using assms by (intro nth_equalityI) (simp_all add: nth_fifo_items)

lemma fifo_mask_ok:
  assumes "fifo_ok f" and "0 < fifo_capacity f" and "i \<le> fifo_capacity f"
  shows "fifo_mask f (fifo_head f + i) = Some (fifo_wrap f i)"
proof -
  have "fifo_mask f j = Some (j mod fifo_capacity f)" for j
    using assms by (auto simp: fifo_mask_def fifo_ok_def and_power_of_two)
  moreover have "fifo_head f < fifo_capacity f" using assms by (auto simp: fifo_ok_def)
  ultimately show ?thesis using wrap_mod assms(3) fifo_wrap_def by metis
qed

section \<open>Sizes and slices\<close>

lemma writable_length_ok [simp]:
  "fifo_ok f \<Longrightarrow> writable_length f = Some (fifo_capacity f - fifo_count f)"
  by (simp add: writable_length_def usize_sub_def fifo_ok_def)

lemma reset_head_if_empty_ok:
  "fifo_ok f \<Longrightarrow> fifo_ok (reset_head_if_empty f) \<and> fifo_items (reset_head_if_empty f) = fifo_items f"
  by (auto simp: reset_head_if_empty_def fifo_ok_def fifo_items_def fifo_capacity_def)

lemma readable_slice_ok:
  assumes "fifo_ok f" and "off \<le> fifo_count f"
  shows "readable_slice f off =
    Some (if fifo_head f + off < fifo_capacity f
          then take (fifo_capacity f - (fifo_head f + off)) (drop off (fifo_items f))
          else drop off (fifo_items f))"
proof (cases "fifo_head f + off < fifo_capacity f")
  case True
  let ?e = "min (fifo_head f + fifo_count f) (fifo_capacity f)"
  have "readable_slice f off = Some (read_range (fifo_buf f) (fifo_head f + off, ?e))"
    using assms True by (simp add: readable_slice_def readable_slice_mut_def checked_range_def
        fifo_capacity_def)
  moreover have "read_range (fifo_buf f) (fifo_head f + off, ?e)
      = take (fifo_capacity f - (fifo_head f + off)) (drop off (fifo_items f))"
    using assms True
    by (intro nth_equalityI)
      (auto simp: read_range_def nth_fifo_items fifo_wrap_def fifo_capacity_def min_def add.assoc split: if_splits)
  ultimately show ?thesis using True by simp
next
  case False
  let ?s = "fifo_head f + off - fifo_capacity f"
  have b: "?s + (fifo_count f - off) \<le> fifo_capacity f"
    using assms False by (auto simp: fifo_ok_def)
  then have "readable_slice f off = Some (read_range (fifo_buf f) (?s, ?s + (fifo_count f - off)))"
    using assms False by (simp add: readable_slice_def readable_slice_mut_def checked_range_def
        fifo_capacity_def Let_def)
  moreover have "read_range (fifo_buf f) (?s, ?s + (fifo_count f - off)) = drop off (fifo_items f)"
    using assms False b
    by (intro nth_equalityI) (auto simp: read_range_def nth_fifo_items fifo_wrap_def fifo_capacity_def add.assoc)
  ultimately show ?thesis using False by simp
qed

lemma writable_slice_ok:
  assumes "fifo_ok f"
  shows "writable_slice f 0 =
    Some (if fifo_head f + fifo_count f < fifo_capacity f
          then (fifo_head f + fifo_count f, fifo_capacity f)
          else (fifo_head f + fifo_count f - fifo_capacity f, fifo_head f))"
  using assms
  by (auto simp: writable_slice_def usize_sub_def checked_range_def fifo_ok_def fifo_capacity_def)

section \<open>Discarding and reading\<close>

text \<open>Discarding works unless nothing can be stored and the capacity is no power of two.\<close>

definition can_discard :: "'a linear_fifo \<Rightarrow> bool" where
  "can_discard f \<longleftrightarrow> fifo_capacity f \<noteq> 0 \<or> powers_of_two (fifo_kind f)"

lemma discard_head_ok:
  assumes "fifo_ok f" and "can_discard f" and "n \<le> fifo_count f"
  shows "discard_head f (fifo_head f + n) = Some (fifo_wrap f n)"
proof (cases "fifo_capacity f = 0")
  case True
  then show ?thesis using assms by (simp add: discard_head_def can_discard_def fifo_ok_def fifo_wrap_def)
next
  case False
  then have "discard_head f (fifo_head f + n) = fifo_mask f (fifo_head f + n)"
    by (simp add: discard_head_def fifo_mask_def)
  then show ?thesis using fifo_mask_ok [of f n] assms False by (simp add: fifo_ok_def)
qed

lemma discard_ok:
  assumes "fifo_ok f" and "can_discard f" and "n \<le> fifo_count f"
  obtains f' where "discard n f = Some f'" and "fifo_ok f'" and "fifo_items f' = drop n (fifo_items f)"
    and "fifo_capacity f' = fifo_capacity f" and "fifo_kind f' = fifo_kind f"
proof -
  let ?h = "fifo_wrap f n"
  define f' where "f' = f\<lparr>fifo_head := ?h, fifo_count := fifo_count f - n\<rparr>"
  have f': "fifo_buf f' = fifo_buf f" "fifo_head f' = ?h" "fifo_count f' = fifo_count f - n"
    "fifo_kind f' = fifo_kind f" "fifo_capacity f' = fifo_capacity f"
    by (simp_all add: f'_def fifo_capacity_def)
  have "discard n f = Some f'"
    using assms discard_head_ok [OF assms] by (simp add: discard_def f'_def)
  moreover have ok: "fifo_ok f'"
    using assms(1,3) unfolding fifo_ok_def f' by (auto simp: fifo_wrap_def)
  moreover have "fifo_items f' = drop n (fifo_items f)"
  proof (rule fifo_items_eqI [OF ok])
    fix i assume "i < fifo_count f'"
    then show "fifo_buf f' ! fifo_wrap f' i = drop n (fifo_items f) ! i"
      using assms(1,3) f' by (auto simp: nth_fifo_items fifo_ok_def fifo_wrap_def add.assoc)
  qed (use assms f' in simp)
  ultimately show thesis using f' that by blast
qed


lemma read_item_ok:
  assumes "fifo_ok f"
  shows "\<exists>f'. read_item f = Some (if fifo_items f = [] then None else Some (hd (fifo_items f)), f')
    \<and> fifo_ok f' \<and> fifo_items f' = tl (fifo_items f)
    \<and> fifo_capacity f' = fifo_capacity f \<and> fifo_kind f' = fifo_kind f"
proof (cases "fifo_count f = 0")
  case True
  then have "fifo_items f = []" by (simp add: fifo_items_def)
  then show ?thesis using True assms by (simp add: read_item_def)
next
  case False
  then have c: "can_discard f" "1 \<le> fifo_count f" "fifo_head f < fifo_capacity f"
    using assms by (auto simp: can_discard_def fifo_ok_def)
  have ne: "fifo_items f \<noteq> []" using False assms length_fifo_items by fastforce
  then have hd: "hd (fifo_items f) = fifo_buf f ! fifo_head f"
    using c nth_fifo_items [of f 0] assms by (simp add: hd_conv_nth fifo_wrap_def)
  from discard_ok [OF assms c(1,2)] obtain f' where
    "discard 1 f = Some f'" "fifo_ok f'" "fifo_items f' = drop 1 (fifo_items f)"
    "fifo_capacity f' = fifo_capacity f" "fifo_kind f' = fifo_kind f" .
  then show ?thesis using ne hd c by (simp add: read_item_def drop_Suc False)
qed

lemma fifo_read_loop_ok:
  assumes "fifo_ok f"
  shows "\<exists>f'. fifo_read_loop f dst =
      Some (take (length dst) (fifo_items f), drop (fifo_count f) dst, f')
    \<and> fifo_ok f' \<and> fifo_items f' = drop (length dst) (fifo_items f)
    \<and> fifo_capacity f' = fifo_capacity f \<and> fifo_kind f' = fifo_kind f"
  using assms
proof (induction f dst rule: fifo_read_loop.induct)
  case (1 f dst)
  let ?s = "if fifo_head f < fifo_capacity f then take (fifo_capacity f - fifo_head f) (fifo_items f)
            else fifo_items f"
  have s: "readable_slice f 0 = Some ?s" using readable_slice_ok [of f 0] 1(2) by simp
  show ?case
  proof (cases "dst = [] \<or> fifo_items f = []")
    case True
    moreover have "fifo_count f = 0" if "fifo_items f = []" using that length_fifo_items [OF 1(2)] by simp
    ultimately show ?thesis using s 1(2) by (subst fifo_read_loop.simps) auto
  next
    case False
    then have ne: "?s \<noteq> []" by simp
    have cnt: "0 < fifo_count f" using False length_fifo_items [OF 1(2)] by force
    then have cd: "can_discard f" using 1(2) by (auto simp: can_discard_def fifo_ok_def)
    define n where "n = min (length ?s) (length dst)"
    have n: "n \<le> fifo_count f" "n \<le> length dst" "take n ?s = take n (fifo_items f)" "0 < n"
      using 1(2) False cnt by (auto simp: n_def)
    from discard_ok [OF 1(2) cd n(1)] obtain f1 where f1:
      "discard n f = Some f1" "fifo_ok f1" "fifo_items f1 = drop n (fifo_items f)"
      "fifo_capacity f1 = fifo_capacity f" "fifo_kind f1 = fifo_kind f" .
    have "fifo_count f1 = fifo_count f - n"
      using f1 length_fifo_items [OF f1(2)] length_fifo_items [OF 1(2)] by simp
    moreover obtain f' where f': "fifo_read_loop f1 (drop n dst) =
        Some (take (length (drop n dst)) (fifo_items f1), drop (fifo_count f1) (drop n dst), f')"
      "fifo_ok f'" "fifo_items f' = drop (length (drop n dst)) (fifo_items f1)"
      "fifo_capacity f' = fifo_capacity f1" "fifo_kind f' = fifo_kind f1"
      using 1(1) [OF _ s ne n_def f1(1) f1(2)] False by blast
    ultimately have "fifo_read_loop f dst =
        Some (take n (fifo_items f) @ take (length dst - n) (drop n (fifo_items f)),
              drop (fifo_count f) dst, f')"
      using False s ne n f1 by (subst fifo_read_loop.simps) (simp add: Let_def flip: n_def)
    moreover have "take n (fifo_items f) @ take (length dst - n) (drop n (fifo_items f))
        = take (length dst) (fifo_items f)"
      using n(2) by (metis le_add_diff_inverse take_add)
    ultimately show ?thesis using f' f1 n by auto
  qed
qed

theorem fifo_read_ok:
  assumes "fifo_ok f"
  shows "\<exists>f'. fifo_read f dst =
      Some (min (length dst) (fifo_count f),
            take (length dst) (fifo_items f) @ drop (fifo_count f) dst, f')
    \<and> fifo_ok f' \<and> fifo_items f' = drop (length dst) (fifo_items f)
    \<and> fifo_capacity f' = fifo_capacity f \<and> fifo_kind f' = fifo_kind f"
  using fifo_read_loop_ok [OF assms, of dst] by (force simp: fifo_read_def usize_sub_def min_def)

lemma peek_item_ok:
  assumes "fifo_ok f" and "i < fifo_count f"
  shows "peek_item f i = Some (fifo_items f ! i)"
proof -
  have "0 < fifo_capacity f" "i \<le> fifo_capacity f" using assms by (auto simp: fifo_ok_def)
  from fifo_mask_ok [OF assms(1) this] nth_fifo_items [OF assms] assms
  show ?thesis by (auto simp: peek_item_def fifo_ok_def fifo_wrap_def)
qed

section \<open>Overwriting and appending\<close>

lemma overwrite_ok:
  assumes "fifo_ok f" and "off + length xs \<le> fifo_count f"
    and "fifo_head f + off < fifo_capacity f \<Longrightarrow> fifo_head f + off + length xs \<le> fifo_capacity f"
  shows "fifo_ok (f\<lparr>fifo_buf := blit (fifo_buf f) (fifo_wrap f off) xs\<rparr>)"
    and "fifo_items (f\<lparr>fifo_buf := blit (fifo_buf f) (fifo_wrap f off) xs\<rparr>) = blit (fifo_items f) off xs"
proof -
  let ?f = "f\<lparr>fifo_buf := blit (fifo_buf f) (fifo_wrap f off) xs\<rparr>"
  have b: "fifo_wrap f off + length xs \<le> length (fifo_buf f)"
    using assms by (auto simp: fifo_wrap_def fifo_ok_def fifo_capacity_def)
  then have cap: "fifo_capacity ?f = fifo_capacity f" by (simp add: fifo_capacity_def)
  then show ok: "fifo_ok ?f" using assms(1) by (simp add: fifo_ok_def)
  show "fifo_items ?f = blit (fifo_items f) off xs"
  proof (rule fifo_items_eqI [OF ok])
    fix i assume "i < fifo_count ?f"
    then have i: "i < fifo_count f" by simp
    let ?j = "fifo_wrap f i"
    have "?j < length (fifo_buf f)"
      using i assms(1) by (auto simp: fifo_wrap_def fifo_ok_def fifo_capacity_def)
    then have "fifo_buf ?f ! ?j = (if fifo_wrap f off \<le> ?j \<and> ?j < fifo_wrap f off + length xs
        then xs ! (?j - fifo_wrap f off) else fifo_buf f ! ?j)"
      using b by (simp add: nth_blit)
    also have "\<dots> = (if off \<le> i \<and> i < off + length xs then xs ! (i - off) else fifo_buf f ! ?j)"
      using i assms by (auto simp: fifo_wrap_def fifo_ok_def)
    also have "\<dots> = blit (fifo_items f) off xs ! i"
      using i assms by (simp add: nth_blit nth_fifo_items)
    finally have "fifo_buf ?f ! ?j = blit (fifo_items f) off xs ! i" .
    moreover have "fifo_wrap ?f i = fifo_wrap f i" using cap unfolding fifo_wrap_def by simp
    ultimately show "fifo_buf ?f ! fifo_wrap ?f i = blit (fifo_items f) off xs ! i" by simp
  qed (use assms in simp)
qed

lemma grow_count_ok:
  assumes "fifo_ok f" and "fifo_count f + n \<le> fifo_capacity f"
  shows "fifo_ok (f\<lparr>fifo_count := fifo_count f + n\<rparr>)"
    and "take (fifo_count f) (fifo_items (f\<lparr>fifo_count := fifo_count f + n\<rparr>)) = fifo_items f"
  using assms by (simp_all add: fifo_ok_def fifo_items_def fifo_capacity_def)

text \<open>Writing items to the slots behind the last item and counting them appends them.\<close>

lemma append_ok:
  assumes "fifo_ok f" and "fifo_count f + length xs \<le> fifo_capacity f"
    and "fifo_head f + fifo_count f < fifo_capacity f \<Longrightarrow>
      fifo_head f + fifo_count f + length xs \<le> fifo_capacity f"
  shows "\<exists>f'. fifo_update (length xs) (f\<lparr>fifo_buf := blit (fifo_buf f) (fifo_wrap f (fifo_count f)) xs\<rparr>) = Some f'
    \<and> fifo_ok f' \<and> fifo_items f' = fifo_items f @ xs
    \<and> fifo_capacity f' = fifo_capacity f \<and> fifo_kind f' = fifo_kind f"
proof -
  define g where "g = f\<lparr>fifo_count := fifo_count f + length xs\<rparr>"
  have g: "fifo_ok g" "take (fifo_count f) (fifo_items g) = fifo_items f"
    using grow_count_ok [OF assms(1,2)] by (simp_all add: g_def)
  have sel: "fifo_buf g = fifo_buf f" "fifo_head g = fifo_head f" "fifo_count g = fifo_count f + length xs"
    "fifo_capacity g = fifo_capacity f" "fifo_kind g = fifo_kind f"
    by (simp_all add: g_def fifo_capacity_def)
  define f' where "f' = g\<lparr>fifo_buf := blit (fifo_buf g) (fifo_wrap g (fifo_count f)) xs\<rparr>"
  have f': "fifo_ok f'" "fifo_items f' = blit (fifo_items g) (fifo_count f) xs"
    unfolding f'_def using overwrite_ok [of g "fifo_count f" xs] g(1) sel assms by simp_all
  have w: "fifo_wrap g (fifo_count f) = fifo_wrap f (fifo_count f)"
    by (simp add: fifo_wrap_def sel)
  have b: "fifo_wrap f (fifo_count f) + length xs \<le> length (fifo_buf f)"
    using assms by (auto simp: fifo_wrap_def fifo_ok_def fifo_capacity_def)
  then have "fifo_capacity f' = fifo_capacity f"
    unfolding f'_def w sel by (simp add: fifo_capacity_def)
  moreover have "fifo_update (length xs) (f\<lparr>fifo_buf := blit (fifo_buf f) (fifo_wrap f (fifo_count f)) xs\<rparr>) = Some f'"
    using assms b by (simp add: fifo_update_def f'_def g_def fifo_wrap_def fifo_capacity_def)
  moreover have "fifo_items f' = fifo_items f @ xs"
    using f'(2) g length_fifo_items [OF g(1)] sel by (simp add: blit_def)
  ultimately show ?thesis using f' sel by (auto simp: f'_def)
qed

end
