(* ===== verification/Fifo_Ops.thy ===== *)
theory Fifo_Ops
  imports Fifo_Spec
begin

text \<open>
  The operations of the ring buffer that move its contents: realigning, growing, writing, putting
  back and removing.
\<close>

section \<open>Realigning\<close>

text \<open>The scratch area of \<open>realign\<close> holds at least one item.\<close>

definition item_size_ok :: "nat \<Rightarrow> bool" where
  "item_size_ok t_size \<longleftrightarrow> 0 < t_size \<and> t_size \<le> PAGE_SIZE_MIN div 2"

text \<open>What an operation that only moves the contents keeps.\<close>

definition same_queue :: "'a linear_fifo \<Rightarrow> 'a linear_fifo \<Rightarrow> bool" where
  "same_queue f f' \<longleftrightarrow> fifo_ok f' \<and> fifo_items f' = fifo_items f \<and> fifo_count f' = fifo_count f
     \<and> fifo_kind f' = fifo_kind f"

lemma same_queueD:
  "same_queue f f' \<Longrightarrow> fifo_ok f'" "same_queue f f' \<Longrightarrow> fifo_items f' = fifo_items f"
  "same_queue f f' \<Longrightarrow> fifo_count f' = fifo_count f" "same_queue f f' \<Longrightarrow> fifo_kind f' = fifo_kind f"
  by (simp_all add: same_queue_def)

lemma same_queue_refl: "fifo_ok f \<Longrightarrow> same_queue f f"
  by (simp add: same_queue_def)

lemma same_queue_trans: "same_queue f g \<Longrightarrow> same_queue g h \<Longrightarrow> same_queue f h"
  by (simp add: same_queue_def)

lemma realign_step_rotate:
  assumes "fifo_ok f" and "fifo_head f \<noteq> 0"
  shows "realign_step t f = f\<lparr>fifo_buf := rotate (min (fifo_head f) t) (fifo_buf f),
                              fifo_head := fifo_head f - min (fifo_head f) t\<rparr>"
proof -
  define n where "n = min (fifo_head f) t"
  have n: "n < length (fifo_buf f)" using assms by (auto simp: n_def fifo_ok_def fifo_capacity_def)
  have "blit (memmove (fifo_buf f) n 0 (length (fifo_buf f) - n)) (length (fifo_buf f) - n) (take n (fifo_buf f))
      = drop n (fifo_buf f) @ take n (fifo_buf f)"
    using n by (simp add: memmove_def blit_def)
  also have "\<dots> = rotate n (fifo_buf f)" using n by (simp add: rotate_drop_take)
  finally show ?thesis unfolding realign_step_def n_def [symmetric] by (simp add: Let_def fifo_capacity_def)
qed

lemma realign_step_same:
  assumes "fifo_ok f" and "fifo_head f \<noteq> 0"
  shows "same_queue f (realign_step t f)" "fifo_capacity (realign_step t f) = fifo_capacity f"
    "fifo_head (realign_step t f) = fifo_head f - t"
  using assms by (auto simp: realign_step_rotate same_queue_def fifo_ok_def fifo_items_def
      rotate_rotate fifo_capacity_def min_def)

interpretation rl: guarded_loop "\<lambda>(t, f). realign_loop t f"
  "\<lambda>(t, f). Some (if fifo_head f = 0 then Inr f else Inl (t, realign_step t f))"
  "\<lambda>(t, f). 0 < t \<and> fifo_ok f" "measure (\<lambda>(t, f). fifo_head f)"
proof (unfold_locales, goal_cases)
  case (1 s)
  then show ?case by (cases s) (subst realign_loop.simps, auto)
qed (auto simp: realign_step_same same_queueD(1) [OF realign_step_same(1)] split: if_splits)

lemma realign_loop_ok:
  assumes "fifo_ok f" and "0 < t"
  shows "\<exists>f'. realign_loop t f = Some f' \<and> same_queue f f' \<and> fifo_head f' = 0
    \<and> fifo_capacity f' = fifo_capacity f"
proof -
  let ?J = "\<lambda>(t, f'). same_queue f f' \<and> fifo_capacity f' = fifo_capacity f"
  have step: "same_queue f (realign_step t g) \<and> fifo_capacity (realign_step t g) = fifo_capacity f"
    if "same_queue f g" "fifo_capacity g = fifo_capacity f" "fifo_head g \<noteq> 0" for t g
    using that realign_step_same [OF same_queueD(1) [OF that(1)] that(3)] same_queue_trans by metis
  have "\<exists>r s'. (\<lambda>(t, f). 0 < t \<and> fifo_ok f) s' \<and> ?J s' \<and>
      (\<lambda>(t, f). Some (if fifo_head f = 0 then Inr f else Inl (t, realign_step t f))) s' = Some (Inr r)
      \<and> (\<lambda>(t, f). realign_loop t f) (t, f) = Some r"
    by (rule rl.returns_with) (use assms step in \<open>auto simp: same_queue_refl split: if_splits\<close>)
  then show ?thesis by (auto split: if_splits)
qed

theorem realign_ok:
  assumes "fifo_ok f" and "item_size_ok t_size"
  shows "\<exists>f'. realign t_size f = Some f' \<and> same_queue f f' \<and> fifo_head f' = 0
    \<and> fifo_capacity f' = fifo_capacity f"
proof (cases "fifo_count f \<le> fifo_capacity f - fifo_head f")
  case True
  have h: "fifo_head f \<le> fifo_capacity f" using assms(1) by (auto simp: fifo_ok_def)
  with True have hc: "fifo_head f + fifo_count f \<le> length (fifo_buf f)" by (simp add: fifo_capacity_def)
  let ?f = "f\<lparr>fifo_buf := memmove (fifo_buf f) (fifo_head f) 0 (fifo_count f), fifo_head := 0\<rparr>"
  have cap: "fifo_capacity ?f = fifo_capacity f"
    using True assms(1) by (simp add: fifo_capacity_def fifo_ok_def)
  then have ok: "fifo_ok ?f" using assms(1) by (auto simp: fifo_ok_def)
  have "fifo_items ?f = fifo_items f"
  proof (rule fifo_items_eqI [OF ok])
    fix i assume "i < fifo_count ?f"
    moreover have "fifo_wrap ?f i = i" if "i < fifo_count f"
      using that cap ok by (auto simp: fifo_wrap_def fifo_ok_def)
    ultimately show "fifo_buf ?f ! fifo_wrap ?f i = fifo_items f ! i"
      using hc assms(1) nth_memmove [of "fifo_head f" "fifo_count f" "fifo_buf f" 0 i]
      by (simp add: nth_fifo_items fifo_wrap_def fifo_capacity_def)
  qed (use assms(1) in simp)
  then have "same_queue f ?f" using ok by (simp add: same_queue_def)
  then show ?thesis using True h cap by (auto simp: realign_def usize_sub_def)
next
  case False
  moreover have "0 < PAGE_SIZE_MIN div 2 div t_size"
    using assms(2) by (simp add: item_size_ok_def div_greater_zero_iff)
  moreover have "fifo_head f \<le> fifo_capacity f" using assms(1) by (auto simp: fifo_ok_def)
  ultimately show ?thesis
    using realign_loop_ok [OF assms(1)] assms(2) by (simp add: realign_def usize_sub_def item_size_ok_def)
qed

section \<open>Capacity\<close>

text \<open>Whether \<open>n\<close> more items can be stored, after growing where the storage can grow.\<close>

definition fits :: "'a linear_fifo \<Rightarrow> nat \<Rightarrow> bool" where
  "fits f n \<longleftrightarrow> fifo_count f + n \<le> (if is_dynamic (fifo_kind f) then 2 ^ 63 else fifo_capacity f)"

lemma uninit_blit_ok:
  assumes "fifo_ok f" and "fifo_head f = 0" and "is_power_of_two p" and "fifo_count f \<le> p"
  shows "same_queue f (f\<lparr>fifo_buf := blit (uninit_slice junk p) 0 (take (fifo_count f) (fifo_buf f)), fifo_head := 0\<rparr>)"
  using assms power_of_two_le [of p] power_of_two_pos [of p]
  by (simp add: same_queue_def fifo_ok_def fifo_items_def fifo_capacity_def take_blit [where pos = 0, simplified]
      blit_def min_def)

lemma ensure_total_capacity_ok:
  assumes ok: "fifo_ok f" "item_size_ok t_size" and n: "fifo_count f \<le> n" "n \<noteq> 0"
  shows "\<exists>f'. ensure_total_capacity t_size junk n f =
      Some (if n \<le> (if is_dynamic (fifo_kind f) then 2 ^ 63 else fifo_capacity f)
            then Inr () else Inl Alloc_Error, f')
    \<and> same_queue f f' \<and> (\<not> is_dynamic (fifo_kind f) \<longrightarrow> f' = f) \<and> fifo_capacity f \<le> fifo_capacity f'
    \<and> (n \<le> (if is_dynamic (fifo_kind f) then 2 ^ 63 else fifo_capacity f) \<longrightarrow> n \<le> fifo_capacity f')"
proof (cases "fifo_capacity f < n \<and> is_dynamic (fifo_kind f)")
  case False
  moreover have "fifo_capacity f \<le> 2 ^ 63" using ok by (simp add: fifo_ok_def)
  ultimately show ?thesis using same_queue_refl [OF ok(1)] by (auto simp: ensure_total_capacity_def)
next
  case True
  then have kind: "fifo_kind f = Dynamic_buffer" by (cases "fifo_kind f") auto
  from realign_ok [OF ok] obtain f1 where f1: "realign t_size f = Some f1" "same_queue f f1"
    "fifo_head f1 = 0" "fifo_capacity f1 = fifo_capacity f" by blast
  show ?thesis
  proof (cases "checked_next_power_of_two n")
    case None
    then show ?thesis
      using True kind f1 checked_next_power_of_two_None [of n] by (simp add: ensure_total_capacity_def)
  next
    case (Some p)
    then have p: "is_power_of_two p" "n \<le> p" "n \<le> 2 ^ 63"
      using checked_next_power_of_two_Some checked_next_power_of_two_None [of n] by auto
    let ?f = "f1\<lparr>fifo_buf := blit (uninit_slice junk p) 0 (take (fifo_count f1) (fifo_buf f1)), fifo_head := 0\<rparr>"
    have q: "same_queue f1 ?f"
      using f1 p n by (intro uninit_blit_ok) (auto simp: same_queue_def)
    have "ensure_total_capacity t_size junk n f = Some (Inr (), ?f)"
      using True kind f1(1) Some by (simp add: ensure_total_capacity_def blit_def)
    moreover have "fifo_capacity ?f = p"
      using p n f1(2) by (simp add: fifo_capacity_def same_queue_def blit_def min_def)
    ultimately show ?thesis using same_queue_trans [OF f1(2) q] p kind True by auto
  qed
qed

theorem ensure_unused_capacity_ok:
  assumes "fifo_ok f" and "item_size_ok t_size"
  shows "\<exists>f'. ensure_unused_capacity t_size junk n f = Some (if fits f n then Inr () else Inl Alloc_Error, f')
    \<and> same_queue f f' \<and> (\<not> is_dynamic (fifo_kind f) \<longrightarrow> f' = f) \<and> fifo_capacity f \<le> fifo_capacity f'
    \<and> (fits f n \<longrightarrow> fifo_count f' + n \<le> fifo_capacity f')"
proof (cases "fifo_count f + n \<le> fifo_capacity f")
  case True
  then have "fits f n" using assms(1) by (simp add: fits_def fifo_ok_def)
  then show ?thesis using True assms(1) same_queue_refl by (auto simp: ensure_unused_capacity_def)
next
  case big: False
  then have ne: "\<not> n \<le> fifo_capacity f - fifo_count f" using assms(1) by (auto simp: fifo_ok_def)
  show ?thesis
  proof (cases "2 ^ 64 \<le> fifo_count f + n")
    case True
    then have "\<not> fits f n" using big by (simp add: fits_def)
    then show ?thesis using assms(1) ne True same_queue_refl by (auto simp: ensure_unused_capacity_def)
  next
    case False
    have "fifo_count f \<le> fifo_count f + n" "fifo_count f + n \<noteq> 0" using big by auto
    from ensure_total_capacity_ok [OF assms this, folded fits_def]
    obtain f' where "ensure_total_capacity t_size junk (fifo_count f + n) f
        = Some (if fits f n then Inr () else Inl Alloc_Error, f')" "same_queue f f'"
      "\<not> is_dynamic (fifo_kind f) \<longrightarrow> f' = f" "fifo_capacity f \<le> fifo_capacity f'" "fits f n \<longrightarrow> fifo_count f + n \<le> fifo_capacity f'"
      by blast
    then show ?thesis using assms(1) ne False by (auto simp: ensure_unused_capacity_def same_queue_def)
  qed
qed

section \<open>Writing\<close>

lemma write_loop_ok:
  assumes "fifo_ok f" and "fifo_count f + length src \<le> fifo_capacity f"
  shows "\<exists>f'. write_loop f src = Some f' \<and> fifo_ok f' \<and> fifo_items f' = fifo_items f @ src
    \<and> fifo_capacity f' = fifo_capacity f \<and> fifo_kind f' = fifo_kind f"
  using assms
proof (induction f src rule: write_loop.induct)
  case (1 f src)
  show ?case
  proof (cases "src = []")
    case True
    then show ?thesis using 1(2) by (subst write_loop.simps) simp
  next
    case False
    let ?a = "fifo_wrap f (fifo_count f)"
    let ?b = "if fifo_head f + fifo_count f < fifo_capacity f then fifo_capacity f else fifo_head f"
    have ws: "writable_slice f 0 = Some (?a, ?b)"
      using writable_slice_ok [OF 1(2)] by (simp add: fifo_wrap_def)
    have "0 < length src" using False by simp
    with 1(3) have "fifo_count f < fifo_capacity f" by linarith
    then have ab: "?a < ?b" using 1(2) by (auto simp: fifo_wrap_def fifo_ok_def)
    define n where "n = min (?b - ?a) (length src)"
    have n: "0 < n" "length (take n src) = n" "fifo_count f + n \<le> fifo_capacity f"
      "fifo_head f + fifo_count f < fifo_capacity f \<Longrightarrow> fifo_head f + fifo_count f + n \<le> fifo_capacity f"
      using ab False 1(3) by (auto simp: n_def fifo_wrap_def)
    obtain f1 where f1: "fifo_update n (f\<lparr>fifo_buf := blit (fifo_buf f) ?a (take n src)\<rparr>) = Some f1"
      "fifo_ok f1" "fifo_items f1 = fifo_items f @ take n src" "fifo_capacity f1 = fifo_capacity f"
      "fifo_kind f1 = fifo_kind f"
      using append_ok [OF 1(2), of "take n src"] n by auto
    have "fifo_count f1 + length (drop n src) \<le> fifo_capacity f1"
      using f1(2-4) 1(2,3) n length_fifo_items [OF f1(2)] by simp
    then obtain f' where "write_loop f1 (drop n src) = Some f'" "fifo_ok f'"
      "fifo_items f' = fifo_items f1 @ drop n src" "fifo_capacity f' = fifo_capacity f1"
      "fifo_kind f' = fifo_kind f1"
      using 1(1) [OF False ws refl _ n_def f1(1) f1(2)] ab by (auto simp: not_le)
    then show ?thesis
      using False ws ab f1 by (subst write_loop.simps) (simp add: Let_def flip: n_def)
  qed
qed

text \<open>What a successful write makes of the queue.\<close>

definition queue_becomes :: "'a linear_fifo \<Rightarrow> 'a list \<Rightarrow> 'a linear_fifo \<Rightarrow> bool" where
  "queue_becomes f xs f' \<longleftrightarrow> fifo_ok f' \<and> fifo_items f' = xs \<and> fifo_kind f' = fifo_kind f
     \<and> (\<not> is_dynamic (fifo_kind f) \<longrightarrow> fifo_capacity f' = fifo_capacity f)"

lemma queue_becomesD:
  "queue_becomes f xs f' \<Longrightarrow> fifo_ok f'" "queue_becomes f xs f' \<Longrightarrow> fifo_items f' = xs"
  "queue_becomes f xs f' \<Longrightarrow> fifo_kind f' = fifo_kind f"
  by (simp_all add: queue_becomes_def)

lemma write_assume_capacity_ok:
  assumes "fifo_ok f" and "fifo_count f + length src \<le> fifo_capacity f"
  shows "\<exists>f'. write_assume_capacity f src = Some f' \<and> queue_becomes f (fifo_items f @ src) f'"
proof -
  have "length src \<le> fifo_capacity f - fifo_count f" using assms(2) by linarith
  then show ?thesis
    using write_loop_ok [OF assms] assms(1) by (auto simp: write_assume_capacity_def queue_becomes_def)
qed

lemma write_item_assume_capacity_ok:
  assumes "fifo_ok f" and "fifo_count f < fifo_capacity f"
  shows "\<exists>f'. write_item_assume_capacity x f = Some f' \<and> queue_becomes f (fifo_items f @ [x]) f'"
proof -
  have w: "fifo_wrap f (fifo_count f) < length (fifo_buf f)"
    using assms by (auto simp: fifo_wrap_def fifo_ok_def fifo_capacity_def)
  have "fifo_mask f (fifo_head f + fifo_count f) = Some (fifo_wrap f (fifo_count f))"
    using assms by (intro fifo_mask_ok) auto
  moreover have "(fifo_buf f)[fifo_wrap f (fifo_count f) := x] = blit (fifo_buf f) (fifo_wrap f (fifo_count f)) [x]"
    using w by (simp add: blit_def upd_conv_take_nth_drop)
  ultimately show ?thesis
    using append_ok [OF assms(1), of "[x]"] assms(2)
    by (auto simp: write_item_assume_capacity_def queue_becomes_def)
qed

lemma same_queue_becomes:
  assumes "same_queue f f'" and "\<not> is_dynamic (fifo_kind f) \<longrightarrow> f' = f"
  shows "queue_becomes f (fifo_items f) f'" and "queue_becomes f' xs g \<Longrightarrow> queue_becomes f xs g"
  using assms by (auto simp: queue_becomes_def same_queue_def)

theorem fifo_write_ok:
  assumes "fifo_ok f" and "item_size_ok t_size"
  shows "\<exists>f'. fifo_write t_size junk src f =
      Some (if fits f (length src) then Inr () else Inl Alloc_Error, f')
    \<and> queue_becomes f (fifo_items f @ (if fits f (length src) then src else [])) f'"
proof -
  from ensure_unused_capacity_ok [OF assms, of junk "length src"] obtain f1 where f1:
    "ensure_unused_capacity t_size junk (length src) f =
       Some (if fits f (length src) then Inr () else Inl Alloc_Error, f1)"
    "same_queue f f1" "\<not> is_dynamic (fifo_kind f) \<longrightarrow> f1 = f"
    "fits f (length src) \<longrightarrow> fifo_count f1 + length src \<le> fifo_capacity f1" by blast
  show ?thesis
  proof (cases "fits f (length src)")
    case True
    with f1 obtain f2 where "write_assume_capacity f1 src = Some f2"
      "queue_becomes f1 (fifo_items f1 @ src) f2"
      using write_assume_capacity_ok same_queueD(1) by blast
    then show ?thesis
      using True f1 same_queue_becomes(2) by (simp add: fifo_write_def same_queueD(2))
  next
    case False
    then show ?thesis using f1 same_queue_becomes(1) by (simp add: fifo_write_def)
  qed
qed

theorem write_item_ok:
  assumes "fifo_ok f" and "item_size_ok t_size"
  shows "\<exists>f'. write_item t_size junk x f = Some (if fits f 1 then Inr () else Inl Alloc_Error, f')
    \<and> queue_becomes f (fifo_items f @ (if fits f 1 then [x] else [])) f'"
proof -
  from ensure_unused_capacity_ok [OF assms, of junk 1] obtain f1 where f1:
    "ensure_unused_capacity t_size junk 1 f = Some (if fits f 1 then Inr () else Inl Alloc_Error, f1)"
    "same_queue f f1" "\<not> is_dynamic (fifo_kind f) \<longrightarrow> f1 = f"
    "fits f 1 \<longrightarrow> fifo_count f1 + 1 \<le> fifo_capacity f1" by blast
  show ?thesis
  proof (cases "fits f 1")
    case True
    with f1 obtain f2 where "write_item_assume_capacity x f1 = Some f2"
      "queue_becomes f1 (fifo_items f1 @ [x]) f2"
      using write_item_assume_capacity_ok [of f1 x] same_queueD(1) by auto
    then show ?thesis
      using True f1 same_queue_becomes(2) by (simp add: write_item_def same_queueD(2))
  next
    case False
    then show ?thesis using f1 same_queue_becomes(1) by (simp add: write_item_def)
  qed
qed

text \<open>
  \<open>writable_with_size\<close> hands out \<open>n\<close> slots in one piece; filling them and calling \<open>update\<close> appends.
\<close>

theorem writable_with_size_ok:
  assumes "fifo_ok f" and "item_size_ok t_size" and "fits f (length xs)"
  shows "\<exists>a f1 f2. writable_with_size t_size junk (length xs) f = Some (Inr (a, a + length xs), f1)
    \<and> fifo_update (length xs) (f1\<lparr>fifo_buf := blit (fifo_buf f1) a xs\<rparr>) = Some f2
    \<and> fifo_ok f2 \<and> fifo_items f2 = fifo_items f @ xs"
proof -
  let ?n = "length xs"
  from ensure_unused_capacity_ok [OF assms(1,2), of junk ?n] assms(3) obtain f1 where f1:
    "ensure_unused_capacity t_size junk ?n f = Some (Inr (), f1)"
    "same_queue f f1" "fifo_count f1 + ?n \<le> fifo_capacity f1" by auto
  let ?len = "\<lambda>g. (if fifo_head g + fifo_count g < fifo_capacity g then fifo_capacity g else fifo_head g)
      - fifo_wrap g (fifo_count g)"
  have ws: "writable_slice g 0 = Some (fifo_wrap g (fifo_count g), fifo_wrap g (fifo_count g) + ?len g)"
    if "fifo_ok g" for g :: "'a linear_fifo"
    using writable_slice_ok [OF that] that by (auto simp: fifo_wrap_def fifo_ok_def)
  obtain f2 where f2: "(if ?len f1 < ?n then realign t_size f1 else Some f1) = Some f2"
    "same_queue f1 f2" "fifo_capacity f2 = fifo_capacity f1" "?n \<le> ?len f2"
  proof (cases "?len f1 < ?n")
    case True
    from realign_ok [OF same_queueD(1) [OF f1(2)] assms(2)] obtain g where g:
      "realign t_size f1 = Some g" "same_queue f1 g" "fifo_head g = 0" "fifo_capacity g = fifo_capacity f1"
      by blast
    then have "?n \<le> ?len g" using f1(3) by (cases xs) (auto simp: same_queue_def fifo_wrap_def)
    then show thesis using True g that by simp
  next
    case False
    then show thesis using that same_queue_refl [OF same_queueD(1) [OF f1(2)]] by auto
  qed
  have ok: "fifo_ok f1" "fifo_ok f2" using f1 f2 same_queueD(1) by blast+
  have cnt: "fifo_count f2 + ?n \<le> fifo_capacity f2" using f1(3) f2(2,3) by (simp add: same_queue_def)
  have "writable_with_size t_size junk ?n f =
      Some (Inr (fifo_wrap f2 (fifo_count f2), fifo_wrap f2 (fifo_count f2) + ?n), f2)"
    using f1(1) f2(1,4) ws [OF ok(1)] ws [OF ok(2)] by (simp add: writable_with_size_def)
  moreover have "fifo_head f2 + fifo_count f2 < fifo_capacity f2 \<Longrightarrow>
      fifo_head f2 + fifo_count f2 + ?n \<le> fifo_capacity f2"
    using f2(4) by (simp add: fifo_wrap_def)
  ultimately show ?thesis
    using append_ok [OF ok(2) cnt] f1(2) f2(2) by (auto simp: same_queueD(2))
qed

section \<open>Putting back\<close>

lemma rewind_ok:
  assumes "fifo_ok f" and "fifo_count f + n \<le> fifo_capacity f" and "0 < fifo_capacity f"
  shows "\<exists>f'. rewind n f = Some f' \<and> fifo_ok f' \<and> drop n (fifo_items f') = fifo_items f
    \<and> fifo_count f' = fifo_count f + n \<and> fifo_capacity f' = fifo_capacity f \<and> fifo_kind f' = fifo_kind f"
proof -
  define f' where "f' = f\<lparr>fifo_head := fifo_wrap f (fifo_capacity f - n), fifo_count := fifo_count f + n\<rparr>"
  have f': "fifo_buf f' = fifo_buf f" "fifo_head f' = fifo_wrap f (fifo_capacity f - n)"
    "fifo_count f' = fifo_count f + n" "fifo_kind f' = fifo_kind f" "fifo_capacity f' = fifo_capacity f"
    by (simp_all add: f'_def fifo_capacity_def)
  have "\<not> fifo_capacity f - fifo_count f < n" using assms(2) by linarith
  then have "rewind n f = Some f'"
    using assms fifo_mask_ok [OF assms(1,3), of "fifo_capacity f - n"] by (simp add: rewind_def f'_def)
  moreover have ok: "fifo_ok f'"
    using assms unfolding fifo_ok_def f' by (auto simp: fifo_wrap_def)
  moreover have "drop n (fifo_items f') = fifo_items f"
  proof (rule nth_equalityI)
    fix i assume "i < length (drop n (fifo_items f'))"
    then have i: "i < fifo_count f" using ok f' by simp
    have "fifo_wrap f' (n + i) = fifo_wrap f i"
      using i assms unfolding fifo_wrap_def [of f'] f' by (auto simp: fifo_wrap_def fifo_ok_def)
    then show "drop n (fifo_items f') ! i = fifo_items f ! i"
      using i ok f' assms(1) by (simp add: nth_fifo_items)
  qed (use ok f' assms(1) in simp)
  ultimately show ?thesis using f' by blast
qed

lemma readable_slice_mut_ok:
  assumes "fifo_ok f" and "off \<le> fifo_count f"
  shows "readable_slice_mut f off =
    Some (fifo_wrap f off, fifo_wrap f off + (if fifo_head f + off < fifo_capacity f
       then min (fifo_count f - off) (fifo_capacity f - (fifo_head f + off)) else fifo_count f - off))"
  using assms
  by (auto simp: readable_slice_mut_def checked_range_def fifo_wrap_def fifo_ok_def fifo_capacity_def
      Let_def min_def)

lemma unget_copy_items:
  assumes ok: "fifo_ok f" and cap: "0 < fifo_capacity f" "length src \<le> fifo_count f"
    and rest: "drop (length src) (fifo_items f) = xs"
  shows "\<exists>f'. unget_copy src f = Some f' \<and> fifo_ok f' \<and> fifo_items f' = src @ xs
    \<and> fifo_capacity f' = fifo_capacity f \<and> fifo_kind f' = fifo_kind f"
proof -
  let ?n = "length src"
  define sl where "sl = min (fifo_count f) (fifo_capacity f - fifo_head f)"
  define g where "g = f\<lparr>fifo_buf := blit (fifo_buf f) (fifo_wrap f 0) (take (min sl ?n) src)\<rparr>"
  have h: "fifo_head f < fifo_capacity f" using ok cap by (auto simp: fifo_ok_def)
  then have w: "fifo_wrap f 0 = fifo_head f" by (simp add: fifo_wrap_def)
  have r1: "readable_slice_mut f 0 = Some (fifo_wrap f 0, fifo_wrap f 0 + sl)"
    using readable_slice_mut_ok [OF ok, of 0] h by (simp add: sl_def)
  have g: "fifo_ok g" "fifo_items g = blit (fifo_items f) 0 (take (min sl ?n) src)"
    unfolding g_def using overwrite_ok [OF ok, of 0 "take (min sl ?n) src"] h cap(2)
    by (auto simp: sl_def)
  have gs: "fifo_head g = fifo_head f" "fifo_count g = fifo_count f" "fifo_kind g = fifo_kind f"
    "fifo_capacity g = fifo_capacity f"
    using h by (simp_all add: g_def fifo_capacity_def w sl_def)
  show ?thesis
  proof (cases "sl < ?n")
    case False
    then have "unget_copy src f = Some g"
      using r1 by (simp add: unget_copy_def Let_def g_def min_def)
    moreover have "fifo_items g = src @ xs"
      using g(2) False rest by (simp add: blit_def min_def)
    ultimately show ?thesis using g(1) gs by blast
  next
    case True
    then have sl: "fifo_head f + sl = fifo_capacity f" "sl \<le> fifo_count f"
      using h cap(2) by (auto simp: sl_def)
    then have w2: "fifo_wrap g sl = 0" by (simp add: fifo_wrap_def gs)
    define f' where "f' = g\<lparr>fifo_buf := blit (fifo_buf g) (fifo_wrap g sl) (drop sl src)\<rparr>"
    have r2: "readable_slice_mut g sl = Some (0, fifo_count f - sl)"
      using readable_slice_mut_ok [OF g(1), of sl] sl w2 by (simp add: gs)
    have f': "fifo_ok f'" "fifo_items f' = blit (fifo_items g) sl (drop sl src)"
      unfolding f'_def using overwrite_ok [OF g(1), of sl "drop sl src"] sl cap(2) True
      by (auto simp: gs)
    have "?n - sl \<le> fifo_count f - sl" using cap(2) by linarith
    moreover have "f\<lparr>fifo_buf := blit (fifo_buf f) (fifo_wrap f 0) (take sl src)\<rparr> = g"
      using True by (simp add: g_def min_def)
    ultimately have "unget_copy src f = Some f'"
      using r1 r2 True by (simp add: unget_copy_def Let_def f'_def w2 min_def)
    moreover have "fifo_items f' = src @ xs"
    proof -
      have "fifo_items g = take sl src @ drop sl (fifo_items f)"
        using g(2) True by (simp add: blit_def min_def)
      then show ?thesis using f'(2) True rest sl by (simp add: blit_def)
    qed
    moreover have "fifo_capacity f' = fifo_capacity f"
      using cap(2) True sl ok gs by (auto simp: f'_def fifo_capacity_def w2 fifo_ok_def)
    ultimately show ?thesis using f' gs by (auto simp: f'_def)
  qed
qed

text \<open>
  The items go back in front.  With no storage yet, there must be something to put back: an empty
  slice makes \<open>rewind\<close> compute \<open>0 - 1\<close>.
\<close>

theorem unget_ok:
  assumes "fifo_ok f" and "item_size_ok t_size" and "src \<noteq> [] \<or> fifo_capacity f \<noteq> 0"
  shows "\<exists>f'. unget t_size junk src f = Some (if fits f (length src) then Inr () else Inl Alloc_Error, f')
    \<and> queue_becomes f ((if fits f (length src) then src else []) @ fifo_items f) f'"
proof -
  let ?n = "length src"
  from ensure_unused_capacity_ok [OF assms(1,2), of junk ?n] obtain f1 where f1:
    "ensure_unused_capacity t_size junk ?n f = Some (if fits f ?n then Inr () else Inl Alloc_Error, f1)"
    "same_queue f f1" "\<not> is_dynamic (fifo_kind f) \<longrightarrow> f1 = f"
    "fits f ?n \<longrightarrow> fifo_count f1 + ?n \<le> fifo_capacity f1" "fifo_capacity f \<le> fifo_capacity f1" by blast
  show ?thesis
  proof (cases "fits f ?n")
    case False
    then show ?thesis using f1 same_queue_becomes(1) by (simp add: unget_def)
  next
    case True
    have cap: "0 < fifo_capacity f1"
      using assms(3) f1(4,5) True by (cases src) auto
    obtain f2 where f2: "rewind ?n f1 = Some f2" "fifo_ok f2" "drop ?n (fifo_items f2) = fifo_items f1"
      "fifo_count f2 = fifo_count f1 + ?n" "fifo_capacity f2 = fifo_capacity f1" "fifo_kind f2 = fifo_kind f1"
      using rewind_ok [OF same_queueD(1) [OF f1(2)] _ cap] f1(4) True by blast
    from unget_copy_items [OF f2(2) _ _ f2(3)] cap f2(4,5) obtain f3 where f3:
      "unget_copy src f2 = Some f3" "fifo_ok f3" "fifo_items f3 = src @ fifo_items f1"
      "fifo_capacity f3 = fifo_capacity f2" "fifo_kind f3 = fifo_kind f2" by auto
    then have "unget t_size junk src f = Some (Inr (), f3)"
      using True f1(1) f2(1) by (simp add: unget_def)
    moreover have "queue_becomes f1 (src @ fifo_items f1) f3"
      using f3 f2 by (simp add: queue_becomes_def)
    ultimately show ?thesis
      using True f1 same_queue_becomes(2) [OF f1(2,3)] by (simp add: same_queueD(2))
  qed
qed

section \<open>Removing\<close>

lemma shift_down_one_ok:
  assumes "a < b" and "b \<le> length buf"
  shows "\<exists>buf'. shift_down_one buf a b = Some buf' \<and> length buf' = length buf
    \<and> (\<forall>i < length buf. buf' ! i = (if a \<le> i \<and> i < b - 1 then buf ! (i + 1) else buf ! i))"
proof (cases "b - a \<le> 1")
  case True
  then show ?thesis using assms by (intro exI [of _ buf]) (auto simp: shift_down_one_def)
next
  case False
  let ?m = "memmove buf (a + 1) a (b - a - 1)"
  have "?m ! i = (if a \<le> i \<and> i < b - 1 then buf ! (i + 1) else buf ! i)" if "i < length buf" for i
    using that assms False nth_memmove [of "a + 1" "b - a - 1" buf a i] by auto
  then show ?thesis using assms False by (intro exI [of _ ?m]) (auto simp: shift_down_one_def)
qed

text \<open>The items behind the offset are one slot nearer in the new buffer.\<close>

definition moved_up :: "nat \<Rightarrow> 'a linear_fifo \<Rightarrow> 'a list \<Rightarrow> bool" where
  "moved_up off f buf \<longleftrightarrow> length buf = fifo_capacity f
     \<and> (\<forall>i < fifo_count f - 1. buf ! fifo_wrap f i = fifo_buf f ! fifo_wrap f (if i < off then i else i + 1))"

lemma moved_up_ok:
  assumes ok: "fifo_ok f" and off: "off < fifo_count f" and mv: "moved_up off f buf"
  shows "queue_becomes f (take off (fifo_items f) @ drop (off + 1) (fifo_items f))
    (f\<lparr>fifo_buf := buf, fifo_count := fifo_count f - 1\<rparr>)" (is "queue_becomes f ?xs ?f")
proof -
  have cap: "fifo_capacity ?f = fifo_capacity f" using mv by (simp add: fifo_capacity_def moved_up_def)
  then have ok': "fifo_ok ?f" using ok by (auto simp: fifo_ok_def)
  have "fifo_items ?f = ?xs"
  proof (rule fifo_items_eqI [OF ok'])
    fix i assume "i < fifo_count ?f"
    moreover have "fifo_wrap ?f i = fifo_wrap f i" using cap unfolding fifo_wrap_def by simp
    ultimately show "fifo_buf ?f ! fifo_wrap ?f i = ?xs ! i"
      using mv ok off by (auto simp: nth_append nth_fifo_items moved_up_def)
  qed (use ok off in auto)
  then show ?thesis using ok' cap by (simp add: queue_becomes_def)
qed

text \<open>The moves for the three positions of the item.\<close>

lemma remove_unwrapped:
  assumes "fifo_ok f" and "off < fifo_count f" and "fifo_head f + fifo_count f \<le> fifo_capacity f"
  shows "\<exists>buf. shift_down_one (fifo_buf f) (fifo_head f + off) (fifo_capacity f) = Some buf
    \<and> moved_up off f buf"
proof -
  have c: "fifo_capacity f = length (fifo_buf f)" by (simp add: fifo_capacity_def)
  have "fifo_head f + off < fifo_capacity f" using assms by linarith
  then obtain buf where b: "shift_down_one (fifo_buf f) (fifo_head f + off) (fifo_capacity f) = Some buf"
    "length buf = length (fifo_buf f)"
    "\<And>i. i < length (fifo_buf f) \<Longrightarrow> buf ! i =
      (if fifo_head f + off \<le> i \<and> i < fifo_capacity f - 1 then fifo_buf f ! (i + 1) else fifo_buf f ! i)"
    using shift_down_one_ok [of "fifo_head f + off" "fifo_capacity f" "fifo_buf f"] c by auto
  have "buf ! fifo_wrap f i = fifo_buf f ! fifo_wrap f (if i < off then i else i + 1)"
    if "i < fifo_count f - 1" for i
    using that b(3) c assms(2,3) by (auto simp: fifo_wrap_def)
  then show ?thesis using b(1,2) c by (simp add: moved_up_def)
qed

lemma remove_prefix:
  assumes "fifo_ok f" and "off < fifo_count f" and "fifo_capacity f \<le> fifo_head f + off"
  shows "\<exists>buf. shift_down_one (fifo_buf f) (fifo_wrap f off) (fifo_head f + fifo_count f - fifo_capacity f) = Some buf
    \<and> moved_up off f buf"
proof -
  let ?w = "fifo_head f + fifo_count f - fifo_capacity f"
  have c: "fifo_capacity f = length (fifo_buf f)" by (simp add: fifo_capacity_def)
  have hc: "fifo_head f < fifo_capacity f" "fifo_count f \<le> fifo_capacity f"
    using assms by (auto simp: fifo_ok_def)
  then have "fifo_wrap f off < ?w" "?w \<le> length (fifo_buf f)" using assms c by (auto simp: fifo_wrap_def)
  then obtain buf where b: "shift_down_one (fifo_buf f) (fifo_wrap f off) ?w = Some buf"
    "length buf = length (fifo_buf f)"
    "\<And>i. i < length (fifo_buf f) \<Longrightarrow> buf ! i =
      (if fifo_wrap f off \<le> i \<and> i < ?w - 1 then fifo_buf f ! (i + 1) else fifo_buf f ! i)"
    using shift_down_one_ok [of "fifo_wrap f off" ?w "fifo_buf f"] by auto
  have "buf ! fifo_wrap f i = fifo_buf f ! fifo_wrap f (if i < off then i else i + 1)"
    if "i < fifo_count f - 1" for i
    using that b(3) c hc assms(2,3) by (auto simp: fifo_wrap_def Suc_diff_le)
  then show ?thesis using b(1,2) c by (simp add: moved_up_def)
qed

lemma remove_tail:
  assumes ok: "fifo_ok f" "off < fifo_count f" and o: "fifo_head f + off < fifo_capacity f"
    and w: "fifo_capacity f < fifo_head f + fifo_count f"
  shows "\<exists>b1 b2. shift_down_one (fifo_buf f) (fifo_head f + off) (fifo_capacity f) = Some b1
    \<and> shift_down_one (b1[fifo_capacity f - 1 := fifo_buf f ! 0]) 0
        (fifo_head f + fifo_count f - fifo_capacity f) = Some b2
    \<and> moved_up off f b2"
proof -
  let ?c = "fifo_capacity f" and ?h = "fifo_head f" and ?w = "fifo_head f + fifo_count f - fifo_capacity f"
  have c: "?c = length (fifo_buf f)" by (simp add: fifo_capacity_def)
  have n: "fifo_count f \<le> ?c" "0 < ?w" "?w \<le> ?c" using ok o w by (auto simp: fifo_ok_def)
  obtain b1 where b1: "shift_down_one (fifo_buf f) (?h + off) ?c = Some b1"
    "length b1 = length (fifo_buf f)"
    "\<And>i. i < length (fifo_buf f) \<Longrightarrow>
       b1 ! i = (if ?h + off \<le> i \<and> i < ?c - 1 then fifo_buf f ! (i + 1) else fifo_buf f ! i)"
    using shift_down_one_ok [of "?h + off" ?c "fifo_buf f"] o c by auto
  let ?b = "b1[?c - 1 := fifo_buf f ! 0]"
  obtain b2 where b2: "shift_down_one ?b 0 ?w = Some b2" "length b2 = length (fifo_buf f)"
    "\<And>i. i < length (fifo_buf f) \<Longrightarrow> b2 ! i = (if i < ?w - 1 then ?b ! (i + 1) else ?b ! i)"
    using shift_down_one_ok [of 0 ?w ?b] b1(2) n c by auto
  have "b2 ! fifo_wrap f i = fifo_buf f ! fifo_wrap f (if i < off then i else i + 1)"
    if "i < fifo_count f - 1" for i
  proof -
    have up: "b2 ! p = (if p = ?c - 1 then fifo_buf f ! 0 else b1 ! p)" if "?h \<le> p" "p < ?c" for p
    proof -
      have "\<not> p < ?w - 1" using that n(1) by linarith
      then show ?thesis using that b2(3) [of p] b1(2) c by (simp add: nth_list_update)
    qed
    consider "i < off" | "off \<le> i" "?h + i + 1 < ?c" | "?h + i + 1 = ?c" "off \<le> i" | "?c \<le> ?h + i"
      using o by linarith
    then show ?thesis
    proof cases
      case 4
      define q where "q = ?h + i - ?c"
      have q: "?h + i = ?c + q" "q < ?w - 1" "q + 1 < ?h" using 4 that n(1) by (auto simp: q_def)
      then have "b2 ! q = b1 ! (q + 1)"
        using b2(3) [of q] b1(2) c o by (simp add: nth_list_update)
      also have "\<dots> = fifo_buf f ! (q + 1)" using b1(3) [of "q + 1"] q(3) c o by simp
      finally show ?thesis using q(1) 4 o by (simp add: fifo_wrap_def)
    qed (use that up [of "?h + i"] b1(3) [of "?h + i"] c o n in \<open>auto simp: fifo_wrap_def\<close>)
  qed
  then show ?thesis using b1(1) b2(1,2) c by (simp add: moved_up_def)
qed

theorem ordered_remove_item_ok:
  assumes "fifo_ok f" and "off < fifo_count f"
  shows "\<exists>f'. ordered_remove_item off f = Some f'
    \<and> queue_becomes f (take off (fifo_items f) @ drop (off + 1) (fifo_items f)) f'"
proof (cases "off = 0")
  case True
  have "can_discard f" using assms by (auto simp: can_discard_def fifo_ok_def)
  from discard_ok [OF assms(1) this, of 1] assms(2) True show ?thesis
    by (auto simp: ordered_remove_item_def queue_becomes_def)
next
  case False
  let ?c = "fifo_capacity f" and ?h = "fifo_head f"
  have hc: "?h < ?c" "fifo_count f \<le> ?c" using assms by (auto simp: fifo_ok_def)
  then have mask: "fifo_mask f (?h + off) = Some (fifo_wrap f off)"
    using fifo_mask_ok [OF assms(1), of off] assms(2) by simp
  have "\<exists>buf. ordered_remove_item off f = Some (f\<lparr>fifo_buf := buf, fifo_count := fifo_count f - 1\<rparr>)
      \<and> moved_up off f buf"
  proof (cases "?h + fifo_count f \<le> ?c")
    case True
    then show ?thesis
      using remove_unwrapped [OF assms] False assms(2) hc by (auto simp: ordered_remove_item_def usize_sub_def)
  next
    case wrapped: False
    show ?thesis
    proof (cases "?h + off < ?c")
      case True
      then show ?thesis
        using remove_tail [OF assms True] wrapped False assms(2) hc mask
        by (auto simp: ordered_remove_item_def usize_sub_def Let_def fifo_wrap_def)
    next
      case False
      then show ?thesis
        using remove_prefix [OF assms] wrapped \<open>off \<noteq> 0\<close> assms(2) hc mask
        by (auto simp: ordered_remove_item_def usize_sub_def Let_def fifo_wrap_def)
    qed
  qed
  then show ?thesis using moved_up_ok [OF assms] by blast
qed

end
