(* ===== verification/Fifo_Queue.thy ===== *)
theory Fifo_Queue
  imports Fifo_Ops
begin

text \<open>
  The ring buffer as a queue for its clients: the locale \<open>fifo_queue\<close> states the contract of a queue
  with items put back, removed and read in blocks; it is interpreted for the growing and for the fixed
  storage, and its client theorem follows any sequence of operations on a list.  At the end, three
  places where the code leaves its contract.
\<close>

section \<open>Sequences of operations\<close>

fun run_all :: "('s \<Rightarrow> 'o \<Rightarrow> ('r \<times> 's) option) \<Rightarrow> 's \<Rightarrow> 'o list \<Rightarrow> ('r list \<times> 's) option" where
  "run_all step s [] = Some ([], s)"
| "run_all step s (x # xs) = do {
     (r, s') \<leftarrow> step s x;
     (rs, s'') \<leftarrow> run_all step s' xs;
     Some (r # rs, s'') }"

fun run_spec :: "('q \<Rightarrow> 'o \<Rightarrow> 'r \<times> 'q) \<Rightarrow> 'q \<Rightarrow> 'o list \<Rightarrow> 'r list \<times> 'q" where
  "run_spec spec q [] = ([], q)"
| "run_spec spec q (x # xs) =
     (let (r, q') = spec q x; (rs, q'') = run_spec spec q' xs in (r # rs, q''))"

fun all_allowed :: "('q \<Rightarrow> 'o \<Rightarrow> 'r \<times> 'q) \<Rightarrow> ('q \<Rightarrow> 'o \<Rightarrow> bool) \<Rightarrow> 'q \<Rightarrow> 'o list \<Rightarrow> bool" where
  "all_allowed spec allowed q [] \<longleftrightarrow> True"
| "all_allowed spec allowed q (x # xs) \<longleftrightarrow> allowed q x \<and> all_allowed spec allowed (snd (spec q x)) xs"

text \<open>
  The contract of an implementation by steps: a related state makes the step of the specification,
  with its reply.  Whole runs then agree.
\<close>

locale simulation =
  fixes step :: "'s \<Rightarrow> 'o \<Rightarrow> ('r \<times> 's) option"
    and spec :: "'q \<Rightarrow> 'o \<Rightarrow> 'r \<times> 'q"
    and allowed :: "'q \<Rightarrow> 'o \<Rightarrow> bool"
    and rel :: "'s \<Rightarrow> 'q \<Rightarrow> bool"
  assumes simulates: "rel s q \<Longrightarrow> allowed q x \<Longrightarrow>
    \<exists>s'. step s x = Some (fst (spec q x), s') \<and> rel s' (snd (spec q x))"
begin

lemma run_simulates:
  "rel s q \<Longrightarrow> all_allowed spec allowed q xs \<Longrightarrow>
   \<exists>s'. run_all step s xs = Some (fst (run_spec spec q xs), s') \<and> rel s' (snd (run_spec spec q xs))"
proof (induction xs arbitrary: s q)
  case (Cons x xs)
  then obtain s1 where s1: "step s x = Some (fst (spec q x), s1)" "rel s1 (snd (spec q x))"
    using simulates by fastforce
  with Cons.IH [OF s1(2)] Cons.prems(2) show ?case by (auto simp: split_beta)
qed simp

end

section \<open>Operations and their replies\<close>

datatype 'a fifo_op =
    Op_Write "'a list" | Op_Write_Item 'a | Op_Read nat | Op_Read_Item | Op_Discard nat
  | Op_Unget "'a list" | Op_Remove nat | Op_Peek nat | Op_Realign | Op_Reset_Head | Op_Reserve nat
  | Op_Shrink nat

datatype 'a fifo_reply = Reply_Ok | Reply_Err | Reply_Items "'a list" | Reply_Item "'a option"

definition reply_of :: "fifo_alloc_error + unit \<Rightarrow> 'a fifo_reply" where
  "reply_of r = (case r of Inl _ \<Rightarrow> Reply_Err | Inr _ \<Rightarrow> Reply_Ok)"

text \<open>The operation on the buffer; a read of \<open>n\<close> items goes to a destination of \<open>n\<close> slots.\<close>

fun fifo_step :: "nat \<Rightarrow> (nat \<Rightarrow> 'a) \<Rightarrow> 'a linear_fifo \<Rightarrow> 'a fifo_op \<Rightarrow> ('a fifo_reply \<times> 'a linear_fifo) option" where
  "fifo_step t_size junk f (Op_Write xs) = map_option (apfst reply_of) (fifo_write t_size junk xs f)"
| "fifo_step t_size junk f (Op_Write_Item x) = map_option (apfst reply_of) (write_item t_size junk x f)"
| "fifo_step t_size junk f (Op_Read n) =
     map_option (\<lambda>(k, dst, f'). (Reply_Items (take k dst), f')) (fifo_read f (map junk [0..<n]))"
| "fifo_step t_size junk f Op_Read_Item = map_option (apfst Reply_Item) (read_item f)"
| "fifo_step t_size junk f (Op_Discard n) = map_option (Pair Reply_Ok) (discard n f)"
| "fifo_step t_size junk f (Op_Unget xs) = map_option (apfst reply_of) (unget t_size junk xs f)"
| "fifo_step t_size junk f (Op_Remove i) = map_option (Pair Reply_Ok) (ordered_remove_item i f)"
| "fifo_step t_size junk f (Op_Peek i) = map_option (\<lambda>x. (Reply_Item (Some x), f)) (peek_item f i)"
| "fifo_step t_size junk f Op_Realign = map_option (Pair Reply_Ok) (realign t_size f)"
| "fifo_step t_size junk f Op_Reset_Head = Some (Reply_Ok, reset_head_if_empty f)"
| "fifo_step t_size junk f (Op_Reserve n) = map_option (apfst reply_of) (ensure_unused_capacity t_size junk n f)"
| "fifo_step t_size junk f (Op_Shrink n) = map_option (Pair Reply_Ok) (shrink t_size junk n f)"

text \<open>The same operation on a list with room for \<open>lim\<close> items.\<close>

fun queue_step :: "nat \<Rightarrow> 'a list \<Rightarrow> 'a fifo_op \<Rightarrow> 'a fifo_reply \<times> 'a list" where
  "queue_step lim q (Op_Write xs) =
     (if length q + length xs \<le> lim then (Reply_Ok, q @ xs) else (Reply_Err, q))"
| "queue_step lim q (Op_Write_Item x) =
     (if length q + 1 \<le> lim then (Reply_Ok, q @ [x]) else (Reply_Err, q))"
| "queue_step lim q (Op_Read n) = (Reply_Items (take n q), drop n q)"
| "queue_step lim q Op_Read_Item =
     (case q of [] \<Rightarrow> (Reply_Item None, []) | x # xs \<Rightarrow> (Reply_Item (Some x), xs))"
| "queue_step lim q (Op_Discard n) = (Reply_Ok, drop n q)"
| "queue_step lim q (Op_Unget xs) =
     (if length q + length xs \<le> lim then (Reply_Ok, xs @ q) else (Reply_Err, q))"
| "queue_step lim q (Op_Remove i) = (Reply_Ok, take i q @ drop (i + 1) q)"
| "queue_step lim q (Op_Peek i) = (Reply_Item (Some (q ! i)), q)"
| "queue_step lim q Op_Realign = (Reply_Ok, q)"
| "queue_step lim q Op_Reset_Head = (Reply_Ok, q)"
| "queue_step lim q (Op_Reserve n) = (if length q + n \<le> lim then (Reply_Ok, q) else (Reply_Err, q))"
| "queue_step lim q (Op_Shrink n) = (Reply_Ok, q)"

text \<open>
  What the assertions of the code ask of a caller (\<open>discard\<close>, \<open>ordered_remove_item\<close>, \<open>peek_item\<close>, \<open>shrink\<close>),
  and two restrictions that hold only where the storage is not fixed: nothing is not put back into an
  empty buffer, and a buffer is only shrunk to 0 or to a power of two.
\<close>

fun op_allowed :: "bool \<Rightarrow> 'a list \<Rightarrow> 'a fifo_op \<Rightarrow> bool" where
  "op_allowed fixed q (Op_Discard n) \<longleftrightarrow> n \<le> length q"
| "op_allowed fixed q (Op_Unget xs) \<longleftrightarrow> fixed \<or> xs \<noteq> [] \<or> q \<noteq> []"
| "op_allowed fixed q (Op_Remove i) \<longleftrightarrow> i < length q"
| "op_allowed fixed q (Op_Peek i) \<longleftrightarrow> i < length q"
| "op_allowed fixed q (Op_Shrink n) \<longleftrightarrow> length q \<le> n \<and> (fixed \<or> n = 0 \<or> is_power_of_two n)"
| "op_allowed fixed q _ \<longleftrightarrow> True"

definition fifo_limit :: "'a linear_fifo \<Rightarrow> nat" where
  "fifo_limit f = (if is_dynamic (fifo_kind f) then 2 ^ 63 else fifo_capacity f)"

lemma fits_limit: "fits f n \<longleftrightarrow> fifo_count f + n \<le> fifo_limit f"
  by (simp add: fits_def fifo_limit_def)

lemma queue_becomes_limit: "queue_becomes f xs f' \<Longrightarrow> fifo_limit f' = fifo_limit f"
  by (auto simp: queue_becomes_def fifo_limit_def)

lemma same_queue_limit:
  "same_queue f f' \<Longrightarrow> \<not> is_dynamic (fifo_kind f) \<longrightarrow> fifo_capacity f' = fifo_capacity f \<Longrightarrow>
   queue_becomes f (fifo_items f) f'"
  by (simp add: queue_becomes_def same_queue_def)

lemma shrink_layout:
  assumes "fifo_ok f" and "item_size_ok t_size" and "is_dynamic (fifo_kind f)" and "fifo_count f \<le> n"
  shows "\<exists>f'. shrink t_size junk n f = Some f' \<and> fifo_head f' = 0 \<and> fifo_count f' = fifo_count f
    \<and> fifo_capacity f' = n \<and> fifo_kind f' = fifo_kind f \<and> take (fifo_count f) (fifo_buf f') = fifo_items f"
proof -
  from realign_ok [OF assms(1,2)] obtain f1 where f1: "realign t_size f = Some f1" "same_queue f f1"
    "fifo_head f1 = 0" by blast
  let ?b = "dynamic_realloc junk (fifo_buf f1) n"
  have c: "fifo_count f = fifo_count f1" "fifo_count f \<le> length (fifo_buf f1)"
    using same_queueD(1,3) [OF f1(2)] by (simp_all add: fifo_ok_def fifo_capacity_def)
  have "length ?b = n" by (simp add: dynamic_realloc_def Let_def blit_def)
  moreover have "take (fifo_count f) ?b = take (fifo_count f) (fifo_buf f1)"
    using c assms(4) by (simp add: dynamic_realloc_def Let_def blit_def min_def)
  moreover have "fifo_items f = take (fifo_count f) (fifo_buf f1)"
    using same_queueD(2) [OF f1(2)] f1(3) c(1) by (simp add: fifo_items_def)
  ultimately show ?thesis
    using f1 assms(3,4) c(1) same_queueD(4) [OF f1(2)] by (simp add: shrink_def fifo_capacity_def)
qed

lemma shrink_ok:
  assumes "fifo_ok f" and "item_size_ok t_size" and "fifo_count f \<le> n"
    and "is_dynamic (fifo_kind f) \<longrightarrow> n = 0 \<or> is_power_of_two n"
  shows "\<exists>f'. shrink t_size junk n f = Some f' \<and> queue_becomes f (fifo_items f) f'"
proof (cases "is_dynamic (fifo_kind f)")
  case False
  then show ?thesis using assms(1,3) by (simp add: shrink_def queue_becomes_def)
next
  case True
  then obtain f' where f': "shrink t_size junk n f = Some f'" "fifo_head f' = 0" "fifo_count f' = fifo_count f"
    "fifo_capacity f' = n" "fifo_kind f' = fifo_kind f" "take (fifo_count f) (fifo_buf f') = fifo_items f"
    using shrink_layout [OF assms(1,2) True assms(3)] by blast
  have "fifo_ok f'"
    using assms(3,4) True f' power_of_two_le [of n] by (auto simp: fifo_ok_def)
  then show ?thesis using f' True by (auto simp: queue_becomes_def fifo_items_def)
qed

lemma fifo_step_ok:
  assumes ok: "fifo_ok f" "item_size_ok t_size" and lim: "0 < fifo_limit f"
    and allowed: "op_allowed (\<not> is_dynamic (fifo_kind f)) (fifo_items f) x"
  shows "\<exists>f'. fifo_step t_size junk f x = Some (fst (queue_step (fifo_limit f) (fifo_items f) x), f')
    \<and> queue_becomes f (snd (queue_step (fifo_limit f) (fifo_items f) x)) f'"
proof (cases x)
  case (Op_Write xs)
  then show ?thesis
    using fifo_write_ok [OF ok, of junk xs] ok(1) by (auto simp: reply_of_def fits_limit)
next
  case (Op_Write_Item y)
  then show ?thesis
    using write_item_ok [OF ok, of junk y] ok(1) by (auto simp: reply_of_def fits_limit)
next
  case (Op_Read n)
  then show ?thesis
    using fifo_read_ok [OF ok(1), of "map junk [0..<n]"] ok(1)
    by (auto simp: queue_becomes_def min_def)
next
  case Op_Read_Item
  then show ?thesis
    using read_item_ok [OF ok(1)] by (cases "fifo_items f") (auto simp: queue_becomes_def)
next
  case (Op_Discard n)
  then have "can_discard f" "n \<le> fifo_count f"
    using allowed ok(1) lim by (cases "fifo_kind f"; simp add: can_discard_def fifo_limit_def)+
  with discard_ok [OF ok(1) this] Op_Discard show ?thesis by (auto simp: queue_becomes_def)
next
  case (Op_Unget xs)
  have "xs \<noteq> [] \<or> fifo_capacity f \<noteq> 0"
  proof (cases "is_dynamic (fifo_kind f)")
    case True
    moreover have "fifo_capacity f \<noteq> 0" if "fifo_items f \<noteq> []"
      using that ok(1) by (auto simp: fifo_items_def fifo_capacity_def)
    ultimately show ?thesis using Op_Unget allowed by auto
  qed (use lim in \<open>simp add: fifo_limit_def\<close>)
  then show ?thesis
    using Op_Unget unget_ok [OF ok, of xs junk] ok(1) by (auto simp: reply_of_def fits_limit)
next
  case (Op_Remove i)
  then show ?thesis using ordered_remove_item_ok [OF ok(1), of i] allowed ok(1) by auto
next
  case (Op_Peek i)
  then show ?thesis
    using peek_item_ok [OF ok(1), of i] allowed ok(1) by (auto simp: queue_becomes_def)
next
  case Op_Realign
  then show ?thesis using realign_ok [OF ok] same_queue_limit by auto
next
  case Op_Reset_Head
  then show ?thesis
    using reset_head_if_empty_ok [OF ok(1)]
    by (auto simp: queue_becomes_def reset_head_if_empty_def fifo_capacity_def)
next
  case (Op_Reserve n)
  then show ?thesis
    using ensure_unused_capacity_ok [OF ok, of junk n] ok(1)
    by (auto simp: reply_of_def fits_limit same_queue_def queue_becomes_def)
next
  case (Op_Shrink n)
  then show ?thesis using shrink_ok [OF ok, of n junk] allowed ok(1) by auto
qed

interpretation fq: simulation "fifo_step t_size junk" "queue_step lim" "op_allowed fixed"
  "\<lambda>f q. fifo_ok f \<and> item_size_ok t_size \<and> 0 < lim \<and> fifo_items f = q \<and> fifo_limit f = lim
     \<and> fixed = (\<not> is_dynamic (fifo_kind f))"
  for t_size :: nat and junk :: "nat \<Rightarrow> 'a" and lim :: nat and fixed :: bool
proof
  fix f :: "'a linear_fifo" and q x
  assume a: "fifo_ok f \<and> item_size_ok t_size \<and> 0 < lim \<and> fifo_items f = q \<and> fifo_limit f = lim
    \<and> fixed = (\<not> is_dynamic (fifo_kind f))" and "op_allowed fixed q x"
  then obtain f' where f': "fifo_step t_size junk f x = Some (fst (queue_step lim q x), f')"
      "queue_becomes f (snd (queue_step lim q x)) f'"
    using fifo_step_ok [of f t_size x junk] by auto
  show "\<exists>f'. fifo_step t_size junk f x = Some (fst (queue_step lim q x), f') \<and>
      fifo_ok f' \<and> item_size_ok t_size \<and> 0 < lim \<and> fifo_items f' = snd (queue_step lim q x) \<and> fifo_limit f' = lim
      \<and> fixed = (\<not> is_dynamic (fifo_kind f'))"
    using a f' queue_becomes_limit [OF f'(2)] queue_becomesD [OF f'(2)] by (intro exI [of _ f']) simp
qed

text \<open>
  C6. Sequences of operations on a ring buffer, in any of its three storages with room for at least
  one item and from any state that satisfies the layout invariant, give the replies that a plain list
  gives: writes append or fail exactly when the limit of the storage (2^63 items where it grows) would
  be exceeded, reads take from the front, ungets prepend, removals delete the item at an offset,
  shrinking keeps the items.  The buffer never panics, keeps its invariant and holds the items of the
  list at the end, wherever its contents were moved in between.  The caller obeys the assertions of
  the code: it discards, removes and peeks only what is there and does not shrink below the contents.
  Excluded are, for the growing storage, putting back nothing into an empty buffer (it can panic) and
  shrinking to a size other than 0 or a power of two (it loses items), and items that are of size 0 or
  larger than half a page, 2048 bytes, the scratch area of \<open>realign\<close>.
\<close>

theorem fifo_refines_list:
  assumes "fifo_ok f" and "item_size_ok t_size"
    and "0 < fifo_limit f"
    and "all_allowed (queue_step (fifo_limit f)) (op_allowed (\<not> is_dynamic (fifo_kind f))) (fifo_items f) xs"
  shows "\<exists>f'. run_all (fifo_step t_size junk) f xs =
      Some (fst (run_spec (queue_step (fifo_limit f)) (fifo_items f) xs), f')
    \<and> fifo_ok f' \<and> fifo_items f' = snd (run_spec (queue_step (fifo_limit f)) (fifo_items f) xs)"
  using fq.run_simulates [of f t_size "fifo_limit f" "fifo_items f" "\<not> is_dynamic (fifo_kind f)" xs junk] assms by blast

theorem fifo_refines_list_witness:
  "let f = \<lparr>fifo_kind = Dynamic_buffer, fifo_buf = [30, 40, 10, 20], fifo_head = 2, fifo_count = 3\<rparr>;
       xs = [Op_Discard 0, Op_Write [40], Op_Write_Item 50, Op_Remove 1, Op_Read 2, Op_Unget [7 :: nat], Op_Shrink 4]
   in \<exists>f'. run_all (fifo_step 8 (\<lambda>_. 0)) f xs =
        Some ([Reply_Ok, Reply_Ok, Reply_Ok, Reply_Ok, Reply_Items [10, 30], Reply_Ok, Reply_Ok], f')
      \<and> fifo_ok f' \<and> fifo_items f' = [7, 40, 50]"
proof -
  let ?f = "\<lparr>fifo_kind = Dynamic_buffer, fifo_buf = [30, 40, 10, 20], fifo_head = 2, fifo_count = 3\<rparr> :: nat linear_fifo"
  let ?xs = "[Op_Discard 0, Op_Write [40], Op_Write_Item 50, Op_Remove 1, Op_Read 2, Op_Unget [7 :: nat], Op_Shrink 4]"
  have "is_power_of_two 4" unfolding is_power_of_two_iff by (rule exI [of _ 2]) simp
  moreover have "fifo_capacity ?f = 4" by (simp add: fifo_capacity_def)
  ultimately have ok: "fifo_ok ?f" "is_power_of_two 4" by (simp_all add: fifo_ok_def)
  have it: "fifo_items ?f = [10, 20, 30]" by code_simp
  have lim: "fifo_limit ?f = 2 ^ 63" "\<not> \<not> is_dynamic (fifo_kind ?f)" by (simp_all add: fifo_limit_def)
  have size: "item_size_ok 8" by (simp add: item_size_ok_def PAGE_SIZE_MIN_def)
  have "all_allowed (queue_step (fifo_limit ?f)) (op_allowed (\<not> is_dynamic (fifo_kind ?f))) (fifo_items ?f) ?xs"
    unfolding it lim(1) using ok(2) lim(2) by simp
  moreover have "0 < fifo_limit ?f" unfolding lim(1) by simp
  ultimately show ?thesis
    using fifo_refines_list [OF ok(1) size, of ?xs "\<lambda>_. 0"] unfolding it lim(1) by (simp add: Let_def)
qed

text \<open>The three constructors give an empty queue in a good layout.\<close>

lemma fifo_init_ok:
  "fifo_ok fifo_init_dynamic" "fifo_items fifo_init_dynamic = []"
  "n \<le> 2 ^ 63 \<Longrightarrow> fifo_ok (fifo_init_static junk n)" "fifo_items (fifo_init_static junk n) = []"
  "length buf \<le> 2 ^ 63 \<Longrightarrow> fifo_ok (fifo_init_slice buf)" "fifo_items (fifo_init_slice buf) = []"
  by (auto simp: fifo_init_dynamic_def fifo_init_static_def fifo_init_slice_def fifo_ok_def fifo_items_def
      fifo_capacity_def)

section \<open>Outside the contract\<close>

lemma masked_count:
  assumes "0 < n" and "\<not> is_power_of_two n" and "n \<le> 2 ^ 63"
  shows "\<exists>c < n. c AND (n - 1) < c"
proof -
  define m where "m = n - 1"
  have m: "n = Suc m" "m \<noteq> 0"
  proof -
    show "n = Suc m" using assms(1) by (simp add: m_def)
    have "is_power_of_two (Suc 0)" unfolding is_power_of_two_iff by (rule exI [of _ 0]) simp
    then show "m \<noteq> 0" using assms(2) \<open>n = Suc m\<close> by metis
  qed
  obtain k where k: "2 ^ k \<le> m" "m < 2 ^ (k + 1)" using ex_power_ivl1 [of 2 m] m(2) by auto
  let ?c = "2 ^ k - 1 :: nat"
  have "?c AND m = m AND ?c" by (simp add: and.commute)
  then have cm: "?c AND m = m mod 2 ^ k"
    by (simp only: mask_eq_exp_minus_1 [symmetric] take_bit_eq_mask [symmetric] take_bit_eq_mod)
  have "m mod 2 ^ k \<noteq> ?c"
  proof
    assume a: "m mod 2 ^ k = ?c"
    have "m div 2 ^ k = 1" using k by (simp add: div_nat_eqI)
    then have "m = 2 ^ k + ?c" using a div_mult_mod_eq [of m "2 ^ k"] by simp
    then have n: "n = 2 ^ (k + 1)" using m(1) by simp
    then have "k + 1 < 64" using assms(3) power_le_imp_le_exp [of "2 :: nat" "k + 1" 63] by simp
    then show False using assms(2) n unfolding is_power_of_two_iff by blast
  qed
  moreover have "m mod 2 ^ k \<le> ?c" using mod_less_divisor [of "2 ^ k" m] by (simp add: less_Suc_eq_le [symmetric] del: mod_less_divisor)
  ultimately have "?c AND m < ?c" "?c < n" using cm k(1) m(1) by auto
  then show ?thesis unfolding m_def by blast
qed

text \<open>
  C33. \<open>shrink\<close> of a growing buffer allocates exactly the requested number of slots, but the indices of
  such a buffer are reduced by masking, which needs a power of two.  For every size \<open>n\<close> that is none
  there is a number of items, less than \<open>n\<close>, such that every buffer of that many items that is shrunk
  to \<open>n\<close> slots still reads all right, but the next item written, for which there is room, overwrites
  an item that has not been read: at that offset the new item is read.
\<close>

theorem shrink_breaks_masking:
  assumes "0 < n" and "\<not> is_power_of_two n" and "n \<le> 2 ^ 63"
  shows "\<exists>c < n. \<forall>f t_size junk (x :: 'a). fifo_ok f \<and> fifo_kind f = Dynamic_buffer \<and> fifo_count f = c
      \<and> n < fifo_capacity f \<and> item_size_ok t_size \<longrightarrow>
    (\<exists>f1 f2 i. shrink t_size junk n f = Some f1 \<and> fifo_items f1 = fifo_items f
      \<and> i < c \<and> peek_item f1 i = Some (fifo_items f ! i)
      \<and> write_item t_size junk x f1 = Some (Inr (), f2) \<and> peek_item f2 i = Some x)"
proof -
  from masked_count [OF assms] obtain c where c: "c < n" "c AND (n - 1) < c" by blast
  let ?i = "c AND (n - 1)"
  have idem: "?i AND (n - 1) = ?i" by (simp add: and.assoc)
  have "\<exists>f1 f2. shrink t_size junk n f = Some f1 \<and> fifo_items f1 = fifo_items f \<and> peek_item f1 ?i = Some (fifo_items f ! ?i)
      \<and> write_item t_size junk x f1 = Some (Inr (), f2) \<and> peek_item f2 ?i = Some x"
    if f: "fifo_ok f" "fifo_kind f = Dynamic_buffer" "fifo_count f = c" "item_size_ok t_size"
    for f t_size junk and x :: 'a
  proof -
    have dyn: "is_dynamic (fifo_kind f)" and cn: "fifo_count f \<le> n" using f c by simp_all
    obtain f1 where f1: "shrink t_size junk n f = Some f1" "fifo_head f1 = 0" "fifo_count f1 = c"
      "fifo_capacity f1 = n" "fifo_kind f1 = Dynamic_buffer" "take c (fifo_buf f1) = fifo_items f"
      using shrink_layout [OF f(1,4) dyn cn, of junk] f(2,3) by auto
    have mask: "fifo_mask f1 j = Some (j AND (n - 1))" for j using assms(1) f1(4,5) by (simp add: fifo_mask_def)
    define f2 where "f2 = f1\<lparr>fifo_buf := (fifo_buf f1)[?i := x], fifo_count := c + 1\<rparr>"
    have f2: "fifo_head f2 = 0" "fifo_count f2 = c + 1" "fifo_capacity f2 = n" "fifo_kind f2 = Dynamic_buffer"
        "fifo_buf f2 = (fifo_buf f1)[?i := x]"
      using f1 by (simp_all add: f2_def fifo_capacity_def)
    have mask2: "fifo_mask f2 j = Some (j AND (n - 1))" for j using assms(1) f2 by (simp add: fifo_mask_def)
    have "fifo_buf f1 ! ?i = fifo_items f ! ?i" using f1(6) c(2) by (metis nth_take)
    then have "peek_item f1 ?i = Some (fifo_items f ! ?i)"
      using f1(2-4) c mask [of ?i] idem by (simp add: peek_item_def)
    moreover have "write_item t_size junk x f1 = Some (Inr (), f2)"
      using f1 c mask [of c] Suc_leI [of 0 "n - c"]
      by (simp add: write_item_def ensure_unused_capacity_def writable_length_def usize_sub_def
          write_item_assume_capacity_def fifo_update_def f2_def fifo_capacity_def)
    moreover have "peek_item f2 ?i = Some x"
      using f2 c mask2 [of ?i] idem f1(4) by (simp add: peek_item_def fifo_capacity_def)
    moreover have "fifo_items f1 = fifo_items f" using f1(2,3,6) by (simp add: fifo_items_def)
    ultimately show ?thesis using f1(1) by blast
  qed
  then show ?thesis using c by blast
qed

theorem shrink_breaks_masking_witness:
  "\<exists>c < 3. \<exists>f1 f2 i. shrink 8 (\<lambda>_. 0) 3 \<lparr>fifo_kind = Dynamic_buffer, fifo_buf = [10, 11, 12, 13 :: nat], fifo_head = 0, fifo_count = c\<rparr> = Some f1
     \<and> i < c \<and> write_item 8 (\<lambda>_. 0) 99 f1 = Some (Inr (), f2) \<and> peek_item f2 i = Some 99"
proof -
  let ?f = "\<lambda>c. \<lparr>fifo_kind = Dynamic_buffer, fifo_buf = [10, 11, 12, 13 :: nat], fifo_head = 0, fifo_count = c\<rparr>"
  have np: "\<not> is_power_of_two 3"
  proof
    assume "is_power_of_two 3"
    then obtain k where k: "3 = (2 :: nat) ^ k" unfolding is_power_of_two_iff by blast
    have "odd (3 :: nat)" by simp
    then have "k = 0" using k by (metis even_power even_numeral neq0_conv)
    then show False using k by simp
  qed
  have p4: "is_power_of_two 4" unfolding is_power_of_two_iff by (rule exI [of _ 2]) simp
  obtain c where c: "c < 3" "\<forall>f t_size junk (x :: nat). fifo_ok f \<and> fifo_kind f = Dynamic_buffer \<and> fifo_count f = c
      \<and> 3 < fifo_capacity f \<and> item_size_ok t_size \<longrightarrow>
    (\<exists>f1 f2 i. shrink t_size junk 3 f = Some f1 \<and> fifo_items f1 = fifo_items f
      \<and> i < c \<and> peek_item f1 i = Some (fifo_items f ! i)
      \<and> write_item t_size junk x f1 = Some (Inr (), f2) \<and> peek_item f2 i = Some x)"
    using shrink_breaks_masking [of 3, OF _ np] by auto
  have cap: "fifo_capacity (?f c) = 4" by (simp add: fifo_capacity_def)
  then have "fifo_ok (?f c)" using c(1) p4 by (simp add: fifo_ok_def)
  moreover have "item_size_ok 8" by (simp add: item_size_ok_def PAGE_SIZE_MIN_def)
  ultimately show ?thesis
    using c(2) [rule_format, of "?f c" 8 "\<lambda>_. 0" 99] cap c(1) by auto
qed

text \<open>
  With no storage yet, putting back nothing panics (\<open>rewind\<close> computes \<open>0 - 1\<close>), though discarding
  nothing is allowed.
\<close>

lemma unget_nothing_panics:
  "unget t_size junk [] fifo_init_dynamic = None" "discard 0 fifo_init_dynamic = Some fifo_init_dynamic"
  by (simp_all add: unget_def fifo_init_dynamic_def ensure_unused_capacity_def writable_length_def
      usize_sub_def fifo_capacity_def rewind_def fifo_mask_def discard_def discard_head_def)

lemma head_realign_step_0: "fifo_head (realign_step 0 f) = fifo_head f"
  by (simp add: realign_step_def Let_def)

lemma realign_loop_stuck:
  assumes "realign_loop t f = Some f'"
  shows "t = 0 \<longrightarrow> fifo_head f = 0"
  using assms
  by (rule realign_loop.raw_induct [where P = "\<lambda>t f f'. t = 0 \<longrightarrow> fifo_head f = 0", rotated])
    (fastforce split: if_splits simp: head_realign_step_0)

text \<open>
  When one item is larger than the scratch area of half a page, the scratch area holds no item
  and the rotation of wrapped contents makes no progress: \<open>realign\<close> never returns.
\<close>

lemma realign_large_items_hangs:
  assumes "fifo_ok f" and "fifo_capacity f < fifo_head f + fifo_count f" and "PAGE_SIZE_MIN div 2 < t_size"
  shows "realign t_size f = None"
proof -
  have h: "fifo_head f \<noteq> 0" "fifo_head f \<le> fifo_capacity f"
    using assms by (auto simp: fifo_ok_def)
  have "realign_loop 0 f = None"
    using realign_loop_stuck [of 0 f] h(1) by (cases "realign_loop 0 f") auto
  then show ?thesis using assms h by (auto simp: realign_def usize_sub_def)
qed

lemma realign_large_items_hangs_example:
  "realign 4096 \<lparr>fifo_kind = Static_buffer 2, fifo_buf = [1, 2 :: nat], fifo_head = 1, fifo_count = 2\<rparr> = None"
proof (rule realign_large_items_hangs)
  let ?f = "\<lparr>fifo_kind = Static_buffer 2, fifo_buf = [1, 2 :: nat], fifo_head = 1, fifo_count = 2\<rparr>"
  have "fifo_capacity ?f = 2" by (simp add: fifo_capacity_def)
  then show "fifo_ok ?f" "fifo_capacity ?f < fifo_head ?f + fifo_count ?f" by (simp_all add: fifo_ok_def)
qed (simp add: PAGE_SIZE_MIN_def)

end
