(* ===== verification/Fifo_Pump.thy ===== *)
theory Fifo_Pump
  imports Fifo_Queue
begin

text \<open>
  Pumping a reader into a writer through the ring buffer.  Readers and writers are closures with a
  state: a reader fills the front of the slice it is given and returns how many items, a writer
  returns how many items of a slice it took.  The locale \<open>pump_streams\<close> is the contract of the two;
  its client theorem is that \<open>pump\<close> returns and transfers everything.  It is interpreted for
  the reader and the writer that a ring buffer itself is.
\<close>

section \<open>The loops\<close>

type_synonym ('r, 'e, 'a) item_reader = "'r \<Rightarrow> 'a list \<Rightarrow> (('e + nat) \<times> 'a list \<times> 'r) option"
type_synonym ('w, 'e, 'a) item_writer = "'w \<Rightarrow> 'a list \<Rightarrow> (('e + nat) \<times> 'w) option"
type_synonym ('r, 'w, 'a) pump_state = "'a linear_fifo \<times> 'r \<times> 'w"

text \<open>The reading half of a round; \<open>Inr True\<close> is the end of the input.\<close>

definition pump_fill ::
    "('r, 'e, 'a) item_reader \<Rightarrow> 'a linear_fifo \<Rightarrow> 'r \<Rightarrow> (('e + bool) \<times> 'a linear_fifo \<times> 'r) option" where
  "pump_fill src_reader f r = do {
     room \<leftarrow> writable_length f;
     if 0 < room then do {
       (a, b) \<leftarrow> writable_slice f 0;
       (res, ws, r') \<leftarrow> src_reader r (read_range (fifo_buf f) (a, b));
       let f1 = f\<lparr>fifo_buf := blit (fifo_buf f) a ws\<rparr>;
       case res of
         Inl e \<Rightarrow> Some (Inl e, f1, r')
       | Inr n \<Rightarrow>
           if n = 0 then Some (Inr True, f1, r')
           else do { f2 \<leftarrow> fifo_update n f1; Some (Inr False, f2, r') } }
     else Some (Inr False, f, r) }"

definition pump_drain ::
    "('w, 'e, 'a) item_writer \<Rightarrow> 'a linear_fifo \<Rightarrow> 'w \<Rightarrow> (('e + unit) \<times> 'a linear_fifo \<times> 'w) option" where
  "pump_drain dest_writer f w = do {
     rs \<leftarrow> readable_slice f 0;
     (res, w') \<leftarrow> dest_writer w rs;
     case res of
       Inl e \<Rightarrow> Some (Inl e, f, w')
     | Inr n \<Rightarrow> do { f' \<leftarrow> discard n f; Some (Inr (), f', w') } }"

text \<open>A round goes on with a state, or leaves the loop with an error or \<open>None\<close>.\<close>

fun pump_round ::
    "('r, 'e, 'a) item_reader \<Rightarrow> ('w, 'e, 'a) item_writer \<Rightarrow> ('r, 'w, 'a) pump_state \<Rightarrow>
     (('r, 'w, 'a) pump_state + 'e option \<times> ('r, 'w, 'a) pump_state) option" where
  "pump_round src_reader dest_writer (f, r, w) = do {
     (res, f1, r') \<leftarrow> pump_fill src_reader f r;
     case res of
       Inl e \<Rightarrow> Some (Inr (Some e, f1, r', w))
     | Inr eof \<Rightarrow>
         if eof then Some (Inr (None, f1, r', w))
         else do {
           (res', f2, w') \<leftarrow> pump_drain dest_writer f1 w;
           Some (case res' of Inl e \<Rightarrow> Inr (Some e, f2, r', w') | Inr _ \<Rightarrow> Inl (f2, r', w')) } }"

fun flush_round ::
    "('w, 'e, 'a) item_writer \<Rightarrow> ('r, 'w, 'a) pump_state \<Rightarrow>
     (('r, 'w, 'a) pump_state + 'e option \<times> ('r, 'w, 'a) pump_state) option" where
  "flush_round dest_writer (f, r, w) =
     (if readable_length f = 0 then Some (Inr (None, f, r, w))
      else do {
        (res, f', w') \<leftarrow> pump_drain dest_writer f w;
        Some (case res of Inl e \<Rightarrow> Inr (Some e, f', r, w') | Inr _ \<Rightarrow> Inl (f', r, w')) })"

partial_function (option) pump_loop ::
    "('r, 'e, 'a) item_reader \<Rightarrow> ('w, 'e, 'a) item_writer \<Rightarrow> ('r, 'w, 'a) pump_state \<Rightarrow>
     ('e option \<times> ('r, 'w, 'a) pump_state) option" where
  "pump_loop src_reader dest_writer s =
     (case pump_round src_reader dest_writer s of
        Some (Inl s') \<Rightarrow> pump_loop src_reader dest_writer s'
      | Some (Inr res) \<Rightarrow> Some res
      | None \<Rightarrow> None)"

partial_function (option) flush_loop ::
    "('w, 'e, 'a) item_writer \<Rightarrow> ('r, 'w, 'a) pump_state \<Rightarrow> ('e option \<times> ('r, 'w, 'a) pump_state) option" where
  "flush_loop dest_writer s =
     (case flush_round dest_writer s of
        Some (Inl s') \<Rightarrow> flush_loop dest_writer s'
      | Some (Inr res) \<Rightarrow> Some res
      | None \<Rightarrow> None)"

text \<open>The result: the error, if any, and the state of the three parties.\<close>

definition pump ::
    "('r, 'e, 'a) item_reader \<Rightarrow> ('w, 'e, 'a) item_writer \<Rightarrow> ('r, 'w, 'a) pump_state \<Rightarrow>
     ('e option \<times> ('r, 'w, 'a) pump_state) option" where
  "pump src_reader dest_writer s =
     (if fifo_capacity (fst s) = 0 then None
      else do {
        (err, s') \<leftarrow> pump_loop src_reader dest_writer s;
        case err of
          Some e \<Rightarrow> Some (Some e, s')
        | None \<Rightarrow> flush_loop dest_writer s' })"

section \<open>Writing to free slots\<close>

lemma blit_prefix_again:
  assumes "a + length ws \<le> length buf"
  shows "blit (blit buf a ws) a (take n ws) = blit buf a ws"
  using assms by (intro nth_equalityI) (auto simp: nth_blit min_def)

lemma free_blit_ok:
  assumes ok: "fifo_ok f" and len: "length ws = (if fifo_head f + fifo_count f < fifo_capacity f
      then fifo_capacity f else fifo_head f) - fifo_wrap f (fifo_count f)"
  defines "f1 \<equiv> f\<lparr>fifo_buf := blit (fifo_buf f) (fifo_wrap f (fifo_count f)) ws\<rparr>"
  shows "fifo_ok f1" and "fifo_items f1 = fifo_items f" and "fifo_capacity f1 = fifo_capacity f"
    and "fifo_wrap f (fifo_count f) + length ws \<le> length (fifo_buf f)"
proof -
  show b: "fifo_wrap f (fifo_count f) + length ws \<le> length (fifo_buf f)"
    using ok len by (auto simp: fifo_wrap_def fifo_ok_def fifo_capacity_def)
  show cap: "fifo_capacity f1 = fifo_capacity f" using b by (simp add: f1_def fifo_capacity_def)
  have f1: "fifo_head f1 = fifo_head f" "fifo_count f1 = fifo_count f" "fifo_kind f1 = fifo_kind f"
    by (simp_all add: f1_def)
  show ok1: "fifo_ok f1" using ok cap f1 by (simp add: fifo_ok_def)
  show "fifo_items f1 = fifo_items f"
  proof (rule fifo_items_eqI [OF ok1])
    fix i assume "i < fifo_count f1"
    then have i: "i < fifo_count f" by (simp add: f1)
    have w: "fifo_wrap f1 i = fifo_wrap f i" using cap f1 unfolding fifo_wrap_def by simp
    have "fifo_wrap f i < length (fifo_buf f)"
      using i ok by (auto simp: fifo_wrap_def fifo_ok_def fifo_capacity_def)
    moreover have "\<not> (fifo_wrap f (fifo_count f) \<le> fifo_wrap f i
        \<and> fifo_wrap f i < fifo_wrap f (fifo_count f) + length ws)"
      using i ok len by (auto simp: fifo_wrap_def fifo_ok_def)
    ultimately have "fifo_buf f1 ! fifo_wrap f i = fifo_buf f ! fifo_wrap f i"
      using b by (auto simp: f1_def nth_blit)
    then show "fifo_buf f1 ! fifo_wrap f1 i = fifo_items f ! i"
      using i ok by (simp add: w nth_fifo_items)
  qed (use ok f1 in simp)
qed

section \<open>The contract of the streams\<close>

text \<open>
  \<open>pending\<close> is what a reader will deliver, \<open>written\<close> what a writer has taken, \<open>wok w m\<close> says that the
  writer can take \<open>m\<close> more items.
\<close>

locale pump_streams =
  fixes src_reader :: "('r, 'e, 'a) item_reader"
    and dest_writer :: "('w, 'e, 'a) item_writer"
    and pending :: "'r \<Rightarrow> 'a list"
    and written :: "'w \<Rightarrow> 'a list"
    and rok :: "'r \<Rightarrow> bool"
    and wok :: "'w \<Rightarrow> nat \<Rightarrow> bool"
  assumes reads: "rok r \<Longrightarrow> ws \<noteq> [] \<Longrightarrow>
      \<exists>n ws' r'. src_reader r ws = Some (Inr n, ws', r') \<and> rok r' \<and> length ws' = length ws \<and> n \<le> length ws
        \<and> n \<le> length (pending r) \<and> (n = 0 \<longleftrightarrow> pending r = []) \<and> take n ws' = take n (pending r)
        \<and> pending r' = drop n (pending r)"
    and writes: "wok w m \<Longrightarrow> rs \<noteq> [] \<Longrightarrow> length rs \<le> m \<Longrightarrow>
      \<exists>n w'. dest_writer w rs = Some (Inr n, w') \<and> 0 < n \<and> n \<le> length rs
        \<and> written w' = written w @ take n rs \<and> wok w' (m - n)"
begin

definition good :: "'a list \<Rightarrow> ('r, 'w, 'a) pump_state \<Rightarrow> bool" where
  "good all s \<longleftrightarrow> (case s of (f, r, w) \<Rightarrow> fifo_ok f \<and> 0 < fifo_capacity f \<and> rok r
     \<and> wok w (fifo_count f + length (pending r)) \<and> written w @ fifo_items f @ pending r = all)"

lemma fill_ok:
  assumes "good all (f, r, w)"
  shows "\<exists>eof f1 r'. pump_fill src_reader f r = Some (Inr eof, f1, r') \<and> good all (f1, r', w)
    \<and> (eof \<longrightarrow> pending r' = [])
    \<and> (\<not> eof \<longrightarrow> 0 < fifo_count f1 \<and> 2 * length (pending r') + fifo_count f1 \<le> 2 * length (pending r) + fifo_count f)"
proof (cases "fifo_count f < fifo_capacity f")
  case False
  then show ?thesis using assms by (auto simp: good_def pump_fill_def)
next
  case True
  have ok: "fifo_ok f" "rok r" using assms by (auto simp: good_def)
  let ?a = "fifo_wrap f (fifo_count f)"
  let ?b = "if fifo_head f + fifo_count f < fifo_capacity f then fifo_capacity f else fifo_head f"
  have ab: "?a < ?b" "?b \<le> length (fifo_buf f)"
    using True ok(1) by (auto simp: fifo_wrap_def fifo_ok_def fifo_capacity_def)
  have ws: "writable_slice f 0 = Some (?a, ?b)"
    using writable_slice_ok [OF ok(1)] by (simp add: fifo_wrap_def)
  define cur where "cur = read_range (fifo_buf f) (?a, ?b)"
  have len: "length cur = ?b - ?a" using ab by (simp add: cur_def read_range_def)
  then have "cur \<noteq> []" using ab by auto
  from reads [OF ok(2) this] obtain n ws' r' where rd: "src_reader r cur = Some (Inr n, ws', r')" "rok r'"
    "length ws' = length cur" "n \<le> length cur" "n \<le> length (pending r)" "n = 0 \<longleftrightarrow> pending r = []"
    "take n ws' = take n (pending r)" "pending r' = drop n (pending r)" by blast
  define f1 where "f1 = f\<lparr>fifo_buf := blit (fifo_buf f) ?a ws'\<rparr>"
  have f1: "fifo_ok f1" "fifo_items f1 = fifo_items f" "fifo_capacity f1 = fifo_capacity f"
    "?a + length ws' \<le> length (fifo_buf f)"
    using free_blit_ok [OF ok(1), of ws'] rd(3) len by (simp_all add: f1_def)
  have f1': "fifo_head f1 = fifo_head f" "fifo_count f1 = fifo_count f" by (simp_all add: f1_def)
  have step: "pump_fill src_reader f r = (if n = 0 then Some (Inr True, f1, r')
      else do { f2 \<leftarrow> fifo_update n f1; Some (Inr False, f2, r') })"
    using True ok(1) ws rd(1) by (simp add: pump_fill_def f1_def cur_def)
  show ?thesis
  proof (cases "n = 0")
    case True
    then show ?thesis using step f1 f1' rd assms by (auto simp: good_def)
  next
    case False
    have "fifo_wrap f1 (fifo_count f1) = ?a" using f1(3) f1' unfolding fifo_wrap_def by simp
    then have "blit (fifo_buf f1) (fifo_wrap f1 (fifo_count f1)) (take n ws') = fifo_buf f1"
      using f1(4) by (simp add: f1_def blit_prefix_again)
    moreover have "fifo_count f + n \<le> fifo_capacity f"
      "fifo_head f + fifo_count f < fifo_capacity f \<Longrightarrow> fifo_head f + fifo_count f + n \<le> fifo_capacity f"
      using rd(4) len True ok(1) by (auto simp: fifo_wrap_def fifo_ok_def split: if_splits)
    moreover have "length (take n ws') = n" using rd(3,4) by simp
    ultimately obtain f2 where f2: "fifo_update n f1 = Some f2" "fifo_ok f2"
      "fifo_items f2 = fifo_items f @ take n (pending r)" "fifo_capacity f2 = fifo_capacity f"
      using append_ok [OF f1(1), of "take n ws'"] f1 f1' rd(7) by auto
    then have cnt: "fifo_count f2 = fifo_count f + n"
      using length_fifo_items [OF f2(2)] length_fifo_items [OF ok(1)] rd(5) by simp
    have "good all (f2, r', w)"
      using assms f2 rd(2,5,8) cnt by (simp add: good_def)
    moreover have "pump_fill src_reader f r = Some (Inr False, f2, r')" using step False f2(1) by simp
    moreover have "2 * length (pending r') + fifo_count f2 \<le> 2 * length (pending r) + fifo_count f"
      using cnt rd(5,8) by simp
    ultimately show ?thesis using False cnt by auto
  qed
qed

lemma drain_ok:
  assumes "good all (f, r, w)" and "0 < fifo_count f"
  shows "\<exists>f' w'. pump_drain dest_writer f w = Some (Inr (), f', w') \<and> good all (f', r, w')
    \<and> fifo_count f' < fifo_count f"
proof -
  have ok: "fifo_ok f" "wok w (fifo_count f + length (pending r))" "can_discard f"
    using assms by (auto simp: good_def can_discard_def)
  define rs where "rs = (if fifo_head f < fifo_capacity f
      then take (fifo_capacity f - fifo_head f) (fifo_items f) else fifo_items f)"
  have rs: "readable_slice f 0 = Some rs" using readable_slice_ok [OF ok(1), of 0] by (simp add: rs_def)
  have "fifo_items f \<noteq> []" using assms(2) length_fifo_items [OF ok(1)] by force
  then have "rs \<noteq> []" "length rs \<le> fifo_count f" using ok(1) by (auto simp: rs_def)
  then obtain n w' where wr: "dest_writer w rs = Some (Inr n, w')" "0 < n" "n \<le> length rs"
    "written w' = written w @ take n rs" "wok w' (fifo_count f + length (pending r) - n)"
    using writes [OF ok(2)] by (meson trans_le_add1)
  have n: "n \<le> fifo_count f" "take n rs = take n (fifo_items f)"
    using wr(3) \<open>length rs \<le> fifo_count f\<close> by (auto simp: rs_def min_def split: if_splits)
  from discard_ok [OF ok(1,3) n(1)] obtain f' where f': "discard n f = Some f'" "fifo_ok f'"
    "fifo_items f' = drop n (fifo_items f)" "fifo_capacity f' = fifo_capacity f" .
  then have "fifo_count f' = fifo_count f - n"
    using length_fifo_items [OF f'(2)] length_fifo_items [OF ok(1)] by simp
  then show ?thesis
    using assms rs wr f' n by (auto simp: pump_drain_def good_def)
qed

lemma round_keeps_good:
  assumes "good all (f, r, w)"
  shows "(\<exists>f1 r'. pump_round src_reader dest_writer (f, r, w) = Some (Inr (None, f1, r', w))
      \<and> good all (f1, r', w) \<and> pending r' = [])
    \<or> (\<exists>f2 r' w'. pump_round src_reader dest_writer (f, r, w) = Some (Inl (f2, r', w'))
      \<and> good all (f2, r', w')
      \<and> 2 * length (pending r') + fifo_count f2 < 2 * length (pending r) + fifo_count f)"
proof -
  from fill_ok [OF assms] obtain eof f1 r' where f1: "pump_fill src_reader f r = Some (Inr eof, f1, r')"
    "good all (f1, r', w)" "eof \<longrightarrow> pending r' = []"
    "\<not> eof \<longrightarrow> 0 < fifo_count f1 \<and> 2 * length (pending r') + fifo_count f1 \<le> 2 * length (pending r) + fifo_count f"
    by blast
  show ?thesis
  proof (cases eof)
    case True
    then show ?thesis using f1 by simp
  next
    case False
    then have "0 < fifo_count f1" using f1(4) by simp
    from drain_ok [OF f1(2) this] obtain f2 w' where
      "pump_drain dest_writer f1 w = Some (Inr (), f2, w')" "good all (f2, r', w')" "fifo_count f2 < fifo_count f1"
      by blast
    then show ?thesis using f1 False by force
  qed
qed

lemma flush_keeps_good:
  assumes "good all (f, r, w)"
  shows "if fifo_count f = 0 then flush_round dest_writer (f, r, w) = Some (Inr (None, f, r, w))
    else \<exists>f' w'. flush_round dest_writer (f, r, w) = Some (Inl (f', r, w')) \<and> good all (f', r, w')
      \<and> fifo_count f' < fifo_count f"
  using drain_ok [OF assms] by (auto simp: readable_length_def)

end

text \<open>Both loops are loops with an invariant and an order.\<close>

sublocale pump_streams \<subseteq> pl: guarded_loop "pump_loop src_reader dest_writer"
  "pump_round src_reader dest_writer" "\<lambda>s. good all s"
  "measure (\<lambda>(f, r, w). 2 * length (pending r) + fifo_count f)" for all
proof (unfold_locales, goal_cases)
  case (1 s)
  then show ?case by (subst pump_loop.simps) (simp split: option.split sum.split)
next
  case (3 s)
  then show ?case using round_keeps_good by (cases s) fastforce
next
  case (4 s s')
  then show ?case using round_keeps_good [of all] by (cases s) fastforce
qed simp

sublocale pump_streams \<subseteq> fl: guarded_loop "flush_loop dest_writer"
  "flush_round dest_writer" "\<lambda>s. good all s" "measure (\<lambda>(f, r, w). fifo_count f)" for all
proof (unfold_locales, goal_cases)
  case (1 s)
  then show ?case by (subst flush_loop.simps) (simp split: option.split sum.split)
next
  case (3 s)
  then show ?case using flush_keeps_good by (cases s) (fastforce split: if_splits)
next
  case (4 s s')
  then show ?case using flush_keeps_good [of all] by (cases s) (fastforce split: if_splits)
qed simp

context pump_streams
begin

lemma pump_loop_ok:
  assumes "good all s"
  shows "\<exists>f r w. pump_loop src_reader dest_writer s = Some (None, f, r, w) \<and> good all (f, r, w) \<and> pending r = []"
proof -
  from pl.returns [OF assms] obtain res f r w where s': "good all (f, r, w)"
    "pump_round src_reader dest_writer (f, r, w) = Some (Inr res)" "pump_loop src_reader dest_writer s = Some res"
    by auto
  with round_keeps_good [OF s'(1)] show ?thesis by auto
qed

lemma flush_loop_ok:
  assumes "good all (f, r, w)" and "pending r = []"
  shows "\<exists>f' r' w'. flush_loop dest_writer (f, r, w) = Some (None, f', r', w')
    \<and> good all (f', r', w') \<and> pending r' = [] \<and> fifo_count f' = 0"
proof -
  let ?J = "\<lambda>(f, r, w). pending r = []"
  have J: "?J s'" if "good all s" "?J s" "flush_round dest_writer s = Some (Inl s')" for s s'
    using that flush_keeps_good [of all "fst s" "fst (snd s)" "snd (snd s)"]
    by (cases s) (auto split: if_splits)
  have "\<exists>res s'. good all s' \<and> ?J s' \<and> flush_round dest_writer s' = Some (Inr res)
      \<and> flush_loop dest_writer (f, r, w) = Some res"
    by (rule fl.returns_with) (use assms J in auto)
  then obtain res f' r' w' where s': "good all (f', r', w')" "pending r' = []"
    "flush_round dest_writer (f', r', w') = Some (Inr res)" "flush_loop dest_writer (f, r, w) = Some res"
    by auto
  with flush_keeps_good [OF s'(1)] show ?thesis by (auto split: if_splits)
qed

text \<open>Pumping returns without an error, and everything the buffer and the reader held is written.\<close>

lemma pump_ok:
  assumes "fifo_ok f" "0 < fifo_capacity f" "rok r" "wok w (fifo_count f + length (pending r))"
  shows "\<exists>f' r' w'. pump src_reader dest_writer (f, r, w) = Some (None, f', r', w')
    \<and> written w' = written w @ fifo_items f @ pending r \<and> fifo_items f' = [] \<and> pending r' = []"
proof -
  have "good (written w @ fifo_items f @ pending r) (f, r, w)" using assms by (simp add: good_def)
  from pump_loop_ok [OF this] obtain f1 r1 w1 where s1:
    "pump_loop src_reader dest_writer (f, r, w) = Some (None, f1, r1, w1)"
    "good (written w @ fifo_items f @ pending r) (f1, r1, w1)" "pending r1 = []" by blast
  from flush_loop_ok [OF s1(2,3)] obtain f' r' w' where
    "flush_loop dest_writer (f1, r1, w1) = Some (None, f', r', w')"
    "good (written w @ fifo_items f @ pending r) (f', r', w')" "pending r' = []" "fifo_count f' = 0" by blast
  moreover from this have "fifo_items f' = []" by (simp add: fifo_items_def)
  ultimately show ?thesis using s1(1) assms(2) by (auto simp: pump_def good_def)
qed

end

section \<open>Ring buffers as streams\<close>

text \<open>\<open>std::io::Read\<close> and \<open>std::io::Write\<close> of a ring buffer, as the closures that \<open>pump\<close> calls.\<close>

definition fifo_reader :: "('a linear_fifo, io_error, 'a) item_reader" where
  "fifo_reader g ws = map_option (\<lambda>(n, ws', g'). (Inr n, ws', g')) (io_read g ws)"

definition fifo_writer :: "nat \<Rightarrow> (nat \<Rightarrow> 'a) \<Rightarrow> ('a linear_fifo, io_error, 'a) item_writer" where
  "fifo_writer t_size junk h rs = io_write t_size junk rs h"

lemma io_write_ok:
  assumes "fifo_ok h" "item_size_ok t_size" "fifo_count h + length rs \<le> fifo_limit h"
  shows "\<exists>h'. io_write t_size junk rs h = Some (Inr (length rs), h') \<and> queue_becomes h (fifo_items h @ rs) h'"
proof -
  have fit: "fits h (length rs)" using assms(3) by (simp add: fits_limit)
  have "(if is_dynamic (fifo_kind h) then Some rs
      else do { w \<leftarrow> writable_length h; Some (take (min (length rs) w) rs) }) = Some rs"
  proof (cases "is_dynamic (fifo_kind h)")
    case False
    then have "length rs \<le> fifo_capacity h - fifo_count h" using assms(3) by (simp add: fifo_limit_def)
    then show ?thesis using assms(1) False by (simp add: min_def)
  qed simp
  with fifo_write_ok [OF assms(1,2), of junk rs] fit show ?thesis
    by (auto simp: io_write_def)
qed

interpretation fs: pump_streams fifo_reader "fifo_writer t_size junk" fifo_items fifo_items fifo_ok
  "\<lambda>h m. fifo_ok h \<and> item_size_ok t_size \<and> fifo_count h + m \<le> fifo_limit h"
  for t_size :: nat and junk :: "nat \<Rightarrow> 'a"
proof (unfold_locales, goal_cases)
  case (1 r ws)
  from fifo_read_ok [OF 1(1), of ws] obtain r' where
    "fifo_read r ws = Some (min (length ws) (fifo_count r),
       take (length ws) (fifo_items r) @ drop (fifo_count r) ws, r')"
    "fifo_ok r'" "fifo_items r' = drop (length ws) (fifo_items r)" by blast
  moreover have "fifo_count r = 0 \<longleftrightarrow> fifo_items r = []" using length_fifo_items [OF 1(1)] by force
  ultimately show ?case
    using 1 by (auto simp: fifo_reader_def io_read_def min_def)
next
  case (2 w m rs)
  then have "fifo_count w + length rs \<le> fifo_limit w" by simp
  with io_write_ok [of w t_size rs junk] 2 obtain w' where w': "io_write t_size junk rs w = Some (Inr (length rs), w')"
    "queue_becomes w (fifo_items w @ rs) w'" by auto
  then have "fifo_count w' = fifo_count w + length rs"
    using length_fifo_items [of w'] length_fifo_items [of w] 2 by (simp add: queue_becomes_def)
  then show ?case
    using 2 w' queue_becomes_limit [OF w'(2)] by (auto simp: fifo_writer_def queue_becomesD)
qed

text \<open>
  C15. Pumping from one ring buffer into another through a third returns, without an error, if the
  destination has room for everything and the size of an item is between 1 and 2048 bytes: the
  destination then holds its own items, those that were buffered and those of the source, in this
  order, and the other two are empty.  The buffer between them may be of any capacity from one slot
  up and in any state.
\<close>

theorem pump_transfers_all:
  assumes "fifo_ok f" and "0 < fifo_capacity f" and "fifo_ok src" and "fifo_ok dst" and "item_size_ok t_size"
    and "fifo_count dst + (fifo_count f + fifo_count src) \<le> fifo_limit dst"
  shows "\<exists>f' src' dst'. pump fifo_reader (fifo_writer t_size junk) (f, src, dst) = Some (None, f', src', dst')
    \<and> fifo_items dst' = fifo_items dst @ fifo_items f @ fifo_items src
    \<and> fifo_items f' = [] \<and> fifo_items src' = []"
  using fs.pump_ok [of f src dst t_size junk] assms by simp

theorem pump_transfers_all_witness:
  "let f = \<lparr>fifo_kind = Static_buffer 2, fifo_buf = [2, 1], fifo_head = 1, fifo_count = 2\<rparr>;
       src = \<lparr>fifo_kind = Slice_buffer, fifo_buf = [5, 3, 4 :: nat], fifo_head = 1, fifo_count = 3\<rparr>
   in \<exists>f' src' dst'. pump fifo_reader (fifo_writer 8 (\<lambda>_. 0)) (f, src, fifo_init_dynamic) =
        Some (None, f', src', dst') \<and> fifo_items dst' = [1, 2, 3, 4, 5] \<and> fifo_items f' = [] \<and> fifo_items src' = []"
proof -
  let ?f = "\<lparr>fifo_kind = Static_buffer 2, fifo_buf = [2, 1], fifo_head = 1, fifo_count = 2\<rparr> :: nat linear_fifo"
  let ?src = "\<lparr>fifo_kind = Slice_buffer, fifo_buf = [5, 3, 4 :: nat], fifo_head = 1, fifo_count = 3\<rparr>"
  have cap: "fifo_capacity ?f = 2" "fifo_capacity ?src = 3" by (simp_all add: fifo_capacity_def)
  then have ok: "fifo_ok ?f" "0 < fifo_capacity ?f" "fifo_ok ?src" by (simp_all add: fifo_ok_def)
  have it: "fifo_items ?f = [1, 2]" "fifo_items ?src = [3, 4, 5]" by code_simp+
  have size: "item_size_ok 8" by (simp add: item_size_ok_def PAGE_SIZE_MIN_def)
  have room: "fifo_count (fifo_init_dynamic :: nat linear_fifo) + (fifo_count ?f + fifo_count ?src)
      \<le> fifo_limit (fifo_init_dynamic :: nat linear_fifo)"
    by (simp add: fifo_limit_def fifo_init_dynamic_def)
  from pump_transfers_all [OF ok fifo_init_ok(1) size room, of "\<lambda>_. 0"] show ?thesis
    unfolding it fifo_init_ok(2) by (simp add: Let_def)
qed

section \<open>A full destination\<close>

text \<open>
  A full buffer of fixed capacity takes nothing and reports no error, and the loops of \<open>pump\<close> have no
  case for a writer that takes nothing: they go round forever.
\<close>

lemma full_writer_takes_nothing:
  assumes "fifo_ok dst" and "\<not> is_dynamic (fifo_kind dst)" and "fifo_count dst = fifo_capacity dst"
  shows "fifo_writer t_size junk dst rs = Some (Inr 0, dst)"
  using assms
  by (simp add: fifo_writer_def io_write_def fifo_write_def ensure_unused_capacity_def write_assume_capacity_def write_loop.simps)

lemma discard_nothing:
  assumes "fifo_ok f" and "0 < fifo_count f"
  shows "discard 0 f = Some f"
proof -
  have c: "0 < fifo_capacity f" "fifo_head f < fifo_capacity f" using assms by (auto simp: fifo_ok_def)
  then have "discard_head f (fifo_head f + 0) = Some (fifo_wrap f 0)"
    by (intro discard_head_ok [OF assms(1)]) (simp_all add: can_discard_def)
  then show ?thesis using c(2) by (simp add: discard_def fifo_wrap_def)
qed

lemma flush_loop_stuck:
  assumes "flush_round dest_writer s0 = Some (Inl s0)"
  shows "flush_loop dest_writer s0 = None"
proof -
  have stuck: "flush_loop dest_writer s = Some res \<Longrightarrow> flush_round dest_writer s = Some (Inl s) \<longrightarrow> False" for s res
    by (rule flush_loop.raw_induct [where P = "\<lambda>d s res. flush_round d s = Some (Inl s) \<longrightarrow> False", rotated])
      (auto split: option.splits sum.splits)
  show ?thesis
  proof (cases "flush_loop dest_writer s0")
    case (Some res)
    then show ?thesis using stuck [OF Some] assms by blast
  qed
qed

lemma pump_full_destination_hangs:
  assumes "fifo_ok f" and "0 < fifo_count f" and "fifo_count f < fifo_capacity f" and "fifo_ok src" and "fifo_count src = 0"
    and "fifo_ok dst" and "\<not> is_dynamic (fifo_kind dst)" and "fifo_count dst = fifo_capacity dst"
  shows "pump fifo_reader (fifo_writer t_size junk) (f, src, dst) = None"
proof -
  let ?r = "fifo_reader :: ('a linear_fifo, io_error, 'a) item_reader" and ?w = "fifo_writer t_size junk"
  let ?a = "fifo_wrap f (fifo_count f)"
  let ?b = "if fifo_head f + fifo_count f < fifo_capacity f then fifo_capacity f else fifo_head f"
  have ws: "writable_slice f 0 = Some (?a, ?b)" using writable_slice_ok [OF assms(1)] by (simp add: fifo_wrap_def)
  have ab: "?b \<le> length (fifo_buf f)" using assms(1) by (auto simp: fifo_ok_def fifo_capacity_def)
  define cur where "cur = read_range (fifo_buf f) (?a, ?b)"
  have items: "fifo_items src = []" using length_fifo_items [OF assms(4)] assms(5) by simp
  obtain src' where rd: "?r src cur = Some (Inr 0, cur, src')"
    using fifo_read_ok [OF assms(4), of cur] assms(5) items by (auto simp: fifo_reader_def io_read_def)
  define f1 where "f1 = f\<lparr>fifo_buf := blit (fifo_buf f) ?a cur\<rparr>"
  have "length cur = ?b - ?a" using ab by (simp add: cur_def read_range_def)
  then have f1: "fifo_ok f1" "fifo_count f1 = fifo_count f" using free_blit_ok [OF assms(1), of cur] by (simp_all add: f1_def)
  have "pump_fill ?r f src = Some (Inr True, f1, src')"
    using assms(1,3) ws rd by (simp add: pump_fill_def f1_def cur_def)
  then have loop: "pump_loop ?r ?w (f, src, dst) = Some (None, f1, src', dst)"
    by (subst pump_loop.simps) simp
  obtain rs where "readable_slice f1 0 = Some rs" using readable_slice_ok [OF f1(1), of 0] by blast
  then have "flush_round ?w (f1, src', dst) = Some (Inl (f1, src', dst))"
    using f1 assms(2) full_writer_takes_nothing [OF assms(6-8), of t_size junk rs] discard_nothing [OF f1(1)]
    by (simp add: pump_drain_def readable_length_def)
  then have "flush_loop ?w (f1, src', dst) = None" by (rule flush_loop_stuck)
  then show ?thesis using loop assms(3) by (simp add: pump_def)
qed

end
