(* ===== verification/Base64.thy ===== *)
theory Base64
  imports Byte_Strings "HOL-Library.Monad_Syntax"
begin

text \<open>
  The scalar base64 codec (\<^verbatim>\<open>src/src/base64/lib.rs\<close>): encoder, strict decoder and the decoder that
  skips characters.  The accumulators are 16-bit integers kept as naturals with the wrap-around of the
  shifts written out.  A write outside the destination is the value \<open>None\<close>: a panic in the encoder and
  the skipping decoder, undefined behaviour in the strict decoder, whose writes are unchecked.
\<close>

section \<open>Alphabets\<close>

datatype base64_error = Invalid_Character | Invalid_Padding | No_Space_Left

definition STANDARD_ALPHABET_CHARS :: bytes where
  "STANDARD_ALPHABET_CHARS = ''ABCDEFGHIJKLMNOPQRSTUVWXYZabcdefghijklmnopqrstuvwxyz0123456789+/''"

definition URL_SAFE_ALPHABET_CHARS :: bytes where
  "URL_SAFE_ALPHABET_CHARS = ''ABCDEFGHIJKLMNOPQRSTUVWXYZabcdefghijklmnopqrstuvwxyz0123456789-_''"

section \<open>Encoder\<close>

record base64_encoder =
  enc_alphabet :: bytes
  enc_pad :: "byte option"

definition encoder_init :: "bytes \<Rightarrow> byte option \<Rightarrow> base64_encoder" where
  "encoder_init alphabet pad = \<lparr>enc_alphabet = alphabet, enc_pad = pad\<rparr>"

definition div_ceil :: "nat \<Rightarrow> nat \<Rightarrow> nat" where
  "div_ceil a b = (a + b - 1) div b"

definition encoder_calc_size :: "base64_encoder \<Rightarrow> nat \<Rightarrow> nat" where
  "encoder_calc_size e source_len =
     (if enc_pad e \<noteq> None then div_ceil source_len 3 * 4
      else let leftover = source_len mod 3 in source_len div 3 * 4 + div_ceil (leftover * 4) 3)"

text \<open>\<open>dest[i] = c\<close>.\<close>

definition put :: "bytes \<Rightarrow> nat \<Rightarrow> byte \<Rightarrow> bytes option" where
  "put dest i c = (if i < length dest then Some (dest[i := c]) else None)"

text \<open>\<open>acc << k\<close> of a 16-bit integer, and the bits above position \<open>k\<close> modulo \<open>m\<close>: \<open>(acc >> k) & (m - 1)\<close>.\<close>

definition shl16 :: "nat \<Rightarrow> nat \<Rightarrow> nat" where
  "shl16 acc k = acc * 2 ^ k mod 2 ^ 16"

definition bits_at :: "nat \<Rightarrow> nat \<Rightarrow> nat \<Rightarrow> nat" where
  "bits_at acc k m = acc div 2 ^ k mod m"

text \<open>The inner loop: digits are taken from the top of the accumulator while it holds six bits.\<close>

fun encode_digits ::
    "base64_encoder \<Rightarrow> nat \<Rightarrow> nat \<Rightarrow> bytes \<Rightarrow> nat \<Rightarrow> (nat \<times> bytes \<times> nat) option" where
  "encode_digits e acc acc_len dest out_idx =
     (if 6 \<le> acc_len then do {
        let acc_len = acc_len - 6;
        dest \<leftarrow> put dest out_idx (enc_alphabet e ! bits_at acc acc_len 64);
        encode_digits e acc acc_len dest (out_idx + 1) }
      else Some (acc_len, dest, out_idx))"

fun encode_bytes ::
    "base64_encoder \<Rightarrow> bytes \<Rightarrow> nat \<Rightarrow> nat \<Rightarrow> bytes \<Rightarrow> nat \<Rightarrow> (nat \<times> nat \<times> bytes \<times> nat) option" where
  "encode_bytes e [] acc acc_len dest out_idx = Some (acc, acc_len, dest, out_idx)"
| "encode_bytes e (v # vs) acc acc_len dest out_idx = do {
     let acc = shl16 acc 8 + code v;
     (acc_len, dest, out_idx) \<leftarrow> encode_digits e acc (acc_len + 8) dest out_idx;
     encode_bytes e vs acc acc_len dest out_idx }"

definition encode_without_size_check :: "base64_encoder \<Rightarrow> bytes \<Rightarrow> bytes \<Rightarrow> (nat \<times> bytes) option" where
  "encode_without_size_check e dest source = do {
     (acc, acc_len, dest, out_idx) \<leftarrow> encode_bytes e source 0 0 dest 0;
     if 0 < acc_len then do {
       dest \<leftarrow> put dest out_idx (enc_alphabet e ! (shl16 acc (6 - acc_len) mod 64));
       Some (out_idx + 1, dest) }
     else Some (out_idx, dest) }"

text \<open>The slice returned and the whole destination.\<close>

definition base64_encode :: "base64_encoder \<Rightarrow> bytes \<Rightarrow> bytes \<Rightarrow> (bytes \<times> bytes) option" where
  "base64_encode e dest source = do {
     let out_len = encoder_calc_size e (length source);
     (out_idx, dest) \<leftarrow> encode_without_size_check e dest source;
     dest \<leftarrow> (case enc_pad e of
               None \<Rightarrow> Some dest
             | Some pad \<Rightarrow>
                 if out_idx \<le> out_len \<and> out_len \<le> length dest
                 then Some (blit dest out_idx (replicate (out_len - out_idx) pad)) else None);
     if out_len \<le> length dest then Some (take out_len dest, dest) else None }"

section \<open>Decoder\<close>

text \<open>The table of the decoder maps a byte to its digit, 255 where there is none.\<close>

definition INVALID_CHAR :: nat where
  "INVALID_CHAR = 255"

record base64_decoder =
  char_to_index :: "nat list"
  dec_pad :: "byte option"

fun index_loop :: "bytes \<Rightarrow> nat \<Rightarrow> nat list \<Rightarrow> nat list" where
  "index_loop [] i t = t"
| "index_loop (c # cs) i t = index_loop cs (i + 1) (t[code c := i])"

definition decoder_init :: "bytes \<Rightarrow> byte option \<Rightarrow> base64_decoder" where
  "decoder_init alphabet pad =
     \<lparr>char_to_index = index_loop alphabet 0 (replicate 256 INVALID_CHAR), dec_pad = pad\<rparr>"

definition calc_size_upper_bound :: "base64_decoder \<Rightarrow> nat \<Rightarrow> base64_error + nat" where
  "calc_size_upper_bound d source_len =
     (let result = source_len div 4 * 3; leftover = source_len mod 4 in
      if dec_pad d \<noteq> None
      then (if leftover mod 4 \<noteq> 0 then Inl Invalid_Padding else Inr result)
      else (if leftover mod 4 = 1 then Inl Invalid_Padding else Inr (result + leftover * 3 div 4)))"

text \<open>\<open>None\<close> is the subtraction below zero.\<close>

definition calc_size_for_slice :: "base64_decoder \<Rightarrow> bytes \<Rightarrow> (base64_error + nat) option" where
  "calc_size_for_slice d source =
     (case calc_size_upper_bound d (length source) of
        Inl e \<Rightarrow> Some (Inl e)
      | Inr result \<Rightarrow>
          let n = length source;
              drops = (case dec_pad d of
                         None \<Rightarrow> 0
                       | Some pad \<Rightarrow>
                           (if 1 \<le> n \<and> source ! (n - 1) = pad then 1 else 0)
                           + (if 2 \<le> n \<and> source ! (n - 2) = pad then 1 else 0))
          in if drops \<le> result then Some (Inr (result - drops)) else None)"

text \<open>
  The main loop of \<open>decode\<close>: it ends with an error, at the first padding character (the source
  from there on is returned) or at the end of the source.
\<close>

fun decode_chars ::
    "base64_decoder \<Rightarrow> bytes \<Rightarrow> nat \<Rightarrow> nat \<Rightarrow> bytes \<Rightarrow> nat \<Rightarrow>
     (base64_error + nat \<times> nat \<times> bytes \<times> bytes option) option" where
  "decode_chars d [] acc acc_len dest dest_idx = Some (Inr (acc, acc_len, dest, None))"
| "decode_chars d (c # cs) acc acc_len dest dest_idx =
     (let v = char_to_index d ! code c in
      if v = INVALID_CHAR
      then (if dec_pad d = None \<or> dec_pad d \<noteq> Some c then Some (Inl Invalid_Character)
            else Some (Inr (acc, acc_len, dest, Some (c # cs))))
      else
        let acc = shl16 acc 6 + v; acc_len = acc_len + 6 in
        if 8 \<le> acc_len
        then do {
          let acc_len = acc_len - 8;
          dest \<leftarrow> put dest dest_idx (char_of (bits_at acc acc_len 256));
          decode_chars d cs acc acc_len dest (dest_idx + 1) }
        else decode_chars d cs acc acc_len dest dest_idx)"

fun check_padding :: "byte \<Rightarrow> nat \<Rightarrow> nat \<Rightarrow> bytes \<Rightarrow> base64_error + unit" where
  "check_padding pad padding_len n [] = (if n \<noteq> padding_len then Inl Invalid_Padding else Inr ())"
| "check_padding pad padding_len n (c # cs) =
     (if c \<noteq> pad
      then Inl (if code c = INVALID_CHAR then Invalid_Character else Invalid_Padding)
      else check_padding pad padding_len (n + 1) cs)"

definition base64_decode :: "base64_decoder \<Rightarrow> bytes \<Rightarrow> bytes \<Rightarrow> (base64_error + bytes) option" where
  "base64_decode d dest source =
     (if dec_pad d \<noteq> None \<and> length source mod 4 \<noteq> 0 then Some (Inl Invalid_Padding)
      else do {
        res \<leftarrow> decode_chars d source 0 0 dest 0;
        case res of
          Inl e \<Rightarrow> Some (Inl e)
        | Inr (acc, acc_len, dest, leftover) \<Rightarrow>
            if 4 < acc_len \<or> acc mod 2 ^ acc_len \<noteq> 0 then Some (Inl Invalid_Padding)
            else (case leftover of
                    None \<Rightarrow> Some (Inr dest)
                  | Some left \<Rightarrow>
                      (case dec_pad d of
                         None \<Rightarrow> Some (Inr dest)
                       | Some pad \<Rightarrow> Some (map_sum id (\<lambda>_. dest) (check_padding pad (acc_len div 2) 0 left)))) })"

section \<open>Decoder that skips characters\<close>

record base64_decoder_with_ignore =
  ign_decoder :: base64_decoder
  char_is_ignored :: "bool list"

definition decoder_with_ignore_init :: "bytes \<Rightarrow> byte option \<Rightarrow> bytes \<Rightarrow> base64_decoder_with_ignore" where
  "decoder_with_ignore_init alphabet pad ignore_chars =
     \<lparr>ign_decoder = decoder_init alphabet pad,
      char_is_ignored = foldl (\<lambda>t c. t[code c := True]) (replicate 256 False) ignore_chars\<rparr>"

text \<open>The error or the end of the loop, next to the destination and the number of bytes written.\<close>

fun ignore_chars_loop ::
    "base64_decoder_with_ignore \<Rightarrow> bytes \<Rightarrow> nat \<Rightarrow> nat \<Rightarrow> bytes \<Rightarrow> nat \<Rightarrow>
     (base64_error + nat \<times> nat \<times> bytes option) \<times> bytes \<times> nat" where
  "ignore_chars_loop d [] acc acc_len dest wrote = (Inr (acc, acc_len, None), dest, wrote)"
| "ignore_chars_loop d (c # cs) acc acc_len dest wrote =
     (if char_is_ignored d ! code c then ignore_chars_loop d cs acc acc_len dest wrote
      else
        let v = char_to_index (ign_decoder d) ! code c in
        if v = INVALID_CHAR
        then (if dec_pad (ign_decoder d) = Some c then (Inr (acc, acc_len, Some (c # cs)), dest, wrote)
              else if char_is_ignored d ! INVALID_CHAR then ignore_chars_loop d cs acc acc_len dest wrote
              else (Inl Invalid_Character, dest, wrote))
        else
          let acc = shl16 acc 6 + v; acc_len = acc_len + 6 in
          if 8 \<le> acc_len
          then if wrote = length dest then (Inl No_Space_Left, dest, wrote)
               else let acc_len = acc_len - 8
                    in ignore_chars_loop d cs acc acc_len
                         (dest[wrote := char_of (bits_at acc acc_len 256)]) (wrote + 1)
          else ignore_chars_loop d cs acc acc_len dest wrote)"

definition ignore_decode ::
    "base64_decoder_with_ignore \<Rightarrow> bytes \<Rightarrow> bytes \<Rightarrow> (base64_error + unit) \<times> bytes \<times> nat" where
  "ignore_decode d dest source =
     (let (res, dest, wrote) = ignore_chars_loop d source 0 0 dest 0 in
      (case res of
         Inl e \<Rightarrow> Inl e
       | Inr (acc, acc_len, leftover) \<Rightarrow>
           if 4 < acc_len \<or> acc mod 2 ^ acc_len \<noteq> 0 then Inl Invalid_Padding
           else (case dec_pad (ign_decoder d) of
                   None \<Rightarrow> Inr ()
                 | Some pad \<Rightarrow>
                     (case leftover of
                        Some left \<Rightarrow>
                          check_padding pad (acc_len div 2) 0 (filter (\<lambda>c. \<not> char_is_ignored d ! code c) left)
                      | None \<Rightarrow> if 0 < acc_len div 2 then Inl Invalid_Padding else Inr ())),
       dest, wrote))"

section \<open>The codecs\<close>

definition STANDARD_encoder :: base64_encoder where
  "STANDARD_encoder = encoder_init STANDARD_ALPHABET_CHARS (Some (CHR ''=''))"

definition STANDARD_decoder :: base64_decoder where
  "STANDARD_decoder = decoder_init STANDARD_ALPHABET_CHARS (Some (CHR ''=''))"

definition NO_PAD_encoder :: base64_encoder where
  "NO_PAD_encoder = encoder_init STANDARD_ALPHABET_CHARS None"

definition NO_PAD_decoder :: base64_decoder where
  "NO_PAD_decoder = decoder_init STANDARD_ALPHABET_CHARS None"

text \<open>The decoder that also accepts the URL-safe digits and skips every other character.\<close>

definition MIXED_DECODER :: base64_decoder_with_ignore where
  "MIXED_DECODER =
     (let d = decoder_with_ignore_init STANDARD_ALPHABET_CHARS (Some (CHR ''=''))
                [CHR 0xFF, CHR '' '', CHR 0x09, CHR 0x0D, CHR 0x0A, CHR 0x0B, CHR 0x0C];
          t = char_to_index (ign_decoder d);
          t = t[code (URL_SAFE_ALPHABET_CHARS ! 62) := 62, code (URL_SAFE_ALPHABET_CHARS ! 63) := 63]
      in d\<lparr>ign_decoder := (ign_decoder d)\<lparr>char_to_index := t\<rparr>\<rparr>)"

definition decode_len_upper_bound :: "nat \<Rightarrow> nat" where
  "decode_len_upper_bound n =
     (case calc_size_upper_bound STANDARD_decoder n of Inr v \<Rightarrow> v | Inl _ \<Rightarrow> n div 4 * 3)"

definition decode_len :: "bytes \<Rightarrow> nat option" where
  "decode_len source = map_option
     (\<lambda>r. case r of Inr v \<Rightarrow> v | Inl _ \<Rightarrow> length source div 4 * 3 + 2) (calc_size_for_slice STANDARD_decoder source)"

definition encode_len_from_size :: "nat \<Rightarrow> nat" where
  "encode_len_from_size n = div_ceil n 3 * 4"

definition url_safe_encode_len_from_size :: "nat \<Rightarrow> nat" where
  "url_safe_encode_len_from_size n =
     (let full_chunks = n div 3; leftover = n mod 3 in full_chunks * 4 + div_ceil (leftover * 4) 3)"

end
