(* ===== verification/Base64_Spec.thy ===== *)
theory Base64_Spec
  imports Base64
begin

text \<open>
  Base64 read as numbers: a byte string in base 256 and a digit string in base 64 stand for the same
  number up to the zero bits that fill the last digit.  Encoder and decoder keep this equation
  through their loops; that the strict decoder accepts exactly what the encoder writes follows.
\<close>

section \<open>Numbers in a base\<close>

definition horner :: "nat \<Rightarrow> nat \<Rightarrow> nat list \<Rightarrow> nat" where
  "horner b a ds = foldl (\<lambda>a d. a * b + d) a ds"

lemma horner_simps [simp]:
  "horner b a [] = a" "horner b a (d # ds) = horner b (a * b + d) ds"
  "horner b a (ds @ es) = horner b (horner b a ds) es"
  by (simp_all add: horner_def)

lemma horner_inject:
  assumes "length xs = length ys" and "\<forall>x\<in>set xs. x < b" and "\<forall>y\<in>set ys. y < b"
    and "horner b 0 xs = horner b 0 ys"
  shows "xs = ys"
  using assms
proof (induction xs arbitrary: ys rule: rev_induct)
  case (snoc x xs)
  then obtain ys' y where ys: "ys = ys' @ [y]" by (cases ys rule: rev_cases) auto
  let ?u = "horner b 0 xs" and ?v = "horner b 0 ys'"
  have "?u * b + x = ?v * b + y" "x < b" "y < b" using snoc.prems ys by simp_all
  then have "x = y" and "?u = ?v"
    by (metis mod_less mod_mult_self3, metis add_right_imp_eq mod_less mod_mult_self3 mult_right_cancel not_less_zero)
  then show ?case using snoc ys by auto
qed simp

lemma scaled_unique:
  assumes "(u::nat) * c + r = v * c" and "r < c"
  shows "r = 0" and "u = v"
proof -
  have "(u * c + r) mod c = r" "(u * c + r) div c = u" using assms(2) by simp_all
  then show "r = 0" "u = v" using assms by simp_all
qed

section \<open>Accumulators\<close>

lemma shl16_mod:
  assumes "m + k \<le> 16" and "v < 2 ^ k"
  shows "(shl16 acc k + v) mod 2 ^ (m + k) = acc mod 2 ^ m * 2 ^ k + v"
proof -
  have dvd: "(2::nat) ^ (m + k) dvd 2 ^ 16" using assms(1) by (rule le_imp_power_dvd)
  have "(shl16 acc k + v) mod 2 ^ (m + k) = (acc * 2 ^ k + v) mod 2 ^ (m + k)"
    unfolding shl16_def by (metis dvd mod_add_left_eq mod_mod_cancel)
  also have "\<dots> = (acc mod 2 ^ m * 2 ^ k + v) mod 2 ^ (m + k)"
  proof -
    have "acc * 2 ^ k mod 2 ^ (m + k) = acc mod 2 ^ m * 2 ^ k" by (simp add: power_add mod_mult_mult2)
    then show ?thesis using mod_add_left_eq [of "acc * 2 ^ k" "2 ^ (m + k)" v] by simp
  qed
  also have "\<dots> = acc mod 2 ^ m * 2 ^ k + v"
  proof (rule mod_less)
    have "acc mod 2 ^ m + 1 \<le> 2 ^ m" by (simp add: Suc_leI)
    then have "(acc mod 2 ^ m + 1) * 2 ^ k \<le> 2 ^ m * 2 ^ k" by (rule mult_le_mono1)
    then show "acc mod 2 ^ m * 2 ^ k + v < 2 ^ (m + k)" using assms(2) by (simp add: power_add)
  qed
  finally show ?thesis .
qed

lemma bits_at_split:
  "bits_at acc m (2 ^ k) * 2 ^ m + acc mod 2 ^ m = acc mod 2 ^ (m + k)"
proof -
  have "acc mod 2 ^ (m + k) = acc mod (2 ^ m * 2 ^ k)" by (simp add: power_add)
  also have "\<dots> = 2 ^ m * (acc div 2 ^ m mod 2 ^ k) + acc mod 2 ^ m" by (rule mod_mult2_eq)
  finally show ?thesis by (simp add: bits_at_def)
qed

lemmas bits_at_64 = bits_at_split [where k = 6, simplified]
lemmas bits_at_256 = bits_at_split [where k = 8, simplified]

section \<open>Digits of a byte string\<close>

text \<open>The digits that the loops of the encoder write.\<close>

fun emit :: "nat \<Rightarrow> nat \<Rightarrow> nat list" where
  "emit acc m = (if 6 \<le> m then bits_at acc (m - 6) 64 # emit acc (m - 6) else [])"

declare emit.simps [simp del]

fun digits_of :: "bytes \<Rightarrow> nat \<Rightarrow> nat \<Rightarrow> nat list \<times> nat \<times> nat" where
  "digits_of [] acc m = ([], acc, m)"
| "digits_of (v # vs) acc m =
     (let acc = shl16 acc 8 + code v; (ds, a, k) = digits_of vs acc ((m + 8) mod 6)
      in (emit acc (m + 8) @ ds, a, k))"

definition enc_digits :: "bytes \<Rightarrow> nat list" where
  "enc_digits source =
     (let (ds, a, k) = digits_of source 0 0 in ds @ (if 0 < k then [shl16 a (6 - k) mod 64] else []))"

lemma emit_value: "horner 64 a (emit acc m) * 2 ^ (m mod 6) + acc mod 2 ^ (m mod 6) = a * 2 ^ m + acc mod 2 ^ m"
proof (induction acc m arbitrary: a rule: emit.induct)
  case (1 acc m)
  show ?case
  proof (cases "6 \<le> m")
    case False
    then show ?thesis by (simp add: emit.simps)
  next
    case True
    let ?d = "bits_at acc (m - 6) 64"
    have "horner 64 a (emit acc m) * 2 ^ (m mod 6) + acc mod 2 ^ (m mod 6)
        = (a * 64 + ?d) * 2 ^ (m - 6) + acc mod 2 ^ (m - 6)"
      using 1 [OF True, of "a * 64 + ?d"] True by (simp add: emit.simps [of acc m] le_mod_geq)
    also have "\<dots> = a * (64 * 2 ^ (m - 6)) + (?d * 2 ^ (m - 6) + acc mod 2 ^ (m - 6))"
      by (simp add: algebra_simps)
    also have "64 * 2 ^ (m - 6) = (2::nat) ^ m"
      using True power_add [of "2::nat" 6 "m - 6"] by simp
    also have "?d * 2 ^ (m - 6) + acc mod 2 ^ (m - 6) = acc mod 2 ^ m"
      using bits_at_64 [of acc "m - 6"] True by simp
    finally show ?thesis .
  qed
qed

lemma length_emit: "length (emit acc m) = m div 6"
  by (induction acc m rule: emit.induct) (subst emit.simps, auto simp: le_div_geq)

lemma emit_less: "\<forall>d\<in>set (emit acc m). d < 64"
  by (induction acc m rule: emit.induct) (subst emit.simps, auto simp: bits_at_def)

lemma digits_of_value:
  assumes "digits_of vs acc m = (ds, a, k)" and "m < 6"
  shows "horner 64 x ds * 2 ^ k + a mod 2 ^ k = horner 256 (x * 2 ^ m + acc mod 2 ^ m) (map code vs)"
    and "length ds * 6 + k = 8 * length vs + m" and "k < 6" and "\<forall>d\<in>set ds. d < 64"
  using assms
proof (induction vs arbitrary: acc m ds a k x)
  case (Cons v vs)
  {
    case 1
    let ?acc = "shl16 acc 8 + code v"
    obtain ds' where r: "digits_of vs ?acc ((m + 8) mod 6) = (ds', a, k)" and ds: "ds = emit ?acc (m + 8) @ ds'"
      using 1 by (auto simp: Let_def split: prod.splits)
    have "horner 64 x ds * 2 ^ k + a mod 2 ^ k
        = horner 256 (horner 64 x (emit ?acc (m + 8)) * 2 ^ ((m + 8) mod 6) + ?acc mod 2 ^ ((m + 8) mod 6)) (map code vs)"
      using Cons.IH(1) [OF r] ds by simp
    also have "horner 64 x (emit ?acc (m + 8)) * 2 ^ ((m + 8) mod 6) + ?acc mod 2 ^ ((m + 8) mod 6)
        = (x * 2 ^ m + acc mod 2 ^ m) * 256 + code v"
      using emit_value [of x ?acc "m + 8"] shl16_mod [of m 8 "code v" acc] 1(2)
      by (simp add: power_add algebra_simps)
    finally show ?case by simp
  next
    case 2
    let ?acc = "shl16 acc 8 + code v"
    obtain ds' where r: "digits_of vs ?acc ((m + 8) mod 6) = (ds', a, k)" and ds: "ds = emit ?acc (m + 8) @ ds'"
      using 2 by (auto simp: Let_def split: prod.splits)
    define q where "q = (m + 8) div 6"
    have "length ds' * 6 + k + q * 6 = 8 * length vs + (m + 8)"
      using Cons.IH(2) [OF r] div_mult_mod_eq [of "m + 8" 6, folded q_def] by simp
    then show ?case by (simp add: ds length_emit flip: q_def)
  next
    case 3
    then show ?case using Cons.IH(3) by (auto simp: Let_def split: prod.splits)
  next
    case 4
    then show ?case using Cons.IH(4) emit_less by (fastforce simp: Let_def split: prod.splits)
  }
qed auto

text \<open>The fill bits of the last digit.\<close>

definition fill :: "nat \<Rightarrow> nat" where
  "fill n = (6 - 8 * n mod 6) mod 6"

lemma fill_less: "fill n < 6"
  by (simp add: fill_def)

lemma fill_unique:
  assumes "6 * l = 8 * n + z" and "z < 6"
  shows "z = fill n"
proof -
  define q where "q = 8 * n div 6"
  define r where "r = 8 * n mod 6"
  have r: "r < 6" "8 * n = 6 * q + r"
    unfolding q_def r_def by (simp, rule mult_div_mod_eq [symmetric])
  then have "6 * l = 6 * q + (r + z)" using assms(1) by simp
  then have "6 dvd r + z" by (metis dvd_add_right_iff dvd_triv_left)
  then have "r + z = 0 \<or> r + z = 6" using r(1) assms(2) by presburger
  then show ?thesis using assms(2) unfolding fill_def r_def [symmetric] by auto
qed

lemma fill_even:
  assumes "8 * n + k = 6 * l" and "k < (6::nat)"
  shows "k \<le> 4"
  using assms by presburger

lemma enc_digits_value:
  "horner 64 0 (enc_digits src) = horner 256 0 (map code src) * 2 ^ fill (length src)"
  "6 * length (enc_digits src) = 8 * length src + fill (length src)"
  "\<forall>d\<in>set (enc_digits src). d < 64"
proof -
  obtain ds a k where r: "digits_of src 0 0 = (ds, a, k)" by (metis prod_cases3)
  note v = digits_of_value [OF r, simplified]
  have e: "enc_digits src = ds @ (if 0 < k then [shl16 a (6 - k) mod 64] else [])"
    by (simp add: enc_digits_def r)
  have last: "shl16 a (6 - k) mod 64 = a mod 2 ^ k * 2 ^ (6 - k)" if "0 < k"
    using shl16_mod [of k "6 - k" 0 a] v(3) that by simp
  let ?z = "if 0 < k then 6 - k else 0"
  have len: "6 * length (enc_digits src) = 8 * length src + ?z"
    using v(2,3) by (auto simp: e)
  then have z: "?z = fill (length src)" by (rule fill_unique) auto
  show "6 * length (enc_digits src) = 8 * length src + fill (length src)" using len z by simp
  show "\<forall>d\<in>set (enc_digits src). d < 64" using v(4) by (auto simp: e)
  have "horner 64 0 (enc_digits src) = (horner 64 0 ds * 2 ^ k + a mod 2 ^ k) * 2 ^ ?z"
  proof (cases "0 < k")
    case True
    then have "(64::nat) = 2 ^ k * 2 ^ (6 - k)" using v(3) by (simp flip: power_add)
    then show ?thesis using True last e by (simp add: algebra_simps)
  next
    case False
    then show ?thesis using e by simp
  qed
  then show "horner 64 0 (enc_digits src) = horner 256 0 (map code src) * 2 ^ fill (length src)"
    using v(1) [of 0] z by simp
qed

section \<open>The encoder writes the digits\<close>

lemma blit_put: "i < length dest \<Longrightarrow> blit (dest[i := c]) (Suc i) cs = blit dest i (c # cs)"
  by (simp add: blit_def take_Suc_conv_app_nth)

lemma blit_Nil [simp]: "i \<le> length dest \<Longrightarrow> blit dest i [] = dest"
  by (simp add: blit_def)

lemma blit_blit: "i + length xs + length ys \<le> length dest \<Longrightarrow>
    blit (blit dest i xs) (i + length xs) ys = blit dest i (xs @ ys)"
  by (simp add: blit_def ac_simps)

lemma put_blit:
  assumes "length xs < length dest"
  shows "(blit dest 0 xs)[length xs := c] = blit dest 0 (xs @ [c])"
proof -
  obtain y ys where "drop (length xs) dest = y # ys" using assms by (cases "drop (length xs) dest") auto
  then show ?thesis using drop_eq_ConsD [of "length xs" dest y ys] by (simp add: blit_def list_update_append)
qed

declare encode_digits.simps [simp del]

lemma encode_digits_eq:
  "i + m div 6 \<le> length dest \<Longrightarrow>
   encode_digits e acc m dest i = Some (m mod 6, blit dest i (map (\<lambda>d. enc_alphabet e ! d) (emit acc m)), i + m div 6)"
proof (induction acc m arbitrary: dest i rule: emit.induct)
  case (1 acc m)
  show ?case
  proof (cases "6 \<le> m")
    case False
    then show ?thesis using 1(2) by (simp add: encode_digits.simps emit.simps)
  next
    case True
    then have m: "m div 6 = Suc ((m - 6) div 6)" "m mod 6 = (m - 6) mod 6"
      by (auto simp: le_div_geq le_mod_geq)
    let ?dest = "dest[i := enc_alphabet e ! bits_at acc (m - 6) 64]"
    have "encode_digits e acc (m - 6) ?dest (i + 1) =
        Some ((m - 6) mod 6, blit ?dest (i + 1) (map (\<lambda>d. enc_alphabet e ! d) (emit acc (m - 6))), i + 1 + (m - 6) div 6)"
      using 1(2) m by (intro 1(1) [OF True]) simp
    then show ?thesis
      using True 1(2) m by (simp add: encode_digits.simps [of e acc m] emit.simps [of acc m] put_def blit_put Let_def)
  qed
qed

lemma encode_bytes_eq:
  assumes "digits_of vs acc m = (ds, a, k)" and "m < 6" and "i + length ds \<le> length dest"
  shows "encode_bytes e vs acc m dest i = Some (a, k, blit dest i (map (\<lambda>d. enc_alphabet e ! d) ds), i + length ds)"
  using assms
proof (induction vs arbitrary: acc m ds dest i)
  case (Cons v vs)
  let ?acc = "shl16 acc 8 + code v" and ?al = "map (\<lambda>d. enc_alphabet e ! d)"
  obtain ds' where r: "digits_of vs ?acc ((m + 8) mod 6) = (ds', a, k)" and ds: "ds = emit ?acc (m + 8) @ ds'"
    using Cons.prems(1) by (auto simp: Let_def split: prod.splits)
  have len: "i + (m + 8) div 6 + length ds' \<le> length dest" using Cons.prems(3) ds by (simp add: length_emit)
  let ?dest = "blit dest i (?al (emit ?acc (m + 8)))"
  have "encode_bytes e (v # vs) acc m dest i
      = encode_bytes e vs ?acc ((m + 8) mod 6) ?dest (i + (m + 8) div 6)"
    using len by (simp add: encode_digits_eq Let_def)
  also have "\<dots> = Some (a, k, blit ?dest (i + (m + 8) div 6) (?al ds'), i + (m + 8) div 6 + length ds')"
    using len by (intro Cons.IH [OF r]) (auto simp: length_emit)
  also have "blit ?dest (i + (m + 8) div 6) (?al ds') = blit dest i (?al ds)"
    using blit_blit [of i "?al (emit ?acc (m + 8))" "?al ds'" dest] len ds by (simp add: length_emit)
  finally show ?case using ds by (simp add: length_emit)
qed simp

lemma encode_without_size_check_eq:
  assumes "length (enc_digits src) \<le> length dest"
  shows "encode_without_size_check e dest src =
    Some (length (enc_digits src), blit dest 0 (map (\<lambda>d. enc_alphabet e ! d) (enc_digits src)))"
proof -
  obtain ds a k where r: "digits_of src 0 0 = (ds, a, k)" by (metis prod_cases3)
  have e: "enc_digits src = ds @ (if 0 < k then [shl16 a (6 - k) mod 64] else [])"
    by (simp add: enc_digits_def r)
  have b: "encode_bytes e src 0 0 dest 0 = Some (a, k, blit dest 0 (map (\<lambda>d. enc_alphabet e ! d) ds), length ds)"
    using encode_bytes_eq [OF r] assms e by simp
  show ?thesis
    using b assms e put_blit [of "map (\<lambda>d. enc_alphabet e ! d) ds" dest]
    by (cases "0 < k") (simp_all add: encode_without_size_check_def put_def)
qed

section \<open>Bytes of a digit string\<close>

fun bytes_of :: "nat list \<Rightarrow> nat \<Rightarrow> nat \<Rightarrow> nat list \<times> nat \<times> nat" where
  "bytes_of [] acc m = ([], acc, m)"
| "bytes_of (d # ds) acc m =
     (let acc = shl16 acc 6 + d in
      if 8 \<le> m + 6
      then (let (bs, a, k) = bytes_of ds acc (m + 6 - 8) in (bits_at acc (m + 6 - 8) 256 # bs, a, k))
      else bytes_of ds acc (m + 6))"

lemma bytes_of_value:
  assumes "bytes_of ds acc m = (bs, a, k)" and "m < 8" and "\<forall>d\<in>set ds. d < 64"
  shows "(\<forall>x. horner 256 x bs * 2 ^ k + a mod 2 ^ k = horner 64 (x * 2 ^ m + acc mod 2 ^ m) ds)
    \<and> 8 * length bs + k = 6 * length ds + m \<and> k < 8 \<and> (\<forall>b\<in>set bs. b < 256)"
  using assms
proof (induction ds arbitrary: acc m bs)
  case (Cons d ds)
  let ?acc = "shl16 acc 6 + d"
  have low: "?acc mod 2 ^ (m + 6) = acc mod 2 ^ m * 64 + d"
    using shl16_mod [of m 6 d acc] Cons.prems(2,3) by simp
  have start: "(x * 2 ^ m + acc mod 2 ^ m) * 64 + d = x * 2 ^ (m + 6) + ?acc mod 2 ^ (m + 6)" for x
    using low by (simp add: power_add algebra_simps)
  show ?case
  proof (cases "8 \<le> m + 6")
    case True
    let ?b = "bits_at ?acc (m - 2) 256"
    obtain bs' where r: "bytes_of ds ?acc (m - 2) = (bs', a, k)" and bs: "bs = ?b # bs'"
      using Cons.prems(1) True by (auto simp: Let_def split: prod.splits)
    have m: "m + 6 = m - 2 + 8" using True by simp
    have "x * 2 ^ (m + 6) + ?acc mod 2 ^ (m + 6) = (x * 256 + ?b) * 2 ^ (m - 2) + ?acc mod 2 ^ (m - 2)" for x
      unfolding m bits_at_256 [symmetric] by (simp add: power_add algebra_simps)
    then show ?thesis
      using Cons.IH [OF r] Cons.prems(2,3) bs start True by (auto simp: bits_at_def)
  next
    case False
    then have r: "bytes_of ds ?acc (m + 6) = (bs, a, k)" using Cons.prems(1) by (simp add: Let_def)
    show ?thesis using Cons.IH [OF r] Cons.prems(3) False start by auto
  qed
qed auto

text \<open>The bytes of the digits of a byte string are that string, and nothing else has its digits.\<close>

lemma bytes_of_digits:
  assumes "bytes_of ds 0 0 = (bs, a, k)" and "\<forall>d\<in>set ds. d < 64"
  shows "ds = enc_digits (map char_of bs) \<longleftrightarrow> k \<le> 4 \<and> a mod 2 ^ k = 0"
proof -
  have v: "horner 256 0 bs * 2 ^ k + a mod 2 ^ k = horner 64 0 ds" "8 * length bs + k = 6 * length ds"
    "k < 8" "\<forall>b\<in>set bs. b < 256"
    using bytes_of_value [OF assms(1) _ assms(2)] by (auto dest: spec [of _ 0])
  have code: "map code (map char_of bs) = bs"
    using v(4) by (simp add: code_def map_idI)
  note e = enc_digits_value [of "map char_of bs", unfolded code length_map]
  show ?thesis
  proof
    assume ds: "ds = enc_digits (map char_of bs)"
    then have k: "k = fill (length bs)" using v(2) e(2) by simp
    then have "k \<le> 4" using fill_even [OF v(2)] fill_less by simp
    moreover have "horner 64 0 ds = horner 256 0 bs * 2 ^ k" using e(1) by (simp only: ds k)
    ultimately show "k \<le> 4 \<and> a mod 2 ^ k = 0" using v(1) by simp
  next
    assume k: "k \<le> 4 \<and> a mod 2 ^ k = 0"
    then have fill: "k = fill (length bs)" using fill_unique [of "length ds" "length bs" k] v(2) by simp
    show "ds = enc_digits (map char_of bs)"
    proof (rule horner_inject)
      have "6 * length (enc_digits (map char_of bs)) = 6 * length ds" using e(2) v(2) by (simp only: fill)
      then show "length ds = length (enc_digits (map char_of bs))" by simp
      show "horner 64 0 ds = horner 64 0 (enc_digits (map char_of bs))"
        using e(1) v(1) conjunct2 [OF k] by (simp flip: fill)
    qed (use e(3) assms(2) in simp_all)
  qed
qed

lemma bytes_of_enc_digits:
  obtains a k where "bytes_of (enc_digits src) 0 0 = (map code src, a, k)"
    and "k \<le> 4" and "a mod 2 ^ k = 0" and "k = fill (length src)"
proof -
  obtain bs a k where r: "bytes_of (enc_digits src) 0 0 = (bs, a, k)" by (metis prod_cases3)
  note e = enc_digits_value [of src]
  have v: "horner 256 0 bs * 2 ^ k + a mod 2 ^ k = horner 64 0 (enc_digits src)"
    "8 * length bs + k = 6 * length (enc_digits src)" "k < 8" "\<forall>b\<in>set bs. b < 256"
    using bytes_of_value [OF r _ e(3)] by (auto dest: spec [of _ 0])
  have eq: "8 * length bs + k = 8 * length src + fill (length src)" using v(2) e(2) by simp
  have "(8 * length bs + k) div 8 = length bs" "(8 * length src + fill (length src)) div 8 = length src"
    using v(3) fill_less [of "length src"] by simp_all
  then have len: "length bs = length src" using eq by simp
  then have k: "k = fill (length src)" using eq by simp
  have "horner 256 0 bs * 2 ^ k + a mod 2 ^ k = horner 256 0 (map code src) * 2 ^ k" using v(1) e(1) k by simp
  then have a: "a mod 2 ^ k = 0" and h: "horner 256 0 bs = horner 256 0 (map code src)"
    using scaled_unique [of "horner 256 0 bs" "2 ^ k" "a mod 2 ^ k" "horner 256 0 (map code src)"] by simp_all
  have "bs = map code src" using horner_inject [OF _ _ _ h] len v(4) by simp
  moreover have "k \<le> 4" using fill_even [OF v(2)] fill_less k by simp
  ultimately show thesis using that r a k by simp
qed

end
