(* ===== verification/Base64_Codec.thy ===== *)
theory Base64_Codec
  imports Base64_Spec
begin

text \<open>
  The strict decoder of a base64 codec accepts exactly the encodings, and its unchecked writes stay
  inside a destination of the computed size.  What an alphabet has to satisfy is the locale
  \<open>base64_alphabet\<close>, interpreted for the standard and the URL-safe one.
\<close>

section \<open>Alphabets and tables\<close>

lemma index_loop_length [simp]: "length (index_loop cs i t) = length t"
  by (induction cs i t rule: index_loop.induct) simp_all

lemma index_loop_other: "c \<notin> set cs \<Longrightarrow> index_loop cs i t ! code c = t ! code c"
  by (induction cs i t rule: index_loop.induct) auto

lemma index_loop_nth:
  "distinct cs \<Longrightarrow> \<forall>c\<in>set cs. code c < length t \<Longrightarrow> j < length cs \<Longrightarrow>
   index_loop cs i t ! code (cs ! j) = i + j"
proof (induction cs i t arbitrary: j rule: index_loop.induct)
  case (2 c cs i t)
  then show ?case by (cases j) (simp_all add: index_loop_other)
qed simp

definition alphabet_table :: "bytes \<Rightarrow> nat list" where
  "alphabet_table alphabet = index_loop alphabet 0 (replicate 256 INVALID_CHAR)"

locale base64_alphabet =
  fixes alphabet :: bytes
  assumes length_alphabet: "length alphabet = 64" and distinct_alphabet: "distinct alphabet"
begin

lemma table_nth: "d < 64 \<Longrightarrow> alphabet_table alphabet ! code (alphabet ! d) = d"
  using index_loop_nth [OF distinct_alphabet] length_alphabet by (simp add: alphabet_table_def)

lemma table_other: "c \<notin> set alphabet \<Longrightarrow> alphabet_table alphabet ! code c = INVALID_CHAR"
  by (simp add: alphabet_table_def index_loop_other)

lemma table_digit: "alphabet_table alphabet ! code c \<noteq> INVALID_CHAR \<longleftrightarrow> c \<in> set alphabet"
proof
  assume "c \<in> set alphabet"
  then obtain d where "d < 64" "c = alphabet ! d" by (auto simp: in_set_conv_nth length_alphabet)
  then show "alphabet_table alphabet ! code c \<noteq> INVALID_CHAR" by (simp add: table_nth INVALID_CHAR_def)
qed (use table_other in blast)

lemma table_inverse:
  assumes "alphabet_table alphabet ! code c \<noteq> INVALID_CHAR"
  shows "alphabet_table alphabet ! code c < 64" and "alphabet ! (alphabet_table alphabet ! code c) = c"
proof -
  obtain d where "d < 64" "c = alphabet ! d"
    using assms table_digit by (auto simp: in_set_conv_nth length_alphabet)
  then show "alphabet_table alphabet ! code c < 64" "alphabet ! (alphabet_table alphabet ! code c) = c" by (simp_all add: table_nth)
qed

lemma map_table: "\<forall>d\<in>set ds. d < 64 \<Longrightarrow> map (\<lambda>c. alphabet_table alphabet ! code c) (map (\<lambda>d. alphabet ! d) ds) = ds"
  by (induction ds) (simp_all add: table_nth)

lemma map_alphabet:
  "\<forall>c\<in>set xs. alphabet_table alphabet ! code c \<noteq> INVALID_CHAR \<Longrightarrow> map (\<lambda>d. alphabet ! d) (map (\<lambda>c. alphabet_table alphabet ! code c) xs) = xs"
  by (induction xs) (simp_all add: table_inverse)

end

interpretation std: base64_alphabet STANDARD_ALPHABET_CHARS
  by unfold_locales (simp_all add: STANDARD_ALPHABET_CHARS_def)

interpretation url: base64_alphabet URL_SAFE_ALPHABET_CHARS
  by unfold_locales (simp_all add: URL_SAFE_ALPHABET_CHARS_def)

section \<open>The decoder reads the digits\<close>

text \<open>What the loop returns behind the digits.\<close>

definition after_digits :: "base64_decoder \<Rightarrow> nat \<Rightarrow> nat \<Rightarrow> bytes \<Rightarrow> bytes \<Rightarrow>
    (base64_error + nat \<times> nat \<times> bytes \<times> bytes option)" where
  "after_digits d a k dest rest =
     (case rest of
        [] \<Rightarrow> Inr (a, k, dest, None)
      | c # _ \<Rightarrow> if dec_pad d = Some c then Inr (a, k, dest, Some rest) else Inl Invalid_Character)"

lemma decode_chars_eq:
  assumes "bytes_of (map (\<lambda>c. char_to_index d ! code c) xs) acc m = (bs, a, k)"
    and "\<forall>c\<in>set xs. char_to_index d ! code c \<noteq> INVALID_CHAR"
    and "rest = [] \<or> char_to_index d ! code (hd rest) = INVALID_CHAR"
    and "i \<le> length dest"
  shows "decode_chars d (xs @ rest) acc m dest i =
    (if i + length bs \<le> length dest then Some (after_digits d a k (blit dest i (map char_of bs)) rest) else None)"
  using assms
proof (induction xs arbitrary: acc m bs dest i)
  case Nil
  then show ?case by (cases rest) (auto simp: after_digits_def Let_def)
next
  case (Cons c xs)
  let ?v = "char_to_index d ! code c"
  let ?acc = "shl16 acc 6 + ?v"
  have v: "?v \<noteq> INVALID_CHAR" using Cons.prems(2) by simp
  show ?case
  proof (cases "8 \<le> m + 6")
    case False
    then have "bytes_of (map (\<lambda>c. char_to_index d ! code c) xs) ?acc (m + 6) = (bs, a, k)"
      using Cons.prems(1) by (simp add: Let_def)
    from Cons.IH [OF this _ Cons.prems(3,4)] Cons.prems(2) show ?thesis
      using v False by (simp add: Let_def)
  next
    case True
    let ?b = "bits_at ?acc (m - 2) 256"
    obtain bs' where r: "bytes_of (map (\<lambda>c. char_to_index d ! code c) xs) ?acc (m - 2) = (bs', a, k)"
      and bs: "bs = ?b # bs'"
      using Cons.prems(1) True by (auto simp: Let_def split: prod.splits)
    have step: "decode_chars d ((c # xs) @ rest) acc m dest i =
        (if i < length dest then decode_chars d (xs @ rest) ?acc (m - 2) (dest[i := char_of ?b]) (Suc i) else None)"
      using v True by (simp add: Let_def put_def)
    show ?thesis
    proof (cases "i < length dest")
      case True
      with Cons.IH [OF r _ Cons.prems(3), of "Suc i" "dest[i := char_of ?b]"] Cons.prems(2)
      show ?thesis unfolding step bs by (auto simp: blit_put)
    next
      case False
      then show ?thesis unfolding step bs by simp
    qed
  qed
qed

lemma check_padding_iff:
  "check_padding pad n j left = Inr () \<longleftrightarrow> set left \<subseteq> {pad} \<and> j + length left = n"
  by (induction pad n j left rule: check_padding.induct) auto

section \<open>Sizes\<close>

lemma fill_add: "fill (3 * q + r) = (6 - 8 * r mod 6) mod 6"
proof -
  have "8 * (3 * q + r) = 8 * r + 6 * (4 * q)" by simp
  then have "8 * (3 * q + r) mod 6 = 8 * r mod 6" by (metis mod_mult_self2)
  then show ?thesis by (simp only: fill_def)
qed

lemma size_cases:
  obtains q where "n = 3 * q" "fill n = 0" | q where "n = Suc (3 * q)" "fill n = 4"
  | q where "n = Suc (Suc (3 * q))" "fill n = 2"
proof -
  have "\<exists>q. n = 3 * q \<or> n = Suc (3 * q) \<or> n = Suc (Suc (3 * q))" by presburger
  then obtain q where q: "n = 3 * q \<or> n = Suc (3 * q) \<or> n = Suc (Suc (3 * q))" ..
  have "fill (3 * q) = 0" "fill (Suc (3 * q)) = 4" "fill (Suc (Suc (3 * q))) = 2"
    using fill_add [of q 0] fill_add [of q 1] fill_add [of q 2] by (simp_all add: numeral_2_eq_2)
  then show thesis using q that by metis
qed

lemma thirds [simp]:
  "Suc (3 * q) div 3 = q" "Suc (Suc (3 * q)) div 3 = q"
  "Suc (3 * q) mod 3 = 1" "Suc (Suc (3 * q)) mod 3 = 2"
  "div_ceil (3 * q) 3 = q" "div_ceil (Suc (3 * q)) 3 = Suc q" "div_ceil (Suc (Suc (3 * q))) 3 = Suc q"
  unfolding div_ceil_def by presburger+

text \<open>The encoder computes the exact size, with as many pad characters as there are pairs of fill bits.\<close>

lemma calc_size_pad:
  "encoder_calc_size (encoder_init al (Some c)) (length src) = length (enc_digits src) + fill (length src) div 2"
  using enc_digits_value(2) [of src]
  by (cases "length src" rule: size_cases) (simp_all add: encoder_calc_size_def encoder_init_def)

lemma calc_size_no_pad:
  "encoder_calc_size (encoder_init al None) (length src) = length (enc_digits src)"
  using enc_digits_value(2) [of src]
  by (cases "length src" rule: size_cases)
    (simp_all add: encoder_calc_size_def encoder_init_def Let_def div_ceil_def)

section \<open>Text of a byte string\<close>

text \<open>The encoder run on a buffer of the computed size.\<close>

definition encoded :: "base64_encoder \<Rightarrow> bytes \<Rightarrow> bytes option" where
  "encoded e src =
     map_option fst (base64_encode e (replicate (encoder_calc_size e (length src)) (CHR 0x00)) src)"

definition padding :: "byte option \<Rightarrow> bytes \<Rightarrow> bytes" where
  "padding p src = (case p of None \<Rightarrow> [] | Some c \<Rightarrow> replicate (fill (length src) div 2) c)"

lemma calc_size_eq:
  "encoder_calc_size (encoder_init al p) (length src) = length (enc_digits src) + length (padding p src)"
  by (cases p) (simp_all add: calc_size_pad calc_size_no_pad padding_def)

lemma base64_encode_eq:
  assumes "encoder_calc_size (encoder_init al p) (length src) \<le> length dest"
  shows "base64_encode (encoder_init al p) dest src =
    Some (map (\<lambda>d. al ! d) (enc_digits src) @ padding p src,
          blit dest 0 (map (\<lambda>d. al ! d) (enc_digits src) @ padding p src))"
proof -
  let ?t = "map (\<lambda>d. al ! d) (enc_digits src)"
  have len: "length (enc_digits src) + length (padding p src) \<le> length dest"
    using assms by (simp add: calc_size_eq)
  have al: "enc_alphabet (encoder_init al p) = al" "enc_pad (encoder_init al p) = p"
    by (simp_all add: encoder_init_def)
  have w: "encode_without_size_check (encoder_init al p) dest src = Some (length (enc_digits src), blit dest 0 ?t)"
    using encode_without_size_check_eq [of src dest "encoder_init al p"] len al by simp
  have "blit (blit dest 0 ?t) (length (enc_digits src)) (padding p src) = blit dest 0 (?t @ padding p src)"
    using blit_blit [of 0 ?t "padding p src" dest] len by simp
  then show ?thesis
    using w len al by (cases p) (auto simp: base64_encode_def Let_def calc_size_eq padding_def blit_def)
qed

lemma encoded_eq: "encoded (encoder_init al p) src = Some (map (\<lambda>d. al ! d) (enc_digits src) @ padding p src)"
  by (simp add: encoded_def base64_encode_eq)

section \<open>Decoding\<close>

text \<open>A source split into its digits and the rest.\<close>

abbreviation std_decoder :: "byte option \<Rightarrow> base64_decoder" where
  "std_decoder p \<equiv> decoder_init STANDARD_ALPHABET_CHARS p"

abbreviation std_encoder :: "byte option \<Rightarrow> base64_encoder" where
  "std_encoder p \<equiv> encoder_init STANDARD_ALPHABET_CHARS p"

lemma std_decoder_sel: "char_to_index (std_decoder p) = alphabet_table STANDARD_ALPHABET_CHARS" "dec_pad (std_decoder p) = p"
  by (simp_all add: decoder_init_def alphabet_table_def)

definition is_digit_char :: "byte \<Rightarrow> bool" where
  "is_digit_char c \<longleftrightarrow> alphabet_table STANDARD_ALPHABET_CHARS ! code c \<noteq> INVALID_CHAR"

lemma decode_chars_std:
  assumes "bytes_of (map (\<lambda>c. alphabet_table STANDARD_ALPHABET_CHARS ! code c) (takeWhile is_digit_char s)) 0 0 = (bs, a, k)"
  shows "decode_chars (std_decoder p) s 0 0 dest 0 =
    (if length bs \<le> length dest
     then Some (after_digits (std_decoder p) a k (blit dest 0 (map char_of bs)) (dropWhile is_digit_char s)) else None)"
proof -
  have "\<forall>c\<in>set (takeWhile is_digit_char s). alphabet_table STANDARD_ALPHABET_CHARS ! code c \<noteq> INVALID_CHAR"
    using set_takeWhileD by (fastforce simp: is_digit_char_def)
  moreover have "dropWhile is_digit_char s = [] \<or> alphabet_table STANDARD_ALPHABET_CHARS ! code (hd (dropWhile is_digit_char s)) = INVALID_CHAR"
    using hd_dropWhile [of is_digit_char s] by (auto simp: is_digit_char_def)
  ultimately show ?thesis
    using decode_chars_eq [of "std_decoder p" "takeWhile is_digit_char s" 0 0 bs a k "dropWhile is_digit_char s" 0 dest]
      assms by (simp add: std_decoder_sel)
qed

lemma takeWhile_bytes:
  assumes "bytes_of (map (\<lambda>c. alphabet_table STANDARD_ALPHABET_CHARS ! code c) (takeWhile is_digit_char s)) 0 0 = (bs, a, k)"
  shows "8 * length bs + k = 6 * length (takeWhile is_digit_char s)"
    and "k \<le> 4 \<and> a mod 2 ^ k = 0 \<longleftrightarrow>
      takeWhile is_digit_char s = map (\<lambda>d. STANDARD_ALPHABET_CHARS ! d) (enc_digits (map char_of bs))"
    and "\<forall>b\<in>set bs. b < 256" and "k < 8"
proof -
  let ?xs = "takeWhile is_digit_char s" and ?ds = "map (\<lambda>c. alphabet_table STANDARD_ALPHABET_CHARS ! code c) (takeWhile is_digit_char s)"
  have valid: "\<forall>c\<in>set ?xs. alphabet_table STANDARD_ALPHABET_CHARS ! code c \<noteq> INVALID_CHAR"
    using set_takeWhileD by (fastforce simp: is_digit_char_def)
  then have ds: "\<forall>d\<in>set ?ds. d < 64" using std.table_inverse by auto
  show "8 * length bs + k = 6 * length ?xs" "\<forall>b\<in>set bs. b < 256" "k < 8"
    using bytes_of_value [OF assms _ ds] by simp_all
  have "?ds = enc_digits (map char_of bs) \<longleftrightarrow>
      ?xs = map (\<lambda>d. STANDARD_ALPHABET_CHARS ! d) (enc_digits (map char_of bs))"
    using std.map_alphabet [OF valid] std.map_table [OF enc_digits_value(3)] by metis
  then show "k \<le> 4 \<and> a mod 2 ^ k = 0 \<longleftrightarrow>
      ?xs = map (\<lambda>d. STANDARD_ALPHABET_CHARS ! d) (enc_digits (map char_of bs))"
    using bytes_of_digits [OF assms ds] by simp
qed

lemma takeWhile_before:
  assumes "0 < k" and "k \<le> length s" and "\<not> P (s ! (length s - k))"
  shows "length (takeWhile P s) + k \<le> length s"
proof (rule ccontr)
  assume "\<not> ?thesis"
  then have "length s - k < length (takeWhile P s)" using assms(2) by linarith
  then show False using assms(3) by (metis nth_mem set_takeWhileD takeWhile_nth)
qed

lemma pad_no_digit: "\<not> is_digit_char (CHR ''='')"
  using std.table_digit [of "CHR ''=''"] by (simp add: is_digit_char_def STANDARD_ALPHABET_CHARS_def)

lemma calc_size_enough:
  assumes "calc_size_for_slice (std_decoder p) s = Some (Inr n)" and "p \<in> {None, Some (CHR ''='')}"
    and "8 * b \<le> 6 * length (takeWhile is_digit_char s)"
  shows "b \<le> n"
proof (cases p)
  case None
  have n: "n = length s div 4 * 3 + length s mod 4 * 3 div 4"
    using assms(1) None by (auto simp: calc_size_for_slice_def calc_size_upper_bound_def std_decoder_sel Let_def
        split: if_splits)
  have "8 * b \<le> 6 * length s" using assms(3) length_takeWhile_le [of is_digit_char s] by linarith
  moreover define q r where "q = length s div 4" and "r = length s mod 4"
  ultimately have "8 * b \<le> 6 * (4 * q + r)" by (simp add: mult_div_mod_eq)
  moreover have "r = 0 \<or> r = 1 \<or> r = 2 \<or> r = 3" unfolding r_def by linarith
  ultimately show ?thesis unfolding n q_def [symmetric] r_def [symmetric] by auto
next
  case (Some c)
  then have c: "c = CHR ''=''" using assms(2) by simp
  let ?L = "length (takeWhile is_digit_char s)" and ?S = "length s"
  let ?d1 = "1 \<le> ?S \<and> s ! (?S - 1) = c" and ?d2 = "2 \<le> ?S \<and> s ! (?S - 2) = c"
  have 4: "?S mod 4 = 0" and n: "n = ?S div 4 * 3 - ((if ?d1 then 1 else 0) + (if ?d2 then 1 else 0))"
    using assms(1) Some by (auto simp: calc_size_for_slice_def calc_size_upper_bound_def std_decoder_sel Let_def
        split: if_splits)
  have L: "?L \<le> ?S" "?d1 \<Longrightarrow> ?L + 1 \<le> ?S" "?d2 \<Longrightarrow> ?L + 2 \<le> ?S"
    using length_takeWhile_le [of is_digit_char s] takeWhile_before [of 1 s is_digit_char]
      takeWhile_before [of 2 s is_digit_char] pad_no_digit c by auto
  obtain q where q: "?S = 4 * q" using 4 by (metis mod_0_imp_dvd dvdE)
  have "b \<le> 3 * q - ((if ?d1 then 1 else 0) + (if ?d2 then 1 else 0))"
    using assms(3) L q by (cases ?d1; cases ?d2) auto
  then show ?thesis using n q by simp
qed

lemma decode_within:
  assumes "calc_size_for_slice (decoder_init STANDARD_ALPHABET_CHARS p) s = Some (Inr n)"
    and "n \<le> length dest" and "p \<in> {None, Some (CHR ''='')}"
  shows "base64_decode (decoder_init STANDARD_ALPHABET_CHARS p) dest s \<noteq> None"
proof -
  obtain bs a k where r: "bytes_of (map (\<lambda>c. alphabet_table STANDARD_ALPHABET_CHARS ! code c) (takeWhile is_digit_char s)) 0 0 = (bs, a, k)"
    by (metis prod_cases3)
  have len: "8 * length bs + k = 6 * length (takeWhile is_digit_char s)" using takeWhile_bytes(1) [OF r] .
  have "length bs \<le> n" using calc_size_enough [OF assms(1,3)] len by simp
  then have "decode_chars (std_decoder p) s 0 0 dest 0 \<noteq> None"
    using decode_chars_std [OF r] assms(2) by simp
  then show ?thesis by (auto simp: base64_decode_def std_decoder_sel split: sum.splits option.splits)
qed

text \<open>
  C13. For a source of any bytes and a destination of at least the size that \<open>calc_size_for_slice\<close>
  computes, the strict decoder writes only inside the destination: its writes are unchecked
  (\<open>get_unchecked_mut\<close>), so this is the memory safety of the decoder.  It holds for the padded and the
  unpadded codec, also where the source has wrong characters or padding in the middle.
\<close>

theorem base64_decode_in_bounds:
  assumes "calc_size_for_slice (decoder_init STANDARD_ALPHABET_CHARS p) s = Some (Inr n)"
    and "n \<le> length dest" and "p \<in> {None, Some (CHR ''='')}"
  shows "base64_decode (decoder_init STANDARD_ALPHABET_CHARS p) dest s \<noteq> None"
  using assms by (rule decode_within)

lemma calc_size_never_panics: "calc_size_for_slice (std_decoder p) s \<noteq> None"
proof (cases "length s = 0")
  case False
  have "2 \<le> length s div 4 * 3" if "length s mod 4 = 0"
  proof -
    from that False obtain q where "length s = 4 * q" "0 < q" by fastforce
    then show ?thesis by simp
  qed
  then show ?thesis
    by (cases "length s mod 4 = 0") (auto simp: calc_size_for_slice_def calc_size_upper_bound_def
        std_decoder_sel Let_def split: option.splits)
qed (auto simp: calc_size_for_slice_def calc_size_upper_bound_def std_decoder_sel split: option.splits)

section \<open>The decoder inverts the encoder\<close>

definition std_text :: "byte option \<Rightarrow> bytes \<Rightarrow> bytes" where
  "std_text p src = map (\<lambda>d. STANDARD_ALPHABET_CHARS ! d) (enc_digits src) @ padding p src"

lemma alphabet_is_digit: "d < 64 \<Longrightarrow> is_digit_char (STANDARD_ALPHABET_CHARS ! d)"
  using std.table_nth [of d] by (simp add: is_digit_char_def INVALID_CHAR_def)

lemma split_text:
  assumes "p \<in> {None, Some (CHR ''='')}"
  shows "takeWhile is_digit_char (std_text p src) = map (\<lambda>d. STANDARD_ALPHABET_CHARS ! d) (enc_digits src)"
    and "dropWhile is_digit_char (std_text p src) = padding p src"
proof -
  have "\<forall>c\<in>set (map (\<lambda>d. STANDARD_ALPHABET_CHARS ! d) (enc_digits src)). is_digit_char c"
    using enc_digits_value(3) alphabet_is_digit by auto
  moreover have "padding p src = [] \<or> \<not> is_digit_char (hd (padding p src))"
    using assms pad_no_digit by (cases "fill (length src) div 2") (auto simp: padding_def)
  ultimately show "takeWhile is_digit_char (std_text p src) = map (\<lambda>d. STANDARD_ALPHABET_CHARS ! d) (enc_digits src)"
    "dropWhile is_digit_char (std_text p src) = padding p src"
    unfolding std_text_def by (simp_all add: takeWhile_append_stop dropWhile_append_stop)
qed

lemma length_text_pad: "length (std_text (Some c) src) mod 4 = 0"
proof -
  have "length (std_text (Some c) src) = encoder_calc_size (std_encoder (Some c)) (length src)"
    by (simp add: calc_size_eq std_text_def)
  then show ?thesis by (simp add: encoder_calc_size_def encoder_init_def)
qed

text \<open>Decoding a text writes its bytes to the front of the destination.\<close>

lemma decode_text:
  assumes "p \<in> {None, Some (CHR ''='')}" and "length src \<le> length dest"
  shows "base64_decode (std_decoder p) dest (std_text p src) = Some (Inr (blit dest 0 src))"
proof -
  obtain a k where r: "bytes_of (enc_digits src) 0 0 = (map code src, a, k)" "k \<le> 4" "a mod 2 ^ k = 0"
    "k = fill (length src)" by (rule bytes_of_enc_digits)
  have "map char_of (map code src) = src" by (simp add: code_def map_idI)
  moreover have "bytes_of (map (\<lambda>c. alphabet_table STANDARD_ALPHABET_CHARS ! code c)
      (takeWhile is_digit_char (std_text p src))) 0 0 = (map code src, a, k)"
    using r(1) std.map_table [OF enc_digits_value(3)] by (simp add: split_text [OF assms(1)])
  ultimately have d: "decode_chars (std_decoder p) (std_text p src) 0 0 dest 0 =
      Some (after_digits (std_decoder p) a k (blit dest 0 src) (padding p src))"
    using decode_chars_std assms(2) by (simp add: split_text [OF assms(1)])
  show ?thesis
  proof (cases p)
    case None
    then show ?thesis
      using d r by (simp add: base64_decode_def std_decoder_sel after_digits_def padding_def)
  next
    case (Some c)
    have "check_padding c (k div 2) 0 (padding p src) = Inr ()"
      using Some r(4) by (auto simp: check_padding_iff padding_def)
    then show ?thesis
      using d r Some length_text_pad [of c src]
      by (cases "fill (length src) div 2")
        (auto simp: base64_decode_def std_decoder_sel after_digits_def padding_def split: list.splits)
  qed
qed

lemma map_sum_eq_Inr: "map_sum f g x = Inr y \<longleftrightarrow> (\<exists>z. x = Inr z \<and> y = g z)"
  by (cases x) auto

text \<open>Nothing but the texts is accepted.\<close>

lemma decode_accepts_text:
  assumes p: "p \<in> {None, Some (CHR ''='')}" and dec: "base64_decode (std_decoder p) dest s = Some (Inr res)"
  obtains src where "s = std_text p src" and "length src \<le> length dest" and "res = blit dest 0 src"
proof -
  let ?xs = "takeWhile is_digit_char s" and ?rest = "dropWhile is_digit_char s"
  obtain bs a k where r: "bytes_of (map (\<lambda>c. alphabet_table STANDARD_ALPHABET_CHARS ! code c) ?xs) 0 0 = (bs, a, k)"
    by (metis prod_cases3)
  define src where "src = map char_of bs"
  have chars: "length bs \<le> length dest"
    "decode_chars (std_decoder p) s 0 0 dest 0 = Some (after_digits (std_decoder p) a k (blit dest 0 src) ?rest)"
    using dec decode_chars_std [OF r, of p dest]
    by (auto simp: base64_decode_def src_def split: if_splits)
  have k: "k \<le> 4" "a mod 2 ^ k = 0" and res: "res = blit dest 0 src"
    using dec chars(2) by (auto simp: base64_decode_def after_digits_def not_less map_sum_eq_Inr split: if_splits list.splits option.splits sum.splits)
  then have xs: "?xs = map (\<lambda>d. STANDARD_ALPHABET_CHARS ! d) (enc_digits src)"
    using takeWhile_bytes(2) [OF r] by (simp add: src_def)
  have fill: "k = fill (length src)"
    using fill_unique [of "length ?xs" "length src" k] takeWhile_bytes(1) [OF r] k(1) by (simp add: src_def)
  have "?rest = padding p src"
  proof (cases ?rest)
    case Nil
    then have "?xs = s" by (metis append_Nil2 takeWhile_dropWhile_id)
    then have eq: "8 * length bs + k = 6 * length s" using takeWhile_bytes(1) [OF r] by (simp only:)
    have "k div 2 = 0" if "p \<noteq> None"
    proof -
      have "length s mod 4 = 0"
        using dec that by (auto simp: base64_decode_def std_decoder_sel split: if_splits)
      with eq k(1) show ?thesis by presburger
    qed
    then show ?thesis using Nil fill by (cases p) (auto simp: padding_def)
  next
    case (Cons c cs)
    then have "p = Some c" "check_padding c (k div 2) 0 ?rest = Inr ()"
      using dec chars(2) k by (auto simp: base64_decode_def after_digits_def std_decoder_sel map_sum_eq_Inr
          split: if_splits sum.splits option.splits)
    then show ?thesis
      using fill by (auto simp: padding_def check_padding_iff intro!: replicate_eqI)
  qed
  then have "s = std_text p src" using xs by (metis std_text_def takeWhile_dropWhile_id)
  then show thesis using that chars(1) res by (simp add: src_def)
qed

lemma size_of_digits:
  assumes "6 * l = 8 * n + fill n"
  shows "l mod 4 \<noteq> 1 \<and> l div 4 * 3 + l mod 4 * 3 div 4 = n"
proof (cases n rule: size_cases)
  case (1 q)
  then have "l = 4 * q" using assms by linarith
  then show ?thesis using 1 by simp
next
  case (2 q)
  then have "l = 4 * q + 2" using assms by linarith
  then have "l div 4 = q" "l mod 4 = 2" by presburger+
  then show ?thesis using 2 by simp
next
  case (3 q)
  then have "l = 4 * q + 3" using assms by linarith
  then show ?thesis using 3 by simp
qed

lemma calc_size_text:
  assumes "p \<in> {None, Some (CHR ''='')}"
  shows "calc_size_for_slice (std_decoder p) (std_text p src) = Some (Inr (length src))"
proof -
  let ?ds = "map (\<lambda>d. STANDARD_ALPHABET_CHARS ! d) (enc_digits src)" and ?j = "fill (length src) div 2"
  have e: "6 * length (enc_digits src) = 8 * length src + fill (length src)" by (rule enc_digits_value(2))
  show ?thesis
  proof (cases p)
    case None
    then show ?thesis
      using size_of_digits [OF e]
      by (simp add: calc_size_for_slice_def calc_size_upper_bound_def std_decoder_sel Let_def std_text_def padding_def)
  next
    case (Some c)
    then have c: "c = CHR ''=''" using assms by simp
    then have t: "std_text p src = ?ds @ replicate ?j c" using Some by (simp add: std_text_def padding_def)
    have S: "length (std_text p src) = 4 * div_ceil (length src) 3"
      using calc_size_eq [of STANDARD_ALPHABET_CHARS p src] Some
      by (simp add: std_text_def encoder_calc_size_def encoder_init_def)
    have digit: "?ds ! i \<noteq> c" if "i < length ?ds" for i
      using that enc_digits_value(3) [of src] alphabet_is_digit pad_no_digit c by (metis length_map nth_map nth_mem)
    have last: "0 < i \<Longrightarrow> i \<le> length (std_text p src) \<Longrightarrow>
        std_text p src ! (length (std_text p src) - i) = c \<longleftrightarrow> i \<le> ?j" for i
      using digit [of "length ?ds + ?j - i"] by (auto simp: t nth_append)
    show ?thesis
      using S last [of 1] last [of 2] Some
      by (cases "length src" rule: size_cases)
        (auto simp: calc_size_for_slice_def calc_size_upper_bound_def std_decoder_sel Let_def)
  qed
qed

text \<open>
  C12. A destination of the computed size receives bytes from the strict decoder exactly when the
  source is the encoding of these bytes.  So decoding inverts encoding, and a text that is not the
  canonical encoding (wrong characters, wrong padding, non-zero fill bits) is refused.
\<close>

theorem base64_decode_iff_encoded:
  assumes "p \<in> {None, Some (CHR ''='')}"
    and "calc_size_for_slice (decoder_init STANDARD_ALPHABET_CHARS p) s = Some (Inr (length dest))"
  shows "base64_decode (decoder_init STANDARD_ALPHABET_CHARS p) dest s = Some (Inr res) \<longleftrightarrow>
    encoded (encoder_init STANDARD_ALPHABET_CHARS p) res = Some s"
proof
  assume "base64_decode (std_decoder p) dest s = Some (Inr res)"
  then obtain src where src: "s = std_text p src" "length src \<le> length dest" "res = blit dest 0 src"
    by (rule decode_accepts_text [OF assms(1)])
  then have "length src = length dest" using assms calc_size_text [OF assms(1)] by simp
  then show "encoded (std_encoder p) res = Some s"
    using src by (simp add: encoded_eq std_text_def blit_full)
next
  assume "encoded (std_encoder p) res = Some s"
  then have s: "s = std_text p res" by (simp add: encoded_eq std_text_def)
  then have "length res = length dest" using assms calc_size_text [OF assms(1)] by simp
  then show "base64_decode (std_decoder p) dest s = Some (Inr res)"
    using decode_text [OF assms(1), of res dest] by (simp add: s blit_full)
qed

theorem base64_decode_iff_encoded_witness:
  "base64_decode STANDARD_decoder (replicate 5 (CHR 0x00)) ''Zm9vYmE='' = Some (Inr ''fooba'')
   \<longleftrightarrow> encoded STANDARD_encoder ''fooba'' = Some ''Zm9vYmE=''"
  unfolding STANDARD_decoder_def STANDARD_encoder_def
proof (rule base64_decode_iff_encoded)
  show "calc_size_for_slice (std_decoder (Some CHR ''='')) ''Zm9vYmE='' = Some (Inr (length (replicate 5 CHR 0x00)))"
    by (simp add: calc_size_for_slice_def calc_size_upper_bound_def std_decoder_sel)
qed simp

theorem base64_decode_in_bounds_witness:
  "base64_decode (decoder_init STANDARD_ALPHABET_CHARS (Some (CHR ''=''))) (replicate 4 (CHR 0x00)) ''A=B?CC=='' \<noteq> None"
  by (rule base64_decode_in_bounds [where n = 4])
    (simp_all add: calc_size_for_slice_def calc_size_upper_bound_def std_decoder_sel)

end
