(* ===== verification/Vlq.thy ===== *)
theory Vlq
  imports Base64_Codec
begin

unbundle bit_operations_syntax

text \<open>
  Variable-length quantities of source maps (\<open>vlq\<close> in \<^verbatim>\<open>src/src/base64/lib.rs\<close>): a 32-bit value in
  sign-magnitude form, five bits a digit, the least significant first.  The values are 32-bit words
  read as signed integers.
\<close>

section \<open>The code\<close>

definition VLQ_MAX_IN_BYTES :: nat where
  "VLQ_MAX_IN_BYTES = 7"

record vlq =
  vlq_bytes :: bytes
  vlq_len :: nat

definition vlq_slice :: "vlq \<Rightarrow> bytes" where
  "vlq_slice v = take (vlq_len v) (vlq_bytes v)"

text \<open>Sign and magnitude of the value: \<open>value << 1\<close>, or \<open>(value.unsigned_abs() << 1) | 1\<close>.\<close>

definition sign_magnitude :: "32 word \<Rightarrow> u32" where
  "sign_magnitude value =
     (if 0 \<le> sint value then push_bit 1 value else push_bit 1 (- value) OR 1)"

text \<open>The loop runs at most seven times; \<open>bytes\<close> starts as seven zero bytes.\<close>

fun encode_loop :: "nat \<Rightarrow> u32 \<Rightarrow> bytes \<Rightarrow> nat \<Rightarrow> vlq" where
  "encode_loop 0 v bs len = \<lparr>vlq_bytes = bs, vlq_len = 0\<rparr>"
| "encode_loop (Suc rounds) v bs len =
     (let digit = v AND 31; v = drop_bit 5 v;
          digit = (if v \<noteq> 0 then digit OR 32 else digit);
          bs = bs[len := STANDARD_ALPHABET_CHARS ! unat digit]
      in if v = 0 then \<lparr>vlq_bytes = bs, vlq_len = len + 1\<rparr> else encode_loop rounds v bs (len + 1))"

definition encode_slow_path :: "32 word \<Rightarrow> vlq" where
  "encode_slow_path value =
     encode_loop VLQ_MAX_IN_BYTES (sign_magnitude value) (replicate VLQ_MAX_IN_BYTES (CHR 0x00)) 0"

definition VLQ_LOOKUP_TABLE :: "vlq list" where
  "VLQ_LOOKUP_TABLE = map (\<lambda>j. encode_slow_path (word_of_nat j)) [0..<256]"

definition vlq_encode :: "32 word \<Rightarrow> vlq" where
  "vlq_encode value =
     (if 0 \<le> sint value \<and> sint value \<le> 255 then VLQ_LOOKUP_TABLE ! unat value else encode_slow_path value)"

text \<open>The table of seven-bit characters, 127 where there is no digit.\<close>

definition BASE64_LUT :: "nat list" where
  "BASE64_LUT = index_loop STANDARD_ALPHABET_CHARS 0 (replicate 128 127)"

record vlq_result =
  vr_value :: "32 word"
  vr_start :: nat

definition vlq_value :: "u32 \<Rightarrow> 32 word" where
  "vlq_value v = (if v AND 1 = 0 then drop_bit 1 v else - drop_bit 1 v)"

fun vlq_decode_loop :: "bytes \<Rightarrow> nat \<Rightarrow> nat \<Rightarrow> u32 \<Rightarrow> nat \<Rightarrow> vlq_result option" where
  "vlq_decode_loop [] i shift v start = None"
| "vlq_decode_loop (c # cs) i shift v start =
     (let index = (word_of_nat (BASE64_LUT ! (code c mod 128)) :: u32);
          v = v OR push_bit (shift mod 32) (index AND 31)
      in if index AND 32 = 0 then Some \<lparr>vr_value = vlq_value v, vr_start = start + i + 1\<rparr>
         else vlq_decode_loop cs (i + 1) (shift + 5) v start)"

text \<open>\<open>None\<close> is the panic of the slice behind the end of the text.\<close>

definition vlq_decode :: "bytes \<Rightarrow> nat \<Rightarrow> vlq_result option" where
  "vlq_decode text start =
     (if length text < start then None
      else Some (case vlq_decode_loop (take (VLQ_MAX_IN_BYTES + 1) (drop start text)) 0 0 0 start of
                   Some r \<Rightarrow> r
                 | None \<Rightarrow> \<lparr>vr_value = 0, vr_start = start\<rparr>))"

section \<open>Sign and magnitude\<close>

lemma top_bit_iff: "bit (w :: 32 word) 31 \<longleftrightarrow> 2 ^ 31 \<le> unat w"
proof -
  have u: "unat w < 2 ^ 32" using unat_lt [of w] by simp
  have "bit w 31 \<longleftrightarrow> bit (unat w) 31" by (simp add: bit_unsigned_iff)
  also have "\<dots> \<longleftrightarrow> odd (unat w div 2 ^ 31)" by (rule bit_iff_odd)
  also have "\<dots> \<longleftrightarrow> 2 ^ 31 \<le> unat w"
  proof (cases "2 ^ 31 \<le> unat w")
    case True
    then have "unat w div 2 ^ 31 = 1" using u by (intro div_nat_eqI) simp_all
    then show ?thesis using True by simp
  qed simp
  finally show ?thesis .
qed

lemma sint_nonneg_iff: "0 \<le> sint (w :: 32 word) \<longleftrightarrow> \<not> bit w 31"
  using bit_last_iff [of w] by (simp add: not_less)

lemma bit_push_1: "bit (push_bit 1 (w :: 32 word)) (Suc n) \<longleftrightarrow> Suc n < 32 \<and> bit w n"
  by (simp only: bit_push_bit_iff possible_bit_word) simp

lemma shift_back:
  assumes "\<not> bit (w :: 32 word) 31"
  shows "drop_bit 1 (push_bit 1 w) = w" and "drop_bit 1 (push_bit 1 w OR 1) = w"
proof -
  have keep: "Suc n < 32 \<and> bit w n \<longleftrightarrow> bit w n" for n
  proof
    assume "bit w n"
    then have "n < 32" "n \<noteq> 31" using assms bit_imp_le_length [of w n] by auto
    then show "Suc n < 32 \<and> bit w n" using \<open>bit w n\<close> by simp
  qed simp
  show "drop_bit 1 (push_bit 1 w) = w"
    by (rule bit_eqI) (simp only: bit_drop_bit_eq comp_def plus_1_eq_Suc bit_push_1 keep)
  show "drop_bit 1 (push_bit 1 w OR 1) = w"
    by (rule bit_eqI)
      (simp only: bit_drop_bit_eq comp_def plus_1_eq_Suc bit_or_iff bit_push_1 keep bit_1_iff, simp)
qed

lemma and_1: "(x :: u32) AND 1 = of_bool (odd x)"
  by (simp add: and_one_eq mod_2_eq_odd)

lemma vlq_value_sign_magnitude:
  "vlq_value (sign_magnitude v) = (if v = 2 ^ 31 then 0 else v)"
proof (cases "bit v 31")
  case False
  then have "v \<noteq> 2 ^ 31" by (auto simp: bit_exp_iff)
  then show ?thesis
    using False shift_back(1) [OF False]
    by (simp add: vlq_value_def sign_magnitude_def sint_nonneg_iff and_1 even_push_bit_iff del: push_bit_of_1)
next
  case top: True
  have neg: "sign_magnitude v = push_bit 1 (- v) OR 1"
    using top by (simp add: sign_magnitude_def sint_nonneg_iff)
  show ?thesis
  proof (cases "v = 2 ^ 31")
    case True
    have "push_bit 1 (- (2 ^ 31)) = (0 :: u32)" by code_simp
    moreover have "sign_magnitude v = push_bit 1 (- (2 ^ 31)) OR 1" using neg by (simp only: True)
    ultimately have "sign_magnitude v = 1" by (simp only: or.left_neutral)
    then show ?thesis using True by (simp add: vlq_value_def)
  next
    case False
    have "unat v \<noteq> 2 ^ 31"
    proof
      assume "unat v = 2 ^ 31"
      then have "unat v = unat (2 ^ 31 :: 32 word)" by simp
      then show False using False by (simp only: word_unat_eq_iff)
    qed
    then have "2 ^ 31 < unat v" using top by (simp add: top_bit_iff)
    then have "unat (- v) < 2 ^ 31" using unat_sub_if' [of 0 v] by simp
    then have "\<not> bit (- v) 31" by (simp add: top_bit_iff)
    then have "drop_bit 1 (sign_magnitude v) = - v" unfolding neg by (rule shift_back(2))
    moreover have "sign_magnitude v AND 1 \<noteq> 0" unfolding neg and_1 by (simp add: even_or_iff)
    ultimately show ?thesis using False by (simp add: vlq_value_def)
  qed
qed

section \<open>Digits\<close>

fun vlq_digits :: "nat \<Rightarrow> u32 \<Rightarrow> bytes" where
  "vlq_digits 0 v = []"
| "vlq_digits (Suc r) v =
     (let d = v AND 31; v' = drop_bit 5 v in
      if v' = 0 then [STANDARD_ALPHABET_CHARS ! unat d]
      else STANDARD_ALPHABET_CHARS ! unat (d OR 32) # vlq_digits r v')"

lemma encode_loop_digits:
  assumes "drop_bit (5 * r) v = 0" and "len + r \<le> length bs" and "0 < r"
  shows "vlq_slice (encode_loop r v bs len) = take len bs @ vlq_digits r v"
    and "vlq_len (encode_loop r v bs len) = len + length (vlq_digits r v)"
  using assms
proof (induction r arbitrary: v bs len)
  case (Suc r)
  {
    case 1
    show ?case
    proof (cases "drop_bit 5 v = 0")
      case True
      then show ?thesis using 1 by (simp add: vlq_slice_def take_Suc_conv_app_nth)
    next
      case False
      then have "0 < r" using 1(1) by (cases r) auto
      moreover have "drop_bit (5 * r) (drop_bit 5 v) = 0" using 1(1) by (simp add: drop_bit_drop_bit algebra_simps)
      ultimately show ?thesis using False Suc.IH(1) 1(2) by (simp add: take_Suc_conv_app_nth)
    qed
  next
    case 2
    show ?case
    proof (cases "drop_bit 5 v = 0")
      case False
      then have "0 < r" using 2(1) by (cases r) auto
      moreover have "drop_bit (5 * r) (drop_bit 5 v) = 0" using 2(1) by (simp add: drop_bit_drop_bit algebra_simps)
      ultimately show ?thesis using False Suc.IH(2) 2(2) by simp
    qed simp
  }
qed simp_all

lemma length_vlq_digits: "length (vlq_digits r v) \<le> r"
  by (induction r arbitrary: v) (simp_all add: Let_def)

lemma alphabet_ascii: "\<forall>c\<in>set STANDARD_ALPHABET_CHARS. code c < 128"
proof -
  have "list_all (\<lambda>c. code c < 128) STANDARD_ALPHABET_CHARS" by code_simp
  then show ?thesis by (simp add: list_all_iff)
qed

lemma lut_inverse:
  assumes "d < 64"
  shows "BASE64_LUT ! (code (STANDARD_ALPHABET_CHARS ! d) mod 128) = d"
proof -
  have "STANDARD_ALPHABET_CHARS ! d \<in> set STANDARD_ALPHABET_CHARS"
    using assms std.length_alphabet by simp
  then have "code (STANDARD_ALPHABET_CHARS ! d) < 128" using alphabet_ascii by blast
  then show ?thesis
    using index_loop_nth [OF std.distinct_alphabet, of "replicate 128 127" d 0] alphabet_ascii assms
      std.length_alphabet by (simp add: BASE64_LUT_def)
qed

lemma digit_word:
  fixes v :: u32
  shows "word_of_nat (BASE64_LUT ! (code (STANDARD_ALPHABET_CHARS ! unat (v AND 31)) mod 128)) = v AND 31"
    and "word_of_nat (BASE64_LUT ! (code (STANDARD_ALPHABET_CHARS ! unat (v AND 31 OR 32)) mod 128)) = v AND 31 OR 32"
proof -
  have m: "v AND 31 = take_bit 5 v" by (simp add: take_bit_eq_mask mask_eq_exp_minus_1)
  have "unat (v AND 31) < 2 ^ 5" unfolding m unsigned_take_bit_eq by (rule take_bit_nat_less_exp)
  moreover have "unat (v AND 31 OR 32) < 2 ^ 6"
  proof -
    have "take_bit 6 (v AND 31 OR 32) = take_bit 6 (v AND 31) OR take_bit 6 32" by (rule take_bit_or)
    also have "take_bit 6 (v AND 31) = v AND 31" unfolding m by (simp only: take_bit_take_bit) simp
    also have "take_bit 6 (32 :: u32) = 32" by code_simp
    finally have "v AND 31 OR 32 = take_bit 6 (v AND 31 OR 32)" by simp
    then show ?thesis by (metis take_bit_nat_less_exp unsigned_take_bit_eq)
  qed
  ultimately show "word_of_nat (BASE64_LUT ! (code (STANDARD_ALPHABET_CHARS ! unat (v AND 31)) mod 128)) = v AND 31"
    "word_of_nat (BASE64_LUT ! (code (STANDARD_ALPHABET_CHARS ! unat (v AND 31 OR 32)) mod 128)) = v AND 31 OR 32"
    by (simp_all add: lut_inverse)
qed

lemma split_5: "push_bit s (v AND 31) OR push_bit (s + 5) (drop_bit 5 v) = push_bit s (v :: u32)"
proof -
  have "v AND 31 = take_bit 5 v" by (simp add: take_bit_eq_mask mask_eq_exp_minus_1)
  then show ?thesis
    by (auto intro!: bit_eqI simp: bit_simps)
qed

lemma digit_flags:
  fixes v :: u32
  shows "(v AND 31) AND 31 = v AND 31" "(v AND 31) AND 32 = 0"
    "(v AND 31 OR 32) AND 31 = v AND 31" "(v AND 31 OR 32) AND 32 \<noteq> 0"
  by (simp_all add: bit.conj_disj_distrib2 and.assoc)

lemma decode_digits:
  assumes "drop_bit (5 * r) v = 0" and "i + r \<le> 7" and "0 < r"
  shows "vlq_decode_loop (vlq_digits r v @ ys) i (5 * i) u start =
    Some \<lparr>vr_value = vlq_value (u OR push_bit (5 * i) v), vr_start = start + i + length (vlq_digits r v)\<rparr>"
  using assms
proof (induction r arbitrary: v i u)
  case (Suc r)
  have sh: "5 * i mod 32 = 5 * i" using Suc.prems(2) by simp
  show ?case
  proof (cases "drop_bit 5 v = 0")
    case True
    then have "v AND 31 = v" using split_5 [of 0 v] by simp
    then show ?thesis using True sh digit_word(1) [of v] digit_flags [of v] \<open>v AND 31 = v\<close>
      by (simp add: Let_def del: push_bit_and)
  next
    case False
    then have r: "0 < r" using Suc.prems(1) by (cases r) auto
    have "drop_bit (5 * r) (drop_bit 5 v) = 0" using Suc.prems(1) by (simp add: drop_bit_drop_bit algebra_simps)
    from Suc.IH [OF this _ r, of "i + 1" "u OR push_bit (5 * i) (v AND 31)"] Suc.prems(2)
    have "vlq_decode_loop (vlq_digits r (drop_bit 5 v) @ ys) (i + 1) (5 * i + 5) (u OR push_bit (5 * i) (v AND 31)) start
        = Some \<lparr>vr_value = vlq_value ((u OR push_bit (5 * i) (v AND 31)) OR push_bit (5 * i + 5) (drop_bit 5 v)),
                 vr_start = start + (i + 1) + length (vlq_digits r (drop_bit 5 v))\<rparr>"
      by (simp add: algebra_simps)
    then show ?thesis
      using False sh digit_word(2) [of v] digit_flags [of v] split_5 [of "5 * i" v]
      by (simp add: Let_def or.assoc del: push_bit_and push_bit_or)
  qed
qed simp

section \<open>Round trip\<close>

lemma sint_small:
  assumes "0 \<le> sint (v :: 32 word)"
  shows "sint v = int (unat v)"
proof -
  have top: "\<not> bit v 31" using assms by (simp only: sint_nonneg_iff) simp
  then have "unat v < 2 ^ 31" by (simp only: top_bit_iff not_le)
  moreover have "int n < 2 ^ 31" if "n < 2 ^ 31" for n using that by simp
  ultimately have "int (unat v) < 2 ^ 31" by blast
  then have small: "take_bit 31 (int (unat v)) = int (unat v)"
    by (intro take_bit_int_eq_self) simp_all
  have "\<not> bit (uint v) 31" using top by (simp add: bit_uint_iff)
  then have "sint v = take_bit 31 (uint v)"
    using signed_take_bit_eq_if_positive [of "uint v" 31] by (simp add: sint_uint)
  then show ?thesis using small by (simp only: uint_nat)
qed

lemma lookup_nth:
  assumes "j < 256"
  shows "VLQ_LOOKUP_TABLE ! j = encode_slow_path (word_of_nat j)"
proof -
  have "VLQ_LOOKUP_TABLE ! j = encode_slow_path (word_of_nat ([0..<256] ! j))"
    unfolding VLQ_LOOKUP_TABLE_def using assms by (intro nth_map) (simp only: length_upt)
  also have "[0..<256] ! j = j" using assms by (simp only: nth_upt)
  finally show ?thesis .
qed

lemma vlq_encode_eq: "vlq_encode v = encode_slow_path v"
proof (cases "0 \<le> sint v \<and> sint v \<le> 255")
  case True
  then have "unat v < 256" using sint_small [of v] by linarith
  then show ?thesis using True lookup_nth by (simp add: vlq_encode_def)
qed (auto simp: vlq_encode_def)

lemma encode_slow_path_digits:
  "vlq_slice (encode_slow_path v) = vlq_digits 7 (sign_magnitude v)"
  "vlq_len (encode_slow_path v) = length (vlq_digits 7 (sign_magnitude v))"
proof -
  have "drop_bit 35 (sign_magnitude v) = 0"
    by (rule bit_word_eqI) (auto simp: bit_drop_bit_eq dest: bit_imp_le_length)
  then show "vlq_slice (encode_slow_path v) = vlq_digits 7 (sign_magnitude v)"
    "vlq_len (encode_slow_path v) = length (vlq_digits 7 (sign_magnitude v))"
    using encode_loop_digits [of 7 "sign_magnitude v" 0 "replicate 7 (CHR 0x00)"]
    by (simp_all add: encode_slow_path_def VLQ_MAX_IN_BYTES_def)
qed

text \<open>
  C16. A value written as VLQ is read back from any place of a text, and reading goes on right behind
  it: this holds for every 32-bit value, through the lookup table or the slow path, but for the least
  one, whose magnitude does not fit and which reads as zero.
\<close>

theorem vlq_roundtrip:
  "vlq_decode (xs @ vlq_slice (vlq_encode v) @ ys) (length xs) =
     Some \<lparr>vr_value = (if v = 2 ^ 31 then 0 else v), vr_start = length xs + vlq_len (vlq_encode v)\<rparr>"
proof -
  let ?ds = "vlq_digits 7 (sign_magnitude v)"
  have top: "drop_bit 35 (sign_magnitude v) = 0"
    by (rule bit_word_eqI) (auto simp: bit_drop_bit_eq dest: bit_imp_le_length)
  have "take (VLQ_MAX_IN_BYTES + 1) (?ds @ ys) = ?ds @ take (8 - length ?ds) ys"
    using length_vlq_digits [of 7 "sign_magnitude v"] by (simp add: VLQ_MAX_IN_BYTES_def)
  moreover have "vlq_decode_loop (?ds @ take (8 - length ?ds) ys) 0 0 0 (length xs) =
      Some \<lparr>vr_value = vlq_value (sign_magnitude v), vr_start = length xs + length ?ds\<rparr>"
    using decode_digits [of 7 "sign_magnitude v" 0 "take (8 - length ?ds) ys" 0 "length xs"] top by simp
  ultimately show ?thesis
    by (simp add: vlq_decode_def vlq_encode_eq encode_slow_path_digits vlq_value_sign_magnitude)
qed

text \<open>Reading never goes behind the end, and a text that ends within a value makes no progress.\<close>

lemma vlq_decode_loop_bounds:
  "vlq_decode_loop cs i shift v start = Some r \<Longrightarrow> start + i < vr_start r \<and> vr_start r \<le> start + i + length cs"
proof (induction cs arbitrary: i shift v)
  case (Cons c cs)
  then show ?case by (fastforce simp: Let_def split: if_splits)
qed simp

lemma vlq_decode_bounds:
  assumes "vlq_decode s start = Some r"
  shows "start \<le> vr_start r" and "vr_start r \<le> length s"
  using assms vlq_decode_loop_bounds [of "take (VLQ_MAX_IN_BYTES + 1) (drop start s)" 0 0 0 start]
  by (fastforce simp: vlq_decode_def split: if_splits option.splits)+

text \<open>
  Eight digits are more than any 32-bit value needs, but they are read: the eighth is shifted by 35
  modulo 32 and lands on the low bits.
\<close>

lemma vlq_eighth_digit:
  "vlq_decode ''gggggggQ'' 0 = Some \<lparr>vr_value = 64, vr_start = 8\<rparr>"
  by code_simp

end
