(* ===== verification/Byte_Equal.thy ===== *)
theory Byte_Equal
  imports Byte_Strings "HOL-Library.Monad_Syntax"
begin

text \<open>
  Comparison of byte strings a machine word at a time (\<open>eql_long\<close>,
  \<^verbatim>\<open>src/src/bun_core/string/immutable.rs\<close>) and hexadecimal digits
  (\<^verbatim>\<open>src/src/bun_core/fmt.rs\<close>).  A read behind the end of a slice is the value \<open>None\<close>.
\<close>

section \<open>Equality by words\<close>

text \<open>The bytes of the \<open>k\<close>-byte word at a position; two words are equal when these are.\<close>

definition read_unaligned :: "nat \<Rightarrow> bytes \<Rightarrow> nat \<Rightarrow> bytes option" where
  "read_unaligned k s i = (if i + k \<le> length s then Some (take k (drop i s)) else None)"

text \<open>
  A step of the comparison at offset \<open>i\<close>: \<open>Inl\<close> is the value returned, \<open>Inr\<close> the next offset.
  \<open>end\<close> is the length of the second string.
\<close>

definition eql_step :: "nat \<Rightarrow> bytes \<Rightarrow> bytes \<Rightarrow> nat \<Rightarrow> (bool + nat) option" where
  "eql_step k a b i = do {
     x \<leftarrow> read_unaligned k a i;
     y \<leftarrow> read_unaligned k b i;
     Some (if x \<noteq> y then Inl False else if i + k = length b then Inl True else Inr (i + k)) }"

fun eql_dwords :: "nat \<Rightarrow> bytes \<Rightarrow> bytes \<Rightarrow> nat \<Rightarrow> (bool + nat) option" where
  "eql_dwords 0 a b i = Some (Inr i)"
| "eql_dwords (Suc dword_length) a b i = do {
     r \<leftarrow> eql_step 8 a b i;
     case r of Inl res \<Rightarrow> Some (Inl res) | Inr j \<Rightarrow> eql_dwords dword_length a b j }"

text \<open>The step for the word of \<open>k\<close> bytes, taken when the length has that bit.\<close>

definition eql_part :: "nat \<Rightarrow> bytes \<Rightarrow> bytes \<Rightarrow> bool + nat \<Rightarrow> (bool + nat) option" where
  "eql_part k a b r =
     (case r of
        Inl res \<Rightarrow> Some (Inl res)
      | Inr i \<Rightarrow> if length b div k mod 2 \<noteq> 0 then eql_step k a b i else Some (Inr i))"

definition eql_last :: "bytes \<Rightarrow> bytes \<Rightarrow> bool + nat \<Rightarrow> bool option" where
  "eql_last a b r =
     (case r of
        Inl res \<Rightarrow> Some res
      | Inr i \<Rightarrow>
          if length b mod 2 \<noteq> 0 then do {
            x \<leftarrow> read_unaligned 1 a i;
            y \<leftarrow> read_unaligned 1 b i;
            Some (x = y) }
          else Some True)"

text \<open>\<open>same\<close> says that the two strings start at the same address.\<close>

definition eql_long :: "bool \<Rightarrow> bytes \<Rightarrow> bytes \<Rightarrow> bool \<Rightarrow> bool option" where
  "eql_long same a_str b_str check_len =
     (let len = length b_str in
      if check_len \<and> len = 0 then Some (a_str = [])
      else if check_len \<and> length a_str \<noteq> len then Some False
      else if same then Some True
      else do {
        r \<leftarrow> eql_dwords (len div 8) a_str b_str 0;
        r \<leftarrow> eql_part 4 a_str b_str r;
        r \<leftarrow> eql_part 2 a_str b_str r;
        eql_last a_str b_str r })"

text \<open>
  Up to offset \<open>i\<close> the strings agree, or the result is known: what every step keeps.
\<close>

definition eql_inv :: "bytes \<Rightarrow> bytes \<Rightarrow> nat \<Rightarrow> bool + nat \<Rightarrow> bool" where
  "eql_inv a b i r \<longleftrightarrow>
     (case r of
        Inl res \<Rightarrow> res = (take (length b) a = b)
      | Inr j \<Rightarrow> j = i \<and> take i a = take i b)"

lemma prefix_extend:
  assumes "take i a = take i b"
  shows "take k (drop i a) = take k (drop i b) \<longleftrightarrow> take (i + k) a = take (i + k) b"
  using assms by (simp add: take_add)

lemma eql_step_inv:
  assumes "take i a = take i b" and "i + k \<le> length b" and "length b \<le> length a"
  obtains r where "eql_step k a b i = Some r" and "eql_inv a b (i + k) r"
proof -
  let ?r = "if take k (drop i a) \<noteq> take k (drop i b) then Inl False
    else if i + k = length b then Inl True else Inr (i + k)"
  have "eql_step k a b i = Some ?r" using assms(2,3) by (simp add: eql_step_def read_unaligned_def)
  moreover have "eql_inv a b (i + k) ?r"
  proof (cases "take k (drop i a) = take k (drop i b)")
    case True
    then show ?thesis using assms(1) prefix_extend [OF assms(1)] by (auto simp: eql_inv_def)
  next
    case False
    then have "take (i + k) a \<noteq> take (i + k) b" using prefix_extend [OF assms(1)] by simp
    moreover have "take (i + k) (take (length b) a) = take (i + k) a" using assms(2) by (simp add: min_def)
    ultimately have "take (length b) a \<noteq> b" by metis
    then show ?thesis using False by (simp add: eql_inv_def)
  qed
  ultimately show thesis by (rule that)
qed

lemma eql_dwords_inv:
  assumes "take i a = take i b" and "i + 8 * n \<le> length b" and "length b \<le> length a"
  shows "\<exists>r. eql_dwords n a b i = Some r \<and> eql_inv a b (i + 8 * n) r"
  using assms
proof (induction n arbitrary: i)
  case (Suc n)
  obtain r where r: "eql_step 8 a b i = Some r" "eql_inv a b (i + 8) r"
    using eql_step_inv [of i a b 8] Suc.prems by auto
  show ?case
  proof (cases r)
    case (Inl res)
    then show ?thesis using r by (simp add: eql_inv_def)
  next
    case (Inr j)
    then have "j = i + 8" "take (i + 8) a = take (i + 8) b" using r(2) by (simp_all add: eql_inv_def)
    then show ?thesis using Suc.IH [of "i + 8"] Suc.prems r(1) Inr by (simp add: algebra_simps)
  qed
qed (simp add: eql_inv_def)

lemma eql_part_inv:
  assumes "eql_inv a b i r" and "i + length b div k mod 2 * k \<le> length b" and "length b \<le> length a"
  shows "\<exists>r'. eql_part k a b r = Some r' \<and> eql_inv a b (i + length b div k mod 2 * k) r'"
proof (cases r)
  case (Inl res)
  then show ?thesis using assms(1) by (simp add: eql_part_def eql_inv_def)
next
  case (Inr j)
  then have j: "j = i" "take i a = take i b" using assms(1) by (simp_all add: eql_inv_def)
  show ?thesis
  proof (cases "length b div k mod 2 = 0")
    case True
    then show ?thesis using Inr j by (simp add: eql_part_def eql_inv_def)
  next
    case False
    then have one: "length b div k mod 2 = 1" by simp
    then obtain r' where "eql_step k a b i = Some r'" "eql_inv a b (i + k) r'"
      using eql_step_inv [OF j(2), of k] assms(2,3) by auto
    then show ?thesis using Inr j(1) one by (simp add: eql_part_def)
  qed
qed

lemma eql_last_inv:
  assumes "eql_inv a b i r" and "i + length b mod 2 = length b" and "length b \<le> length a"
  shows "eql_last a b r = Some (take (length b) a = b)"
proof (cases r)
  case (Inl res)
  then show ?thesis using assms(1) by (simp add: eql_last_def eql_inv_def)
next
  case (Inr j)
  then have j: "j = i" "take i a = take i b" using assms(1) by (simp_all add: eql_inv_def)
  show ?thesis
  proof (cases "length b mod 2 = 0")
    case True
    then show ?thesis using Inr j assms(2) by (simp add: eql_last_def)
  next
    case False
    then have one: "length b mod 2 = 1" by simp
    then have "take 1 (drop i a) = take 1 (drop i b) \<longleftrightarrow> take (length b) a = b"
      using prefix_extend [OF j(2), of 1] assms(2) by simp
    then show ?thesis using Inr j(1) one assms(2,3) by (simp add: eql_last_def read_unaligned_def)
  qed
qed

text \<open>The words of the parts add up to the length.\<close>

lemma length_parts:
  "8 * (n div 8) + n div 4 mod 2 * 4 + n div 2 mod 2 * 2 + n mod 2 = (n::nat)"
proof -
  have "n div 4 = n div 2 div 2" "n div 8 = n div 4 div 2" by (simp_all flip: div_mult2_eq)
  then have "n div 4 = 2 * (n div 8) + n div 4 mod 2" "n div 2 = 2 * (n div 4) + n div 2 mod 2"
    "n = 2 * (n div 2) + n mod 2" by (simp_all only: mult_div_mod_eq)
  then show ?thesis by linarith
qed

lemma eql_words:
  assumes "length b \<le> length a"
  shows "do {
      r \<leftarrow> eql_dwords (length b div 8) a b 0;
      r \<leftarrow> eql_part 4 a b r;
      r \<leftarrow> eql_part 2 a b r;
      eql_last a b r } = Some (take (length b) a = b)"
proof -
  note len = length_parts [of "length b"]
  obtain r0 where r0: "eql_dwords (length b div 8) a b 0 = Some r0" "eql_inv a b (8 * (length b div 8)) r0"
    using eql_dwords_inv [of 0 a b "length b div 8"] assms by auto
  have le: "8 * (length b div 8) + length b div 4 mod 2 * 4 \<le> length b"
    "8 * (length b div 8) + length b div 4 mod 2 * 4 + length b div 2 mod 2 * 2 \<le> length b"
    using len by linarith+
  obtain r1 where r1: "eql_part 4 a b r0 = Some r1"
      "eql_inv a b (8 * (length b div 8) + length b div 4 mod 2 * 4) r1"
    using eql_part_inv [OF r0(2) le(1) assms] by blast
  obtain r2 where r2: "eql_part 2 a b r1 = Some r2"
      "eql_inv a b (8 * (length b div 8) + length b div 4 mod 2 * 4 + length b div 2 mod 2 * 2) r2"
    using eql_part_inv [OF r1(2) le(2) assms] by blast
  have "eql_last a b r2 = Some (take (length b) a = b)"
    using eql_last_inv [OF r2(2) len assms] .
  then show ?thesis by (simp add: r0 r1 r2)
qed

text \<open>
  Comparison by words is equality, and no read leaves the slices; with \<open>check_len\<close> off the second
  string is compared with the front of the first.
\<close>

lemma eql_long_checked:
  assumes "same \<Longrightarrow> a = b"
  shows "eql_long same a b True = Some (a = b)"
  using assms eql_words [of b a] by (auto simp: eql_long_def Let_def)

lemma eql_long_prefix:
  assumes "length b \<le> length a" and "same \<Longrightarrow> take (length b) a = b"
  shows "eql_long same a b False = Some (take (length b) a = b)"
  using assms eql_words [of b a] by (auto simp: eql_long_def Let_def)

section \<open>Hexadecimal digits\<close>

definition hex_digit_value :: "byte \<Rightarrow> nat option" where
  "hex_digit_value b =
     (if is_ascii_digit b then Some (code b - code (CHR ''0''))
      else if code (CHR ''a'') \<le> code b \<and> code b \<le> code (CHR ''f'') then Some (code b - code (CHR ''a'') + 10)
      else if code (CHR ''A'') \<le> code b \<and> code b \<le> code (CHR ''F'') then Some (code b - code (CHR ''A'') + 10)
      else None)"

definition hex_pair_value :: "byte \<Rightarrow> byte \<Rightarrow> byte option" where
  "hex_pair_value hi lo =
     (case (hex_digit_value hi, hex_digit_value lo) of
        (Some h, Some l) \<Rightarrow> Some (char_of (h * 16 + l))
      | _ \<Rightarrow> None)"

definition LOWER_HEX_TABLE :: bytes where
  "LOWER_HEX_TABLE = ''0123456789abcdef''"

lemma hex_digit_value_less: "hex_digit_value b = Some h \<Longrightarrow> h < 16"
  by (auto simp: hex_digit_value_def is_ascii_digit_def code_def split: if_splits)

lemma hex_digit_value_lower: "d < 16 \<Longrightarrow> hex_digit_value (LOWER_HEX_TABLE ! d) = Some d"
proof -
  have "list_all (\<lambda>d. hex_digit_value (LOWER_HEX_TABLE ! d) = Some d) [0..<16]" by code_simp
  then show "d < 16 \<Longrightarrow> hex_digit_value (LOWER_HEX_TABLE ! d) = Some d" by (simp add: list_all_iff)
qed

lemma hex_pair_lower:
  "hex_pair_value (LOWER_HEX_TABLE ! (code c div 16)) (LOWER_HEX_TABLE ! (code c mod 16)) = Some c"
proof -
  have "code c div 16 < 16" using code_less [of c] by (simp add: less_mult_imp_div_less)
  then show ?thesis by (simp add: hex_pair_value_def hex_digit_value_lower code_def)
qed

end
