(* ===== verification/Integrity.thy ===== *)
theory Integrity
  imports Base64_Codec Byte_Equal
begin

text \<open>
  Integrity values of packages (\<^verbatim>\<open>src/src/install/integrity.rs\<close>): a hash algorithm and a digest, read from
  and written to lockfiles and manifests, compared with the hash of a tarball in one piece or while
  it streams in.  The hash functions are BoringSSL's and a parameter of the model.  \<open>None\<close> is a panic,
  or a write outside the digest by the unchecked decoder.
\<close>

section \<open>Tags\<close>

text \<open>\<open>Tag\<close> is a byte with named values; any byte may be read from a lockfile.\<close>

type_synonym sri_tag = nat

definition Tag_UNKNOWN :: sri_tag where "Tag_UNKNOWN = 0"
definition Tag_SHA1 :: sri_tag where "Tag_SHA1 = 1"
definition Tag_SHA256 :: sri_tag where "Tag_SHA256 = 2"
definition Tag_SHA384 :: sri_tag where "Tag_SHA384 = 3"
definition Tag_SHA512 :: sri_tag where "Tag_SHA512 = 4"

lemmas tag_defs = Tag_UNKNOWN_def Tag_SHA1_def Tag_SHA256_def Tag_SHA384_def Tag_SHA512_def

definition SHA1_DIGEST_LEN :: nat where "SHA1_DIGEST_LEN = 20"
definition SHA256_DIGEST_LEN :: nat where "SHA256_DIGEST_LEN = 32"
definition SHA384_DIGEST_LEN :: nat where "SHA384_DIGEST_LEN = 48"
definition SHA512_DIGEST_LEN :: nat where "SHA512_DIGEST_LEN = 64"

lemmas len_defs = SHA1_DIGEST_LEN_def SHA256_DIGEST_LEN_def SHA384_DIGEST_LEN_def SHA512_DIGEST_LEN_def

definition DIGEST_BUF_LEN :: nat where
  "DIGEST_BUF_LEN =
     (let m = SHA1_DIGEST_LEN;
          m = (if m < SHA512_DIGEST_LEN then SHA512_DIGEST_LEN else m);
          m = (if m < SHA256_DIGEST_LEN then SHA256_DIGEST_LEN else m);
          m = (if m < SHA384_DIGEST_LEN then SHA384_DIGEST_LEN else m)
      in m)"

definition EMPTY_DIGEST_BUF :: bytes where
  "EMPTY_DIGEST_BUF = replicate DIGEST_BUF_LEN (CHR 0x00)"

definition is_supported :: "sri_tag \<Rightarrow> bool" where
  "is_supported t \<longleftrightarrow> Tag_SHA1 \<le> t \<and> t \<le> Tag_SHA512"

definition sri_tag_parse :: "bytes \<Rightarrow> sri_tag \<times> nat" where
  "sri_tag_parse buf =
     (case index_of_char (take 7 buf) (CHR ''-'') of
        None \<Rightarrow> (Tag_UNKNOWN, 0)
      | Some i \<Rightarrow>
          if length buf \<le> i + 1 then (Tag_UNKNOWN, 0)
          else if take i buf = ''sha1'' then (Tag_SHA1, i + 1)
          else if take i buf = ''sha256'' then (Tag_SHA256, i + 1)
          else if take i buf = ''sha384'' then (Tag_SHA384, i + 1)
          else if take i buf = ''sha512'' then (Tag_SHA512, i + 1)
          else (Tag_UNKNOWN, 0))"

definition digest_len :: "sri_tag \<Rightarrow> nat" where
  "digest_len t =
     (if t = Tag_SHA1 then SHA1_DIGEST_LEN
      else if t = Tag_SHA512 then SHA512_DIGEST_LEN
      else if t = Tag_SHA256 then SHA256_DIGEST_LEN
      else if t = Tag_SHA384 then SHA384_DIGEST_LEN
      else 0)"

section \<open>Values\<close>

record integrity =
  integrity_tag :: sri_tag
  integrity_value :: bytes

definition integrity_default :: integrity where
  "integrity_default = \<lparr>integrity_tag = Tag_UNKNOWN, integrity_value = EMPTY_DIGEST_BUF\<rparr>"

datatype sha_sum_error = Sha_Invalid_Character

fun sha_sum_loop :: "bytes \<Rightarrow> bytes \<Rightarrow> nat \<Rightarrow> sha_sum_error + bytes" where
  "sha_sum_loop (hi # lo # rest) v out_i =
     (case hex_pair_value hi lo of
        None \<Rightarrow> Inl Sha_Invalid_Character
      | Some b \<Rightarrow> sha_sum_loop rest (v[out_i := b]) (out_i + 1))"
| "sha_sum_loop _ v out_i = Inr v"

definition parse_sha_sum :: "bytes \<Rightarrow> sha_sum_error + integrity" where
  "parse_sha_sum buf =
     (if buf = [] then Inr integrity_default
      else
        let end_i = min 40 (length buf) in
        if end_i mod 2 \<noteq> 0 then Inl Sha_Invalid_Character
        else map_sum id (\<lambda>v. \<lparr>integrity_tag = Tag_SHA1, integrity_value = v\<rparr>)
               (sha_sum_loop (take end_i buf) EMPTY_DIGEST_BUF 0))"

definition integrity_parse :: "bytes \<Rightarrow> integrity option" where
  "integrity_parse buf =
     (if length buf < length ''sha256-'' then Some integrity_default
      else
        let (t, offset) = sri_tag_parse buf in
        if t = Tag_UNKNOWN then Some integrity_default
        else
          let expected_len = digest_len t in
          if expected_len = 0 then Some integrity_default
          else do {
            let input = trim_right (drop offset buf) [CHR ''=''];
            sz \<leftarrow> calc_size_for_slice NO_PAD_decoder input;
            case sz of
              Inl e \<Rightarrow> Some integrity_default
            | Inr decoded_size \<Rightarrow>
                if expected_len < decoded_size then Some integrity_default
                else do {
                  res \<leftarrow> base64_decode NO_PAD_decoder (take expected_len EMPTY_DIGEST_BUF) input;
                  case res of
                    Inl e \<Rightarrow> Some integrity_default
                  | Inr decoded \<Rightarrow>
                      Some \<lparr>integrity_tag = t, integrity_value = blit EMPTY_DIGEST_BUF 0 decoded\<rparr> } })"

definition integrity_slice :: "integrity \<Rightarrow> bytes" where
  "integrity_slice i = take (digest_len (integrity_tag i)) (integrity_value i)"

text \<open>\<open>fmt\<close> of \<open>Display\<close>; the encoder writes to a buffer of 512 bytes.\<close>

definition integrity_fmt :: "integrity \<Rightarrow> bytes option" where
  "integrity_fmt i =
     (let t = integrity_tag i in
      if t \<notin> {Tag_SHA1, Tag_SHA256, Tag_SHA384, Tag_SHA512} then Some []
      else do {
        let name = (if t = Tag_SHA1 then ''sha1-'' else if t = Tag_SHA256 then ''sha256-''
                    else if t = Tag_SHA384 then ''sha384-'' else ''sha512-'');
        (txt_out, buf) \<leftarrow> base64_encode NO_PAD_encoder (replicate 512 (CHR 0x00)) (integrity_slice i);
        Some (name @ txt_out @ (if t = Tag_SHA1 then ''='' else ''=='')) })"

section \<open>Hashing\<close>

text \<open>
  The interface of BoringSSL the hashers call: the digest of a byte string, and a context that is
  fed and finished.
\<close>

datatype evp_md = EVP_sha1 | EVP_sha256 | EVP_sha384 | EVP_sha512

record 'c evp =
  EVP_Digest :: "evp_md \<Rightarrow> bytes \<Rightarrow> bytes"
  EVP_DigestInit :: "evp_md \<Rightarrow> 'c"
  EVP_DigestUpdate :: "'c \<Rightarrow> bytes \<Rightarrow> 'c"
  EVP_DigestFinal :: "'c \<Rightarrow> bytes \<times> 'c"

definition for_bytes :: "'c evp \<Rightarrow> bytes \<Rightarrow> integrity" where
  "for_bytes E bs =
     \<lparr>integrity_tag = Tag_SHA512, integrity_value = blit EMPTY_DIGEST_BUF 0 (EVP_Digest E EVP_sha512 bs)\<rparr>"

text \<open>The branch of \<open>verify_by_tag\<close> for a hash function; \<open>digest_sum[0..LEN]\<close> panics on a short sum.\<close>

definition verify_with :: "'c evp \<Rightarrow> evp_md \<Rightarrow> nat \<Rightarrow> bytes \<Rightarrow> bytes \<Rightarrow> bool option" where
  "verify_with E md len bs digest_sum =
     (if length digest_sum < len then None else eql_long False (EVP_Digest E md bs) (take len digest_sum) True)"

definition verify_by_tag :: "'c evp \<Rightarrow> sri_tag \<Rightarrow> bytes \<Rightarrow> bytes \<Rightarrow> bool option" where
  "verify_by_tag E t bs digest_sum =
     (if t = Tag_SHA1 then verify_with E EVP_sha1 SHA1_DIGEST_LEN bs digest_sum
      else if t = Tag_SHA512 then verify_with E EVP_sha512 SHA512_DIGEST_LEN bs digest_sum
      else if t = Tag_SHA256 then verify_with E EVP_sha256 SHA256_DIGEST_LEN bs digest_sum
      else if t = Tag_SHA384 then verify_with E EVP_sha384 SHA384_DIGEST_LEN bs digest_sum
      else Some False)"

definition integrity_verify :: "'c evp \<Rightarrow> integrity \<Rightarrow> bytes \<Rightarrow> bool option" where
  "integrity_verify E i bs = verify_by_tag E (integrity_tag i) bs (integrity_value i)"

section \<open>Hashing a stream\<close>

datatype 'c hasher = No_Hasher | Sha1 'c | Sha256 'c | Sha384 'c | Sha512 'c

record 'c streaming =
  st_expected :: integrity
  st_hasher :: "'c hasher"

definition streaming_init :: "'c evp \<Rightarrow> integrity \<Rightarrow> bool \<Rightarrow> 'c streaming" where
  "streaming_init E expected compute_if_missing =
     (let t = integrity_tag expected in
      \<lparr>st_expected = expected,
       st_hasher =
         (if t = Tag_SHA1 then Sha1 (EVP_DigestInit E EVP_sha1)
          else if t = Tag_SHA256 then Sha256 (EVP_DigestInit E EVP_sha256)
          else if t = Tag_SHA384 then Sha384 (EVP_DigestInit E EVP_sha384)
          else if t = Tag_SHA512 then Sha512 (EVP_DigestInit E EVP_sha512)
          else if compute_if_missing then Sha512 (EVP_DigestInit E EVP_sha512)
          else No_Hasher)\<rparr>)"

definition streaming_update :: "'c evp \<Rightarrow> 'c streaming \<Rightarrow> bytes \<Rightarrow> 'c streaming" where
  "streaming_update E s bs =
     (if bs = [] then s
      else s\<lparr>st_hasher :=
        (case st_hasher s of
           No_Hasher \<Rightarrow> No_Hasher
         | Sha1 h \<Rightarrow> Sha1 (EVP_DigestUpdate E h bs)
         | Sha256 h \<Rightarrow> Sha256 (EVP_DigestUpdate E h bs)
         | Sha384 h \<Rightarrow> Sha384 (EVP_DigestUpdate E h bs)
         | Sha512 h \<Rightarrow> Sha512 (EVP_DigestUpdate E h bs))\<rparr>)"

text \<open>The digest goes to the front of a zeroed buffer.\<close>

definition final_value :: "'c evp \<Rightarrow> 'c \<Rightarrow> sri_tag \<Rightarrow> integrity \<times> 'c" where
  "final_value E h t =
     (let (d, h) = EVP_DigestFinal E h
      in (\<lparr>integrity_tag = t, integrity_value = blit EMPTY_DIGEST_BUF 0 d\<rparr>, h))"

definition streaming_final :: "'c evp \<Rightarrow> 'c streaming \<Rightarrow> integrity \<times> 'c streaming" where
  "streaming_final E s =
     (case st_hasher s of
        No_Hasher \<Rightarrow> (integrity_default, s)
      | Sha1 h \<Rightarrow> map_prod id (\<lambda>h. s\<lparr>st_hasher := Sha1 h\<rparr>) (final_value E h Tag_SHA1)
      | Sha256 h \<Rightarrow> map_prod id (\<lambda>h. s\<lparr>st_hasher := Sha256 h\<rparr>) (final_value E h Tag_SHA256)
      | Sha384 h \<Rightarrow> map_prod id (\<lambda>h. s\<lparr>st_hasher := Sha384 h\<rparr>) (final_value E h Tag_SHA384)
      | Sha512 h \<Rightarrow> map_prod id (\<lambda>h. s\<lparr>st_hasher := Sha512 h\<rparr>) (final_value E h Tag_SHA512))"

definition streaming_verify :: "'c evp \<Rightarrow> 'c streaming \<Rightarrow> (bool \<times> 'c streaming) option" where
  "streaming_verify E s =
     (if \<not> is_supported (integrity_tag (st_expected s)) then Some (True, s)
      else
        let (computed, s) = streaming_final E s in
        if integrity_tag computed \<noteq> integrity_tag (st_expected s) then Some (False, s)
        else
          let len = digest_len (integrity_tag (st_expected s)) in
          if length (integrity_value computed) < len \<or> length (integrity_value (st_expected s)) < len then None
          else map_option (\<lambda>b. (b, s))
                 (eql_long False (take len (integrity_value computed)) (take len (integrity_value (st_expected s))) True))"

end
