(* ===== verification/Integrity_Check.thy ===== *)
theory Integrity_Check
  imports Integrity
begin

text \<open>
  Integrity values survive a lockfile: what parsing accepts, that printing and parsing are inverse,
  and that a tarball is verified the same way in one piece and as a stream.  The laws of the hash
  functions are the predicate \<open>evp_laws\<close>.
\<close>

section \<open>Well-formed values\<close>

text \<open>A known algorithm and a digest in front of zeros.\<close>

definition integrity_wf :: "integrity \<Rightarrow> bool" where
  "integrity_wf i \<longleftrightarrow>
     integrity_tag i \<le> Tag_SHA512 \<and> length (integrity_value i) = DIGEST_BUF_LEN \<and>
     integrity_value i = blit EMPTY_DIGEST_BUF 0 (integrity_slice i)"

lemma buf_len [simp]: "DIGEST_BUF_LEN = 64" "length EMPTY_DIGEST_BUF = 64"
  by (simp_all add: DIGEST_BUF_LEN_def EMPTY_DIGEST_BUF_def len_defs Let_def)

lemma digest_len_le: "digest_len t \<le> 64"
  by (simp add: digest_len_def len_defs)

lemma supported_cases:
  assumes "is_supported t"
  obtains "t = Tag_SHA1" | "t = Tag_SHA256" | "t = Tag_SHA384" | "t = Tag_SHA512"
proof -
  have "t = 1 \<or> t = 2 \<or> t = 3 \<or> t = 4" using assms by (auto simp: is_supported_def tag_defs)
  then show thesis using that by (auto simp: tag_defs)
qed

lemma supported_iff: "is_supported t \<longleftrightarrow> t \<in> {Tag_SHA1, Tag_SHA256, Tag_SHA384, Tag_SHA512}"
  by (auto simp: is_supported_def tag_defs)

definition tag_name :: "sri_tag \<Rightarrow> bytes" where
  "tag_name t = (if t = Tag_SHA1 then ''sha1'' else if t = Tag_SHA256 then ''sha256''
     else if t = Tag_SHA384 then ''sha384'' else ''sha512'')"

lemma blit_zero: "n \<le> 64 \<Longrightarrow> length src \<le> n \<Longrightarrow>
    blit EMPTY_DIGEST_BUF 0 (blit (take n EMPTY_DIGEST_BUF) 0 src) = blit EMPTY_DIGEST_BUF 0 src"
  by (simp add: blit_def EMPTY_DIGEST_BUF_def min_def flip: replicate_add)

lemma integrity_wf_blit:
  assumes "t \<le> Tag_SHA512" and "length src \<le> digest_len t"
  shows "integrity_wf \<lparr>integrity_tag = t, integrity_value = blit EMPTY_DIGEST_BUF 0 src\<rparr>"
proof -
  let ?n = "digest_len t"
  have "take ?n (blit EMPTY_DIGEST_BUF 0 src) = blit (take ?n EMPTY_DIGEST_BUF) 0 src"
    using assms(2) by (simp add: blit_def take_drop)
  then show ?thesis
    using assms digest_len_le [of t] blit_zero [of ?n src] by (simp add: integrity_wf_def integrity_slice_def)
qed

section \<open>Tags\<close>

lemma index_of_char_nth: "index_of_char s c = Some i \<Longrightarrow> s ! i = c"
  by (induction s arbitrary: i) (auto split: if_splits)

lemma tag_parse_named:
  assumes "is_supported t" and "rest \<noteq> []"
  shows "sri_tag_parse (tag_name t @ CHR ''-'' # rest) = (t, length (tag_name t) + 1)"
  using assms(1) by (cases rule: supported_cases)
    (use assms(2) in \<open>simp_all add: sri_tag_parse_def tag_name_def tag_defs\<close>)

lemma tag_parse_split:
  assumes "sri_tag_parse buf = (t, offset)" and "t \<noteq> Tag_UNKNOWN"
  shows "is_supported t" and "drop offset buf \<noteq> []" and "buf = tag_name t @ CHR ''-'' # drop offset buf"
proof -
  obtain i where i: "index_of_char (take 7 buf) (CHR ''-'') = Some i" "\<not> length buf \<le> i + 1"
    and t: "is_supported t" "take i buf = tag_name t" "offset = i + 1"
    using assms by (auto simp: sri_tag_parse_def tag_name_def supported_iff tag_defs split: option.splits if_splits)
  have "i < 7" using index_of_char_bound [OF i(1)] by simp
  then have "buf ! i = CHR ''-''" using index_of_char_nth [OF i(1)] by simp
  moreover have "buf = take i buf @ buf ! i # drop (Suc i) buf" using i(2) by (intro id_take_nth_drop) simp
  ultimately have "buf = tag_name t @ CHR ''-'' # drop offset buf" using t(2,3) by simp
  then show "is_supported t" "drop offset buf \<noteq> []" "buf = tag_name t @ CHR ''-'' # drop offset buf"
    using i(2) t(1,3) by simp_all
qed

section \<open>Parsing\<close>

text \<open>What follows the tag: the unpadded encoding of at most a digest, with any padding.\<close>

lemma NO_PAD_eq: "NO_PAD_decoder = std_decoder None" "NO_PAD_encoder = std_encoder None"
  by (simp_all add: NO_PAD_decoder_def NO_PAD_encoder_def)

lemma trim_pad:
  assumes "xs = [] \<or> last xs \<noteq> c"
  shows "trim_right (xs @ replicate k c) [c] = xs"
  using assms by (cases xs rule: rev_cases) (auto simp: trim_right_eq dropWhile_append3)

lemma trim_right_split: "\<exists>k. s = trim_right s [c] @ replicate k c"
proof -
  have "\<forall>x\<in>set (takeWhile (\<lambda>x. x \<in> set [c]) (rev s)). x = c" by (auto dest: set_takeWhileD)
  then have "takeWhile (\<lambda>x. x \<in> set [c]) (rev s) = replicate (length (takeWhile (\<lambda>x. x \<in> set [c]) (rev s))) c"
    by (simp add: replicate_eqI)
  then have "rev s = replicate (length (takeWhile (\<lambda>x. x \<in> set [c]) (rev s))) c @ dropWhile (\<lambda>x. x \<in> set [c]) (rev s)"
    by (metis takeWhile_dropWhile_id)
  then have "s = trim_right s [c] @ replicate (length (takeWhile (\<lambda>x. x \<in> set [c]) (rev s))) c"
    unfolding trim_right_eq by (metis rev_append rev_replicate rev_rev_ident)
  then show ?thesis ..
qed

lemma text_no_pad: "std_text None src = [] \<or> last (std_text None src) \<noteq> CHR ''=''"
proof -
  have "is_digit_char (last (std_text None src))" if "std_text None src \<noteq> []"
    using that enc_digits_value(3) [of src] alphabet_is_digit
    by (simp add: std_text_def padding_def last_map)
  then show ?thesis using pad_no_digit by metis
qed

text \<open>The digest read from a text without its tag.\<close>

lemma integrity_parse_tagged:
  assumes "sri_tag_parse buf = (t, offset)" and "t \<noteq> Tag_UNKNOWN" and "7 \<le> length buf"
  shows "\<exists>i. integrity_parse buf = Some i \<and>
     (i = integrity_default \<or>
      (\<exists>src k. drop offset buf = std_text None src @ replicate k (CHR ''='') \<and> length src \<le> digest_len t \<and>
        i = \<lparr>integrity_tag = t, integrity_value = blit EMPTY_DIGEST_BUF 0 src\<rparr>))"
proof -
  let ?input = "trim_right (drop offset buf) [CHR ''='']" and ?dest = "take (digest_len t) EMPTY_DIGEST_BUF"
  have t: "is_supported t" using tag_parse_split(1) [OF assms(1,2)] .
  then have n: "digest_len t \<noteq> 0" by (cases rule: supported_cases) (simp_all add: digest_len_def len_defs tag_defs)
  have dest: "length ?dest = digest_len t" using digest_len_le [of t] by simp
  obtain sz where sz: "calc_size_for_slice (std_decoder None) ?input = Some sz"
    using calc_size_never_panics [of None ?input] by auto
  note parse = integrity_parse_def [of buf] NO_PAD_eq(1)
  show ?thesis
  proof (cases "\<exists>m. sz = Inr m \<and> m \<le> digest_len t")
    case False
    then show ?thesis using assms n sz by (cases sz) (auto simp: parse Let_def)
  next
    case True
    then obtain m where m: "sz = Inr m" "m \<le> digest_len t" by blast
    then have "m \<le> length ?dest" by (simp only: dest)
    from decode_within [OF sz [unfolded m(1)] this] obtain res where res: "base64_decode (std_decoder None) ?dest ?input = Some res"
      by blast
    show ?thesis
    proof (cases res)
      case (Inl e)
      then show ?thesis using assms n sz m res by (simp add: parse Let_def)
    next
      case (Inr d)
      obtain src where src: "?input = std_text None src" "length src \<le> length ?dest" "d = blit ?dest 0 src"
        using decode_accepts_text [OF _ res [unfolded Inr]] by blast
      obtain k where "drop offset buf = ?input @ replicate k (CHR ''='')" using trim_right_split by blast
      moreover have "integrity_parse buf = Some \<lparr>integrity_tag = t, integrity_value = blit EMPTY_DIGEST_BUF 0 src\<rparr>"
        using assms n sz m res Inr src(2,3) dest digest_len_le [of t] by (simp add: parse Let_def blit_zero)
      ultimately show ?thesis using src dest by auto
    qed
  qed
qed

lemma integrity_parse_text:
  assumes t: "is_supported t" and src: "length src \<le> digest_len t"
    and buf: "buf = tag_name t @ CHR ''-'' # std_text None src @ replicate k (CHR ''='')"
    and len: "7 \<le> length buf" and ne: "std_text None src @ replicate k (CHR ''='') \<noteq> []"
  shows "integrity_parse buf = Some \<lparr>integrity_tag = t, integrity_value = blit EMPTY_DIGEST_BUF 0 src\<rparr>"
proof -
  let ?dest = "take (digest_len t) EMPTY_DIGEST_BUF"
  have dest: "length ?dest = digest_len t" using digest_len_le [of t] by simp
  have p: "sri_tag_parse buf = (t, length (tag_name t) + 1)" unfolding buf using t ne by (rule tag_parse_named)
  have d: "drop (length (tag_name t) + 1) buf = std_text None src @ replicate k (CHR ''='')" by (simp add: buf)
  have t0: "t \<noteq> Tag_UNKNOWN" "digest_len t \<noteq> 0"
    using t by (cases rule: supported_cases, simp_all add: digest_len_def len_defs tag_defs)+
  have "base64_decode (std_decoder None) ?dest (std_text None src) = Some (Inr (blit ?dest 0 src))"
    using decode_text [of None src ?dest] src dest by simp
  then show ?thesis
    using len p t0 src calc_size_text [of None src] digest_len_le [of t] trim_pad [OF text_no_pad [of src]]
    by (simp add: integrity_parse_def NO_PAD_eq(1) Let_def d [simplified] blit_zero)
qed

text \<open>
  C17. Parsing an integrity value from any text returns, without a panic and without a write outside
  the digest, a value of the type the rest of the package manager relies on: a tag from unknown to
  SHA-512 and a buffer of 64 bytes that is zero behind the digest of the tag.
\<close>

theorem integrity_parse_typed: "\<exists>i. integrity_parse buf = Some i \<and> integrity_wf i"
proof -
  have default: "integrity_wf integrity_default"
    using integrity_wf_blit [of Tag_UNKNOWN "[]"] by (simp add: integrity_default_def tag_defs)
  obtain t offset where p: "sri_tag_parse buf = (t, offset)" by force
  show ?thesis
  proof (cases "length buf < 7 \<or> t = Tag_UNKNOWN")
    case True
    then show ?thesis using default p by (auto simp: integrity_parse_def)
  next
    case False
    then have "t \<le> Tag_SHA512" using tag_parse_split(1) [OF p] by (simp add: is_supported_def)
    then show ?thesis using integrity_parse_tagged [OF p] False default integrity_wf_blit by fastforce
  qed
qed

text \<open>
  C14. The texts that parse to a digest are exactly these: the name of a hash function, a dash, the
  canonical unpadded base64 of at most as many bytes as the digest has, and any number of padding
  characters, with something behind the dash and seven characters or more in all.  The digest is
  those bytes followed by zeros, so a shorter text is accepted.
\<close>

theorem integrity_parse_iff:
  "(integrity_parse buf = Some i \<and> integrity_tag i \<noteq> Tag_UNKNOWN) =
   (\<exists>src k t txt. encoded NO_PAD_encoder src = Some txt \<and> is_supported t \<and>
      buf = tag_name t @ ''-'' @ txt @ replicate k (CHR ''='') \<and> 7 \<le> length buf \<and>
      txt @ replicate k (CHR ''='') \<noteq> [] \<and> length src \<le> digest_len t \<and>
      i = \<lparr>integrity_tag = t, integrity_value = blit EMPTY_DIGEST_BUF 0 src\<rparr>)" (is "?L = ?R")
proof
  assume L: ?L
  obtain t offset where p: "sri_tag_parse buf = (t, offset)" by force
  have "7 \<le> length buf" "t \<noteq> Tag_UNKNOWN"
    using L p by (auto simp: integrity_parse_def integrity_default_def split: if_splits)
  with integrity_parse_tagged [OF p] L tag_parse_split [OF p]
  show ?R by (fastforce simp: integrity_default_def NO_PAD_eq encoded_eq std_text_def)
next
  assume ?R
  then show ?L
    using integrity_parse_text [OF _ _ refl]
    by (auto simp: NO_PAD_eq encoded_eq std_text_def is_supported_def tag_defs)
qed

section \<open>Printing\<close>

lemma integrity_fmt_text:
  assumes "is_supported (integrity_tag i)"
  obtains k where "0 < k"
    and "integrity_fmt i =
      Some (tag_name (integrity_tag i) @ CHR ''-'' # std_text None (integrity_slice i) @ replicate k (CHR ''=''))"
proof -
  let ?n = "length (integrity_slice i)"
  have "?n \<le> 64" using digest_len_le [of "integrity_tag i"] by (simp add: integrity_slice_def)
  moreover have "6 * encoder_calc_size (std_encoder None) ?n = 8 * ?n + fill ?n"
    using calc_size_no_pad enc_digits_value(2) by simp
  ultimately have "encoder_calc_size (std_encoder None) ?n \<le> 512" using fill_less [of ?n] by linarith
  then have e: "base64_encode (std_encoder None) (replicate 512 (CHR 0x00)) (integrity_slice i) =
      Some (std_text None (integrity_slice i), blit (replicate 512 (CHR 0x00)) 0 (std_text None (integrity_slice i)))"
    using base64_encode_eq [of STANDARD_ALPHABET_CHARS None "integrity_slice i" "replicate 512 (CHR 0x00)"]
    by (simp add: std_text_def)
  show thesis
  proof (rule that)
    show "(0::nat) < (if integrity_tag i = Tag_SHA1 then 1 else 2)" by simp
    show "integrity_fmt i =
      Some (tag_name (integrity_tag i) @ CHR ''-'' # std_text None (integrity_slice i)
        @ replicate (if integrity_tag i = Tag_SHA1 then 1 else 2) (CHR ''=''))"
      using assms e by (auto simp: integrity_fmt_def NO_PAD_eq tag_name_def tag_defs supported_iff Let_def numeral_2_eq_2)
  qed
qed

lemma integrity_slice_length:
  "integrity_wf i \<Longrightarrow> length (integrity_slice i) = digest_len (integrity_tag i)"
  using digest_len_le [of "integrity_tag i"] by (simp add: integrity_wf_def integrity_slice_def)

lemma fmt_parse:
  assumes wf: "integrity_wf i"
  shows "\<exists>s. integrity_fmt i = Some s \<and> integrity_parse s = Some i"
proof (cases "is_supported (integrity_tag i)")
  case False
  then have t: "integrity_tag i = Tag_UNKNOWN" using wf by (auto simp: integrity_wf_def is_supported_def tag_defs)
  then have "i = integrity_default"
    using wf by (simp add: integrity_wf_def integrity_default_def integrity_slice_def digest_len_def tag_defs)
  moreover have "integrity_fmt i = Some []" using False by (auto simp: integrity_fmt_def supported_iff Let_def)
  ultimately show ?thesis by (simp add: integrity_parse_def)
next
  case True
  obtain k where k: "0 < k" "integrity_fmt i =
      Some (tag_name (integrity_tag i) @ CHR ''-'' # std_text None (integrity_slice i) @ replicate k (CHR ''=''))"
    using integrity_fmt_text [OF True] .
  have "6 * length (std_text None (integrity_slice i)) \<ge> 8 * digest_len (integrity_tag i)"
    using enc_digits_value(2) [of "integrity_slice i"] integrity_slice_length [OF wf]
    by (simp add: std_text_def padding_def)
  moreover have "20 \<le> digest_len (integrity_tag i)"
    using True by (cases rule: supported_cases) (simp_all add: digest_len_def len_defs tag_defs)
  ultimately have "7 \<le> length (tag_name (integrity_tag i) @ CHR ''-'' # std_text None (integrity_slice i) @ replicate k (CHR ''=''))"
    by simp
  from integrity_parse_text [OF True _ refl this] k(1) integrity_slice_length [OF wf]
  have "integrity_parse (tag_name (integrity_tag i) @ CHR ''-'' # std_text None (integrity_slice i) @ replicate k (CHR ''=''))
      = Some \<lparr>integrity_tag = integrity_tag i, integrity_value = blit EMPTY_DIGEST_BUF 0 (integrity_slice i)\<rparr>" by simp
  then show ?thesis using k(2) wf by (simp add: integrity_wf_def)
qed

text \<open>
  C18. Printing a value and parsing the text gives the value back, for every well-formed value with
  or without a digest.
\<close>

theorem integrity_roundtrip:
  assumes "integrity_wf i"
  shows "\<exists>s. integrity_fmt i = Some s \<and> integrity_parse s = Some i"
  using assms by (rule fmt_parse)

theorem integrity_roundtrip_witness:
  "\<exists>s. integrity_fmt \<lparr>integrity_tag = Tag_SHA256, integrity_value = blit EMPTY_DIGEST_BUF 0 ''abc''\<rparr> = Some s \<and>
     integrity_parse s = Some \<lparr>integrity_tag = Tag_SHA256, integrity_value = blit EMPTY_DIGEST_BUF 0 ''abc''\<rparr>"
  by (rule integrity_roundtrip, rule integrity_wf_blit) (simp_all add: tag_defs digest_len_def len_defs)

section \<open>Hexadecimal sums\<close>

fun hex_text :: "bytes \<Rightarrow> bytes" where
  "hex_text [] = []"
| "hex_text (c # cs) = LOWER_HEX_TABLE ! (code c div 16) # LOWER_HEX_TABLE ! (code c mod 16) # hex_text cs"

lemma length_hex_text [simp]: "length (hex_text cs) = 2 * length cs"
  by (induction cs) simp_all

lemma sha_sum_loop_hex:
  "i + length cs \<le> length v \<Longrightarrow> sha_sum_loop (hex_text cs) v i = Inr (blit v i cs)"
proof (induction cs arbitrary: v i)
  case (Cons c cs)
  then show ?case by (simp add: hex_pair_lower blit_put)
qed simp

lemma sha_sum_loop_length: "sha_sum_loop s v i = Inr w \<Longrightarrow> length w = length v"
  by (induction s v i rule: sha_sum_loop.induct) (auto split: option.splits)

text \<open>The hexadecimal sum of old manifests is read back; of a longer text the first 40 digits count.\<close>

lemma parse_sha_sum_hex:
  assumes "length cs = 20"
  shows "parse_sha_sum (hex_text cs @ rest) =
    Inr \<lparr>integrity_tag = Tag_SHA1, integrity_value = blit EMPTY_DIGEST_BUF 0 cs\<rparr>"
proof -
  have "hex_text cs \<noteq> []" using assms by (cases cs) auto
  then show ?thesis
    using assms sha_sum_loop_hex [of 0 cs EMPTY_DIGEST_BUF] by (simp add: parse_sha_sum_def Let_def)
qed

section \<open>Verification\<close>

text \<open>
  What BoringSSL documents: a digest has the size of its function, and feeding a context piecewise
  and finishing it gives the digest of the pieces together.
\<close>

definition evp_md_size :: "evp_md \<Rightarrow> nat" where
  "evp_md_size md = (case md of EVP_sha1 \<Rightarrow> 20 | EVP_sha256 \<Rightarrow> 32 | EVP_sha384 \<Rightarrow> 48 | EVP_sha512 \<Rightarrow> 64)"

definition evp_laws :: "'c evp \<Rightarrow> bool" where
  "evp_laws E \<longleftrightarrow>
     (\<forall>md bs. length (EVP_Digest E md bs) = evp_md_size md) \<and>
     (\<forall>md chunks. fst (EVP_DigestFinal E (foldl (EVP_DigestUpdate E) (EVP_DigestInit E md) chunks))
        = EVP_Digest E md (concat chunks))"

definition tag_md :: "sri_tag \<Rightarrow> evp_md" where
  "tag_md t = (if t = Tag_SHA1 then EVP_sha1 else if t = Tag_SHA256 then EVP_sha256
     else if t = Tag_SHA384 then EVP_sha384 else EVP_sha512)"

lemma evp_md_size_tag: "is_supported t \<Longrightarrow> evp_md_size (tag_md t) = digest_len t"
  by (cases rule: supported_cases) (auto simp: tag_md_def evp_md_size_def digest_len_def len_defs tag_defs)

lemma integrity_verify_eq:
  assumes "is_supported (integrity_tag i)" and "length (integrity_value i) = DIGEST_BUF_LEN"
  shows "integrity_verify E i bs = Some (EVP_Digest E (tag_md (integrity_tag i)) bs = integrity_slice i)"
  using assms(1) by (cases rule: supported_cases)
    (use assms(2) in \<open>simp_all add: integrity_verify_def verify_by_tag_def verify_with_def eql_long_checked
       integrity_slice_def digest_len_def len_defs tag_md_def tag_defs\<close>)

text \<open>The hasher of a tag, and the contexts it goes through.\<close>

definition hasher_of :: "sri_tag \<Rightarrow> 'c \<Rightarrow> 'c hasher" where
  "hasher_of t = (if t = Tag_SHA1 then Sha1 else if t = Tag_SHA256 then Sha256
     else if t = Tag_SHA384 then Sha384 else Sha512)"

lemma streaming_init_eq:
  assumes "is_supported (integrity_tag i)"
  shows "streaming_init E i c =
    \<lparr>st_expected = i, st_hasher = hasher_of (integrity_tag i) (EVP_DigestInit E (tag_md (integrity_tag i)))\<rparr>"
  using assms by (cases rule: supported_cases) (simp_all add: streaming_init_def hasher_of_def tag_md_def tag_defs)

lemma streaming_update_eq:
  "streaming_update E \<lparr>st_expected = i, st_hasher = hasher_of t h\<rparr> bs =
    \<lparr>st_expected = i, st_hasher = hasher_of t (foldl (EVP_DigestUpdate E) h (filter (\<lambda>b. b \<noteq> []) [bs]))\<rparr>"
  by (simp add: streaming_update_def hasher_of_def)

lemma streaming_updates:
  "foldl (streaming_update E) \<lparr>st_expected = i, st_hasher = hasher_of t h\<rparr> chunks =
    \<lparr>st_expected = i, st_hasher = hasher_of t (foldl (EVP_DigestUpdate E) h (filter (\<lambda>b. b \<noteq> []) chunks))\<rparr>"
proof (induction chunks arbitrary: h)
  case (Cons bs chunks)
  then show ?case by (cases "bs = []") (simp_all add: streaming_update_eq)
qed simp

lemma concat_filter: "concat (filter (\<lambda>b. b \<noteq> []) xs) = concat xs"
  by (induction xs) auto

lemma streaming_final_eq:
  assumes "evp_laws E" and "is_supported t"
  shows "fst (streaming_final E \<lparr>st_expected = i,
      st_hasher = hasher_of t (foldl (EVP_DigestUpdate E) (EVP_DigestInit E md) (filter (\<lambda>b. b \<noteq> []) chunks))\<rparr>) =
    \<lparr>integrity_tag = t, integrity_value = blit EMPTY_DIGEST_BUF 0 (EVP_Digest E md (concat chunks))\<rparr>"
proof -
  let ?h = "foldl (EVP_DigestUpdate E) (EVP_DigestInit E md) (filter (\<lambda>b. b \<noteq> []) chunks)"
  have "fst (EVP_DigestFinal E ?h) = EVP_Digest E md (concat chunks)"
    using assms(1) concat_filter [of chunks] unfolding evp_laws_def by metis
  then have fin: "fst (final_value E ?h t) =
      \<lparr>integrity_tag = t, integrity_value = blit EMPTY_DIGEST_BUF 0 (EVP_Digest E md (concat chunks))\<rparr>"
    by (simp add: final_value_def case_prod_beta)
  show ?thesis
    using assms(2) by (cases rule: supported_cases)
      (use fin in \<open>simp_all add: streaming_final_def hasher_of_def tag_defs\<close>)
qed

lemma streaming_final_expected: "st_expected (snd (streaming_final E s)) = st_expected s"
  by (simp add: streaming_final_def final_value_def split: hasher.splits prod.splits)

lemma blit_digest: "length d = 64 \<Longrightarrow> blit EMPTY_DIGEST_BUF 0 d = d"
  by (simp add: blit_def EMPTY_DIGEST_BUF_def)

lemma take_blit_digest: "length d = n \<Longrightarrow> take n (blit buf 0 d) = d"
  by (simp add: blit_def)

text \<open>
  C8. For a supported tag, a tarball that arrives in pieces is accepted by \<open>Streaming::verify\<close> exactly
  when the one-shot \<open>Integrity::verify\<close> accepts the whole, however it was cut and also with empty
  pieces: this is equality of the digests.  Without a supported tag the stream accepts everything, where the one-shot
  check refuses everything.
\<close>

theorem streaming_verify_one_shot:
  assumes "evp_laws E" and "length (integrity_value expected) = DIGEST_BUF_LEN"
  shows "map_option fst (streaming_verify E (foldl (streaming_update E) (streaming_init E expected c) chunks)) =
      (if is_supported (integrity_tag expected) then integrity_verify E expected (concat chunks) else Some True)"
proof (cases "is_supported (integrity_tag expected)")
  case False
  have "st_expected (foldl (streaming_update E) s chunks) = st_expected s" for s
    by (induction chunks arbitrary: s) (simp_all add: streaming_update_def)
  then have "st_expected (foldl (streaming_update E) (streaming_init E expected c) chunks) = expected"
    by (simp add: streaming_init_def Let_def)
  then show ?thesis using False by (simp add: streaming_verify_def)
next
  case True
  let ?t = "integrity_tag expected"
  define s where "s = foldl (streaming_update E) (streaming_init E expected c) chunks"
  let ?d = "EVP_Digest E (tag_md ?t) (concat chunks)"
  have s: "s = \<lparr>st_expected = expected, st_hasher = hasher_of ?t
      (foldl (EVP_DigestUpdate E) (EVP_DigestInit E (tag_md ?t)) (filter (\<lambda>b. b \<noteq> []) chunks))\<rparr>"
    unfolding s_def streaming_init_eq [OF True] by (rule streaming_updates)
  have len: "length ?d = digest_len ?t" using assms(1) evp_md_size_tag [OF True] by (simp add: evp_laws_def)
  obtain s' where final: "streaming_final E s = (\<lparr>integrity_tag = ?t, integrity_value = blit EMPTY_DIGEST_BUF 0 ?d\<rparr>, s')"
    using streaming_final_eq [OF assms(1) True] s by (metis prod.collapse)
  then have "st_expected s' = expected" using streaming_final_expected [of E s] s by simp
  then show ?thesis
    using True final len assms(2) digest_len_le [of ?t] s
    by (simp add: streaming_verify_def integrity_verify_eq eql_long_checked take_blit_digest
        integrity_slice_def option.map_comp comp_def flip: s_def)
qed

text \<open>
  C7. The way of a hash through the lockfile: the SHA-512 of a downloaded tarball is printed; the
  text parses, without loss, to a value that accepts a later download exactly when the two have the
  same SHA-512.
\<close>

theorem lockfile_verifies_download:
  assumes "evp_laws E"
  shows "\<exists>s i. integrity_fmt (for_bytes E bs) = Some s \<and> integrity_parse s = Some i \<and>
     integrity_verify E i bs' = Some (EVP_Digest E EVP_sha512 bs' = EVP_Digest E EVP_sha512 bs)"
proof -
  have len: "length (EVP_Digest E EVP_sha512 bs) = 64" using assms by (simp add: evp_laws_def evp_md_size_def)
  have t: "Tag_SHA512 \<noteq> Tag_SHA1" "Tag_SHA512 \<noteq> Tag_SHA256" "Tag_SHA512 \<noteq> Tag_SHA384" "is_supported Tag_SHA512"
    "digest_len Tag_SHA512 = 64" by (simp_all add: tag_defs is_supported_def digest_len_def len_defs)
  have "integrity_wf (for_bytes E bs)"
    unfolding for_bytes_def using len t(5) by (intro integrity_wf_blit) simp_all
  then obtain s where "integrity_fmt (for_bytes E bs) = Some s" "integrity_parse s = Some (for_bytes E bs)"
    using fmt_parse by blast
  moreover have "integrity_slice (for_bytes E bs) = EVP_Digest E EVP_sha512 bs"
    using len t(5) by (simp add: for_bytes_def integrity_slice_def blit_digest)
  then have "integrity_verify E (for_bytes E bs) bs' = Some (EVP_Digest E EVP_sha512 bs' = EVP_Digest E EVP_sha512 bs)"
    using integrity_verify_eq [of "for_bytes E bs" E bs'] t len by (simp add: for_bytes_def tag_md_def)
  ultimately show ?thesis by blast
qed

section \<open>Examples\<close>

text \<open>A hash that satisfies the laws: the front of the data, filled with zeros.\<close>

definition front :: "evp_md \<Rightarrow> bytes \<Rightarrow> bytes" where
  "front md bs = take (evp_md_size md) (bs @ replicate (evp_md_size md) (CHR 0x00))"

definition front_evp :: "(evp_md \<times> bytes) evp" where
  "front_evp = \<lparr>EVP_Digest = front, EVP_DigestInit = (\<lambda>md. (md, [])),
     EVP_DigestUpdate = (\<lambda>(md, b) bs. (md, b @ bs)), EVP_DigestFinal = (\<lambda>(md, b). (front md b, (md, b)))\<rparr>"

lemma front_evp_laws: "evp_laws front_evp"
proof -
  have "foldl (\<lambda>(md, b) bs. (md, b @ bs)) (md, acc) chunks = (md, acc @ concat chunks)"
    for md :: evp_md and acc :: bytes and chunks by (induction chunks arbitrary: acc) simp_all
  then show ?thesis by (auto simp: evp_laws_def front_evp_def front_def min_def)
qed

theorem streaming_verify_one_shot_witness:
  "map_option fst (streaming_verify front_evp (foldl (streaming_update front_evp)
     (streaming_init front_evp (for_bytes front_evp ''tarball'') False) [''tar'', [], ''ball''])) = Some True"
proof -
  let ?i = "for_bytes front_evp ''tarball''"
  have d: "length (EVP_Digest front_evp EVP_sha512 ''tarball'') = 64"
    using front_evp_laws by (simp add: evp_laws_def evp_md_size_def)
  then have v: "length (integrity_value ?i) = DIGEST_BUF_LEN" "is_supported (integrity_tag ?i)"
    by (simp_all add: for_bytes_def is_supported_def tag_defs)
  have "integrity_slice ?i = EVP_Digest front_evp EVP_sha512 ''tarball''" "tag_md (integrity_tag ?i) = EVP_sha512"
    using d by (simp_all add: for_bytes_def integrity_slice_def digest_len_def len_defs tag_defs blit_digest tag_md_def)
  then have "integrity_verify front_evp ?i (concat [''tar'', [], ''ball'']) = Some True"
    using integrity_verify_eq [OF v(2,1), of front_evp "''tarball''"] by simp
  then show ?thesis
    using streaming_verify_one_shot [OF front_evp_laws v(1), of False "[''tar'', [], ''ball'']"] v(2) by simp
qed

theorem lockfile_verifies_download_witness:
  "\<exists>s i. integrity_fmt (for_bytes front_evp ''a'') = Some s \<and> integrity_parse s = Some i \<and>
     integrity_verify front_evp i ''b'' = Some False"
proof -
  have "EVP_Digest front_evp EVP_sha512 ''b'' \<noteq> EVP_Digest front_evp EVP_sha512 ''a''"
    by (simp add: front_evp_def front_def evp_md_size_def)
  then show ?thesis using lockfile_verifies_download [OF front_evp_laws, of "''a''" "''b''"] by simp
qed

end
