(* ===== verification/Spec2Isabelle.thy ===== *)
theory Spec2Isabelle
  imports Query_Parse Version_Text Version_Copy Wyhash_Variants Bit_Auto Npm_Age Npm_Sort Glob_Detect
    Fifo_Pump Vlq Integrity_Check
begin

text \<open>
  A verification of the version and range machinery of Bun, a JavaScript runtime and package
  manager written in Rust, of the integrity checks of what it downloads, and of the containers,
  codecs and hashes it stands on.

  \<^bold>\<open>The program.\<close>  The package manager reads version and range strings from manifests and
  lockfiles (\<open>src/src/semver\<close>), stores all strings of a lockfile in one buffer through 8-byte
  handles that are deduplicated by a hash (\<open>src/src/wyhash\<close>), and picks versions by comparing
  them and by evaluating ranges.  A range expression is a chain of alternatives, each a chain of
  ranges, each one or two comparators; the parser extends the chains through raw tail pointers
  and records in a bit set (\<open>src/src/collections/bit_set.rs\<close>) whether a pre-release or build
  metadata occurred.  The manifest of a package (\<open>src/src/install/npm.rs\<close>) lists its versions in two
  sorted lists, and the version to install is chosen from it by range, exact version or dist tag,
  optionally only among versions that were published long enough ago.  File and workspace patterns
  are matched against paths by the glob matcher (\<open>src/src/glob\<close>), which keeps a bounded stack of
  open braces and backtracks to the last wildcard.  A downloaded package is compared with the hash
  of the lockfile (\<open>src/src/install/integrity.rs\<close>), in one piece or while it streams in; the hash is
  written in base64 (\<open>src/src/base64\<close>), which source maps use too for their numbers.  Queues and
  streams of the runtime are ring buffers (\<open>src/src/collections/linear_fifo.rs\<close>) in storage of fixed
  or growing size.

  \<^bold>\<open>The theories.\<close>
  \<^item> \<open>Prelude\<close>: machine-integer abbreviations, slices (an address and its bytes) with the bounds
    checks of Rust indexing, three-way comparisons as a locale, shared list lemmas.
  \<^item> \<open>Byte_Strings\<close>: the helpers of \<open>bun_core\<close> and \<open>bun_alloc\<close> that the rest calls: trimming,
    splitting, ordering, integer parsing; printing and parsing a number is a round trip.
  \<^item> \<open>Wyhash\<close>: \<open>Wyhash11\<close> and \<open>Wyhash\<close>, streaming and one-shot, with the arithmetic on 64-bit
    words; the locale \<open>streaming_hash\<close> proves once that chunking does not matter.
    \<open>Wyhash_Variants\<close>: the compile-time and the case-insensitive hash equal the run-time one, and
    the integer hashes are permutations.
  \<^item> \<open>Semver_String\<close>: string handles, the deduplicating buffer \<open>Buf\<close> and the two-phase \<open>Builder\<close>.
  \<^item> \<open>Semver_Version\<close>: versions, tags, the version parser and printers (\<open>Version.rs\<close>);
    \<open>Version_Order\<close>: the comparison refines the precedence of semver.org, for pre-releases without
    underscores and with numeric identifiers below 2^64, and is a total preorder on all versions;
    \<open>Version_Parse\<close>: the parser never panics and inverts the printer;
    \<open>Version_Text\<close>: which part of a version text is pinned; \<open>Version_Copy\<close>: moving versions to a
    new buffer by count and append, and cloning tags into a slice.
  \<^item> \<open>Semver_Range\<close>, \<open>Semver_Query\<close>: comparators, ranges, chains, tokens and the range parser
    (\<open>SemverRange.rs\<close>, \<open>SemverQuery.rs\<close>);
    \<open>Query_Semantics\<close>: a group is a disjunctive normal form (the locale \<open>clause_store\<close> is the
    contract of its two join operations); \<open>Query_Ranges\<close>: what each operator accepts;
    \<open>Query_Parse\<close>: the range parser is total and reads the range syntax as \<open>node-semver\<close> does, but for
    an exact version behind a mere space, which the code takes for an alternative.
  \<^item> \<open>Bit_Set\<close>: the single-word bit set; \<open>Bit_Array\<close>: the operations on arrays of words, range
    writes included; \<open>Bit_Iterator\<close>: the iterator over words; \<open>Bit_Sets\<close>: the array and the dynamic
    bit set with its allocation header, and the locale \<open>bounded_set\<close>, the contract of single-bit and
    range updates, interpreted for integer, array, dynamic and automatic sets;
    \<open>Bit_Dynamic\<close>: resizing, set algebra, queries and iteration of dynamic sets read as sets of
    indices; \<open>Bit_Auto\<close>: the automatic set and the list of sets in one buffer.
  \<^item> \<open>Npm_Manifest\<close>: manifests and the choice of a version (\<open>npm.rs\<close>); \<open>Npm_Select\<close>: the choice is
    offered, accepted and the highest; \<open>Npm_Age\<close>: the choice under a minimum release age;
    \<open>Npm_Sort\<close>: the sorting after parsing, which the choice of the highest version rests on.  Times
    are \<open>f64\<close> milliseconds in the code and reals here; the start time of the process is a parameter;
    the stable \<open>sort_by\<close> of the standard library is a stable insertion sort.  The indices that are
    sorted have the width the code computes, and the cast to it keeps the low bits; the assertion on the
    sorted list is checked if a flag for debug builds is set.  That the hashes of build metadata do not
    collide and, in debug builds, that no two versions compare equal are hypotheses of the sorting theorem.
  \<^item> \<open>Wtf8\<close>: code points of WTF-8 text; decoding inverts encoding.  \<open>Glob_Match\<close>: the matcher
    (\<open>matcher.rs\<close>, \<open>lib.rs\<close>) with its state, wildcards, character classes, braces and budget;
    \<open>Glob_Term\<close>: the matcher returns on every pattern and path; \<open>Glob_Tokens\<close>: patterns as tokens and a
    matcher by recursion on them; \<open>Glob_Spec\<close>: the meaning \<open>glob_means\<close> of a pattern, and that the
    backtracking matcher computes it on ASCII patterns without classes and braces (not behind an
    exclamation mark and \<open>**\<close>, and not for \<open>**/*\<close> on a path with an empty last segment); \<open>Glob_Detect\<close>: where
    \<open>detect_glob_syntax\<close> and negated globstars differ from what their comments say.  The \<open>u32\<close> indices
    are naturals (inputs below 4 GiB), brace depths are words, the path separator is that of POSIX.
  \<^item> \<open>Loops\<close>: the locale \<open>guarded_loop\<close>, the contract of a loop whose rounds decrease a measure, for
    the matcher and for the loops of the ring buffer.
  \<^item> \<open>Linear_Fifo\<close>: the ring buffer with its three storages; \<open>Fifo_Spec\<close>: its contents as a list;
    \<open>Fifo_Ops\<close>: what every operation does to that list; \<open>Fifo_Queue\<close>: sequences of operations refine a
    queue (the locale \<open>simulation\<close>), and where the buffer fails; \<open>Fifo_Pump\<close>: pumping between a reader
    and a writer (the locale \<open>pump_streams\<close> states what they promise) ends and loses nothing if the
    writer has room, and never ends if it is full.
  \<^item> \<open>Base64\<close>: encoder and decoders; \<open>Base64_Spec\<close>: their loops as arithmetic in base 64 and 256;
    \<open>Base64_Codec\<close>: the strict decoder stays inside its destination and accepts exactly the encodings
    (the locale \<open>base64_alphabet\<close> is what an alphabet has to satisfy); \<open>Vlq\<close>: the numbers of source
    maps are read back.
  \<^item> \<open>Byte_Equal\<close>: comparison of byte strings by machine words is equality, and reads nothing else;
    hexadecimal digits.  \<open>Integrity\<close>: integrity values, their text and the hashers of a download;
    \<open>Integrity_Check\<close>: which texts parse, that printing is inverted, and that a stream is verified as
    the whole is.  The laws of the hash functions of BoringSSL (the size of a digest, and that hashing
    piecewise is hashing the whole) are the hypothesis \<open>evp_laws\<close>.

  \<^bold>\<open>Conventions.\<close>  A panic of the source (slice out of range, failed integer cast,
  \<open>unreachable!\<close>, \<open>unwrap\<close> of nothing) is the value \<open>None\<close>; the totality theorems show it does not
  occur.  Unsigned integers are words of their width.  A \<open>&[u8]\<close> whose address matters is a
  \<open>slice\<close>; other byte slices are lists.  A raw pointer into a chain is the position of the node
  it points to, and following it past the end is \<open>None\<close>.  Loops are total functions with a
  termination proof and no fuel is used; the main loop of the glob matcher and the loops of the ring
  buffer that move its contents or pump are partial functions, and that they return is a theorem.  The BStr printer of a third-party crate is a parameter of
  the printers, with the hypothesis that it prints ASCII unchanged.  The allocator of the dynamic
  bit sets is a parameter too: whether a request succeeds and what new words hold; the theorems
  hold for all of them.  In the ring buffer sizes are naturals, the contents of new storage and the
  size of an item are parameters, and the panics of the debug build (assertions, subtraction below
  zero) are \<open>None\<close>; in base64 the 16-bit accumulators are naturals with the wrap-around of the
  shifts written out, and a write outside the destination is \<open>None\<close>.

  \<^bold>\<open>Not modelled.\<close>  The JavaScript engine bindings, the parsers, bundler, servers and system
  layers of the repository are outside this development; so are the debug assertions outside the
  ring buffer and the sorting of manifests, the base64 functions that call the simdutf library, the release of memory (\<open>Drop\<close>)
  and, outside the bit sets, allocation failure.
\<close>

end
